(* ===== verification/Libcap_Prelude.thy ===== *)
theory Libcap_Prelude
  imports Main "HOL-Library.Word" "HOL-Library.Monad_Syntax"
begin

text \<open>
  Shared vocabulary of the development: the machine words and error numbers the C code uses,
  the part of the C library that the sources call on strings and characters
  (\<^verbatim>\<open>ctype.h\<close>, \<^verbatim>\<open>strtoul\<close>, the \<^verbatim>\<open>%u\<close> conversion), the
  bit-level lemmas about \<^verbatim>\<open>1u << (x & 31)\<close> masks, and the option-monad lemmas on
  which the execution rules of the components rest.

  A C string is a \<^typ>\<open>string\<close> without the terminating NUL; \<open>deref s\<close> is
  the character a \<^verbatim>\<open>char *\<close> points at (NUL at the end of the list).  A routine
  that may fail to return (it spins on a mutex that nobody releases, or it is undefined in C) has
  an \<open>option\<close> result with \<^const>\<open>None\<close> for that case.
\<close>

unbundle bit_operations_syntax

named_theorems libcap_exec \<open>execution rules of the library calls on well-formed arguments\<close>
named_theorems libcap_bits \<open>bit-level characterisations\<close>

section \<open>Machine words and error numbers\<close>

type_synonym u8 = "8 word"
type_synonym u32 = "32 word"
type_synonym addr = nat

abbreviation (input) NULL :: addr where "NULL \<equiv> 0"

abbreviation (input) EPERM :: int where "EPERM \<equiv> 1"
abbreviation (input) ECHILD :: int where "ECHILD \<equiv> 10"
abbreviation (input) EAGAIN :: int where "EAGAIN \<equiv> 11"
abbreviation (input) ENOMEM :: int where "ENOMEM \<equiv> 12"
abbreviation (input) EINVAL :: int where "EINVAL \<equiv> 22"
abbreviation (input) ERANGE :: int where "ERANGE \<equiv> 34"
abbreviation (input) ENODATA :: int where "ENODATA \<equiv> 61"
abbreviation (input) EOVERFLOW :: int where "EOVERFLOW \<equiv> 75"
abbreviation (input) ENOTSUP :: int where "ENOTSUP \<equiv> 95"

text \<open>The mask \<^verbatim>\<open>1u << (x & 31)\<close> used all over the library.\<close>

definition mask32 :: "nat \<Rightarrow> u32" where
  "mask32 x = push_bit (x mod 32) 1"

lemma bit_mask32 [libcap_bits]: "bit (mask32 x) n \<longleftrightarrow> n = x mod 32"
proof -
  have "x mod 32 < 32" by simp
  then show ?thesis by (auto simp: mask32_def push_bit_eq_mult bit_simps)
qed

lemma and_mask32_eq_0: "(v AND mask32 x) = 0 \<longleftrightarrow> \<not> bit v (x mod 32)"
proof
  assume z: "v AND mask32 x = 0"
  have "bit (v AND mask32 x) (x mod 32) \<longleftrightarrow> bit v (x mod 32)"
    by (simp add: bit_and_iff bit_mask32)
  with z show "\<not> bit v (x mod 32)" by simp
next
  assume "\<not> bit v (x mod 32)"
  then show "v AND mask32 x = 0"
    by (intro bit_eqI) (auto simp: bit_and_iff bit_mask32)
qed

lemma bit_or_mask32 [libcap_bits]: "bit (v OR mask32 x) n \<longleftrightarrow> bit v n \<or> n = x mod 32"
  by (simp add: bit_or_iff bit_mask32)

lemma bit_clear_mask32 [libcap_bits]:
  "n < 32 \<Longrightarrow> bit (v AND NOT (mask32 x)) n \<longleftrightarrow> bit v n \<and> n \<noteq> x mod 32"
  by (simp add: bit_and_iff bit_not_iff bit_mask32)

lemma word32_eqI:
  fixes v w :: u32
  assumes "\<And>n. n < 32 \<Longrightarrow> bit v n = bit w n"
  shows "v = w"
  by (rule bit_word_eqI) (simp add: assms)

section \<open>Lists and options\<close>

lemma bind_Some_iff: "Option.bind m f = Some r \<longleftrightarrow> (\<exists>x. m = Some x \<and> f x = Some r)"
  by (cases m) auto

lemma all_nat_less_2: "(\<forall>n < (2::nat). P n) \<longleftrightarrow> P 0 \<and> P 1"
  by (auto simp: less_2_cases_iff)

lemma ex_nat_less_2: "(\<exists>n < (2::nat). P n) \<longleftrightarrow> P 0 \<or> P 1"
  by (auto simp: less_2_cases_iff)

lemma all_nat_less_3: "(\<forall>n < (3::nat). P n) \<longleftrightarrow> P 0 \<and> P 1 \<and> P 2"
  using less_Suc_eq by (auto simp: numeral_3_eq_3 numeral_2_eq_2)

lemma length_2_conv: "length xs = 2 \<longleftrightarrow> (\<exists>a b. xs = [a, b])"
  by (auto simp: numeral_2_eq_2 length_Suc_conv)

lemma length_3_conv: "length xs = 3 \<longleftrightarrow> (\<exists>a b c. xs = [a, b, c])"
  by (auto simp: numeral_3_eq_3 length_Suc_conv)

section \<open>Characters and C strings\<close>

abbreviation code :: "char \<Rightarrow> nat" where "code \<equiv> of_char"

definition NUL :: char where "NUL = CHR 0x00"

definition deref :: "string \<Rightarrow> char" where
  "deref s = (case s of [] \<Rightarrow> NUL | c # _ \<Rightarrow> c)"

lemma deref_simps [simp]: "deref [] = NUL" "deref (c # s) = c"
  by (simp_all add: deref_def)

text \<open>A buffer read as a C string.\<close>

definition c_str :: "string \<Rightarrow> string" where
  "c_str s = takeWhile (\<lambda>c. c \<noteq> NUL) s"

text \<open>The classification functions of \<^verbatim>\<open>ctype.h\<close> in the C locale.\<close>

definition isspace :: "char \<Rightarrow> bool" where
  "isspace c \<longleftrightarrow> code c = 32 \<or> (9 \<le> code c \<and> code c \<le> 13)"

definition isdigit :: "char \<Rightarrow> bool" where
  "isdigit c \<longleftrightarrow> 48 \<le> code c \<and> code c \<le> 57"

definition isupper :: "char \<Rightarrow> bool" where
  "isupper c \<longleftrightarrow> 65 \<le> code c \<and> code c \<le> 90"

definition islower :: "char \<Rightarrow> bool" where
  "islower c \<longleftrightarrow> 97 \<le> code c \<and> code c \<le> 122"

definition isalpha :: "char \<Rightarrow> bool" where
  "isalpha c \<longleftrightarrow> isupper c \<or> islower c"

definition isalnum :: "char \<Rightarrow> bool" where
  "isalnum c \<longleftrightarrow> isalpha c \<or> isdigit c"

definition tolower :: "char \<Rightarrow> char" where
  "tolower c = (if isupper c then char_of (code c + 32) else c)"

lemmas ctype_defs = isspace_def isdigit_def isupper_def islower_def isalpha_def isalnum_def

lemma NUL_ctype [simp]:
  "\<not> isspace NUL" "\<not> isdigit NUL" "\<not> isalpha NUL" "\<not> isalnum NUL" "\<not> isupper NUL"
  by (simp_all add: ctype_defs NUL_def)

lemma tolower_id [simp]: "\<not> isupper c \<Longrightarrow> tolower c = c"
  by (simp add: tolower_def)

lemma islower_tolower [simp]: "islower c \<Longrightarrow> tolower c = c"
  by (rule tolower_id) (simp add: islower_def isupper_def)

text \<open>
  \<^verbatim>\<open>strtoul(s, &rest, base)\<close> of the C library: leading white space, an optional sign,
  the prefix that selects the base when it is 0 (or is allowed to be 16), the longest run of
  digits, saturation at \<^verbatim>\<open>ULONG_MAX\<close>.  The value and the rest of the string are
  returned, and whether the conversion overflowed (\<^verbatim>\<open>errno = ERANGE\<close>).
\<close>

definition digit_val :: "char \<Rightarrow> nat" where
  "digit_val c = (if isdigit c then code c - 48
                  else if islower c then code c - 87
                  else if isupper c then code c - 55 else 255)"

definition ULONG_MAX :: nat where "ULONG_MAX = 2 ^ 64 - 1"

definition digits_value :: "nat \<Rightarrow> string \<Rightarrow> nat" where
  "digits_value b ds = foldl (\<lambda>a d. b * a + digit_val d) 0 ds"

definition strtoul_base :: "nat \<Rightarrow> string \<Rightarrow> nat \<times> string" where
  "strtoul_base base s =
     (if (base = 0 \<or> base = 16) \<and> deref s = CHR ''0'' \<and> tolower (deref (tl s)) = CHR ''x''
         \<and> digit_val (deref (drop 2 s)) < 16 then (16, drop 2 s)
      else if base = 0 \<and> deref s = CHR ''0'' then (8, s)
      else if base = 0 then (10, s) else (base, s))"

definition strtoul :: "string \<Rightarrow> nat \<Rightarrow> nat \<times> string \<times> bool" where
  "strtoul s base =
     (let s1 = dropWhile isspace s;
          neg = (deref s1 = CHR ''-'');
          s2 = (if deref s1 = CHR ''-'' \<or> deref s1 = CHR ''+'' then tl s1 else s1);
          (b, s3) = strtoul_base base s2;
          ds = takeWhile (\<lambda>c. digit_val c < b) s3;
          v = digits_value b ds
      in if ds = [] then (0, s, False)
         else if ULONG_MAX < v then (ULONG_MAX, drop (length ds) s3, True)
         else ((if neg \<and> v \<noteq> 0 then 2 ^ 64 - v else v), drop (length ds) s3, False))"

lemma strtoul_length: "length (fst (snd (strtoul s base))) \<le> length s"
proof -
  have d: "length (dropWhile isspace s) \<le> length s"
    by (rule length_dropWhile_le)
  have b: "length (snd (strtoul_base base x)) \<le> length x" for x
    by (simp add: strtoul_base_def)
  show ?thesis
    using d b [of "dropWhile isspace s"] b [of "tl (dropWhile isspace s)"]
    by (auto simp: strtoul_def Let_def split: prod.splits)
qed

text \<open>The \<^verbatim>\<open>%u\<close> conversion of \<^verbatim>\<open>sprintf\<close>.\<close>

fun show_nat :: "nat \<Rightarrow> string" where
  "show_nat n = (if n < 10 then [char_of (48 + n)] else show_nat (n div 10) @ [char_of (48 + n mod 10)])"

declare show_nat.simps [simp del]

lemma isdigit_char_of [simp]: "(d :: nat) < 10 \<Longrightarrow> isdigit (char_of (48 + d))"
  by (simp add: isdigit_def)

lemma digit_val_char_of [simp]: "(d :: nat) < 10 \<Longrightarrow> digit_val (char_of (48 + d)) = d"
  by (simp add: digit_val_def isdigit_def)

lemma show_nat_digits: "c \<in> set (show_nat n) \<Longrightarrow> isdigit c"
proof (induction n rule: show_nat.induct)
  case (1 n)
  then show ?case
    by (subst (asm) (2) show_nat.simps) (auto split: if_splits)
qed

lemma show_nat_nonempty [simp]: "show_nat n \<noteq> []"
  by (subst show_nat.simps) simp

lemma digits_value_append: "digits_value b (xs @ [d]) = b * digits_value b xs + digit_val d"
  by (simp add: digits_value_def)

lemma digits_value_show_nat: "digits_value 10 (show_nat n) = n"
proof (induction n rule: show_nat.induct)
  case (1 n)
  show ?case
  proof (cases "n < 10")
    case True
    then show ?thesis by (subst show_nat.simps) (simp add: digits_value_def)
  next
    case False
    with "1.IH" show ?thesis
      by (subst show_nat.simps) (simp add: digits_value_append)
  qed
qed

lemma show_nat_hd: "0 < n \<Longrightarrow> hd (show_nat n) \<noteq> CHR ''0''"
proof (induction n rule: show_nat.induct)
  case (1 n)
  show ?case
  proof (cases "n < 10")
    case True
    with "1.prems" have "code (char_of (48 + n) :: char) \<noteq> (48 :: nat)" by simp
    then have "(char_of (48 + n) :: char) \<noteq> CHR ''0''" by (auto simp: char_of_def)
    with True show ?thesis by (subst show_nat.simps) simp
  next
    case False
    then have "hd (show_nat (n div 10)) \<noteq> CHR ''0''" using "1.IH" by simp
    with False show ?thesis by (subst show_nat.simps) simp
  qed
qed

text \<open>\<^verbatim>\<open>strtok_r\<close>: the token, and the new value of the saved pointer.\<close>

definition strtok_r :: "string \<Rightarrow> string \<Rightarrow> string option \<times> string" where
  "strtok_r s delim =
     (let s = dropWhile (\<lambda>c. c \<in> set delim) s in
      if s = [] then (None, [])
      else (Some (takeWhile (\<lambda>c. c \<notin> set delim) s), tl (dropWhile (\<lambda>c. c \<notin> set delim) s)))"

lemma strtok_r_shorter: "strtok_r s delim = (Some t, r) \<Longrightarrow> length r < length s"
proof -
  assume "strtok_r s delim = (Some t, r)"
  then have r: "r = tl (dropWhile (\<lambda>c. c \<notin> set delim) (dropWhile (\<lambda>c. c \<in> set delim) s))"
    "dropWhile (\<lambda>c. c \<in> set delim) s \<noteq> []"
    by (auto simp: strtok_r_def Let_def split: if_splits)
  let ?u = "dropWhile (\<lambda>c. c \<notin> set delim) (dropWhile (\<lambda>c. c \<in> set delim) s)"
  have "length ?u \<le> length s" "0 < length s"
    using r(2) le_trans [OF length_dropWhile_le length_dropWhile_le] by (auto simp: length_greater_0_conv [symmetric] simp del: length_greater_0_conv)
  then show ?thesis unfolding r(1) length_tl by linarith
qed

text \<open>All tokens, as a loop over \<^verbatim>\<open>strtok\<close> finds them.\<close>

function strtok_all :: "string \<Rightarrow> string \<Rightarrow> string list" where
  "strtok_all delim s =
     (case strtok_r s delim of
        (None, _) \<Rightarrow> []
      | (Some t, r) \<Rightarrow> t # strtok_all delim r)"
  by pat_completeness auto
termination by (relation "measure (\<lambda>(delim, s). length s)") (auto dest: sym [THEN strtok_r_shorter])

declare strtok_all.simps [simp del]

text \<open>The \<^verbatim>\<open>%lo\<close> and \<^verbatim>\<open>%lx\<close> conversions: digits in a base up to 16.\<close>

definition base_digit :: "nat \<Rightarrow> char" where
  "base_digit d = (if d < 10 then char_of (48 + d) else char_of (87 + d))"

function show_base :: "nat \<Rightarrow> nat \<Rightarrow> string" where
  "show_base b n = (if n < b \<or> b < 2 then [base_digit n] else show_base b (n div b) @ [base_digit (n mod b)])"
  by pat_completeness auto
termination by (relation "measure snd") auto

declare show_base.simps [simp del]

definition zero_pad :: "nat \<Rightarrow> string \<Rightarrow> string" where
  "zero_pad n s = replicate (n - length s) (CHR ''0'') @ s"

end
