(* ===== verification/Libcap_Types.thy ===== *)
theory Libcap_Types
  imports Libcap_Prelude
begin

text \<open>
  The data of \<^verbatim>\<open>libcap/libcap.h\<close>, \<^verbatim>\<open>sys/capability.h\<close> and
  \<^verbatim>\<open>linux/capability.h\<close>: the capability set \<^verbatim>\<open>struct _cap_struct\<close>, the
  tuple \<^verbatim>\<open>struct cap_iab_s\<close> and the launcher \<^verbatim>\<open>struct cap_launch_s\<close> as
  records, the macros that raise, lower and test one capability bit, and the
  \<^verbatim>\<open>_binary_search\<close> macro.  The locale \<open>bit_store\<close> is the contract
  of an indexed family of bit vectors; the capability sets, the IAB tuple and the plain
  \<^verbatim>\<open>__u32[]\<close> arrays of the parsers are its instances.
\<close>

section \<open>Constants\<close>

abbreviation (input) CAP_EFFECTIVE :: nat where "CAP_EFFECTIVE \<equiv> 0"
abbreviation (input) CAP_PERMITTED :: nat where "CAP_PERMITTED \<equiv> Suc 0"
abbreviation (input) CAP_INHERITABLE :: nat where "CAP_INHERITABLE \<equiv> 2"

abbreviation (input) CAP_IAB_INH :: int where "CAP_IAB_INH \<equiv> 2"
abbreviation (input) CAP_IAB_AMB :: int where "CAP_IAB_AMB \<equiv> 3"
abbreviation (input) CAP_IAB_BOUND :: int where "CAP_IAB_BOUND \<equiv> 4"

abbreviation (input) CAP_CLEAR :: int where "CAP_CLEAR \<equiv> 0"
abbreviation (input) CAP_SET :: int where "CAP_SET \<equiv> 1"

definition LINUX_CAPABILITY_VERSION_1 :: u32 where "LINUX_CAPABILITY_VERSION_1 = 0x19980330"
definition LINUX_CAPABILITY_VERSION_2 :: u32 where "LINUX_CAPABILITY_VERSION_2 = 0x20071026"
definition LINUX_CAPABILITY_VERSION_3 :: u32 where "LINUX_CAPABILITY_VERSION_3 = 0x20080522"

lemmas version_defs =
  LINUX_CAPABILITY_VERSION_1_def LINUX_CAPABILITY_VERSION_2_def LINUX_CAPABILITY_VERSION_3_def

text \<open>\<^verbatim>\<open>_LIBCAP_CAPABILITY_U32S\<close>, \<^verbatim>\<open>NUMBER_OF_CAP_SETS\<close>, \<^verbatim>\<open>__CAP_MAXBITS\<close>, \<^verbatim>\<open>CAP_SET_SIZE\<close>.\<close>

abbreviation (input) CAP_BLKS :: nat where "CAP_BLKS \<equiv> 2"
abbreviation (input) NUMBER_OF_CAP_SETS :: nat where "NUMBER_OF_CAP_SETS \<equiv> 3"
abbreviation (input) CAP_MAXBITS :: nat where "CAP_MAXBITS \<equiv> 64"
abbreviation (input) CAP_SET_SIZE :: nat where "CAP_SET_SIZE \<equiv> 8"

abbreviation (input) LIBCAP_EFF :: nat where "LIBCAP_EFF \<equiv> 1"
abbreviation (input) LIBCAP_PER :: nat where "LIBCAP_PER \<equiv> 2"
abbreviation (input) LIBCAP_INH :: nat where "LIBCAP_INH \<equiv> 4"

abbreviation (input) LIBCAP_IAB_I_FLAG :: nat where "LIBCAP_IAB_I_FLAG \<equiv> 4"
abbreviation (input) LIBCAP_IAB_A_FLAG :: nat where "LIBCAP_IAB_A_FLAG \<equiv> 8"
abbreviation (input) LIBCAP_IAB_IA_FLAG :: nat where "LIBCAP_IAB_IA_FLAG \<equiv> 12"
abbreviation (input) LIBCAP_IAB_NB_FLAG :: nat where "LIBCAP_IAB_NB_FLAG \<equiv> 16"

section \<open>The structures\<close>

record cap_header =
  h_version :: u32
  h_pid :: int

text \<open>
  \<open>c_u\<close> is the array \<^verbatim>\<open>u[_LIBCAP_CAPABILITY_U32S]\<close> of unions: each entry is the
  view \<^verbatim>\<open>flat[NUMBER_OF_CAP_SETS]\<close>, whose order effective, permitted, inheritable is
  that of \<^verbatim>\<open>struct __user_cap_data_struct\<close>.
\<close>

record cap_struct =
  c_mutex :: u8
  c_head :: cap_header
  c_u :: "u32 list list"
  c_rootid :: u32

record cap_iab_s =
  i_mutex :: u8
  iab_i :: "u32 list"
  iab_a :: "u32 list"
  iab_nb :: "u32 list"

text \<open>
  A callback is an identifier of a function of the client (0 for NULL); the meaning of the
  identifiers is a parameter of the operations that call back.
\<close>

record cap_launch_s =
  l_mutex :: u8
  l_custom_setup_fn :: nat
  l_change_uids :: int
  l_uid :: u32
  l_change_gids :: int
  l_gid :: u32
  l_ngroups :: int
  l_groups :: "u32 list option"
  l_change_mode :: int
  l_mode :: nat
  l_iab :: addr
  l_chroot :: addr
  l_arg0 :: "string option"
  l_argv :: "string list option"
  l_envp :: "string list option"

definition wf_cap :: "cap_struct \<Rightarrow> bool" where
  "wf_cap c \<longleftrightarrow> length (c_u c) = CAP_BLKS \<and> (\<forall>b \<in> set (c_u c). length b = NUMBER_OF_CAP_SETS)"

definition wf_iab :: "cap_iab_s \<Rightarrow> bool" where
  "wf_iab t \<longleftrightarrow> length (iab_i t) = CAP_BLKS \<and> length (iab_a t) = CAP_BLKS \<and> length (iab_nb t) = CAP_BLKS"

lemma mutex_idle [simp]:
  "c_mutex c = m \<Longrightarrow> c\<lparr>c_mutex := m\<rparr> = c" "i_mutex t = m \<Longrightarrow> t\<lparr>i_mutex := m\<rparr> = t"
  "l_mutex l = m \<Longrightarrow> l\<lparr>l_mutex := m\<rparr> = l"
  by simp_all

section \<open>Bit access\<close>

definition flat :: "cap_struct \<Rightarrow> nat \<Rightarrow> nat \<Rightarrow> u32" where
  "flat c b s = c_u c ! b ! s"

definition set_flat :: "nat \<Rightarrow> nat \<Rightarrow> u32 \<Rightarrow> cap_struct \<Rightarrow> cap_struct" where
  "set_flat b s v c = c\<lparr>c_u := (c_u c)[b := (c_u c ! b)[s := v]]\<rparr>"

definition raise_cap :: "nat \<Rightarrow> nat \<Rightarrow> cap_struct \<Rightarrow> cap_struct" where
  "raise_cap x s c = set_flat (x div 32) s (flat c (x div 32) s OR mask32 x) c"

definition lower_cap :: "nat \<Rightarrow> nat \<Rightarrow> cap_struct \<Rightarrow> cap_struct" where
  "lower_cap x s c = set_flat (x div 32) s (flat c (x div 32) s AND NOT (mask32 x)) c"

definition isset_cap :: "cap_struct \<Rightarrow> nat \<Rightarrow> nat \<Rightarrow> bool" where
  "isset_cap c x s \<longleftrightarrow> flat c (x div 32) s AND mask32 x \<noteq> 0"

text \<open>The same on a plain array of words (\<^verbatim>\<open>raise_cap_mask\<close> and the IAB vectors).\<close>

definition vec_raise :: "nat \<Rightarrow> u32 list \<Rightarrow> u32 list" where
  "vec_raise x v = v[x div 32 := v ! (x div 32) OR mask32 x]"

definition vec_lower :: "nat \<Rightarrow> u32 list \<Rightarrow> u32 list" where
  "vec_lower x v = v[x div 32 := v ! (x div 32) AND NOT (mask32 x)]"

definition vec_isset :: "u32 list \<Rightarrow> nat \<Rightarrow> bool" where
  "vec_isset v x \<longleftrightarrow> v ! (x div 32) AND mask32 x \<noteq> 0"

lemma wf_cap_length [simp]: "wf_cap c \<Longrightarrow> length (c_u c) = 2"
  by (simp add: wf_cap_def)

lemma wf_cap_row [simp]: "wf_cap c \<Longrightarrow> b < 2 \<Longrightarrow> length (c_u c ! b) = 3"
  by (simp add: wf_cap_def)

lemma wf_set_flat [simp]: "wf_cap c \<Longrightarrow> b < 2 \<Longrightarrow> wf_cap (set_flat b s v c)"
  by (auto simp: wf_cap_def set_flat_def dest!: set_update_subset_insert [THEN subsetD])

lemma flat_set_flat [simp]:
  "wf_cap c \<Longrightarrow> b < 2 \<Longrightarrow> s < 3 \<Longrightarrow> b' < 2 \<Longrightarrow> s' < 3 \<Longrightarrow>
     flat (set_flat b s v c) b' s' = (if b = b' \<and> s = s' then v else flat c b' s')"
  by (auto simp: flat_def set_flat_def nth_list_update)

lemma set_flat_fields [simp]:
  "c_mutex (set_flat b s v c) = c_mutex c" "c_head (set_flat b s v c) = c_head c"
  "c_rootid (set_flat b s v c) = c_rootid c"
  by (simp_all add: set_flat_def)

lemma flat_fields [simp]:
  "flat (c\<lparr>c_mutex := m\<rparr>) b s = flat c b s" "flat (c\<lparr>c_head := h\<rparr>) b s = flat c b s"
  "flat (c\<lparr>c_rootid := r\<rparr>) b s = flat c b s"
  "wf_cap (c\<lparr>c_mutex := m\<rparr>) = wf_cap c" "wf_cap (c\<lparr>c_head := h\<rparr>) = wf_cap c"
  "wf_cap (c\<lparr>c_rootid := r\<rparr>) = wf_cap c"
  by (simp_all add: flat_def wf_cap_def)

lemma div32_less_2 [simp]: "(x :: nat) < 64 \<Longrightarrow> x div 32 < 2"
  by simp

lemma div_mod_32_eq: "(x :: nat) div 32 = y div 32 \<Longrightarrow> (x mod 32 = y mod 32) = (x = y)"
  by (metis div_mult_mod_eq)

lemma isset_cap_bit: "isset_cap c x s \<longleftrightarrow> bit (flat c (x div 32) s) (x mod 32)"
  by (simp add: isset_cap_def and_mask32_eq_0)

lemma vec_isset_bit: "vec_isset v x \<longleftrightarrow> bit (v ! (x div 32)) (x mod 32)"
  by (simp add: vec_isset_def and_mask32_eq_0)

lemma isset_mutex [simp]: "isset_cap (c\<lparr>c_mutex := m\<rparr>) x s = isset_cap c x s"
  by (simp add: isset_cap_def)

lemma raise_cap_fields [simp]:
  "c_mutex (raise_cap x s c) = c_mutex c" "c_head (raise_cap x s c) = c_head c"
  "c_rootid (raise_cap x s c) = c_rootid c" "c_mutex (lower_cap x s c) = c_mutex c"
  "c_head (lower_cap x s c) = c_head c" "c_rootid (lower_cap x s c) = c_rootid c"
  by (simp_all add: raise_cap_def lower_cap_def)

lemma set_flat_mutex [simp]: "set_flat b s v (c\<lparr>c_mutex := m\<rparr>) = (set_flat b s v c)\<lparr>c_mutex := m\<rparr>"
  by (cases c) (simp add: set_flat_def)

lemma raise_cap_mutex [simp]:
  "raise_cap x s (c\<lparr>c_mutex := m\<rparr>) = (raise_cap x s c)\<lparr>c_mutex := m\<rparr>"
  "lower_cap x s (c\<lparr>c_mutex := m\<rparr>) = (lower_cap x s c)\<lparr>c_mutex := m\<rparr>"
  by (simp_all add: raise_cap_def lower_cap_def)

lemma wf_raise_cap [simp]: "wf_cap c \<Longrightarrow> x < 64 \<Longrightarrow> wf_cap (raise_cap x s c)"
  by (simp add: raise_cap_def)

lemma wf_lower_cap [simp]: "wf_cap c \<Longrightarrow> x < 64 \<Longrightarrow> wf_cap (lower_cap x s c)"
  by (simp add: lower_cap_def)

lemma isset_raise_cap [simp]:
  assumes "wf_cap c" "x < 64" "s < 3" "y < 64" "t < 3"
  shows "isset_cap (raise_cap x s c) y t \<longleftrightarrow> (s = t \<and> x = y) \<or> isset_cap c y t"
  using assms div_mod_32_eq [of y x]
  by (auto simp: isset_cap_bit raise_cap_def bit_or_mask32)

lemma isset_lower_cap [simp]:
  assumes "wf_cap c" "x < 64" "s < 3" "y < 64" "t < 3"
  shows "isset_cap (lower_cap x s c) y t \<longleftrightarrow> isset_cap c y t \<and> \<not> (s = t \<and> x = y)"
  using assms div_mod_32_eq [of y x]
  by (auto simp: isset_cap_bit lower_cap_def bit_clear_mask32)

lemma length_vec [simp]: "length (vec_raise x v) = length v" "length (vec_lower x v) = length v"
  by (simp_all add: vec_raise_def vec_lower_def)

lemma isset_vec_raise [simp]:
  assumes "length v = 2" "x < 64" "y < 64"
  shows "vec_isset (vec_raise x v) y \<longleftrightarrow> x = y \<or> vec_isset v y"
  using assms div_mod_32_eq [of y x]
  by (auto simp: vec_isset_bit vec_raise_def nth_list_update bit_or_mask32)

lemma isset_vec_lower [simp]:
  assumes "length v = 2" "x < 64" "y < 64"
  shows "vec_isset (vec_lower x v) y \<longleftrightarrow> vec_isset v y \<and> x \<noteq> y"
  using assms div_mod_32_eq [of y x]
  by (auto simp: vec_isset_bit vec_lower_def nth_list_update bit_clear_mask32)

text \<open>A well-formed set is determined by its bits.\<close>

lemma flat_eqI:
  assumes "wf_cap c" "wf_cap d" "\<And>b s. b < 2 \<Longrightarrow> s < 3 \<Longrightarrow> flat c b s = flat d b s"
  shows "c_u c = c_u d"
  using assms by (intro nth_equalityI) (auto simp: flat_def intro!: nth_equalityI)

lemma flat_bit_eq: "b < 2 \<Longrightarrow> n < 32 \<Longrightarrow> bit (flat c b s) n = isset_cap c (32 * b + n) s"
  by (simp add: isset_cap_bit)

lemma cap_u_eqI:
  assumes "wf_cap c" "wf_cap d" "\<And>x s. x < 64 \<Longrightarrow> s < 3 \<Longrightarrow> isset_cap c x s = isset_cap d x s"
  shows "c_u c = c_u d"
proof (rule flat_eqI [OF assms(1,2)])
  fix b s :: nat
  assume b: "b < 2" and s: "s < 3"
  show "flat c b s = flat d b s"
  proof (rule word32_eqI)
    fix n :: nat
    assume n: "n < 32"
    with b have "32 * b + n < 64" by auto
    with s assms(3) b n show "bit (flat c b s) n = bit (flat d b s) n"
      by (simp add: flat_bit_eq)
  qed
qed

lemma vec_eqI:
  assumes "length v = 2" "length w = 2" "\<And>x. x < 64 \<Longrightarrow> vec_isset v x = vec_isset w x"
  shows "v = w"
proof (rule nth_equalityI)
  show "length v = length w" using assms by simp
  fix b
  assume "b < length v"
  with assms have b: "b < 2" by simp
  show "v ! b = w ! b"
  proof (rule word32_eqI)
    fix n :: nat
    assume n: "n < 32"
    with b have "32 * b + n < 64" by auto
    from assms(3) [OF this] n show "bit (v ! b) n = bit (w ! b) n"
      by (simp add: vec_isset_bit)
  qed
qed

section \<open>The contract of an indexed bit vector\<close>

text \<open>
  What the clients of the bit macros rely on: raising or lowering one bit changes that bit of
  that vector and nothing else, and keeps the representation well formed.
\<close>

locale bit_store =
  fixes invar :: "'s \<Rightarrow> bool"
    and idx :: "'i \<Rightarrow> bool"
    and test :: "'s \<Rightarrow> 'i \<Rightarrow> nat \<Rightarrow> bool"
    and up :: "'i \<Rightarrow> nat \<Rightarrow> 's \<Rightarrow> 's"
    and down :: "'i \<Rightarrow> nat \<Rightarrow> 's \<Rightarrow> 's"
  assumes invar_up: "invar s \<Longrightarrow> idx i \<Longrightarrow> x < 64 \<Longrightarrow> invar (up i x s)"
    and invar_down: "invar s \<Longrightarrow> idx i \<Longrightarrow> x < 64 \<Longrightarrow> invar (down i x s)"
    and test_up: "invar s \<Longrightarrow> idx i \<Longrightarrow> idx j \<Longrightarrow> x < 64 \<Longrightarrow> y < 64 \<Longrightarrow>
       test (up i x s) j y \<longleftrightarrow> (i = j \<and> x = y) \<or> test s j y"
    and test_down: "invar s \<Longrightarrow> idx i \<Longrightarrow> idx j \<Longrightarrow> x < 64 \<Longrightarrow> y < 64 \<Longrightarrow>
       test (down i x s) j y \<longleftrightarrow> test s j y \<and> \<not> (i = j \<and> x = y)"
begin

lemma invar_fold_up: "invar s \<Longrightarrow> idx i \<Longrightarrow> \<forall>x \<in> set xs. x < 64 \<Longrightarrow> invar (fold (up i) xs s)"
  by (induction xs arbitrary: s) (auto simp: invar_up)

lemma invar_fold_down: "invar s \<Longrightarrow> idx i \<Longrightarrow> \<forall>x \<in> set xs. x < 64 \<Longrightarrow> invar (fold (down i) xs s)"
  by (induction xs arbitrary: s) (auto simp: invar_down)

lemma test_fold_up:
  "invar s \<Longrightarrow> idx i \<Longrightarrow> idx j \<Longrightarrow> \<forall>x \<in> set xs. x < 64 \<Longrightarrow> y < 64 \<Longrightarrow>
     test (fold (up i) xs s) j y \<longleftrightarrow> (i = j \<and> y \<in> set xs) \<or> test s j y"
  by (induction xs arbitrary: s) (auto simp: invar_up test_up)

lemma test_fold_down:
  "invar s \<Longrightarrow> idx i \<Longrightarrow> idx j \<Longrightarrow> \<forall>x \<in> set xs. x < 64 \<Longrightarrow> y < 64 \<Longrightarrow>
     test (fold (down i) xs s) j y \<longleftrightarrow> test s j y \<and> \<not> (i = j \<and> y \<in> set xs)"
  by (induction xs arbitrary: s) (auto simp: invar_down test_down)

end

interpretation flags: bit_store wf_cap "\<lambda>s. s < NUMBER_OF_CAP_SETS" "\<lambda>c s x. isset_cap c x s"
    "\<lambda>s x. raise_cap x s" "\<lambda>s x. lower_cap x s"
  by unfold_locales auto

interpretation vec: bit_store "\<lambda>v. length v = CAP_BLKS" "\<lambda>_ :: unit. True" "\<lambda>v _. vec_isset v"
    "\<lambda>_. vec_raise" "\<lambda>_. vec_lower"
  by unfold_locales auto

section \<open>The binary search macro\<close>

text \<open>
  The probe \<open>fn\<close> is a C call: it may change the state it is run in.  Both bounds are kept
  as \<^typ>\<open>int\<close>: \<^verbatim>\<open>max\<close> becomes \<open>-1\<close> when the first probe fails at 0.
\<close>

function binary_search_loop :: "(int \<Rightarrow> 's \<Rightarrow> int \<times> 's) \<Rightarrow> int \<Rightarrow> int \<Rightarrow> 's \<Rightarrow> int \<times> 's" where
  "binary_search_loop fn mn mx s =
     (if mn \<le> mx then
        (let mid = (mn + mx) div 2; (r, s') = fn mid s in
         if r < 0 then binary_search_loop fn mn (mid - 1) s'
         else binary_search_loop fn (mid + 1) mx s')
      else (mn, s))"
  by pat_completeness auto
termination
  by (relation "measure (\<lambda>(fn, mn, mx, s). nat (mx - mn + 1))") auto

declare binary_search_loop.simps [simp del]

definition binary_search :: "(int \<Rightarrow> 's \<Rightarrow> int \<times> 's) \<Rightarrow> int \<Rightarrow> int \<Rightarrow> int \<Rightarrow> 's \<Rightarrow> int \<times> 's" where
  "binary_search fn low high fallback s =
     (let (mn, s') = binary_search_loop fn low high s in
      ((if mn \<noteq> 0 then (if mn \<le> high then mn else fallback) else fallback), s'))"

text \<open>
  A probe that fails exactly from \<open>lim\<close> on is searched correctly, whatever the probe does
  to the rest of the state, as long as an invariant \<open>I\<close> survives it.
\<close>

lemma binary_search_loop_correct:
  assumes "\<And>x s. I s \<Longrightarrow> low \<le> x \<Longrightarrow> x \<le> high \<Longrightarrow>
            (fst (fn x s) < 0 \<longleftrightarrow> lim \<le> x) \<and> I (snd (fn x s))"
    and "I s" "low \<le> mn" "mx \<le> high" "mn \<le> lim" "lim \<le> mx + 1"
  shows "fst (binary_search_loop fn mn mx s) = lim \<and> I (snd (binary_search_loop fn mn mx s))"
  using assms
proof (induction fn mn mx s rule: binary_search_loop.induct)
  case (1 fn mn mx s)
  show ?case
  proof (cases "mn \<le> mx")
    case False
    with "1.prems" show ?thesis by (simp add: binary_search_loop.simps [of fn mn mx s])
  next
    case True
    define mid where "mid = (mn + mx) div 2"
    obtain r s' where fn: "fn mid s = (r, s')" by fastforce
    have mid: "mn \<le> mid" "mid \<le> mx" using True by (auto simp: mid_def)
    have probe: "(r < 0 \<longleftrightarrow> lim \<le> mid) \<and> I s'"
      using "1.prems"(1) [of s mid] "1.prems"(2-4) mid fn by simp
    show ?thesis
    proof (cases "r < 0")
      case True
      have "fst (binary_search_loop fn mn (mid - 1) s') = lim \<and> I (snd (binary_search_loop fn mn (mid - 1) s'))"
        using probe True mid "1.prems"(3-6)
        by (intro "1.IH"(1) [OF \<open>mn \<le> mx\<close> mid_def fn [symmetric] refl True "1.prems"(1)]) auto
      with True \<open>mn \<le> mx\<close> fn show ?thesis
        by (simp add: binary_search_loop.simps [of fn mn mx s] Let_def mid_def)
    next
      case False
      have "fst (binary_search_loop fn (mid + 1) mx s') = lim \<and> I (snd (binary_search_loop fn (mid + 1) mx s'))"
        using probe False mid "1.prems"(3-6)
        by (intro "1.IH"(2) [OF \<open>mn \<le> mx\<close> mid_def fn [symmetric] refl False "1.prems"(1)]) auto
      with False \<open>mn \<le> mx\<close> fn show ?thesis
        by (simp add: binary_search_loop.simps [of fn mn mx s] Let_def mid_def)
    qed
  qed
qed

lemma binary_search_correct:
  assumes "\<And>x s. I s \<Longrightarrow> 0 \<le> x \<Longrightarrow> x \<le> high \<Longrightarrow>
            (fst (fn x s) < 0 \<longleftrightarrow> lim \<le> x) \<and> I (snd (fn x s))"
    and "I s" "0 \<le> lim" "lim \<le> high + 1"
  shows "fst (binary_search fn 0 high fallback s) =
           (if lim = 0 \<or> high < lim then fallback else lim)"
    and "I (snd (binary_search fn 0 high fallback s))"
  using binary_search_loop_correct [where I = I and low = 0 and high = high and fn = fn and lim = lim
      and mn = 0 and mx = high, OF assms(1,2)] assms(3,4)
  by (auto simp: binary_search_def split: prod.splits)

end
