(* ===== verification/Libcap_World.thy ===== *)
theory Libcap_World
  imports Libcap_Types
begin

text \<open>
  The machine the library runs on: the heap of blocks that \<^verbatim>\<open>cap_alloc.c\<close> hands out,
  \<^verbatim>\<open>errno\<close>, the static variables of the library, and the kernel.

  \<^item> The heap maps the address of the payload (\<^verbatim>\<open>&raw_data->u\<close>) to the block; the
    constructor of \<open>cap_obj\<close> is the tag that \<^verbatim>\<open>magic\<close> holds.
  \<^item> \<open>calloc\<close> returns a fresh address, or NULL when the allocator refuses
    (\<open>mem_fail\<close> decides, so every pattern of failing allocations is covered).
  \<^item> The kernel is a parameter: its state type is \<open>'k\<close> and its entry points are the
    fields of \<open>'k kernel\<close>.  A raw kernel call returns a negative error number;
    \<open>libc_ret\<close> is the C library's translation into \<open>-1\<close> and
    \<^verbatim>\<open>errno\<close>.
  \<^item> A mutex that is already held blocks for ever in a sequential run: the result is
    \<^const>\<open>None\<close>.
\<close>

section \<open>Blocks and the world\<close>

datatype cap_obj = CapSet cap_struct | CapIab cap_iab_s | CapLaunch cap_launch_s | CapStr string

record cap_alloc_s =
  a_size :: nat
  a_u :: cap_obj

definition CAP_T_MAGIC :: u32 where "CAP_T_MAGIC = 0xCA90D0"
definition CAP_S_MAGIC :: u32 where "CAP_S_MAGIC = 0xCA95D0"
definition CAP_IAB_MAGIC :: u32 where "CAP_IAB_MAGIC = 0xCA91AB"
definition CAP_LAUNCH_MAGIC :: u32 where "CAP_LAUNCH_MAGIC = 0xCA91AC"

lemmas magic_defs = CAP_T_MAGIC_def CAP_S_MAGIC_def CAP_IAB_MAGIC_def CAP_LAUNCH_MAGIC_def

primrec obj_magic :: "cap_obj \<Rightarrow> u32" where
  "obj_magic (CapSet c) = CAP_T_MAGIC"
| "obj_magic (CapIab t) = CAP_IAB_MAGIC"
| "obj_magic (CapLaunch l) = CAP_LAUNCH_MAGIC"
| "obj_magic (CapStr s) = CAP_S_MAGIC"

record cap_data =
  d_effective :: u32
  d_permitted :: u32
  d_inheritable :: u32

datatype syscall =
    SysCapset cap_header "cap_data list"
  | SysPrctl int int int int int int
  | SysSetuid u32
  | SysSetgid u32
  | SysSetgroups int "u32 list option"
  | SysChroot string

text \<open>
  A system call function as the library sees it: the value returned, the value stored in
  \<^verbatim>\<open>errno\<close> if any, and the new kernel state.
\<close>

type_synonym 'k sysfn = "syscall \<Rightarrow> 'k \<Rightarrow> int \<times> int option \<times> 'k"

record 'k syscaller =
  three :: "'k sysfn"
  six :: "'k sysfn"

text \<open>
  \<open>k_capget\<close> takes the header and whether the data pointer is non-NULL; it returns the raw
  result, the version left in the header and the rows written to the data array.
\<close>

record 'k kernel =
  k_capget :: "'k \<Rightarrow> cap_header \<Rightarrow> bool \<Rightarrow> int \<times> u32 \<times> cap_data list"
  k_syscall :: "syscall \<Rightarrow> 'k \<Rightarrow> int \<times> 'k"
  k_chdir_root :: "'k \<Rightarrow> int \<times> 'k"

record 'k world =
  heap :: "addr \<Rightarrow> cap_alloc_s option"
  mem_calls :: nat
  mem_fail :: "nat \<Rightarrow> bool"
  errno :: int
  libcap_mutex :: u8
  max_bits :: int
  proc_dir :: addr
  overrode_syscalls :: bool
  multithread :: "'k syscaller"
  singlethread :: "'k syscaller"
  kern :: 'k

section \<open>Objects in the heap\<close>

definition obj_at :: "'k world \<Rightarrow> addr \<Rightarrow> cap_obj option" where
  "obj_at w p = map_option a_u (heap w p)"

definition put_obj :: "addr \<Rightarrow> cap_obj \<Rightarrow> 'k world \<Rightarrow> 'k world" where
  "put_obj p ob w = w\<lparr>heap := (heap w)(p := map_option (\<lambda>b. b\<lparr>a_u := ob\<rparr>) (heap w p))\<rparr>"

definition del_obj :: "addr \<Rightarrow> 'k world \<Rightarrow> 'k world" where
  "del_obj p w = w\<lparr>heap := (heap w)(p := None)\<rparr>"

definition new_obj :: "addr \<Rightarrow> nat \<Rightarrow> cap_obj \<Rightarrow> 'k world \<Rightarrow> 'k world" where
  "new_obj p sz ob w = w\<lparr>heap := (heap w)(p \<mapsto> \<lparr>a_size = sz, a_u = ob\<rparr>)\<rparr>"

definition get_cap :: "addr \<Rightarrow> 'k world \<Rightarrow> cap_struct option" where
  "get_cap p w = (case obj_at w p of Some (CapSet c) \<Rightarrow> Some c | _ \<Rightarrow> None)"

definition get_iab :: "addr \<Rightarrow> 'k world \<Rightarrow> cap_iab_s option" where
  "get_iab p w = (case obj_at w p of Some (CapIab t) \<Rightarrow> Some t | _ \<Rightarrow> None)"

definition get_launch :: "addr \<Rightarrow> 'k world \<Rightarrow> cap_launch_s option" where
  "get_launch p w = (case obj_at w p of Some (CapLaunch l) \<Rightarrow> Some l | _ \<Rightarrow> None)"

definition get_str :: "addr \<Rightarrow> 'k world \<Rightarrow> string option" where
  "get_str p w = (case obj_at w p of Some (CapStr s) \<Rightarrow> Some s | _ \<Rightarrow> None)"

text \<open>
  \<^verbatim>\<open>magic_of\<close>: 0 for NULL; reading it through a pointer that is not a live block is
  undefined in C.
\<close>

definition magic_of :: "addr \<Rightarrow> 'k world \<Rightarrow> u32 option" where
  "magic_of p w = (if p = NULL then Some 0 else map_option obj_magic (obj_at w p))"

definition good_cap_t :: "addr \<Rightarrow> 'k world \<Rightarrow> bool option" where
  "good_cap_t p w = map_option (\<lambda>m. CAP_T_MAGIC = m) (magic_of p w)"

definition good_cap_iab_t :: "addr \<Rightarrow> 'k world \<Rightarrow> bool option" where
  "good_cap_iab_t p w = map_option (\<lambda>m. CAP_IAB_MAGIC = m) (magic_of p w)"

definition good_cap_launch_t :: "addr \<Rightarrow> 'k world \<Rightarrow> bool option" where
  "good_cap_launch_t p w = map_option (\<lambda>m. CAP_LAUNCH_MAGIC = m) (magic_of p w)"

section \<open>Mutexes\<close>

primrec obj_mutex :: "cap_obj \<Rightarrow> u8" where
  "obj_mutex (CapSet c) = c_mutex c"
| "obj_mutex (CapIab t) = i_mutex t"
| "obj_mutex (CapLaunch l) = l_mutex l"
| "obj_mutex (CapStr s) = 0"

primrec set_obj_mutex :: "u8 \<Rightarrow> cap_obj \<Rightarrow> cap_obj" where
  "set_obj_mutex m (CapSet c) = CapSet (c\<lparr>c_mutex := m\<rparr>)"
| "set_obj_mutex m (CapIab t) = CapIab (t\<lparr>i_mutex := m\<rparr>)"
| "set_obj_mutex m (CapLaunch l) = CapLaunch (l\<lparr>l_mutex := m\<rparr>)"
| "set_obj_mutex m (CapStr s) = CapStr s"

text \<open>\<^verbatim>\<open>__atomic_test_and_set\<close>: whether the mutex was held; it is held afterwards.\<close>

definition cap_mu_blocked :: "addr \<Rightarrow> 'k world \<Rightarrow> (bool \<times> 'k world) option" where
  "cap_mu_blocked p w = do {
     ob \<leftarrow> obj_at w p;
     Some (obj_mutex ob \<noteq> 0, put_obj p (set_obj_mutex 1 ob) w) }"

text \<open>In a sequential run nobody releases a mutex that is held: the loop never ends.\<close>

definition cap_mu_lock :: "addr \<Rightarrow> 'k world \<Rightarrow> 'k world option" where
  "cap_mu_lock p w = do {
     (held, w) \<leftarrow> cap_mu_blocked p w;
     if held then None else Some w }"

definition cap_mu_unlock :: "addr \<Rightarrow> 'k world \<Rightarrow> 'k world option" where
  "cap_mu_unlock p w = do {
     ob \<leftarrow> obj_at w p;
     Some (put_obj p (set_obj_mutex 0 ob) w) }"

section \<open>The C library\<close>

abbreviation (input) CAP_ALLOC_OFF_U :: nat where "CAP_ALLOC_OFF_U \<equiv> 8"

text \<open>\<^verbatim>\<open>sizeof(struct _cap_alloc_s)\<close> on an LP64 target.\<close>

definition sizeof_cap_alloc_s :: nat where "sizeof_cap_alloc_s = 104"

definition calloc :: "'k world \<Rightarrow> addr \<times> 'k world" where
  "calloc w =
     (if mem_fail w (mem_calls w)
      then (NULL, w\<lparr>mem_calls := Suc (mem_calls w), errno := ENOMEM\<rparr>)
      else (16 * Suc (mem_calls w), w\<lparr>mem_calls := Suc (mem_calls w)\<rparr>))"

definition libc_ret :: "int \<Rightarrow> 'k world \<Rightarrow> int \<times> 'k world" where
  "libc_ret r w = (if r < 0 then (- 1, w\<lparr>errno := - r\<rparr>) else (r, w))"

definition libc_syscall :: "'k kernel \<Rightarrow> 'k sysfn" where
  "libc_syscall K sc k = (let (r, k') = k_syscall K sc k in
     if r < 0 then (- 1, Some (- r), k') else (r, None, k'))"

definition run_sysfn :: "'k sysfn \<Rightarrow> syscall \<Rightarrow> 'k world \<Rightarrow> int \<times> 'k world" where
  "run_sysfn f sc w = (let (r, e, k') = f sc (kern w) in
     (r, w\<lparr>kern := k', errno := (case e of None \<Rightarrow> errno w | Some n \<Rightarrow> n)\<rparr>))"

definition flat_of_data :: "cap_data \<Rightarrow> u32 list" where
  "flat_of_data d = [d_effective d, d_permitted d, d_inheritable d]"

definition data_of_flat :: "u32 list \<Rightarrow> cap_data" where
  "data_of_flat f = \<lparr>d_effective = f ! 0, d_permitted = f ! 1, d_inheritable = f ! 2\<rparr>"

text \<open>\<^verbatim>\<open>capget(&cap->head, &cap->u[0].set)\<close>, or with a NULL data pointer.\<close>

definition capget :: "'k kernel \<Rightarrow> bool \<Rightarrow> cap_struct \<Rightarrow> 'k world \<Rightarrow> int \<times> cap_struct \<times> 'k world" where
  "capget K data c w =
     (let (r, v, rows) = k_capget K (kern w) (c_head c) data;
          u = (if data then take (length (c_u c)) (map flat_of_data rows @ drop (length rows) (c_u c))
               else c_u c);
          (ret, w') = libc_ret r w
      in (ret, c\<lparr>c_head := (c_head c)\<lparr>h_version := v\<rparr>, c_u := u\<rparr>, w'))"

section \<open>Well-formed worlds and the frame rules\<close>

primrec wf_obj :: "cap_obj \<Rightarrow> bool" where
  "wf_obj (CapSet c) = wf_cap c"
| "wf_obj (CapIab t) = wf_iab t"
| "wf_obj (CapLaunch l) = True"
| "wf_obj (CapStr s) = True"

definition wf_world :: "'k world \<Rightarrow> bool" where
  "wf_world w \<longleftrightarrow>
     (\<forall>p b. heap w p = Some b \<longrightarrow>
        0 < p \<and> p mod 8 = 0 \<and> p \<le> 16 * mem_calls w + CAP_ALLOC_OFF_U \<and> wf_obj (a_u b))"

text \<open>The address of the next block, fresh in a well-formed world.\<close>

definition next_ptr :: "'k world \<Rightarrow> addr" where
  "next_ptr w = 16 * Suc (mem_calls w) + CAP_ALLOC_OFF_U"

lemma next_ptr_pos [simp]: "0 < next_ptr w" "next_ptr w \<noteq> 0"
  by (simp_all add: next_ptr_def)

lemma next_ptr_align [simp]: "next_ptr w mod 8 = 0"
proof -
  have "next_ptr w = 8 * (2 * Suc (mem_calls w) + 1)" by (simp add: next_ptr_def)
  then show ?thesis by (metis mod_mult_self1_is_0)
qed

lemma wf_fresh: "wf_world w \<Longrightarrow> heap w (next_ptr w) = None"
  by (cases "heap w (next_ptr w)") (force simp: wf_world_def next_ptr_def)+

lemma wf_obj_at: "wf_world w \<Longrightarrow> obj_at w p = Some ob \<Longrightarrow> wf_obj ob \<and> p \<noteq> 0 \<and> p mod 8 = 0"
  by (auto simp: wf_world_def obj_at_def)

lemma fresh_neq: "wf_world w \<Longrightarrow> obj_at w p = Some ob \<Longrightarrow> p \<noteq> next_ptr w"
  by (auto simp: obj_at_def wf_fresh)

lemma obj_at_put [simp]:
  "obj_at (put_obj p ob w) q = (if q = p \<and> obj_at w p \<noteq> None then Some ob else obj_at w q)"
  by (auto simp: obj_at_def put_obj_def)

lemma obj_at_new [simp]: "obj_at (new_obj p sz ob w) q = (if q = p then Some ob else obj_at w q)"
  by (simp add: obj_at_def new_obj_def)

lemma obj_at_del [simp]: "obj_at (del_obj p w) q = (if q = p then None else obj_at w q)"
  by (simp add: obj_at_def del_obj_def)

lemma heap_put_None [simp]: "heap (put_obj p ob w) q = None \<longleftrightarrow> heap w q = None"
  by (auto simp: put_obj_def)

lemma next_ptr_put [simp]: "next_ptr (put_obj p ob w) = next_ptr w"
  by (simp add: next_ptr_def put_obj_def)

lemma put_put [simp]: "put_obj p ob (put_obj p ob' w) = put_obj p ob w"
  by (simp add: put_obj_def option.map_comp o_def)

lemma put_new [simp]: "put_obj p ob (new_obj p sz ob' w) = new_obj p sz ob w"
  by (simp add: put_obj_def new_obj_def)

lemma put_same: "obj_at w p = Some ob \<Longrightarrow> put_obj p ob w = w"
  by (auto simp: obj_at_def put_obj_def fun_upd_idem)

lemma del_put [simp]: "del_obj p (put_obj p ob w) = del_obj p w"
  by (simp add: del_obj_def put_obj_def)

lemma del_new: "heap w p = None \<Longrightarrow> del_obj p (new_obj p sz ob w) = w"
  by (simp add: del_obj_def new_obj_def fun_upd_idem)

lemma put_new_commute:
  "p \<noteq> q \<Longrightarrow> put_obj p ob (new_obj q sz ob' w) = new_obj q sz ob' (put_obj p ob w)"
  by (simp add: put_obj_def new_obj_def fun_upd_twist)

lemma obj_at_fields [simp]:
  "obj_at (w\<lparr>errno := e\<rparr>) p = obj_at w p" "obj_at (w\<lparr>mem_calls := n\<rparr>) p = obj_at w p"
  "obj_at (w\<lparr>kern := k\<rparr>) p = obj_at w p" "obj_at (w\<lparr>max_bits := m\<rparr>) p = obj_at w p"
  "obj_at (w\<lparr>proc_dir := a\<rparr>) p = obj_at w p" "obj_at (w\<lparr>libcap_mutex := l\<rparr>) p = obj_at w p"
  "obj_at (w\<lparr>overrode_syscalls := v\<rparr>) p = obj_at w p" "obj_at (w\<lparr>multithread := t\<rparr>) p = obj_at w p"
  by (simp_all add: obj_at_def)

lemma world_fields [simp]:
  "errno (put_obj p ob w) = errno w" "errno (new_obj p sz ob w) = errno w" "errno (del_obj p w) = errno w"
  "kern (put_obj p ob w) = kern w" "kern (new_obj p sz ob w) = kern w" "kern (del_obj p w) = kern w"
  "max_bits (put_obj p ob w) = max_bits w" "max_bits (new_obj p sz ob w) = max_bits w"
  "max_bits (del_obj p w) = max_bits w"
  "mem_calls (put_obj p ob w) = mem_calls w" "mem_calls (new_obj p sz ob w) = mem_calls w"
  "mem_calls (del_obj p w) = mem_calls w"
  "mem_fail (put_obj p ob w) = mem_fail w" "mem_fail (new_obj p sz ob w) = mem_fail w"
  "mem_fail (del_obj p w) = mem_fail w"
  by (simp_all add: put_obj_def new_obj_def del_obj_def)

lemma put_obj_fields [simp]:
  "put_obj p ob (w\<lparr>errno := e\<rparr>) = (put_obj p ob w)\<lparr>errno := e\<rparr>"
  "put_obj p ob (w\<lparr>mem_calls := n\<rparr>) = (put_obj p ob w)\<lparr>mem_calls := n\<rparr>"
  "put_obj p ob (w\<lparr>kern := k\<rparr>) = (put_obj p ob w)\<lparr>kern := k\<rparr>"
  by (simp_all add: put_obj_def)

lemma new_obj_fields [simp]:
  "(new_obj p sz ob w)\<lparr>errno := e\<rparr> = new_obj p sz ob (w\<lparr>errno := e\<rparr>)"
  "(new_obj p sz ob w)\<lparr>kern := k\<rparr> = new_obj p sz ob (w\<lparr>kern := k\<rparr>)"
  by (simp_all add: new_obj_def)

lemma del_obj_fields [simp]:
  "del_obj p (w\<lparr>errno := e\<rparr>) = (del_obj p w)\<lparr>errno := e\<rparr>"
  "del_obj p (w\<lparr>mem_calls := n\<rparr>) = (del_obj p w)\<lparr>mem_calls := n\<rparr>"
  "del_obj p (w\<lparr>kern := k\<rparr>) = (del_obj p w)\<lparr>kern := k\<rparr>"
  by (simp_all add: del_obj_def)

lemma wf_world_put: "wf_world w \<Longrightarrow> wf_obj ob \<Longrightarrow> wf_world (put_obj p ob w)"
  by (auto simp: wf_world_def put_obj_def split: if_splits)

lemma wf_world_del: "wf_world w \<Longrightarrow> wf_world (del_obj p w)"
  by (auto simp: wf_world_def del_obj_def split: if_splits)

lemma wf_world_fields [simp]:
  "wf_world (w\<lparr>errno := e\<rparr>) = wf_world w" "wf_world (w\<lparr>kern := k\<rparr>) = wf_world w"
  by (simp_all add: wf_world_def)

lemma wf_world_calls: "wf_world w \<Longrightarrow> wf_world (w\<lparr>mem_calls := Suc (mem_calls w)\<rparr>)"
  by (fastforce simp: wf_world_def)

lemma wf_world_new:
  "wf_world w \<Longrightarrow> wf_obj ob \<Longrightarrow>
     wf_world (new_obj (next_ptr w) sz ob (w\<lparr>mem_calls := Suc (mem_calls w)\<rparr>))"
  using next_ptr_align [of w]
  by (fastforce simp: wf_world_def new_obj_def next_ptr_def split: if_splits)

lemma obj_magic_distinct [simp]:
  "CAP_T_MAGIC \<noteq> CAP_IAB_MAGIC" "CAP_T_MAGIC \<noteq> CAP_LAUNCH_MAGIC" "CAP_T_MAGIC \<noteq> CAP_S_MAGIC"
  "CAP_IAB_MAGIC \<noteq> CAP_T_MAGIC" "CAP_IAB_MAGIC \<noteq> CAP_LAUNCH_MAGIC" "CAP_IAB_MAGIC \<noteq> CAP_S_MAGIC"
  "CAP_LAUNCH_MAGIC \<noteq> CAP_T_MAGIC" "CAP_LAUNCH_MAGIC \<noteq> CAP_IAB_MAGIC" "CAP_LAUNCH_MAGIC \<noteq> CAP_S_MAGIC"
  "CAP_T_MAGIC \<noteq> 0" "CAP_IAB_MAGIC \<noteq> 0" "CAP_LAUNCH_MAGIC \<noteq> 0"
  by (simp_all add: magic_defs)

lemma good_cap_t_obj [libcap_exec]:
  "p \<noteq> 0 \<Longrightarrow> obj_at w p = Some ob \<Longrightarrow> good_cap_t p w = Some (case ob of CapSet _ \<Rightarrow> True | _ \<Rightarrow> False)"
  by (cases ob) (simp_all add: good_cap_t_def magic_of_def)

lemma good_iab_t_obj [libcap_exec]:
  "p \<noteq> 0 \<Longrightarrow> obj_at w p = Some ob \<Longrightarrow> good_cap_iab_t p w = Some (case ob of CapIab _ \<Rightarrow> True | _ \<Rightarrow> False)"
  by (cases ob) (simp_all add: good_cap_iab_t_def magic_of_def)

lemma good_launch_t_obj [libcap_exec]:
  "p \<noteq> 0 \<Longrightarrow> obj_at w p = Some ob \<Longrightarrow>
     good_cap_launch_t p w = Some (case ob of CapLaunch _ \<Rightarrow> True | _ \<Rightarrow> False)"
  by (cases ob) (simp_all add: good_cap_launch_t_def magic_of_def)

lemma good_NULL [simp]:
  "good_cap_t 0 w = Some False" "good_cap_iab_t 0 w = Some False" "good_cap_launch_t 0 w = Some False"
  by (simp_all add: good_cap_t_def good_cap_iab_t_def good_cap_launch_t_def magic_of_def)

lemma get_obj [libcap_exec]:
  "obj_at w p = Some (CapSet c) \<Longrightarrow> get_cap p w = Some c"
  "obj_at w p = Some (CapIab t) \<Longrightarrow> get_iab p w = Some t"
  "obj_at w p = Some (CapLaunch l) \<Longrightarrow> get_launch p w = Some l"
  "obj_at w p = Some (CapStr s) \<Longrightarrow> get_str p w = Some s"
  by (simp_all add: get_cap_def get_iab_def get_launch_def get_str_def)

lemma cap_mu_lock_free [libcap_exec]:
  "obj_at w p = Some ob \<Longrightarrow> obj_mutex ob = 0 \<Longrightarrow> cap_mu_lock p w = Some (put_obj p (set_obj_mutex 1 ob) w)"
  by (simp add: cap_mu_lock_def cap_mu_blocked_def)

lemma cap_mu_lock_held:
  "obj_at w p = Some ob \<Longrightarrow> obj_mutex ob \<noteq> 0 \<Longrightarrow> cap_mu_lock p w = None"
  by (simp add: cap_mu_lock_def cap_mu_blocked_def)

lemma cap_mu_unlock_obj [libcap_exec]:
  "obj_at w p = Some ob \<Longrightarrow> cap_mu_unlock p w = Some (put_obj p (set_obj_mutex 0 ob) w)"
  by (simp add: cap_mu_unlock_def)

section \<open>Objects that are ready for a call\<close>

text \<open>A live object of the right kind whose mutex nobody holds.\<close>

definition cap_ready :: "'k world \<Rightarrow> addr \<Rightarrow> cap_struct \<Rightarrow> bool" where
  "cap_ready w p c \<longleftrightarrow> wf_world w \<and> obj_at w p = Some (CapSet c) \<and> c_mutex c = 0"

definition iab_ready :: "'k world \<Rightarrow> addr \<Rightarrow> cap_iab_s \<Rightarrow> bool" where
  "iab_ready w p t \<longleftrightarrow> wf_world w \<and> obj_at w p = Some (CapIab t) \<and> i_mutex t = 0"

definition launch_ready :: "'k world \<Rightarrow> addr \<Rightarrow> cap_launch_s \<Rightarrow> bool" where
  "launch_ready w p l \<longleftrightarrow> wf_world w \<and> obj_at w p = Some (CapLaunch l) \<and> l_mutex l = 0"

lemma cap_readyD:
  assumes "cap_ready w p c"
  shows "obj_at w p = Some (CapSet c)" "c_mutex c = 0" "wf_world w" "wf_cap c" "p \<noteq> 0" "p mod 8 = 0"
    "p \<noteq> next_ptr w"
  using assms wf_obj_at [of w p "CapSet c"] fresh_neq [of w p "CapSet c"] by (auto simp: cap_ready_def)

lemma iab_readyD:
  assumes "iab_ready w p t"
  shows "obj_at w p = Some (CapIab t)" "i_mutex t = 0" "wf_world w" "wf_iab t" "p \<noteq> 0" "p mod 8 = 0"
    "p \<noteq> next_ptr w"
  using assms wf_obj_at [of w p "CapIab t"] fresh_neq [of w p "CapIab t"] by (auto simp: iab_ready_def)

lemma launch_readyD:
  assumes "launch_ready w p l"
  shows "obj_at w p = Some (CapLaunch l)" "l_mutex l = 0" "wf_world w" "p \<noteq> 0" "p mod 8 = 0"
    "p \<noteq> next_ptr w"
  using assms wf_obj_at [of w p "CapLaunch l"] fresh_neq [of w p "CapLaunch l"] by (auto simp: launch_ready_def)

lemma cap_ready_put:
  "cap_ready w p c \<Longrightarrow> wf_cap c' \<Longrightarrow> c_mutex c' = 0 \<Longrightarrow> cap_ready (put_obj p (CapSet c') w) p c'"
  by (simp add: cap_ready_def wf_world_put)

lemma iab_ready_put:
  "iab_ready w p t \<Longrightarrow> wf_iab t' \<Longrightarrow> i_mutex t' = 0 \<Longrightarrow> iab_ready (put_obj p (CapIab t') w) p t'"
  by (simp add: iab_ready_def wf_world_put)

end
