(* ===== verification/Cap_Alloc.thy ===== *)
theory Cap_Alloc
  imports Libcap_World
begin

text \<open>
  \<^verbatim>\<open>libcap/cap_alloc.c\<close>: allocation, duplication and release of the library's objects.
  The locale \<open>capget_abi\<close> is what the allocator of capability sets relies on of the kernel.
\<close>

section \<open>Release\<close>

text \<open>
  \<^verbatim>\<open>cap_free\<close> calls itself on the IAB tuple and the chroot string a launcher owns; a
  launcher that was made to own itself would recurse for ever, hence the partial function.
\<close>

partial_function (option) cap_free :: "addr \<Rightarrow> 'k world \<Rightarrow> (int \<times> 'k world) option" where
  "cap_free data_p w =
     (if data_p = NULL then Some (0, w)
      else if data_p mod 8 \<noteq> 0 then Some (- 1, w\<lparr>errno := EINVAL\<rparr>)
      else do {
        ob \<leftarrow> obj_at w data_p;
        (case ob of
           CapSet c \<Rightarrow> do {
             w \<leftarrow> cap_mu_lock data_p w;
             Some (0, del_obj data_p w) }
         | CapStr s \<Rightarrow> Some (0, del_obj data_p w)
         | CapIab t \<Rightarrow> Some (0, del_obj data_p w)
         | CapLaunch l \<Rightarrow> do {
             (r, w) \<leftarrow> (if l_iab l \<noteq> NULL then do {
                          w \<leftarrow> cap_mu_unlock (l_iab l) w;
                          cap_free (l_iab l) w }
                        else Some (0, w));
             if r \<noteq> 0 then Some (- 1, w)
             else do {
               w \<leftarrow> Some (put_obj data_p (CapLaunch (l\<lparr>l_iab := NULL\<rparr>)) w);
               (r, w) \<leftarrow> cap_free (l_chroot l) w;
               if r \<noteq> 0 then Some (- 1, w) else Some (0, del_obj data_p w) } }) })"

section \<open>Allocation\<close>

definition zero_cap :: "u32 \<Rightarrow> cap_struct" where
  "zero_cap v = \<lparr>c_mutex = 0, c_head = \<lparr>h_version = v, h_pid = 0\<rparr>,
                c_u = [[0, 0, 0], [0, 0, 0]], c_rootid = 0\<rparr>"

definition zero_iab :: cap_iab_s where
  "zero_iab = \<lparr>i_mutex = 0, iab_i = [0, 0], iab_a = [0, 0], iab_nb = [0, 0]\<rparr>"

definition zero_launch :: cap_launch_s where
  "zero_launch = \<lparr>l_mutex = 0, l_custom_setup_fn = 0, l_change_uids = 0, l_uid = 0, l_change_gids = 0,
     l_gid = 0, l_ngroups = 0, l_groups = None, l_change_mode = 0, l_mode = 0, l_iab = NULL,
     l_chroot = NULL, l_arg0 = None, l_argv = None, l_envp = None\<rparr>"

definition cap_init :: "'k kernel \<Rightarrow> 'k world \<Rightarrow> (addr \<times> 'k world) option" where
  "cap_init K w =
     (let (raw_data, w) = calloc w in
      if raw_data = NULL then Some (NULL, w\<lparr>errno := ENOMEM\<rparr>)
      else
        (let result = raw_data + CAP_ALLOC_OFF_U;
             (_, c, w) = capget K False (zero_cap LINUX_CAPABILITY_VERSION_3) w;
             w = new_obj result sizeof_cap_alloc_s (CapSet c) w
         in if h_version (c_head c) \<in> {LINUX_CAPABILITY_VERSION_1, LINUX_CAPABILITY_VERSION_2,
                                       LINUX_CAPABILITY_VERSION_3}
            then Some (result, w)
            else do {
              (_, w) \<leftarrow> cap_free result w;
              Some (NULL, w) }))"

definition libcap_strdup :: "string option \<Rightarrow> 'k world \<Rightarrow> addr \<times> 'k world" where
  "libcap_strdup old w =
     (case old of
        None \<Rightarrow> (NULL, w\<lparr>errno := EINVAL\<rparr>)
      | Some s \<Rightarrow>
          (let len = length s in
           if (len AND 0x3fffffff) \<noteq> len then (NULL, w\<lparr>errno := EINVAL\<rparr>)
           else
             (let len = len + 1 + CAP_ALLOC_OFF_U;
                  len = (if len < sizeof_cap_alloc_s then sizeof_cap_alloc_s else len);
                  (raw_data, w) = calloc w
              in if raw_data = NULL then (NULL, w\<lparr>errno := ENOMEM\<rparr>)
                 else (raw_data + CAP_ALLOC_OFF_U,
                       new_obj (raw_data + CAP_ALLOC_OFF_U) len (CapStr s) w))))"

definition cap_dup :: "'k kernel \<Rightarrow> addr \<Rightarrow> 'k world \<Rightarrow> (addr \<times> 'k world) option" where
  "cap_dup K cap_d w = do {
     good \<leftarrow> good_cap_t cap_d w;
     if \<not> good then Some (NULL, w\<lparr>errno := EINVAL\<rparr>)
     else do {
       (result, w) \<leftarrow> cap_init K w;
       if result = NULL then Some (NULL, w)
       else do {
         w \<leftarrow> cap_mu_lock cap_d w;
         c \<leftarrow> get_cap cap_d w;
         w \<leftarrow> Some (put_obj result (CapSet c) w);
         w \<leftarrow> cap_mu_unlock cap_d w;
         w \<leftarrow> cap_mu_unlock result w;
         Some (result, w) } } }"

definition cap_iab_init :: "'k world \<Rightarrow> addr \<times> 'k world" where
  "cap_iab_init w =
     (let (base, w) = calloc w in
      if base = NULL then (NULL, w)
      else (base + CAP_ALLOC_OFF_U,
            new_obj (base + CAP_ALLOC_OFF_U) sizeof_cap_alloc_s (CapIab zero_iab) w))"

definition cap_iab_dup :: "addr \<Rightarrow> 'k world \<Rightarrow> (addr \<times> 'k world) option" where
  "cap_iab_dup iab w = do {
     good \<leftarrow> good_cap_iab_t iab w;
     if \<not> good then Some (NULL, w\<lparr>errno := EINVAL\<rparr>)
     else
       (let (result, w) = cap_iab_init w in
        if result = NULL then Some (NULL, w)
        else do {
          w \<leftarrow> cap_mu_lock iab w;
          t \<leftarrow> get_iab iab w;
          w \<leftarrow> Some (put_obj result (CapIab t) w);
          w \<leftarrow> cap_mu_unlock iab w;
          w \<leftarrow> cap_mu_unlock result w;
          Some (result, w) }) }"

definition cap_new_launcher ::
  "string option \<Rightarrow> string list option \<Rightarrow> string list option \<Rightarrow> 'k world \<Rightarrow> addr \<times> 'k world" where
  "cap_new_launcher arg0 argv envp w =
     (let (data, w) = calloc w in
      if data = NULL then (NULL, w)
      else (data + CAP_ALLOC_OFF_U,
            new_obj (data + CAP_ALLOC_OFF_U) sizeof_cap_alloc_s
              (CapLaunch (zero_launch\<lparr>l_arg0 := arg0, l_argv := argv, l_envp := envp\<rparr>)) w))"

definition cap_func_launcher :: "nat \<Rightarrow> 'k world \<Rightarrow> addr \<times> 'k world" where
  "cap_func_launcher callback_fn w =
     (let (data, w) = calloc w in
      if data = NULL then (NULL, w)
      else (data + CAP_ALLOC_OFF_U,
            new_obj (data + CAP_ALLOC_OFF_U) sizeof_cap_alloc_s
              (CapLaunch (zero_launch\<lparr>l_custom_setup_fn := callback_fn\<rparr>)) w))"

section \<open>Execution rules\<close>

text \<open>The world after a successful call of \<open>calloc\<close>, and after a refused one.\<close>

definition alloc_ok :: "'k world \<Rightarrow> bool" where
  "alloc_ok w \<longleftrightarrow> \<not> mem_fail w (mem_calls w)"

definition bumped :: "'k world \<Rightarrow> 'k world" where
  "bumped w = w\<lparr>mem_calls := Suc (mem_calls w)\<rparr>"

lemma calloc_ok: "alloc_ok w \<Longrightarrow> calloc w = (16 * Suc (mem_calls w), bumped w)"
  by (simp add: calloc_def alloc_ok_def bumped_def)

lemma calloc_fail: "\<not> alloc_ok w \<Longrightarrow> calloc w = (0, (bumped w)\<lparr>errno := ENOMEM\<rparr>)"
  by (simp add: calloc_def alloc_ok_def bumped_def)

lemma bumped_fields [simp]:
  "obj_at (bumped w) p = obj_at w p" "errno (bumped w) = errno w" "kern (bumped w) = kern w"
  "heap (bumped w) = heap w" "max_bits (bumped w) = max_bits w" "mem_calls (bumped w) = Suc (mem_calls w)"
  "put_obj p ob (bumped w) = bumped (put_obj p ob w)"
  by (simp_all add: bumped_def)

lemma wf_bumped: "wf_world w \<Longrightarrow> wf_world (bumped w)"
  by (simp add: bumped_def wf_world_calls)

lemma wf_new_bumped: "wf_world w \<Longrightarrow> wf_obj ob \<Longrightarrow> wf_world (new_obj (next_ptr w) sz ob (bumped w))"
  by (simp add: bumped_def wf_world_new)

lemma wf_zero [simp]: "wf_cap (zero_cap v)" "wf_iab zero_iab"
  by (simp_all add: zero_cap_def zero_iab_def wf_cap_def wf_iab_def)

lemma zero_cap_fields [simp]:
  "c_mutex (zero_cap v) = 0" "c_head (zero_cap v) = \<lparr>h_version = v, h_pid = 0\<rparr>" "c_rootid (zero_cap v) = 0"
  by (simp_all add: zero_cap_def)

lemma zero_cap_isset [simp]: "x < 64 \<Longrightarrow> s < 3 \<Longrightarrow> \<not> isset_cap (zero_cap v) x s"
proof -
  assume "x < 64" "s < 3"
  then have "x div 32 = 0 \<or> x div 32 = 1" "s = 0 \<or> s = 1 \<or> s = 2" by auto
  then have "flat (zero_cap v) (x div 32) s = 0"
    by (auto simp: zero_cap_def flat_def)
  then show ?thesis by (simp add: isset_cap_def)
qed

lemma cap_free_NULL [libcap_exec]: "cap_free 0 w = Some (0, w)"
  by (subst cap_free.simps) simp

lemma cap_free_misaligned: "p \<noteq> 0 \<Longrightarrow> p mod 8 \<noteq> 0 \<Longrightarrow> cap_free p w = Some (- 1, w\<lparr>errno := EINVAL\<rparr>)"
  by (subst cap_free.simps) simp

lemma cap_free_set [libcap_exec]:
  "p \<noteq> 0 \<Longrightarrow> p mod 8 = 0 \<Longrightarrow> obj_at w p = Some (CapSet c) \<Longrightarrow> c_mutex c = 0 \<Longrightarrow>
     cap_free p w = Some (0, del_obj p w)"
  by (subst cap_free.simps) (simp add: libcap_exec)

lemma cap_free_iab [libcap_exec]:
  "p \<noteq> 0 \<Longrightarrow> p mod 8 = 0 \<Longrightarrow> obj_at w p = Some (CapIab t) \<Longrightarrow> cap_free p w = Some (0, del_obj p w)"
  by (subst cap_free.simps) simp

lemma cap_free_str [libcap_exec]:
  "p \<noteq> 0 \<Longrightarrow> p mod 8 = 0 \<Longrightarrow> obj_at w p = Some (CapStr s) \<Longrightarrow> cap_free p w = Some (0, del_obj p w)"
  by (subst cap_free.simps) simp

lemma cap_iab_init_ok:
  "alloc_ok w \<Longrightarrow> cap_iab_init w = (next_ptr w, new_obj (next_ptr w) sizeof_cap_alloc_s (CapIab zero_iab) (bumped w))"
  by (simp add: cap_iab_init_def calloc_ok next_ptr_def)

lemma cap_iab_init_fail:
  "\<not> alloc_ok w \<Longrightarrow> cap_iab_init w = (0, (bumped w)\<lparr>errno := ENOMEM\<rparr>)"
  by (simp add: cap_iab_init_def calloc_fail)

text \<open>The block of a string: \<^verbatim>\<open>strlen\<close>, the NUL and the header, at least a whole block.\<close>

definition strdup_size :: "string \<Rightarrow> nat" where
  "strdup_size s = (if length s + 9 < sizeof_cap_alloc_s then sizeof_cap_alloc_s else length s + 9)"

lemma libcap_strdup_ok:
  assumes "alloc_ok w" "length s < 2 ^ 30"
  shows "libcap_strdup (Some s) w = (next_ptr w, new_obj (next_ptr w) (strdup_size s) (CapStr s) (bumped w))"
proof -
  have "(0x3fffffff :: nat) = Bit_Operations.mask 30" by (simp add: mask_eq_exp_minus_1)
  then have "length s AND 0x3fffffff = take_bit 30 (length s)" by (simp only: take_bit_eq_mask)
  also have "\<dots> = length s" using assms(2) by (simp add: take_bit_nat_eq_self)
  finally show ?thesis
    using assms(1) by (simp add: libcap_strdup_def calloc_ok next_ptr_def strdup_size_def Let_def add.commute)
qed

lemma libcap_strdup_fail:
  "\<not> alloc_ok w \<Longrightarrow> fst (libcap_strdup old w) = NULL"
  by (cases old) (simp_all add: libcap_strdup_def calloc_fail Let_def)

text \<open>A machine whose allocator never refuses.\<close>

definition mem_ok :: "'k world \<Rightarrow> bool" where
  "mem_ok w \<longleftrightarrow> (\<forall>n. \<not> mem_fail w n)"

lemma mem_ok_simps [simp]:
  "mem_ok w \<Longrightarrow> alloc_ok w" "mem_ok (bumped w) = mem_ok w" "mem_ok (w\<lparr>errno := e\<rparr>) = mem_ok w"
  "mem_ok (new_obj p sz ob w) = mem_ok w" "mem_ok (put_obj p ob w) = mem_ok w" "mem_ok (del_obj p w) = mem_ok w"
  "mem_ok (w\<lparr>kern := k\<rparr>) = mem_ok w"
  by (simp_all add: mem_ok_def alloc_ok_def bumped_def)

text \<open>The world after blocks were taken and given back.\<close>

definition bumps :: "nat \<Rightarrow> 'k world \<Rightarrow> 'k world" where
  "bumps k w = w\<lparr>mem_calls := mem_calls w + k\<rparr>"

lemma bumps_simps [simp]:
  "bumps 0 w = w" "bumped (bumps k w) = bumps (Suc k) w" "bumps j (bumps k w) = bumps (k + j) w"
  "bumps k (bumped w) = bumps (Suc k) w" "mem_ok (bumps k w) = mem_ok w" "obj_at (bumps k w) p = obj_at w p"
  "kern (bumps k w) = kern w" "errno (bumps k w) = errno w" "max_bits (bumps k w) = max_bits w"
  "heap (bumps k w) = heap w"
  by (simp_all add: bumps_def bumped_def mem_ok_def add.assoc)

lemma wf_bumps [simp]: "wf_world w \<Longrightarrow> wf_world (bumps k w)"
  by (force simp: wf_world_def bumps_def)

lemma cap_iab_dup_ok:
  assumes "wf_world w" "obj_at w p = Some (CapIab t)" "i_mutex t = 0" "alloc_ok w"
  shows "cap_iab_dup p w =
           Some (next_ptr w, new_obj (next_ptr w) sizeof_cap_alloc_s (CapIab t) (bumped w))"
proof -
  have p: "p \<noteq> 0" "p \<noteq> next_ptr w" using wf_obj_at fresh_neq assms by metis+
  have "put_obj p (CapIab t) w = w" using assms by (simp add: put_same)
  then show ?thesis
    using assms p by (simp add: cap_iab_dup_def cap_iab_init_ok libcap_exec put_new_commute)
qed

section \<open>What the allocator relies on of the kernel\<close>

text \<open>
  capget(2): called with a version the kernel supports and a NULL data pointer it succeeds and
  leaves the header alone.
\<close>

locale capget_abi =
  fixes K :: "'k kernel"
  assumes capget_null:
    "k_capget K k \<lparr>h_version = LINUX_CAPABILITY_VERSION_3, h_pid = 0\<rparr> False =
       (0, LINUX_CAPABILITY_VERSION_3, [])"
begin

lemma cap_init_ok:
  "alloc_ok w \<Longrightarrow> cap_init K w =
     Some (next_ptr w, new_obj (next_ptr w) sizeof_cap_alloc_s
                         (CapSet (zero_cap LINUX_CAPABILITY_VERSION_3)) (bumped w))"
  by (simp add: cap_init_def calloc_ok capget_def capget_null libc_ret_def next_ptr_def Let_def)
    (simp add: zero_cap_def)

lemma cap_init_fail: "\<not> alloc_ok w \<Longrightarrow> cap_init K w = Some (0, (bumped w)\<lparr>errno := ENOMEM\<rparr>)"
  by (simp add: cap_init_def calloc_fail)

lemma cap_dup_ok:
  assumes "wf_world w" "obj_at w p = Some (CapSet c)" "c_mutex c = 0" "alloc_ok w"
  shows "cap_dup K p w =
           Some (next_ptr w, new_obj (next_ptr w) sizeof_cap_alloc_s (CapSet c) (bumped w))"
proof -
  have p: "p \<noteq> 0" "p \<noteq> next_ptr w" using wf_obj_at fresh_neq assms by metis+
  have "put_obj p (CapSet c) w = w" using assms by (simp add: put_same)
  then show ?thesis
    using assms p by (simp add: cap_dup_def cap_init_ok libcap_exec put_new_commute)
qed

lemma cap_dup_fail:
  assumes "wf_world w" "obj_at w p = Some (CapSet c)" "\<not> alloc_ok w"
  shows "cap_dup K p w = Some (0, (bumped w)\<lparr>errno := ENOMEM\<rparr>)"
  using wf_obj_at [OF assms(1,2)] assms by (simp add: cap_dup_def cap_init_fail libcap_exec)

end

end
