(* ===== verification/Linux_Kernel.thy ===== *)
theory Linux_Kernel
  imports Cap_Alloc
begin

text \<open>
  A reference instance of the kernel parameter: the credentials of one process and the rules
  that capabilities(7), capget(2), prctl(2) and setuid(2) document for them.  The library's
  definitions never mention it; it shows that the contracts the properties assume of a kernel can
  be met, and the witnesses run on it.
\<close>

section \<open>Credentials\<close>

record linux =
  lk_eff :: "nat set"
  lk_per :: "nat set"
  lk_inh :: "nat set"
  lk_amb :: "nat set"
  lk_bnd :: "nat set"
  lk_ncaps :: nat
  lk_secbits :: nat
  lk_uid :: u32
  lk_gid :: u32
  lk_groups :: "u32 list"
  lk_nnp :: bool
  lk_root :: string
  lk_files :: "string \<Rightarrow> (nat \<times> u8 list option) option"
  lk_fds :: "int \<Rightarrow> string option"

definition word_of_set :: "nat set \<Rightarrow> nat \<Rightarrow> u32" where
  "word_of_set S b = fold (\<lambda>n v. if 32 * b + n \<in> S then v OR mask32 n else v) [0..<32] 0"

definition data_of_sets :: "nat set \<Rightarrow> nat set \<Rightarrow> nat set \<Rightarrow> cap_data list" where
  "data_of_sets E P I = map (\<lambda>b. \<lparr>d_effective = word_of_set E b, d_permitted = word_of_set P b,
                                d_inheritable = word_of_set I b\<rparr>) [0..<2]"

definition set_of_data :: "(cap_data \<Rightarrow> u32) \<Rightarrow> cap_data list \<Rightarrow> nat set" where
  "set_of_data f d = set (filter (\<lambda>x. x div 32 < length d \<and> bit (f (d ! (x div 32))) (x mod 32)) [0..<64])"

lemma fold_or_bit:
  "n < m \<Longrightarrow> m \<le> 32 \<Longrightarrow>
     bit (fold (\<lambda>n v. if P n then v OR mask32 n else v) [0..<m] (0 :: u32)) n \<longleftrightarrow> P n"
proof (induction m)
  case (Suc m)
  have above: "\<not> bit (fold (\<lambda>n v. if P n then v OR mask32 n else v) [0..<j] (0 :: u32)) m"
    if "j \<le> m" for j
    using that Suc.prems(2) by (induction j) (auto simp: bit_or_mask32)
  show ?case
  proof (cases "n = m")
    case True
    with above [of m] Suc.prems(2) show ?thesis by (simp add: bit_or_mask32)
  next
    case False
    with Suc show ?thesis by (simp add: bit_or_mask32)
  qed
qed simp

lemma bit_word_of_set: "n < 32 \<Longrightarrow> bit (word_of_set S b) n \<longleftrightarrow> 32 * b + n \<in> S"
  by (simp add: word_of_set_def fold_or_bit)

lemma set_of_data_of_sets:
  assumes "E \<subseteq> {..<64}" "P \<subseteq> {..<64}" "I \<subseteq> {..<64}"
  shows "set_of_data d_effective (data_of_sets E P I) = E"
    "set_of_data d_permitted (data_of_sets E P I) = P"
    "set_of_data d_inheritable (data_of_sets E P I) = I"
  using assms by (auto simp: set_of_data_def data_of_sets_def bit_word_of_set)

section \<open>System calls\<close>

definition CAP_SETPCAP :: nat where "CAP_SETPCAP = 8"
definition CAP_SETUID :: nat where "CAP_SETUID = 7"
definition CAP_SETGID :: nat where "CAP_SETGID = 6"
definition CAP_SYS_CHROOT :: nat where "CAP_SYS_CHROOT = 18"

definition lk_capget :: "linux \<Rightarrow> cap_header \<Rightarrow> bool \<Rightarrow> int \<times> u32 \<times> cap_data list" where
  "lk_capget k h data =
     (if h_version h \<notin> {LINUX_CAPABILITY_VERSION_1, LINUX_CAPABILITY_VERSION_2, LINUX_CAPABILITY_VERSION_3}
      then (if data then - EINVAL else 0, LINUX_CAPABILITY_VERSION_3, [])
      else if \<not> data then (0, h_version h, [])
      else if h_pid h < 0 then (- EINVAL, h_version h, [])
      else if h_pid h > 1 then (- 3, h_version h, [])
      else (0, h_version h,
            (if h_version h = LINUX_CAPABILITY_VERSION_1
             then take 1 (data_of_sets (lk_eff k) (lk_per k) (lk_inh k))
             else data_of_sets (lk_eff k) (lk_per k) (lk_inh k))))"

definition lk_capset :: "cap_header \<Rightarrow> cap_data list \<Rightarrow> linux \<Rightarrow> int \<times> linux" where
  "lk_capset h d k =
     (let known = {..<lk_ncaps k};
          E = set_of_data d_effective d \<inter> known;
          P = set_of_data d_permitted d \<inter> known;
          I = set_of_data d_inheritable d \<inter> known in
      if h_version h \<notin> {LINUX_CAPABILITY_VERSION_1, LINUX_CAPABILITY_VERSION_2, LINUX_CAPABILITY_VERSION_3}
      then (- EINVAL, k)
      else if h_pid h \<noteq> 0 then (- EPERM, k)
      else if \<not> (P \<subseteq> lk_per k) \<or> \<not> (E \<subseteq> P)
           \<or> (\<not> (I \<subseteq> lk_inh k \<union> lk_per k) \<and> CAP_SETPCAP \<notin> lk_eff k)
           \<or> \<not> (I \<subseteq> lk_inh k \<union> lk_bnd k) then (- EPERM, k)
      else (0, k\<lparr>lk_eff := E, lk_per := P, lk_inh := I, lk_amb := lk_amb k \<inter> P \<inter> I\<rparr>))"

definition lk_ambient :: "int \<Rightarrow> int \<Rightarrow> int \<Rightarrow> int \<Rightarrow> linux \<Rightarrow> int \<times> linux" where
  "lk_ambient op c a3 a4 k =
     (if a3 \<noteq> 0 \<or> a4 \<noteq> 0 then (- EINVAL, k)
      else if op = 4 then (if c \<noteq> 0 then (- EINVAL, k) else (0, k\<lparr>lk_amb := {}\<rparr>))
      else if c < 0 \<or> c \<ge> int (lk_ncaps k) then (- EINVAL, k)
      else if op = 1 then (if nat c \<in> lk_amb k then 1 else 0, k)
      else if op = 2 then
        (if nat c \<notin> lk_per k \<or> nat c \<notin> lk_inh k \<or> bit (lk_secbits k) 6 then (- EPERM, k)
         else (0, k\<lparr>lk_amb := insert (nat c) (lk_amb k)\<rparr>))
      else if op = 3 then (0, k\<lparr>lk_amb := lk_amb k - {nat c}\<rparr>)
      else (- EINVAL, k))"

definition lk_locked :: "nat \<Rightarrow> nat \<Rightarrow> bool" where
  "lk_locked old new \<longleftrightarrow>
     (\<exists>b \<in> {0, 2, 4, 6}. bit old (Suc b) \<and> (bit old b \<noteq> bit new b \<or> \<not> bit new (Suc b)))"

definition lk_prctl :: "int \<Rightarrow> int \<Rightarrow> int \<Rightarrow> int \<Rightarrow> int \<Rightarrow> linux \<Rightarrow> int \<times> linux" where
  "lk_prctl cmd a1 a2 a3 a4 k =
     (if cmd = 23 then
        (if a1 < 0 \<or> a1 \<ge> int (lk_ncaps k) then (- EINVAL, k)
         else (if nat a1 \<in> lk_bnd k then 1 else 0, k))
      else if cmd = 24 then
        (if CAP_SETPCAP \<notin> lk_eff k then (- EPERM, k)
         else if a1 < 0 \<or> a1 \<ge> int (lk_ncaps k) then (- EINVAL, k)
         else (0, k\<lparr>lk_bnd := lk_bnd k - {nat a1}\<rparr>))
      else if cmd = 47 then lk_ambient a1 a2 a3 a4 k
      else if cmd = 27 then (int (lk_secbits k), k)
      else if cmd = 28 then
        (if CAP_SETPCAP \<notin> lk_eff k \<or> a1 < 0 \<or> a1 \<ge> 256 \<or> lk_locked (lk_secbits k) (nat a1)
         then (- EPERM, k) else (0, k\<lparr>lk_secbits := nat a1\<rparr>))
      else if cmd = 15 then (0, k)
      else if cmd = 7 then (if bit (lk_secbits k) 4 then 1 else 0, k)
      else if cmd = 8 then
        (if a1 \<noteq> 0 \<and> a1 \<noteq> 1 then (- EINVAL, k)
         else if bit (lk_secbits k) 5 then (- EPERM, k)
         else (0, k\<lparr>lk_secbits := (if a1 = 1 then set_bit 4 (lk_secbits k) else unset_bit 4 (lk_secbits k))\<rparr>))
      else if cmd = 38 then (if a1 = 1 \<and> a2 = 0 \<and> a3 = 0 \<and> a4 = 0 then (0, k\<lparr>lk_nnp := True\<rparr>) else (- EINVAL, k))
      else if cmd = 39 then (if lk_nnp k then 1 else 0, k)
      else (- EINVAL, k))"

definition lk_setuid :: "u32 \<Rightarrow> linux \<Rightarrow> int \<times> linux" where
  "lk_setuid u k =
     (if CAP_SETUID \<notin> lk_eff k \<and> u \<noteq> lk_uid k then (- EPERM, k)
      else
        (let k1 = k\<lparr>lk_uid := u\<rparr> in
         (0, if bit (lk_secbits k) 2 then k1
             else if lk_uid k = 0 \<and> u \<noteq> 0 then
               (if bit (lk_secbits k) 4 then k1\<lparr>lk_eff := {}, lk_amb := {}\<rparr>
                else k1\<lparr>lk_eff := {}, lk_per := {}, lk_amb := {}\<rparr>)
             else if lk_uid k \<noteq> 0 \<and> u = 0 then k1\<lparr>lk_eff := lk_per k\<rparr>
             else k1)))"

definition lk_syscall :: "syscall \<Rightarrow> linux \<Rightarrow> int \<times> linux" where
  "lk_syscall sc k =
     (case sc of
        SysCapset h d \<Rightarrow> lk_capset h d k
      | SysPrctl cmd a1 a2 a3 a4 a5 \<Rightarrow> lk_prctl cmd a1 a2 a3 a4 k
      | SysSetuid u \<Rightarrow> lk_setuid u k
      | SysSetgid g \<Rightarrow> (if CAP_SETGID \<notin> lk_eff k \<and> g \<noteq> lk_gid k then (- EPERM, k) else (0, k\<lparr>lk_gid := g\<rparr>))
      | SysSetgroups n gs \<Rightarrow>
          (if CAP_SETGID \<notin> lk_eff k then (- EPERM, k)
           else (case gs of None \<Rightarrow> (if n = 0 then (0, k\<lparr>lk_groups := []\<rparr>) else (- 14, k))
                 | Some l \<Rightarrow> (if n < 0 \<or> nat n > length l then (- EINVAL, k)
                              else (0, k\<lparr>lk_groups := take (nat n) l\<rparr>))))
      | SysChroot path \<Rightarrow> (if CAP_SYS_CHROOT \<notin> lk_eff k then (- EPERM, k) else (0, k\<lparr>lk_root := path\<rparr>)))"

definition linux_kernel :: "linux kernel" where
  "linux_kernel = \<lparr>k_capget = lk_capget, k_syscall = lk_syscall, k_chdir_root = (\<lambda>k. (0, k))\<rparr>"

interpretation linux: capget_abi linux_kernel
  by unfold_locales (simp add: linux_kernel_def lk_capget_def)

section \<open>A machine to run on\<close>

text \<open>An unprivileged process of a kernel with 41 capabilities, an empty heap, all allocations granted.\<close>

definition plain_linux :: linux where
  "plain_linux = \<lparr>lk_eff = {}, lk_per = {}, lk_inh = {}, lk_amb = {}, lk_bnd = {..<41}, lk_ncaps = 41,
     lk_secbits = 0, lk_uid = 1000, lk_gid = 1000, lk_groups = [], lk_nnp = False, lk_root = ''/'',
     lk_files = (\<lambda>_. None), lk_fds = (\<lambda>_. None)\<rparr>"

definition libc_caller :: "linux syscaller" where
  "libc_caller = \<lparr>three = libc_syscall linux_kernel, six = libc_syscall linux_kernel\<rparr>"

definition machine :: "linux \<Rightarrow> linux world" where
  "machine k = \<lparr>heap = Map.empty, mem_calls = 0, mem_fail = (\<lambda>_. False), errno = 0, libcap_mutex = 0,
     max_bits = 41, proc_dir = NULL, overrode_syscalls = False, multithread = libc_caller,
     singlethread = libc_caller, kern = k\<rparr>"

definition with_obj :: "cap_obj \<Rightarrow> linux world \<Rightarrow> linux world" where
  "with_obj ob w = new_obj (next_ptr w) sizeof_cap_alloc_s ob (bumped w)"

lemma wf_machine [simp]: "wf_world (machine k)"
  by (simp add: machine_def wf_world_def)

lemma wf_with_obj: "wf_world w \<Longrightarrow> wf_obj ob \<Longrightarrow> wf_world (with_obj ob w)"
  by (simp add: with_obj_def wf_new_bumped)

lemma alloc_ok_machine [simp]: "alloc_ok (machine k)"
  by (simp add: alloc_ok_def machine_def)

lemma alloc_ok_with_obj [simp]: "alloc_ok (with_obj ob (machine k))" "alloc_ok (with_obj ob' (with_obj ob (machine k)))"
  by (simp_all add: alloc_ok_def machine_def with_obj_def bumped_def)

lemma mem_ok_machine [simp]: "mem_ok (machine k)" "mem_ok (with_obj ob w) = mem_ok w"
  by (simp add: mem_ok_def machine_def) (simp add: with_obj_def)

lemma next_ptr_machine [simp]: "next_ptr (machine k) = 24"
  by (simp add: machine_def next_ptr_def)

lemma next_ptr_with [simp]: "next_ptr (with_obj ob w) = next_ptr w + 16"
  by (simp add: with_obj_def next_ptr_def)

lemma obj_at_machine [simp]: "obj_at (machine k) p = None"
  by (simp add: machine_def obj_at_def)

lemma obj_at_with [simp]: "obj_at (with_obj ob w) p = (if p = next_ptr w then Some ob else obj_at w p)"
  by (simp add: with_obj_def)

lemma max_bits_machine [simp]: "max_bits (machine k) = 41" "max_bits (with_obj ob w) = max_bits w"
  "errno (machine k) = 0" "errno (with_obj ob w) = errno w" "kern (machine k) = k" "kern (with_obj ob w) = kern w"
  by (simp_all add: machine_def with_obj_def)

end
