(* ===== verification/Cap_Flag.thy ===== *)
theory Cap_Flag
  imports Linux_Kernel
begin

text \<open>
  \<^verbatim>\<open>libcap/cap_flag.c\<close>: reading, flipping, copying and comparing the capability flags of
  a \<^verbatim>\<open>cap_t\<close> and the three vectors of a \<^verbatim>\<open>cap_iab_t\<close>.  Each operation is
  modelled whole: argument checks, mutex, private copy, \<^verbatim>\<open>errno\<close>.
\<close>

section \<open>Capability sets\<close>

definition cap_get_flag ::
  "addr \<Rightarrow> int \<Rightarrow> int \<Rightarrow> bool \<Rightarrow> 'k world \<Rightarrow> ((int \<times> int option) \<times> 'k world) option" where
  "cap_get_flag cap_d value cset raised w = do {
     good \<leftarrow> (if raised then good_cap_t cap_d w else Some False);
     if good \<and> 0 \<le> value \<and> value < int CAP_MAXBITS \<and> 0 \<le> cset \<and> cset < int NUMBER_OF_CAP_SETS then do {
       w \<leftarrow> cap_mu_lock cap_d w;
       c \<leftarrow> get_cap cap_d w;
       w \<leftarrow> cap_mu_unlock cap_d w;
       Some ((0, Some (if isset_cap c (nat value) (nat cset) then CAP_SET else CAP_CLEAR)), w) }
     else Some ((- 1, None), w\<lparr>errno := EINVAL\<rparr>) }"

text \<open>The loop of \<^verbatim>\<open>cap_set_flag\<close> over the values; a weird one is skipped.\<close>

fun set_flag_loop :: "int list \<Rightarrow> nat \<Rightarrow> int \<Rightarrow> cap_struct \<Rightarrow> cap_struct" where
  "set_flag_loop [] s r c = c"
| "set_flag_loop (v # vs) s r c =
     (if v < 0 \<or> v \<ge> int CAP_MAXBITS then set_flag_loop vs s r c
      else set_flag_loop vs s r (if r = CAP_SET then raise_cap (nat v) s c else lower_cap (nat v) s c))"

definition cap_set_flag ::
  "addr \<Rightarrow> int \<Rightarrow> int \<Rightarrow> int list \<Rightarrow> int \<Rightarrow> 'k world \<Rightarrow> (int \<times> 'k world) option" where
  "cap_set_flag cap_d cset no_values array_values raise w = do {
     good \<leftarrow> good_cap_t cap_d w;
     if good \<and> 0 < no_values \<and> no_values < int CAP_MAXBITS \<and> 0 \<le> cset \<and> cset < int NUMBER_OF_CAP_SETS
        \<and> (raise = CAP_SET \<or> raise = CAP_CLEAR) then do {
       w \<leftarrow> cap_mu_lock cap_d w;
       c \<leftarrow> get_cap cap_d w;
       vs \<leftarrow> (if nat no_values \<le> length array_values then Some (take (nat no_values) array_values) else None);
       w \<leftarrow> Some (put_obj cap_d (CapSet (set_flag_loop vs (nat cset) raise c)) w);
       w \<leftarrow> cap_mu_unlock cap_d w;
       Some (0, w) }
     else Some (- 1, w\<lparr>errno := EINVAL\<rparr>) }"

definition clear_u :: "cap_struct \<Rightarrow> cap_struct" where
  "clear_u c = c\<lparr>c_u := replicate CAP_BLKS (replicate NUMBER_OF_CAP_SETS 0)\<rparr>"

definition cap_clear :: "addr \<Rightarrow> 'k world \<Rightarrow> (int \<times> 'k world) option" where
  "cap_clear cap_d w = do {
     good \<leftarrow> good_cap_t cap_d w;
     if good then do {
       w \<leftarrow> cap_mu_lock cap_d w;
       c \<leftarrow> get_cap cap_d w;
       w \<leftarrow> Some (put_obj cap_d (CapSet (clear_u c)) w);
       w \<leftarrow> cap_mu_unlock cap_d w;
       Some (0, w) }
     else Some (- 1, w\<lparr>errno := EINVAL\<rparr>) }"

definition clear_flag_loop :: "nat \<Rightarrow> cap_struct \<Rightarrow> cap_struct" where
  "clear_flag_loop s c = fold (\<lambda>i. set_flat i s 0) [0..<CAP_BLKS] c"

definition cap_clear_flag :: "addr \<Rightarrow> int \<Rightarrow> 'k world \<Rightarrow> (int \<times> 'k world) option" where
  "cap_clear_flag cap_d flag w =
     (if flag \<in> {int CAP_EFFECTIVE, int CAP_PERMITTED, int CAP_INHERITABLE} then do {
        good \<leftarrow> good_cap_t cap_d w;
        if good then do {
          w \<leftarrow> cap_mu_lock cap_d w;
          c \<leftarrow> get_cap cap_d w;
          w \<leftarrow> Some (put_obj cap_d (CapSet (clear_flag_loop (nat flag) c)) w);
          w \<leftarrow> cap_mu_unlock cap_d w;
          Some (0, w) }
        else Some (- 1, w\<lparr>errno := EINVAL\<rparr>) }
      else Some (- 1, w\<lparr>errno := EINVAL\<rparr>))"

text \<open>The bits \<^verbatim>\<open>LIBCAP_EFF\<close>, \<^verbatim>\<open>LIBCAP_INH\<close>, \<^verbatim>\<open>LIBCAP_PER\<close> of the sets that differ.\<close>

definition compare_loop :: "cap_struct \<Rightarrow> cap_struct \<Rightarrow> int" where
  "compare_loop a b = fold (\<lambda>i result. result
      OR (if flat a i CAP_EFFECTIVE \<noteq> flat b i CAP_EFFECTIVE then int LIBCAP_EFF else 0)
      OR (if flat a i CAP_INHERITABLE \<noteq> flat b i CAP_INHERITABLE then int LIBCAP_INH else 0)
      OR (if flat a i CAP_PERMITTED \<noteq> flat b i CAP_PERMITTED then int LIBCAP_PER else 0)) [0..<CAP_BLKS] 0"

definition CAP_DIFFERS :: "int \<Rightarrow> nat \<Rightarrow> bool" where
  "CAP_DIFFERS result flag \<longleftrightarrow> result AND push_bit flag 1 \<noteq> 0"

definition cap_compare :: "'k kernel \<Rightarrow> addr \<Rightarrow> addr \<Rightarrow> 'k world \<Rightarrow> (int \<times> 'k world) option" where
  "cap_compare K a b w = do {
     ga \<leftarrow> good_cap_t a w;
     gb \<leftarrow> (if ga then good_cap_t b w else Some False);
     if \<not> (ga \<and> gb) then Some (- 1, w\<lparr>errno := EINVAL\<rparr>)
     else do {
       (b, w) \<leftarrow> cap_dup K b w;
       if b = NULL then Some (- 1, w)
       else do {
         w \<leftarrow> cap_mu_lock a w;
         ca \<leftarrow> get_cap a w;
         cb \<leftarrow> get_cap b w;
         w \<leftarrow> cap_mu_unlock a w;
         (_, w) \<leftarrow> cap_free b w;
         Some (compare_loop ca cb, w) } } }"

definition fill_flag_loop :: "nat \<Rightarrow> cap_struct \<Rightarrow> nat \<Rightarrow> cap_struct \<Rightarrow> cap_struct" where
  "fill_flag_loop to orig from c = fold (\<lambda>i. set_flat i to (flat orig i from)) [0..<CAP_BLKS] c"

definition cap_fill_flag ::
  "'k kernel \<Rightarrow> addr \<Rightarrow> int \<Rightarrow> addr \<Rightarrow> int \<Rightarrow> 'k world \<Rightarrow> (int \<times> 'k world) option" where
  "cap_fill_flag K cap_d to ref from w = do {
     gd \<leftarrow> good_cap_t cap_d w;
     gr \<leftarrow> (if gd then good_cap_t ref w else Some False);
     if \<not> gd \<or> \<not> gr then Some (- 1, w\<lparr>errno := EINVAL\<rparr>)
     else if to < int CAP_EFFECTIVE \<or> to > int CAP_INHERITABLE
          \<or> from < int CAP_EFFECTIVE \<or> from > int CAP_INHERITABLE then Some (- 1, w\<lparr>errno := EINVAL\<rparr>)
     else do {
       (orig, w) \<leftarrow> cap_dup K ref w;
       if orig = NULL then Some (- 1, w)
       else do {
         w \<leftarrow> cap_mu_lock cap_d w;
         c \<leftarrow> get_cap cap_d w;
         co \<leftarrow> get_cap orig w;
         w \<leftarrow> Some (put_obj cap_d (CapSet (fill_flag_loop (nat to) co (nat from) c)) w);
         w \<leftarrow> cap_mu_unlock cap_d w;
         (_, w) \<leftarrow> cap_free orig w;
         Some (0, w) } } }"

definition cap_fill :: "'k kernel \<Rightarrow> addr \<Rightarrow> int \<Rightarrow> int \<Rightarrow> 'k world \<Rightarrow> (int \<times> 'k world) option" where
  "cap_fill K cap_d to from w = cap_fill_flag K cap_d to cap_d from w"

section \<open>IAB tuples\<close>

definition cap_iab_get_vector :: "addr \<Rightarrow> int \<Rightarrow> int \<Rightarrow> 'k world \<Rightarrow> (int \<times> 'k world) option" where
  "cap_iab_get_vector iab vec bitno w = do {
     good \<leftarrow> good_cap_iab_t iab w;
     if \<not> good \<or> bitno < 0 \<or> bitno \<ge> max_bits w then Some (0, w)
     else do {
       w \<leftarrow> cap_mu_lock iab w;
       t \<leftarrow> get_iab iab w;
       ret \<leftarrow> Some (if vec = CAP_IAB_INH then vec_isset (iab_i t) (nat bitno)
                  else if vec = CAP_IAB_AMB then vec_isset (iab_a t) (nat bitno)
                  else if vec = CAP_IAB_BOUND then vec_isset (iab_nb t) (nat bitno)
                  else False);
       w \<leftarrow> cap_mu_unlock iab w;
       Some (if ret then 1 else 0, w) } }"

definition upd_word :: "nat \<Rightarrow> (u32 \<Rightarrow> u32) \<Rightarrow> u32 list \<Rightarrow> u32 list" where
  "upd_word j f v = v[j := f (v ! j)]"

definition assign_bit :: "nat \<Rightarrow> bool \<Rightarrow> u32 \<Rightarrow> u32" where
  "assign_bit bitno raised x =
     (let on = mask32 bitno; mask = NOT on in (x AND mask) OR (if raised then on else 0))"

definition iab_set_vector :: "int \<Rightarrow> nat \<Rightarrow> bool \<Rightarrow> cap_iab_s \<Rightarrow> cap_iab_s option" where
  "iab_set_vector vec bitno raised t =
     (let j = bitno div 32; assign = assign_bit bitno raised in
      if vec = CAP_IAB_INH then
        (let i' = upd_word j assign (iab_i t) in
         Some (t\<lparr>iab_i := i', iab_a := upd_word j (\<lambda>x. x AND i' ! j) (iab_a t)\<rparr>))
      else if vec = CAP_IAB_AMB then
        (let a' = upd_word j assign (iab_a t) in
         Some (t\<lparr>iab_a := a', iab_i := upd_word j (\<lambda>x. x OR a' ! j) (iab_i t)\<rparr>))
      else if vec = CAP_IAB_BOUND then Some (t\<lparr>iab_nb := upd_word j assign (iab_nb t)\<rparr>)
      else None)"

definition cap_iab_set_vector ::
  "addr \<Rightarrow> int \<Rightarrow> int \<Rightarrow> nat \<Rightarrow> 'k world \<Rightarrow> (int \<times> 'k world) option" where
  "cap_iab_set_vector iab vec bitno raised w = do {
     good \<leftarrow> good_cap_iab_t iab w;
     if \<not> good \<or> drop_bit 1 raised \<noteq> 0 \<or> bitno < 0 \<or> bitno \<ge> max_bits w
     then Some (- 1, w\<lparr>errno := EINVAL\<rparr>)
     else do {
       w \<leftarrow> cap_mu_lock iab w;
       t \<leftarrow> get_iab iab w;
       (case iab_set_vector vec (nat bitno) (raised \<noteq> 0) t of
          None \<Rightarrow> do {
            w \<leftarrow> cap_mu_unlock iab (w\<lparr>errno := EINVAL\<rparr>);
            Some (- 1, w) }
        | Some t' \<Rightarrow> do {
            w \<leftarrow> cap_mu_unlock iab (put_obj iab (CapIab t') w);
            Some (0, w) }) } }"

text \<open>One turn of the loop of \<^verbatim>\<open>cap_iab_fill\<close>; \<^const>\<open>None\<close> for an unknown vector.\<close>

definition iab_fill_step :: "int \<Rightarrow> cap_struct \<Rightarrow> nat \<Rightarrow> nat \<Rightarrow> cap_iab_s \<Rightarrow> cap_iab_s option" where
  "iab_fill_step vec c flag i t =
     (if vec = CAP_IAB_INH then
        (let i' = (iab_i t)[i := flat c i flag] in
         Some (t\<lparr>iab_i := i', iab_a := (iab_a t)[i := iab_a t ! i AND i' ! i]\<rparr>))
      else if vec = CAP_IAB_AMB then
        Some (t\<lparr>iab_a := (iab_a t)[i := flat c i flag],
               iab_i := (iab_i t)[i := iab_i t ! i OR flat c i flag]\<rparr>)
      else if vec = CAP_IAB_BOUND then Some (t\<lparr>iab_nb := (iab_nb t)[i := NOT (flat c i flag)]\<rparr>)
      else None)"

definition cap_iab_fill ::
  "'k kernel \<Rightarrow> addr \<Rightarrow> int \<Rightarrow> addr \<Rightarrow> int \<Rightarrow> 'k world \<Rightarrow> (int \<times> 'k world) option" where
  "cap_iab_fill K iab vec cap_d flag w = do {
     gc \<leftarrow> good_cap_t cap_d w;
     gi \<leftarrow> (if gc then good_cap_iab_t iab w else Some False);
     if \<not> gc \<or> \<not> gi then Some (- 1, w\<lparr>errno := EINVAL\<rparr>)
     else if flag \<notin> {int CAP_EFFECTIVE, int CAP_INHERITABLE, int CAP_PERMITTED}
     then Some (- 1, w\<lparr>errno := EINVAL\<rparr>)
     else do {
       (cap_d, w) \<leftarrow> cap_dup K cap_d w;
       if cap_d = NULL then Some (- 1, w)
       else do {
         w \<leftarrow> cap_mu_lock iab w;
         t \<leftarrow> get_iab iab w;
         c \<leftarrow> get_cap cap_d w;
         (ret, w) \<leftarrow>
           (case iab_fill_step vec c (nat flag) 0 t of
              None \<Rightarrow> Some (- 1, w\<lparr>errno := EINVAL\<rparr>)
            | Some t1 \<Rightarrow>
               (case iab_fill_step vec c (nat flag) 1 t1 of
                  None \<Rightarrow> Some (- 1, w\<lparr>errno := EINVAL\<rparr>)
                | Some t2 \<Rightarrow> Some (0, put_obj iab (CapIab t2) w)));
         w \<leftarrow> cap_mu_unlock iab w;
         (_, w) \<leftarrow> cap_free cap_d w;
         Some (ret, w) } } }"

definition iab_compare_loop :: "cap_iab_s \<Rightarrow> cap_iab_s \<Rightarrow> int" where
  "iab_compare_loop a b = fold (\<lambda>j result. result
      OR (if iab_i a ! j = iab_i b ! j then 0 else push_bit (nat CAP_IAB_INH) 1)
      OR (if iab_a a ! j = iab_a b ! j then 0 else push_bit (nat CAP_IAB_AMB) 1)
      OR (if iab_nb a ! j = iab_nb b ! j then 0 else push_bit (nat CAP_IAB_BOUND) 1)) [0..<CAP_BLKS] 0"

definition cap_iab_compare :: "addr \<Rightarrow> addr \<Rightarrow> 'k world \<Rightarrow> (int \<times> 'k world) option" where
  "cap_iab_compare a b w = do {
     ga \<leftarrow> good_cap_iab_t a w;
     gb \<leftarrow> (if ga then good_cap_iab_t b w else Some False);
     if \<not> (ga \<and> gb) then Some (- 1, w\<lparr>errno := EINVAL\<rparr>)
     else do {
       (b, w) \<leftarrow> cap_iab_dup b w;
       if b = NULL then Some (- 1, w)
       else do {
         w \<leftarrow> cap_mu_lock a w;
         ta \<leftarrow> get_iab a w;
         tb \<leftarrow> get_iab b w;
         w \<leftarrow> cap_mu_unlock a w;
         (_, w) \<leftarrow> cap_free b w;
         Some (iab_compare_loop ta tb, w) } } }"

section \<open>Lemmas on the locked bodies\<close>

lemma set_flag_loop_fields [simp]:
  "c_mutex (set_flag_loop vs s r c) = c_mutex c" "c_head (set_flag_loop vs s r c) = c_head c"
  "c_rootid (set_flag_loop vs s r c) = c_rootid c"
  by (induction vs s r c rule: set_flag_loop.induct) auto

lemma wf_set_flag_loop [simp]: "wf_cap c \<Longrightarrow> wf_cap (set_flag_loop vs s r c)"
  by (induction vs s r c rule: set_flag_loop.induct) auto

text \<open>The loop is a fold of one bit operation over the values in range: the bit contract applies.\<close>

definition in_range :: "int list \<Rightarrow> nat list" where
  "in_range vs = map nat (filter (\<lambda>v. 0 \<le> v \<and> v < 64) vs)"

lemma in_range_less: "\<forall>x \<in> set (in_range vs). x < 64"
  by (auto simp: in_range_def)

lemma in_range_iff: "x < 64 \<Longrightarrow> x \<in> set (in_range vs) \<longleftrightarrow> int x \<in> set vs"
  by (force simp: in_range_def image_iff)

lemma set_flag_loop_fold:
  "set_flag_loop vs s CAP_SET c = fold (\<lambda>x. raise_cap x s) (in_range vs) c"
  "r \<noteq> CAP_SET \<Longrightarrow> set_flag_loop vs s r c = fold (\<lambda>x. lower_cap x s) (in_range vs) c"
  by (induction vs arbitrary: c) (auto simp: in_range_def)

lemma isset_set_flag_loop:
  assumes "wf_cap c" "s < 3" "x < 64" "t < 3" "r = CAP_SET \<or> r = CAP_CLEAR"
  shows "isset_cap (set_flag_loop vs s r c) x t \<longleftrightarrow>
           (if t = s \<and> int x \<in> set vs then r = CAP_SET else isset_cap c x t)"
  using assms(5)
  by (elim disjE)
    (auto simp: set_flag_loop_fold in_range_iff assms
      flags.test_fold_up [OF assms(1,2,4) in_range_less assms(3)]
      flags.test_fold_down [OF assms(1,2,4) in_range_less assms(3)])

lemma set_flag_loop_mutex [simp]: "set_flag_loop vs s r (c\<lparr>c_mutex := m\<rparr>) = (set_flag_loop vs s r c)\<lparr>c_mutex := m\<rparr>"
  by (induction vs s r c rule: set_flag_loop.induct) auto

lemma upt_2 [simp]: "[0..<2] = [0, Suc 0]"
  by (simp add: numeral_2_eq_2)

lemma clear_flag_loop_fields [simp]:
  "c_mutex (clear_flag_loop s c) = c_mutex c" "c_head (clear_flag_loop s c) = c_head c"
  "c_rootid (clear_flag_loop s c) = c_rootid c" "wf_cap c \<Longrightarrow> wf_cap (clear_flag_loop s c)"
  by (simp_all add: clear_flag_loop_def)

lemma flat_clear_flag_loop:
  "wf_cap c \<Longrightarrow> s < 3 \<Longrightarrow> b < 2 \<Longrightarrow> t < 3 \<Longrightarrow>
     flat (clear_flag_loop s c) b t = (if t = s then 0 else flat c b t)"
  by (auto simp: clear_flag_loop_def less_2_cases_iff)

lemma isset_clear_flag_loop [simp]:
  "wf_cap c \<Longrightarrow> s < 3 \<Longrightarrow> x < 64 \<Longrightarrow> t < 3 \<Longrightarrow>
     isset_cap (clear_flag_loop s c) x t \<longleftrightarrow> t \<noteq> s \<and> isset_cap c x t"
  by (simp add: isset_cap_def flat_clear_flag_loop)

lemma clear_flag_loop_mutex [simp]:
  "clear_flag_loop s (c\<lparr>c_mutex := m\<rparr>) = (clear_flag_loop s c)\<lparr>c_mutex := m\<rparr>"
  by (simp add: clear_flag_loop_def)

lemma fill_flag_loop_fields [simp]:
  "c_mutex (fill_flag_loop s d f c) = c_mutex c" "c_head (fill_flag_loop s d f c) = c_head c"
  "c_rootid (fill_flag_loop s d f c) = c_rootid c" "wf_cap c \<Longrightarrow> wf_cap (fill_flag_loop s d f c)"
  by (simp_all add: fill_flag_loop_def)

lemma flat_fill_flag_loop:
  "wf_cap c \<Longrightarrow> s < 3 \<Longrightarrow> b < 2 \<Longrightarrow> t < 3 \<Longrightarrow>
     flat (fill_flag_loop s d f c) b t = (if t = s then flat d b f else flat c b t)"
  by (auto simp: fill_flag_loop_def less_2_cases_iff)

lemma isset_fill_flag_loop [simp]:
  "wf_cap c \<Longrightarrow> s < 3 \<Longrightarrow> x < 64 \<Longrightarrow> t < 3 \<Longrightarrow>
     isset_cap (fill_flag_loop s d f c) x t \<longleftrightarrow> (if t = s then isset_cap d x f else isset_cap c x t)"
  by (simp add: isset_cap_def flat_fill_flag_loop)

lemma fill_flag_loop_mutex [simp]:
  "fill_flag_loop s d f (c\<lparr>c_mutex := m\<rparr>) = (fill_flag_loop s d f c)\<lparr>c_mutex := m\<rparr>"
  by (simp add: fill_flag_loop_def)

lemma CAP_DIFFERS_bit: "CAP_DIFFERS r s \<longleftrightarrow> bit r s"
  by (simp add: CAP_DIFFERS_def bit_iff_and_push_bit_not_eq_0)

lemma compare_loop_bit:
  assumes "s < 3"
  shows "CAP_DIFFERS (compare_loop a b) s \<longleftrightarrow> (\<exists>i < 2. flat a i s \<noteq> flat b i s)"
proof -
  have bits: "bit (if P then n else 0) s \<longleftrightarrow> P \<and> bit n s" for P and n :: int
    by simp
  have "s = 0 \<or> s = 1 \<or> s = 2" using assms by auto
  then show ?thesis
    unfolding CAP_DIFFERS_bit compare_loop_def ex_nat_less_2 upt_2
    by (elim disjE) (simp_all only: fold_simps bit_or_iff bits, simp_all)
qed

lemma compare_loop_differs:
  assumes "wf_cap a" "wf_cap b" "s < 3"
  shows "CAP_DIFFERS (compare_loop a b) s \<longleftrightarrow> (\<exists>x < 64. isset_cap a x s \<noteq> isset_cap b x s)"
proof -
  have "(\<forall>i < 2. flat a i s = flat b i s) \<longleftrightarrow> (\<forall>x < 64. isset_cap a x s = isset_cap b x s)"
  proof
    assume "\<forall>i < 2. flat a i s = flat b i s"
    then show "\<forall>x < 64. isset_cap a x s = isset_cap b x s" by (simp add: isset_cap_def)
  next
    assume eq: "\<forall>x < 64. isset_cap a x s = isset_cap b x s"
    show "\<forall>i < 2. flat a i s = flat b i s"
    proof (intro allI impI word32_eqI)
      fix i n :: nat
      assume "i < 2" "n < 32"
      then have "32 * i + n < 64" by auto
      with eq \<open>i < 2\<close> \<open>n < 32\<close> show "bit (flat a i s) n = bit (flat b i s) n"
        by (simp add: flat_bit_eq)
    qed
  qed
  with compare_loop_bit [OF assms(3)] show ?thesis by blast
qed

lemma compare_loop_eq_0:
  assumes "wf_cap a" "wf_cap b"
  shows "compare_loop a b = 0 \<longleftrightarrow> c_u a = c_u b"
proof
  assume "c_u a = c_u b"
  then show "compare_loop a b = 0" by (simp add: compare_loop_def flat_def)
next
  assume "compare_loop a b = 0"
  then have "\<forall>s < 3. \<not> CAP_DIFFERS (compare_loop a b) s" by (simp add: CAP_DIFFERS_def)
  then show "c_u a = c_u b"
    using assms by (intro cap_u_eqI) (auto simp: compare_loop_differs)
qed

section \<open>Execution rules\<close>

lemma cap_get_flag_exec [libcap_exec]:
  assumes "cap_ready w p c" "0 \<le> v" "v < 64" "0 \<le> s" "s < 3"
  shows "cap_get_flag p v s True w =
           Some ((0, Some (if isset_cap c (nat v) (nat s) then CAP_SET else CAP_CLEAR)), w)"
  using assms cap_readyD [OF assms(1)]
  by (simp add: cap_get_flag_def libcap_exec put_same)

lemma cap_set_flag_exec [libcap_exec]:
  assumes "cap_ready w p c" "0 < n" "n < 64" "nat n \<le> length vs" "0 \<le> s" "s < 3" "r = CAP_SET \<or> r = CAP_CLEAR"
  shows "cap_set_flag p s n vs r w =
           Some (0, put_obj p (CapSet (set_flag_loop (take (nat n) vs) (nat s) r c)) w)"
proof -
  have "1 \<le> n" using assms(2) by simp
  with assms cap_readyD [OF assms(1)] show ?thesis
    by (simp add: cap_set_flag_def libcap_exec)
qed

lemma cap_clear_exec [libcap_exec]:
  assumes "cap_ready w p c"
  shows "cap_clear p w = Some (0, put_obj p (CapSet (clear_u c)) w)"
  using cap_readyD [OF assms]
  by (cases c) (simp add: cap_clear_def libcap_exec clear_u_def)

lemma cap_clear_flag_exec [libcap_exec]:
  assumes "cap_ready w p c" "s \<in> {0, 1, 2}"
  shows "cap_clear_flag p s w = Some (0, put_obj p (CapSet (clear_flag_loop (nat s) c)) w)"
  using cap_readyD [OF assms(1)] assms(2)
  by (auto simp add: cap_clear_flag_def libcap_exec)

lemma cap_get_flag_bad:
  assumes "cap_ready w p c" "\<not> (0 \<le> v \<and> v < 64 \<and> 0 \<le> s \<and> s < 3)"
  shows "cap_get_flag p v s True w = Some ((- 1, None), w\<lparr>errno := EINVAL\<rparr>)"
  using assms cap_readyD [OF assms(1)] by (auto simp: cap_get_flag_def libcap_exec)

context capget_abi
begin

lemma cap_compare_exec:
  assumes "cap_ready w p a" "cap_ready w q b" "alloc_ok w"
  shows "cap_compare K p q w = Some (compare_loop a b, bumped w)"
  using cap_readyD [OF assms(1)] cap_readyD [OF assms(2)] assms(3) wf_fresh [of w]
  by (simp add: cap_compare_def cap_dup_ok libcap_exec put_same del_new put_new_commute
      compare_loop_def flat_def)

lemma cap_fill_flag_exec:
  assumes "cap_ready w p c" "cap_ready w q d" "alloc_ok w" "0 \<le> s" "s < 3" "0 \<le> f" "f < 3"
  shows "cap_fill_flag K p s q f w =
           Some (0, put_obj p (CapSet (fill_flag_loop (nat s) d (nat f) c)) (bumped w))"
  using cap_readyD [OF assms(1)] cap_readyD [OF assms(2)] assms(3-) wf_fresh [of w]
  by (simp add: cap_fill_flag_def cap_dup_ok libcap_exec del_new put_new_commute)

end

section \<open>The IAB invariant\<close>

text \<open>Ambient bits are inheritable: what the kernel demands of a process and every IAB operation keeps.\<close>

definition iab_inv :: "cap_iab_s \<Rightarrow> bool" where
  "iab_inv t \<longleftrightarrow> (\<forall>x < 64. vec_isset (iab_a t) x \<longrightarrow> vec_isset (iab_i t) x)"

lemma wf_iab_upd [simp]:
  "wf_iab t \<Longrightarrow> wf_iab (t\<lparr>iab_i := v\<rparr>) \<longleftrightarrow> length v = 2"
  "wf_iab t \<Longrightarrow> wf_iab (t\<lparr>iab_a := v\<rparr>) \<longleftrightarrow> length v = 2"
  "wf_iab t \<Longrightarrow> wf_iab (t\<lparr>iab_nb := v\<rparr>) \<longleftrightarrow> length v = 2"
  "wf_iab (t\<lparr>i_mutex := m\<rparr>) = wf_iab t"
  by (simp_all add: wf_iab_def)

lemma wf_iabD [simp]:
  "wf_iab t \<Longrightarrow> length (iab_i t) = 2" "wf_iab t \<Longrightarrow> length (iab_a t) = 2" "wf_iab t \<Longrightarrow> length (iab_nb t) = 2"
  by (simp_all add: wf_iab_def)

lemma length_upd_word [simp]: "length (upd_word j f v) = length v"
  by (simp add: upd_word_def)

lemma isset_upd_word:
  assumes "length v = 2" "y < 64"
  shows "vec_isset (upd_word j f v) y \<longleftrightarrow>
           (if y div 32 = j then bit (f (v ! j)) (y mod 32) else vec_isset v y)"
  using assms by (auto simp: vec_isset_bit upd_word_def nth_list_update)

lemma isset_assign:
  assumes "length v = 2" "y < 64" "b < 64"
  shows "vec_isset (upd_word (b div 32) (assign_bit b r) v) y \<longleftrightarrow>
           (if y = b then r else vec_isset v y)"
  using assms div_mod_32_eq [of y b]
  by (auto simp: isset_upd_word vec_isset_bit [of v] assign_bit_def Let_def bit_or_iff bit_clear_mask32 bit_mask32)

lemma nth_upd_word: "length v = 2 \<Longrightarrow> j < 2 \<Longrightarrow> upd_word j f v ! j = f (v ! j)"
  by (simp add: upd_word_def)

lemma iab_set_vector_inh:
  assumes "wf_iab t" "iab_inv t" "b < 64"
  obtains t' where "iab_set_vector CAP_IAB_INH b r t = Some t'" "wf_iab t'" "i_mutex t' = i_mutex t"
    "\<And>y. y < 64 \<Longrightarrow> vec_isset (iab_i t') y = (if y = b then r else vec_isset (iab_i t) y)"
    "\<And>y. y < 64 \<Longrightarrow> vec_isset (iab_a t') y = (if y = b then r \<and> vec_isset (iab_a t) y else vec_isset (iab_a t) y)"
    "iab_nb t' = iab_nb t"
proof -
  let ?f = "assign_bit b r"
  let ?i = "upd_word (b div 32) ?f (iab_i t)"
  let ?a = "upd_word (b div 32) (\<lambda>x. x AND ?i ! (b div 32)) (iab_a t)"
  have a: "vec_isset ?a y = (if y = b then r \<and> vec_isset (iab_a t) y else vec_isset (iab_a t) y)" if "y < 64" for y
  proof (cases "y div 32 = b div 32")
    case True
    have "vec_isset ?a y \<longleftrightarrow> vec_isset (iab_a t) y \<and> vec_isset ?i y"
      using assms that True by (simp add: isset_upd_word bit_and_iff vec_isset_bit [of "iab_a t"] vec_isset_bit [of ?i])
    with assms that show ?thesis by (auto simp: isset_assign iab_inv_def)
  next
    case False
    with assms that show ?thesis by (auto simp: isset_upd_word)
  qed
  show ?thesis
    by (rule that [of "t\<lparr>iab_i := ?i, iab_a := ?a\<rparr>"])
      (use assms a in \<open>simp_all add: iab_set_vector_def Let_def isset_assign\<close>)
qed

lemma iab_set_vector_amb:
  assumes "wf_iab t" "iab_inv t" "b < 64"
  obtains t' where "iab_set_vector CAP_IAB_AMB b r t = Some t'" "wf_iab t'" "i_mutex t' = i_mutex t"
    "\<And>y. y < 64 \<Longrightarrow> vec_isset (iab_a t') y = (if y = b then r else vec_isset (iab_a t) y)"
    "\<And>y. y < 64 \<Longrightarrow> vec_isset (iab_i t') y = (if y = b then r \<or> vec_isset (iab_i t) y else vec_isset (iab_i t) y)"
    "iab_nb t' = iab_nb t"
proof -
  let ?f = "assign_bit b r"
  let ?a = "upd_word (b div 32) ?f (iab_a t)"
  let ?i = "upd_word (b div 32) (\<lambda>x. x OR ?a ! (b div 32)) (iab_i t)"
  have i: "vec_isset ?i y = (if y = b then r \<or> vec_isset (iab_i t) y else vec_isset (iab_i t) y)" if "y < 64" for y
  proof (cases "y div 32 = b div 32")
    case True
    have "vec_isset ?i y \<longleftrightarrow> vec_isset (iab_i t) y \<or> vec_isset ?a y"
      using assms that True by (simp add: isset_upd_word bit_or_iff vec_isset_bit [of "iab_i t"] vec_isset_bit [of ?a])
    with assms that show ?thesis by (auto simp: isset_assign iab_inv_def)
  next
    case False
    with assms that show ?thesis by (auto simp: isset_upd_word)
  qed
  show ?thesis
    by (rule that [of "t\<lparr>iab_a := ?a, iab_i := ?i\<rparr>"])
      (use assms i in \<open>simp_all add: iab_set_vector_def Let_def isset_assign\<close>)
qed

lemma iab_set_vector_bound:
  assumes "wf_iab t" "b < 64"
  obtains t' where "iab_set_vector CAP_IAB_BOUND b r t = Some t'" "wf_iab t'" "i_mutex t' = i_mutex t"
    "\<And>y. y < 64 \<Longrightarrow> vec_isset (iab_nb t') y = (if y = b then r else vec_isset (iab_nb t) y)"
    "iab_i t' = iab_i t" "iab_a t' = iab_a t"
  by (rule that [of "t\<lparr>iab_nb := upd_word (b div 32) (assign_bit b r) (iab_nb t)\<rparr>"])
    (use assms in \<open>simp_all add: iab_set_vector_def Let_def isset_assign\<close>)

lemma iab_set_vector_bits:
  assumes "wf_iab t" "iab_inv t" "b < 64" "v \<in> {CAP_IAB_INH, CAP_IAB_AMB, CAP_IAB_BOUND}"
  obtains t' where "iab_set_vector v b r t = Some t'" "wf_iab t'" "i_mutex t' = i_mutex t" "iab_inv t'"
    "\<And>y. y < 64 \<Longrightarrow> vec_isset (iab_i t') y = (if y \<noteq> b then vec_isset (iab_i t) y
        else if v = CAP_IAB_INH then r else if v = CAP_IAB_AMB \<and> r then True else vec_isset (iab_i t) y)"
    "\<And>y. y < 64 \<Longrightarrow> vec_isset (iab_a t') y = (if y \<noteq> b then vec_isset (iab_a t) y
        else if v = CAP_IAB_AMB then r else if v = CAP_IAB_INH \<and> \<not> r then False else vec_isset (iab_a t) y)"
    "\<And>y. y < 64 \<Longrightarrow> vec_isset (iab_nb t') y = (if y \<noteq> b then vec_isset (iab_nb t) y
        else if v = CAP_IAB_BOUND then r else vec_isset (iab_nb t) y)"
proof -
  consider "v = CAP_IAB_INH" | "v = CAP_IAB_AMB" | "v = CAP_IAB_BOUND" using assms(4) by auto
  then show ?thesis
  proof cases
    case 1
    show ?thesis
      apply (rule iab_set_vector_inh [OF assms(1-3), of r])
      subgoal for t'
        by (rule that [of t']) (use 1 assms(2) in \<open>simp_all add: iab_inv_def\<close>)
      done
  next
    case 2
    show ?thesis
      apply (rule iab_set_vector_amb [OF assms(1-3), of r])
      subgoal for t'
        by (rule that [of t']) (use 2 assms(2) in \<open>simp_all add: iab_inv_def\<close>)
      done
  next
    case 3
    show ?thesis
      apply (rule iab_set_vector_bound [OF assms(1,3), of r])
      subgoal for t'
        by (rule that [of t']) (use 3 assms(2) in \<open>simp_all add: iab_inv_def\<close>)
      done
  qed
qed

lemma iab_set_vector_mutex:
  "iab_set_vector v b r (t\<lparr>i_mutex := m\<rparr>) = map_option (\<lambda>t. t\<lparr>i_mutex := m\<rparr>) (iab_set_vector v b r t)"
  by (simp add: iab_set_vector_def Let_def)

lemma cap_iab_set_vector_exec:
  assumes "iab_ready w p t" "0 \<le> b" "b < max_bits w" "r \<le> 1" "iab_set_vector v (nat b) (r \<noteq> 0) t = Some t'"
  shows "cap_iab_set_vector p v b r w = Some (0, put_obj p (CapIab (t'\<lparr>i_mutex := 0\<rparr>)) w)"
proof -
  have "drop_bit 1 r = 0" using assms(4) by (simp add: drop_bit_eq_div)
  with assms iab_readyD [OF assms(1)] show ?thesis
    by (simp add: cap_iab_set_vector_def libcap_exec iab_set_vector_mutex)
qed

lemma vec_2_isset:
  "y < 64 \<Longrightarrow> vec_isset [a, b] y \<longleftrightarrow> (if y < 32 then bit a y else bit b (y - 32))"
proof -
  assume "y < 64"
  then have "y div 32 = (if y < 32 then 0 else 1)" "y mod 32 = (if y < 32 then y else y - 32)"
    by (auto simp: mod_if)
  then show ?thesis by (simp add: vec_isset_bit)
qed

lemma isset_flat_split:
  "y < 64 \<Longrightarrow> isset_cap c y s \<longleftrightarrow> (if y < 32 then bit (flat c 0 s) y else bit (flat c 1 s) (y - 32))"
proof -
  assume "y < 64"
  then have "y div 32 = (if y < 32 then 0 else 1)" "y mod 32 = (if y < 32 then y else y - 32)"
    by (auto simp: mod_if)
  then show ?thesis by (simp add: isset_cap_bit)
qed

text \<open>The two turns of the loop of \<^verbatim>\<open>cap_iab_fill\<close>, read bit by bit.\<close>

lemma iab_fill_steps:
  assumes "wf_iab t" "v \<in> {CAP_IAB_INH, CAP_IAB_AMB, CAP_IAB_BOUND}"
  obtains t1 t2 where "iab_fill_step v c f 0 t = Some t1" "iab_fill_step v c f 1 t1 = Some t2"
    "wf_iab t2" "i_mutex t2 = i_mutex t"
    "\<And>y. y < 64 \<Longrightarrow> vec_isset (iab_i t2) y =
        (if v = CAP_IAB_INH then isset_cap c y f
         else if v = CAP_IAB_AMB then vec_isset (iab_i t) y \<or> isset_cap c y f else vec_isset (iab_i t) y)"
    "\<And>y. y < 64 \<Longrightarrow> vec_isset (iab_a t2) y =
        (if v = CAP_IAB_INH then vec_isset (iab_a t) y \<and> isset_cap c y f
         else if v = CAP_IAB_AMB then isset_cap c y f else vec_isset (iab_a t) y)"
    "\<And>y. y < 64 \<Longrightarrow> vec_isset (iab_nb t2) y =
        (if v = CAP_IAB_BOUND then \<not> isset_cap c y f else vec_isset (iab_nb t) y)"
proof -
  obtain i0 i1 a0 a1 n0 n1 where t: "iab_i t = [i0, i1]" "iab_a t = [a0, a1]" "iab_nb t = [n0, n1]"
    using assms(1) by (metis length_2_conv wf_iab_def)
  note bits = vec_2_isset isset_flat_split bit_and_iff bit_or_iff bit_not_iff
  consider "v = CAP_IAB_INH" | "v = CAP_IAB_AMB" | "v = CAP_IAB_BOUND" using assms(2) by auto
  then show ?thesis
  proof cases
    case 1
    show ?thesis
      by (rule that [of "t\<lparr>iab_i := [flat c 0 f, i1], iab_a := [a0 AND flat c 0 f, a1]\<rparr>"
            "t\<lparr>iab_i := [flat c 0 f, flat c 1 f], iab_a := [a0 AND flat c 0 f, a1 AND flat c 1 f]\<rparr>"])
        (use 1 t assms(1) in \<open>simp_all add: iab_fill_step_def Let_def bits\<close>)
  next
    case 2
    show ?thesis
      by (rule that [of "t\<lparr>iab_a := [flat c 0 f, a1], iab_i := [i0 OR flat c 0 f, i1]\<rparr>"
            "t\<lparr>iab_a := [flat c 0 f, flat c 1 f], iab_i := [i0 OR flat c 0 f, i1 OR flat c 1 f]\<rparr>"])
        (use 2 t assms(1) in \<open>simp_all add: iab_fill_step_def bits\<close>)
  next
    case 3
    show ?thesis
      by (rule that [of "t\<lparr>iab_nb := [NOT (flat c 0 f), n1]\<rparr>" "t\<lparr>iab_nb := [NOT (flat c 0 f), NOT (flat c 1 f)]\<rparr>"])
        (use 3 t assms(1) in \<open>auto simp: iab_fill_step_def bits\<close>)
  qed
qed

lemma iab_fill_step_mutex:
  "iab_fill_step v c f i (t\<lparr>i_mutex := m\<rparr>) = map_option (\<lambda>t. t\<lparr>i_mutex := m\<rparr>) (iab_fill_step v c f i t)"
  by (simp add: iab_fill_step_def Let_def)

lemma iab_compare_loop_eq_0:
  assumes "wf_iab a" "wf_iab b"
  shows "iab_compare_loop a b = 0 \<longleftrightarrow> iab_i a = iab_i b \<and> iab_a a = iab_a b \<and> iab_nb a = iab_nb b"
proof -
  obtain i0 i1 a0 a1 n0 n1 where a: "iab_i a = [i0, i1]" "iab_a a = [a0, a1]" "iab_nb a = [n0, n1]"
    using assms(1) by (metis length_2_conv wf_iab_def)
  obtain j0 j1 b0 b1 m0 m1 where b: "iab_i b = [j0, j1]" "iab_a b = [b0, b1]" "iab_nb b = [m0, m1]"
    using assms(2) by (metis length_2_conv wf_iab_def)
  show ?thesis
    by (simp add: iab_compare_loop_def a b or_eq_0_iff)
qed

context capget_abi
begin

lemma cap_iab_fill_exec:
  assumes "iab_ready w p t" "cap_ready w q c" "alloc_ok w" "f \<in> {0, 1, 2}"
    and steps: "iab_fill_step v c (nat f) 0 t = Some t1" "iab_fill_step v c (nat f) 1 t1 = Some t2"
  shows "cap_iab_fill K p v q f w = Some (0, put_obj p (CapIab (t2\<lparr>i_mutex := 0\<rparr>)) (bumped w))"
  using iab_readyD [OF assms(1)] cap_readyD [OF assms(2)] assms(3,4) steps wf_fresh [of w]
  by (auto simp: cap_iab_fill_def cap_dup_ok libcap_exec del_new put_new_commute iab_fill_step_mutex)

end

section \<open>Properties\<close>

text \<open>
  C1: \<^verbatim>\<open>cap_set_flag\<close> with valid arguments succeeds, releases the mutex, and sets or
  clears exactly the listed capabilities (those in range) of exactly the named flag: every other
  bit of the three sets, the header and the namespace owner are untouched.
\<close>

theorem cap_set_flag_spec:
  assumes "cap_ready w p c" "0 < n" "n < 64" "nat n \<le> length vs" "s < 3" "r = CAP_SET \<or> r = CAP_CLEAR"
  shows "\<exists>c'. cap_set_flag p (int s) n vs r w = Some (0, put_obj p (CapSet c') w)
     \<and> cap_ready (put_obj p (CapSet c') w) p c' \<and> c_head c' = c_head c \<and> c_rootid c' = c_rootid c
     \<and> (\<forall>t < 3. \<forall>x < 64. isset_cap c' x t =
          (if t = s \<and> int x \<in> set (take (nat n) vs) then r = CAP_SET else isset_cap c x t))"
proof -
  let ?c = "set_flag_loop (take (nat n) vs) s r c"
  have "cap_set_flag p (int s) n vs r w = Some (0, put_obj p (CapSet ?c) w)"
    using cap_set_flag_exec [OF assms(1-4), of "int s" r] assms(5,6) by simp
  moreover have "cap_ready (put_obj p (CapSet ?c) w) p ?c"
    using cap_readyD [OF assms(1)] by (intro cap_ready_put [OF assms(1)]) simp_all
  ultimately show ?thesis
    using isset_set_flag_loop [OF cap_readyD(4) [OF assms(1)] assms(5) _ _ assms(6)] by auto
qed

definition demo_cap :: cap_struct where
  "demo_cap = zero_cap LINUX_CAPABILITY_VERSION_3"

definition demo_world :: "linux world" where
  "demo_world = with_obj (CapSet demo_cap) (machine plain_linux)"

lemma demo_ready: "cap_ready demo_world 24 demo_cap"
  by (simp add: cap_ready_def demo_world_def demo_cap_def wf_with_obj)

theorem cap_set_flag_spec_witness:
  "\<exists>c'. cap_set_flag 24 1 2 [3, 40] CAP_SET demo_world = Some (0, put_obj 24 (CapSet c') demo_world)
     \<and> isset_cap c' 40 CAP_PERMITTED \<and> \<not> isset_cap c' 4 CAP_PERMITTED"
proof -
  have z: "\<not> isset_cap demo_cap 4 CAP_PERMITTED" by (simp add: demo_cap_def)
  show ?thesis
    using cap_set_flag_spec [OF demo_ready, of 2 "[3, 40]" CAP_PERMITTED CAP_SET] z by fastforce
qed

text \<open>
  Reading a flag back: after a successful \<^verbatim>\<open>cap_set_flag\<close> of one capability,
  \<^verbatim>\<open>cap_get_flag\<close> reports for every capability and every flag the value just written or
  the value it had before.
\<close>

theorem cap_get_flag_after_set:
  assumes "cap_ready w p c" "s < 3" "t < 3" "x < 64" "y < 64" "r = CAP_SET \<or> r = CAP_CLEAR"
  shows "\<exists>w'. cap_set_flag p (int s) 1 [int x] r w = Some (0, w')
     \<and> cap_get_flag p (int y) (int t) True w' =
         Some ((0, if s = t \<and> x = y then Some r
                   else snd (fst (the (cap_get_flag p (int y) (int t) True w)))), w')"
proof -
  let ?c = "set_flag_loop [int x] s r c"
  have set: "cap_set_flag p (int s) 1 [int x] r w = Some (0, put_obj p (CapSet ?c) w)"
    using cap_set_flag_exec [OF assms(1), of 1 "[int x]" "int s" r] assms by simp
  have ready: "cap_ready (put_obj p (CapSet ?c) w) p ?c"
    using cap_readyD [OF assms(1)] by (intro cap_ready_put [OF assms(1)]) simp_all
  have get: "cap_get_flag p (int y) (int t) True (put_obj p (CapSet ?c) w) =
      Some ((0, Some (if isset_cap ?c y t then CAP_SET else CAP_CLEAR)), put_obj p (CapSet ?c) w)"
    using cap_get_flag_exec [OF ready, of "int y" "int t"] assms by simp
  have get0: "cap_get_flag p (int y) (int t) True w =
      Some ((0, Some (if isset_cap c y t then CAP_SET else CAP_CLEAR)), w)"
    using cap_get_flag_exec [OF assms(1), of "int y" "int t"] assms by simp
  show ?thesis
    using set get get0 isset_set_flag_loop [OF cap_readyD(4) [OF assms(1)] assms(2,5,3,6), of "[int x]"] assms(6)
    by (auto simp del: set_flag_loop.simps)
qed

theorem cap_get_flag_after_set_witness:
  "\<exists>w'. cap_set_flag 24 0 1 [21] CAP_SET demo_world = Some (0, w')
     \<and> cap_get_flag 24 21 0 True w' = Some ((0, Some CAP_SET), w')"
  using cap_get_flag_after_set [OF demo_ready, of 0 0 21 21 CAP_SET] by simp

text \<open>
  C2: \<^verbatim>\<open>cap_compare\<close> decides equality flag by flag: bit \<open>s\<close> of its result is set
  exactly when the two objects differ in flag \<open>s\<close>, the result is 0 exactly when all three
  sets are equal.  The private copy it takes is released again, no lock stays held, and the call
  returns even when both arguments are the same object.
\<close>

theorem cap_compare_spec:
  assumes "capget_abi K" "cap_ready w p a" "cap_ready w q b" "alloc_ok w"
  shows "\<exists>r. cap_compare K p q w = Some (r, bumped w)
     \<and> (\<forall>s < 3. CAP_DIFFERS r s = (\<exists>x < 64. isset_cap a x s \<noteq> isset_cap b x s))
     \<and> (r = 0 \<longleftrightarrow> c_u a = c_u b)"
  using capget_abi.cap_compare_exec [OF assms] compare_loop_differs compare_loop_eq_0
    cap_readyD(4) [OF assms(2)] cap_readyD(4) [OF assms(3)] by blast

theorem cap_compare_spec_witness:
  "\<exists>r. cap_compare linux_kernel 24 24 demo_world = Some (r, bumped demo_world) \<and> r = 0"
  using cap_compare_spec [OF linux.capget_abi_axioms demo_ready demo_ready]
  by (auto simp: demo_world_def)

text \<open>
  \<^verbatim>\<open>cap_fill\<close> copies one flag of a set over another flag of the same set, although
  source and destination are the same locked object: the call returns, the destination flag
  equals the source flag, everything else is unchanged, and the temporary copy is released.
\<close>

theorem cap_fill_spec:
  assumes "capget_abi K" "cap_ready w p c" "alloc_ok w" "s < 3" "f < 3"
  shows "\<exists>c'. cap_fill K p (int s) (int f) w = Some (0, put_obj p (CapSet c') (bumped w))
     \<and> c_mutex c' = 0 \<and> wf_cap c' \<and> c_head c' = c_head c \<and> c_rootid c' = c_rootid c
     \<and> (\<forall>t < 3. \<forall>x < 64. isset_cap c' x t = isset_cap c x (if t = s then f else t))"
proof -
  have "cap_fill K p (int s) (int f) w = Some (0, put_obj p (CapSet (fill_flag_loop s c f c)) (bumped w))"
    using capget_abi.cap_fill_flag_exec [OF assms(1,2,2,3), of "int s" "int f"] assms(4,5)
    by (simp add: cap_fill_def)
  then show ?thesis
    using cap_readyD [OF assms(2)] assms(4,5) by (intro exI [of _ "fill_flag_loop s c f c"]) simp
qed

theorem cap_fill_spec_witness:
  "\<exists>c'. cap_fill linux_kernel 24 0 1 demo_world = Some (0, put_obj 24 (CapSet c') (bumped demo_world)) \<and> wf_cap c'"
proof -
  have "alloc_ok demo_world" by (simp add: demo_world_def)
  from cap_fill_spec [OF linux.capget_abi_axioms demo_ready this, of 0 1] show ?thesis by auto
qed

text \<open>
  Every operation on capability sets refuses NULL and objects of another kind: it
  returns \<open>-1\<close>, sets \<^verbatim>\<open>errno\<close> to \<^verbatim>\<open>EINVAL\<close> and changes nothing else.
\<close>

theorem cap_flag_rejects_bad_object:
  assumes "p = NULL \<or> (\<exists>ob. obj_at w p = Some ob \<and> (\<forall>c. ob \<noteq> CapSet c))"
  shows "cap_get_flag p v s True w = Some ((- 1, None), w\<lparr>errno := EINVAL\<rparr>)
     \<and> cap_set_flag p s n vs r w = Some (- 1, w\<lparr>errno := EINVAL\<rparr>)
     \<and> cap_clear p w = Some (- 1, w\<lparr>errno := EINVAL\<rparr>)
     \<and> cap_clear_flag p s w = Some (- 1, w\<lparr>errno := EINVAL\<rparr>)
     \<and> cap_compare K p q w = Some (- 1, w\<lparr>errno := EINVAL\<rparr>)
     \<and> cap_fill_flag K p s q f w = Some (- 1, w\<lparr>errno := EINVAL\<rparr>)"
proof -
  have "good_cap_t p w = Some False"
  proof (cases "p = 0")
    case False
    with assms obtain ob where ob: "obj_at w p = Some ob" "\<forall>c. ob \<noteq> CapSet c" by auto
    with False show ?thesis by (cases ob) (simp_all add: good_cap_t_obj)
  qed simp
  then show ?thesis
    by (simp add: cap_get_flag_def cap_set_flag_def cap_clear_def cap_clear_flag_def
        cap_compare_def cap_fill_flag_def)
qed

theorem cap_flag_rejects_bad_object_witness:
  "cap_clear NULL demo_world = Some (- 1, demo_world\<lparr>errno := EINVAL\<rparr>)"
  using cap_flag_rejects_bad_object [of NULL demo_world] by blast

text \<open>
  C3: \<^verbatim>\<open>cap_iab_set_vector\<close> keeps the invariant that ambient bits are inheritable:
  raising an ambient bit raises the inheritable one, lowering an inheritable bit lowers the
  ambient one, the bounding vector is independent, and no other bit changes.
\<close>

theorem cap_iab_set_vector_spec:
  assumes "iab_ready w p t" "iab_inv t" "b < 64" "int b < max_bits w" "r \<le> 1"
    "v \<in> {CAP_IAB_INH, CAP_IAB_AMB, CAP_IAB_BOUND}"
  shows "\<exists>t'. cap_iab_set_vector p v (int b) r w = Some (0, put_obj p (CapIab t') w)
     \<and> wf_iab t' \<and> i_mutex t' = 0 \<and> iab_inv t'
     \<and> (\<forall>y < 64. y \<noteq> b \<longrightarrow> vec_isset (iab_i t') y = vec_isset (iab_i t) y
          \<and> vec_isset (iab_a t') y = vec_isset (iab_a t) y \<and> vec_isset (iab_nb t') y = vec_isset (iab_nb t) y)
     \<and> vec_isset (iab_i t') b = (if v = CAP_IAB_INH then r = 1 else if v = CAP_IAB_AMB \<and> r = 1 then True else vec_isset (iab_i t) b)
     \<and> vec_isset (iab_a t') b = (if v = CAP_IAB_AMB then r = 1 else if v = CAP_IAB_INH \<and> r = 0 then False else vec_isset (iab_a t) b)
     \<and> vec_isset (iab_nb t') b = (if v = CAP_IAB_BOUND then r = 1 else vec_isset (iab_nb t) b)"
proof -
  note t = iab_readyD [OF assms(1)]
  have r: "r = 0 \<or> r = 1" using assms(5) by auto
  have exec: "cap_iab_set_vector p v (int b) r w = Some (0, put_obj p (CapIab t') w)"
    if "iab_set_vector v b (r \<noteq> 0) t = Some t'" "i_mutex t' = i_mutex t" for t'
    using cap_iab_set_vector_exec [OF assms(1) _ assms(4,5), of v t'] that t by simp
  obtain t' where t': "iab_set_vector v b (r \<noteq> 0) t = Some t'" "wf_iab t'" "i_mutex t' = i_mutex t" "iab_inv t'"
    and bits: "\<And>y. y < 64 \<Longrightarrow> vec_isset (iab_i t') y = (if y \<noteq> b then vec_isset (iab_i t) y
        else if v = CAP_IAB_INH then r \<noteq> 0 else if v = CAP_IAB_AMB \<and> r \<noteq> 0 then True else vec_isset (iab_i t) y)"
      "\<And>y. y < 64 \<Longrightarrow> vec_isset (iab_a t') y = (if y \<noteq> b then vec_isset (iab_a t) y
        else if v = CAP_IAB_AMB then r \<noteq> 0 else if v = CAP_IAB_INH \<and> r = 0 then False else vec_isset (iab_a t) y)"
      "\<And>y. y < 64 \<Longrightarrow> vec_isset (iab_nb t') y = (if y \<noteq> b then vec_isset (iab_nb t) y
        else if v = CAP_IAB_BOUND then r \<noteq> 0 else vec_isset (iab_nb t) y)"
    by (rule iab_set_vector_bits [OF t(4) assms(2,3,6), of "r \<noteq> 0"]) auto
  from exec [OF t'(1,3)] t' t(2) bits assms(3) r show ?thesis
    by (intro exI [of _ t']) auto
qed

definition demo_iab_world :: "linux world" where
  "demo_iab_world = with_obj (CapIab zero_iab) (machine plain_linux)"

lemma demo_iab_ready: "iab_ready demo_iab_world 24 zero_iab"
  by (simp add: iab_ready_def demo_iab_world_def wf_with_obj) (simp add: zero_iab_def)

lemma iab_inv_zero: "iab_inv zero_iab"
  by (simp add: iab_inv_def zero_iab_def vec_2_isset)

theorem cap_iab_set_vector_spec_witness:
  "\<exists>t'. cap_iab_set_vector 24 CAP_IAB_AMB 12 1 demo_iab_world = Some (0, put_obj 24 (CapIab t') demo_iab_world)
     \<and> iab_inv t' \<and> vec_isset (iab_i t') 12"
proof -
  have "(12 :: nat) < 64" "int 12 < max_bits demo_iab_world" "(1 :: nat) \<le> 1"
    "CAP_IAB_AMB \<in> {CAP_IAB_INH, CAP_IAB_AMB, CAP_IAB_BOUND}"
    by (simp_all add: demo_iab_world_def)
  from cap_iab_set_vector_spec [OF demo_iab_ready iab_inv_zero this] show ?thesis by auto
qed

text \<open>
  \<^verbatim>\<open>cap_iab_fill\<close> copies a flag of a capability set into a vector of a tuple
  (complemented for the bounding vector) and keeps the invariant: filling I masks A, filling A
  raises I.
\<close>

theorem cap_iab_fill_spec:
  assumes "capget_abi K" "iab_ready w p t" "cap_ready w q c" "alloc_ok w" "f < 3" "iab_inv t"
    "v \<in> {CAP_IAB_INH, CAP_IAB_AMB, CAP_IAB_BOUND}"
  shows "\<exists>t'. cap_iab_fill K p v q (int f) w = Some (0, put_obj p (CapIab t') (bumped w))
     \<and> wf_iab t' \<and> i_mutex t' = 0 \<and> iab_inv t'
     \<and> (\<forall>y < 64. (v = CAP_IAB_INH \<longrightarrow> vec_isset (iab_i t') y = isset_cap c y f)
          \<and> (v = CAP_IAB_AMB \<longrightarrow> vec_isset (iab_a t') y = isset_cap c y f)
          \<and> vec_isset (iab_nb t') y = (if v = CAP_IAB_BOUND then \<not> isset_cap c y f else vec_isset (iab_nb t) y))"
proof -
  note t = iab_readyD [OF assms(2)]
  obtain t1 t2 where s: "iab_fill_step v c f 0 t = Some t1" "iab_fill_step v c f 1 t1 = Some t2"
    and wf: "wf_iab t2" "i_mutex t2 = i_mutex t"
    and bits: "\<And>y. y < 64 \<Longrightarrow> vec_isset (iab_i t2) y =
        (if v = CAP_IAB_INH then isset_cap c y f
         else if v = CAP_IAB_AMB then vec_isset (iab_i t) y \<or> isset_cap c y f else vec_isset (iab_i t) y)"
      "\<And>y. y < 64 \<Longrightarrow> vec_isset (iab_a t2) y =
        (if v = CAP_IAB_INH then vec_isset (iab_a t) y \<and> isset_cap c y f
         else if v = CAP_IAB_AMB then isset_cap c y f else vec_isset (iab_a t) y)"
      "\<And>y. y < 64 \<Longrightarrow> vec_isset (iab_nb t2) y =
        (if v = CAP_IAB_BOUND then \<not> isset_cap c y f else vec_isset (iab_nb t) y)"
    by (rule iab_fill_steps [OF t(4) assms(7), of c f]) blast
  have f: "int f \<in> {0, 1, 2}" using assms(5) by auto
  have "cap_iab_fill K p v q (int f) w = Some (0, put_obj p (CapIab t2) (bumped w))"
    using capget_abi.cap_iab_fill_exec [OF assms(1-4) f, of v t1 t2] s wf t by simp
  moreover have "iab_inv t2" using assms(6) bits by (auto simp: iab_inv_def)
  ultimately show ?thesis using wf t bits by (intro exI [of _ t2]) auto
qed

definition demo_pair_world :: "linux world" where
  "demo_pair_world = with_obj (CapIab zero_iab) demo_world"

lemma demo_pair_ready: "cap_ready demo_pair_world 24 demo_cap" "iab_ready demo_pair_world 40 zero_iab"
  "alloc_ok demo_pair_world"
  by (simp_all add: demo_pair_world_def demo_world_def cap_ready_def iab_ready_def wf_with_obj demo_cap_def)
    (simp add: zero_iab_def)

theorem cap_iab_fill_spec_witness:
  "\<exists>t'. cap_iab_fill linux_kernel 40 CAP_IAB_BOUND 24 2 demo_pair_world =
          Some (0, put_obj 40 (CapIab t') (bumped demo_pair_world)) \<and> vec_isset (iab_nb t') 5"
proof -
  have "(2 :: nat) < 3" "CAP_IAB_BOUND \<in> {CAP_IAB_INH, CAP_IAB_AMB, CAP_IAB_BOUND}" by simp_all
  from cap_iab_fill_spec [OF linux.capget_abi_axioms demo_pair_ready(2,1,3) this(1) iab_inv_zero this(2)]
  show ?thesis by (fastforce simp: demo_cap_def)
qed

end
