(* ===== verification/Cap_Extint.thy ===== *)
theory Cap_Extint
  imports Cap_Flag
begin

text \<open>
  \<^verbatim>\<open>libcap/cap_extint.c\<close>: the portable external representation.  A buffer of the caller
  is a list of bytes (\<^const>\<open>None\<close> for a NULL pointer); reading or writing outside it is
  undefined in C and has no result in the model.  \<^verbatim>\<open>struct cap_ext_struct\<close> is the magic
  number (4 bytes), the length of a set (1 byte) and \<^verbatim>\<open>bytes[CAP_SET_SIZE][3]\<close>, so that
  byte \<open>j\<close> of set \<open>i\<close> is at offset \<open>5 + 3 * j + i\<close>.
\<close>

section \<open>Definitions\<close>

definition external_magic :: "u8 list" where "external_magic = [0x90, 0xC2, 0x01, 0x51]"

abbreviation (input) CAP_EXT_MAGIC_SIZE :: nat where "CAP_EXT_MAGIC_SIZE \<equiv> 4"

definition sizeof_cap_ext_struct :: nat where
  "sizeof_cap_ext_struct = CAP_EXT_MAGIC_SIZE + 1 + CAP_SET_SIZE * NUMBER_OF_CAP_SETS"

definition libcap_min_ext_flag_size :: nat where
  "libcap_min_ext_flag_size = (if CAP_SET_SIZE < (8 :: nat) then CAP_SET_SIZE else 8)"

definition cap_size_step :: "cap_struct \<Rightarrow> nat \<Rightarrow> nat \<Rightarrow> nat" where
  "cap_size_step c blk used =
     (let j = 4 * blk; val = fold (\<lambda>i v. v OR flat c blk i) [0..<NUMBER_OF_CAP_SETS] 0 in
      if val = 0 then used
      else if val > 0x0000ffff then (if val > 0x00ffffff then j + 4 else j + 3)
      else if val > 0x000000ff then j + 2
      else j + 1)"

definition cap_size_locked :: "cap_struct \<Rightarrow> nat" where
  "cap_size_locked c =
     (let used = fold (cap_size_step c) [0..<CAP_BLKS] 0;
          used = (if used < libcap_min_ext_flag_size then libcap_min_ext_flag_size else used)
      in CAP_EXT_MAGIC_SIZE + 1 + NUMBER_OF_CAP_SETS * used)"

definition cap_size :: "addr \<Rightarrow> 'k world \<Rightarrow> (int \<times> 'k world) option" where
  "cap_size cap_d w = do {
     good \<leftarrow> good_cap_t cap_d w;
     if \<not> good then Some (int sizeof_cap_ext_struct, w)
     else do {
       w \<leftarrow> cap_mu_lock cap_d w;
       c \<leftarrow> get_cap cap_d w;
       w \<leftarrow> cap_mu_unlock cap_d w;
       Some (int (cap_size_locked c), w) } }"

text \<open>\<^verbatim>\<open>result->bytes[j][i] = b\<close>\<close>

definition put_byte :: "nat \<Rightarrow> nat \<Rightarrow> u32 \<Rightarrow> u8 list \<Rightarrow> u8 list" where
  "put_byte j i v buf = buf[5 + 3 * j + i := ucast (v AND 0xFF)]"

function ext_fill :: "cap_struct \<Rightarrow> nat \<Rightarrow> nat \<Rightarrow> nat \<Rightarrow> u8 list \<Rightarrow> u8 list" where
  "ext_fill c i len_set j buf =
     (if j < len_set then
        (let val = flat c (j div 4) i;
             buf = put_byte j i val buf; j1 = j + 1;
             (buf, j2, val) = (if j1 < len_set then (put_byte j1 i (drop_bit 8 val) buf, j1 + 1, drop_bit 8 val)
                               else (buf, j1, val));
             (buf, j3, val) = (if j2 < len_set then (put_byte j2 i (drop_bit 8 val) buf, j2 + 1, drop_bit 8 val)
                               else (buf, j2, val));
             (buf, j4) = (if j3 < len_set then (put_byte j3 i (drop_bit 8 val) buf, j3 + 1) else (buf, j3))
         in ext_fill c i len_set j4 buf)
      else buf)"
  by pat_completeness auto
termination
  by (relation "measure (\<lambda>(c, i, n, j, buf). n - j)") (auto split: if_splits)

declare ext_fill.simps [simp del]

definition cap_copy_ext ::
  "u8 list option \<Rightarrow> addr \<Rightarrow> int \<Rightarrow> 'k world \<Rightarrow> ((int \<times> u8 list option) \<times> 'k world) option" where
  "cap_copy_ext cap_ext cap_d len w = do {
     good \<leftarrow> good_cap_t cap_d w;
     (case (if good then cap_ext else None) of
        None \<Rightarrow> Some ((- 1, cap_ext), w\<lparr>errno := EINVAL\<rparr>)
      | Some buf \<Rightarrow> do {
          w \<leftarrow> cap_mu_lock cap_d w;
          c \<leftarrow> get_cap cap_d w;
          (let csz = cap_size_locked c in
           if int csz > len then do {
             w \<leftarrow> cap_mu_unlock cap_d (w\<lparr>errno := EINVAL\<rparr>);
             Some ((- 1, cap_ext), w) }
           else
             (let len_set = (csz - (CAP_EXT_MAGIC_SIZE + 1)) div NUMBER_OF_CAP_SETS in
              if length buf < 5 + 3 * len_set then None
              else
                (let buf = external_magic @ [of_nat len_set] @ drop 5 buf;
                     buf = fold (\<lambda>i. ext_fill c i len_set 0) [0..<NUMBER_OF_CAP_SETS] buf
                 in do {
                   w \<leftarrow> cap_mu_unlock cap_d w;
                   Some ((int csz, Some buf), w) }))) }) }"

definition read_byte :: "u8 list \<Rightarrow> nat \<Rightarrow> u8 option" where
  "read_byte buf k = (if k < length buf then Some (buf ! k) else None)"

text \<open>
  One block of one set: up to four bytes, least significant first, until \<^verbatim>\<open>bno\<close> reaches
  the length of the exported set.
\<close>

definition int_byte :: "u8 list \<Rightarrow> nat \<Rightarrow> nat \<Rightarrow> nat \<Rightarrow> u32 \<times> nat \<Rightarrow> (u32 \<times> nat) option" where
  "int_byte buf cset blen sh vb =
     (if snd vb \<noteq> blen then
        map_option (\<lambda>b. (fst vb OR push_bit sh (ucast b), Suc (snd vb))) (read_byte buf (5 + 3 * snd vb + cset))
      else Some vb)"

definition int_block :: "u8 list \<Rightarrow> nat \<Rightarrow> nat \<Rightarrow> nat \<Rightarrow> (u32 \<times> nat) option" where
  "int_block buf cset blen bno = do {
     vb \<leftarrow> int_byte buf cset blen 0 (0, bno);
     vb \<leftarrow> int_byte buf cset blen 8 vb;
     vb \<leftarrow> int_byte buf cset blen 16 vb;
     int_byte buf cset blen 24 vb }"

definition int_set :: "u8 list \<Rightarrow> nat \<Rightarrow> nat \<Rightarrow> cap_struct \<Rightarrow> cap_struct option" where
  "int_set buf blen cset c = do {
     (v0, bno) \<leftarrow> int_block buf cset blen 0;
     (v1, bno) \<leftarrow> int_block buf cset blen bno;
     Some (set_flat 1 cset v1 (set_flat 0 cset v0 c)) }"

definition cap_copy_int :: "'k kernel \<Rightarrow> u8 list option \<Rightarrow> 'k world \<Rightarrow> (addr \<times> 'k world) option" where
  "cap_copy_int K cap_ext w =
     (case cap_ext of
        None \<Rightarrow> Some (NULL, w\<lparr>errno := EINVAL\<rparr>)
      | Some buf \<Rightarrow>
          if length buf < CAP_EXT_MAGIC_SIZE then None
          else if take CAP_EXT_MAGIC_SIZE buf \<noteq> external_magic then Some (NULL, w\<lparr>errno := EINVAL\<rparr>)
          else do {
            (cap_d, w) \<leftarrow> cap_init K w;
            if cap_d = NULL then Some (NULL, w)
            else do {
              blen \<leftarrow> read_byte buf 4;
              c \<leftarrow> get_cap cap_d w;
              c \<leftarrow> int_set buf (unat blen) 0 c;
              c \<leftarrow> int_set buf (unat blen) 1 c;
              c \<leftarrow> int_set buf (unat blen) 2 c;
              Some (cap_d, put_obj cap_d (CapSet c) w) } })"

definition cap_copy_int_check :: "'k kernel \<Rightarrow> u8 list option \<Rightarrow> int \<Rightarrow> 'k world \<Rightarrow> (addr \<times> 'k world) option" where
  "cap_copy_int_check K cap_ext len w =
     (if len < 1 + int CAP_EXT_MAGIC_SIZE then Some (NULL, w\<lparr>errno := EINVAL\<rparr>)
      else do {
        buf \<leftarrow> cap_ext;
        blen \<leftarrow> read_byte buf 4;
        if len < 1 + int CAP_EXT_MAGIC_SIZE + int (unat blen) * int NUMBER_OF_CAP_SETS
        then Some (NULL, w\<lparr>errno := EINVAL\<rparr>)
        else cap_copy_int K cap_ext w })"

section \<open>The size of the external form\<close>

lemma cap_size_step_le: "used \<le> 4 * blk \<Longrightarrow> cap_size_step c blk used \<le> 4 * blk + 4"
  by (simp add: cap_size_step_def Let_def)

lemma cap_size_locked_29 [simp]: "cap_size_locked c = 29"
proof -
  have "cap_size_step c 0 0 \<le> 4" using cap_size_step_le [of 0 0 c] by simp
  then have "cap_size_step c 1 (cap_size_step c 0 0) \<le> 8" using cap_size_step_le [of _ 1 c] by simp
  then show ?thesis by (simp add: cap_size_locked_def libcap_min_ext_flag_size_def Let_def)
qed

section \<open>Bytes of a set\<close>

definition set_byte :: "cap_struct \<Rightarrow> nat \<Rightarrow> nat \<Rightarrow> u8" where
  "set_byte c i j = ucast (drop_bit (8 * (j mod 4)) (flat c (j div 4) i) AND 0xFF)"

lemma length_put_byte [simp]: "length (put_byte j i v buf) = length buf"
  by (simp add: put_byte_def)

lemma ext_fill_8:
  "ext_fill c i 8 0 buf = fold (\<lambda>j buf. buf[5 + 3 * j + i := set_byte c i j]) [0..<8] buf"
  by (simp add: ext_fill.simps [of c i 8] Let_def upt_rec numeral_eq_Suc [of num.One]
      put_byte_def set_byte_def)

lemma length_fold_upd [simp]: "length (fold (\<lambda>j buf. buf[g j := f j]) js buf) = length buf"
  by (induction js arbitrary: buf) simp_all

lemma nth_fold_upd_other:
  "k \<notin> g ` set js \<Longrightarrow> fold (\<lambda>j buf. buf[g j := f j]) js buf ! k = buf ! k"
  by (induction js arbitrary: buf) auto

lemma nth_fold_upd:
  "inj_on g (set js) \<Longrightarrow> distinct js \<Longrightarrow> j \<in> set js \<Longrightarrow> g j < length buf \<Longrightarrow>
     fold (\<lambda>j buf. buf[g j := f j]) js buf ! g j = f j"
  by (induction js arbitrary: buf) (auto simp: nth_fold_upd_other)

lemma length_ext_fill_8 [simp]: "length (ext_fill c i 8 0 buf) = length buf"
  by (simp add: ext_fill_8)

lemma ext_fill_8_nth:
  assumes "29 \<le> length buf" "i < 3" "i' < 3" "j < 8"
  shows "ext_fill c i 8 0 buf ! (5 + 3 * j + i') = (if i = i' then set_byte c i j else buf ! (5 + 3 * j + i'))"
proof (cases "i = i'")
  case True
  with assms nth_fold_upd [of "\<lambda>j. 5 + 3 * j + i" "[0..<8]" j buf "set_byte c i"] show ?thesis
    by (simp add: ext_fill_8 inj_on_def)
next
  case False
  have "5 + 3 * j + i' \<notin> (\<lambda>j. 5 + 3 * j + i) ` set [0..<8]"
  proof
    assume "5 + 3 * j + i' \<in> (\<lambda>j. 5 + 3 * j + i) ` set [0..<8]"
    then obtain n where "3 * j + i' = 3 * n + i" by auto
    with assms False show False by presburger
  qed
  with False show ?thesis by (simp add: ext_fill_8 nth_fold_upd_other)
qed

lemma ext_fill_8_head:
  assumes "k < 5"
  shows "ext_fill c i 8 0 buf ! k = buf ! k"
  using assms by (auto simp: ext_fill_8 intro!: nth_fold_upd_other)

text \<open>The buffer \<^verbatim>\<open>cap_copy_ext\<close> leaves behind.\<close>

definition ext_image :: "cap_struct \<Rightarrow> u8 list \<Rightarrow> u8 list" where
  "ext_image c buf = fold (\<lambda>i. ext_fill c i 8 0) [0..<3] (external_magic @ [8] @ drop 5 buf)"

lemma length_external_magic [simp]: "length external_magic = 4"
  by (simp add: external_magic_def)

lemma upt_3: "[0..<3] = [0, 1, 2]"
  by (simp add: upt_rec)

lemma length_ext_image [simp]: "29 \<le> length buf \<Longrightarrow> length (ext_image c buf) = length buf"
  by (simp add: ext_image_def upt_3)

lemma ext_image_nth:
  assumes "29 \<le> length buf" "i < 3" "j < 8"
  shows "ext_image c buf ! (5 + 3 * j + i) = set_byte c i j"
proof -
  have "set_byte c 0 j = set_byte c i j" if "Suc 0 \<noteq> i" "i \<noteq> 2"
    using assms(2) that by (cases "i = 0") auto
  with assms show ?thesis by (auto simp: ext_image_def upt_3 ext_fill_8_nth)
qed

lemma ext_image_head:
  assumes "29 \<le> length buf"
  shows "take 4 (ext_image c buf) = external_magic" "ext_image c buf ! 4 = 8"
proof -
  have nth: "ext_image c buf ! k = (external_magic @ [8]) ! k" if "k < 5" for k
    using that by (simp add: ext_image_def upt_3 ext_fill_8_head nth_append)
  show "take 4 (ext_image c buf) = external_magic"
    using assms by (intro nth_equalityI) (simp_all add: nth nth_append)
  show "ext_image c buf ! 4 = 8" by (simp add: nth nth_append)
qed

section \<open>Reading the external form\<close>

lemma read_byte_in [simp]: "k < length buf \<Longrightarrow> read_byte buf k = Some (buf ! k)"
  by (simp add: read_byte_def)

lemma word32_of_bytes:
  fixes v :: u32
  shows "push_bit 0 (ucast (ucast (v AND 0xFF) :: u8)) OR push_bit 8 (ucast (ucast (drop_bit 8 v AND 0xFF) :: u8))
           OR push_bit 16 (ucast (ucast (drop_bit 16 v AND 0xFF) :: u8))
           OR push_bit 24 (ucast (ucast (drop_bit 24 v AND 0xFF) :: u8)) = v" (is "?l = v")
proof (rule word32_eqI)
  fix n :: nat
  assume n: "n < 32"
  have FF: "(0xFF :: u32) = Bit_Operations.mask 8" by (simp add: mask_eq_exp_minus_1)
  have *: "bit (push_bit k (ucast (ucast (u AND 0xFF) :: u8)) :: u32) n \<longleftrightarrow> k \<le> n \<and> n < k + 8 \<and> bit u (n - k)"
    for u :: u32 and k
    using n unfolding FF by (auto simp: bit_simps)
  show "bit ?l n = bit v n"
    using n by (simp only: bit_or_iff *) (cases "n < 8"; cases "n < 16"; cases "n < 24"; simp add: bit_drop_bit_eq)
qed

lemma int_block_image:
  assumes "29 \<le> length buf" "i < 3" "b < 2"
  shows "int_block (ext_image c buf) i 8 (4 * b) = Some (flat c b i, 4 * b + 4)"
proof -
  have rd: "read_byte (ext_image c buf) (5 + 3 * j + i) = Some (set_byte c i j)" if "j < 8" for j
    using assms that ext_image_nth [OF assms(1,2) that] by simp
  have "b = 0 \<or> b = 1" using assms(3) by auto
  then show ?thesis
    using rd [of 0] rd [of 1] rd [of 2] rd [of 3] rd [of 4] rd [of 5] rd [of 6] rd [of 7]
      word32_of_bytes [of "flat c b i"]
    by (elim disjE) (simp_all add: int_block_def int_byte_def set_byte_def or.assoc)
qed

lemma int_set_image:
  assumes "29 \<le> length buf" "i < 3"
  shows "int_set (ext_image c buf) 8 i d = Some (set_flat 1 i (flat c 1 i) (set_flat 0 i (flat c 0 i) d))"
  using int_block_image [OF assms, of 0 c] int_block_image [OF assms, of 1 c] by (simp add: int_set_def)

lemma ext_fill_mutex [simp]: "ext_fill (c\<lparr>c_mutex := m\<rparr>) i 8 0 = ext_fill c i 8 0"
  by (rule ext) (simp add: ext_fill_8 set_byte_def)

lemma cap_copy_ext_exec [libcap_exec]:
  assumes "cap_ready w p c" "29 \<le> len" "29 \<le> length buf"
  shows "cap_copy_ext (Some buf) p len w = Some ((29, Some (ext_image c buf)), w)"
proof -
  show ?thesis
    using assms cap_readyD [OF assms(1)]
    by (simp add: cap_copy_ext_def libcap_exec put_same ext_image_def Let_def)
qed

context capget_abi
begin

lemma cap_copy_int_image:
  assumes "alloc_ok w" "29 \<le> length buf" "wf_cap c"
  shows "\<exists>d. cap_copy_int K (Some (ext_image c buf)) w =
               Some (next_ptr w, new_obj (next_ptr w) sizeof_cap_alloc_s (CapSet d) (bumped w))
             \<and> c_u d = c_u c \<and> wf_cap d \<and> c_mutex d = 0 \<and> c_head d = \<lparr>h_version = LINUX_CAPABILITY_VERSION_3, h_pid = 0\<rparr>"
proof -
  let ?d = "fold (\<lambda>i d. set_flat 1 i (flat c 1 i) (set_flat 0 i (flat c 0 i) d)) [0, 1, 2]
              (zero_cap LINUX_CAPABILITY_VERSION_3)"
  have wf: "wf_cap ?d" by simp
  have "flat ?d b s = flat c b s" if "b < 2" "s < 3" for b s
  proof -
    have "b = 0 \<or> b = 1" "s = 0 \<or> s = 1 \<or> s = 2" using that by auto
    then show ?thesis by (elim disjE) simp_all
  qed
  then have "c_u ?d = c_u c" using wf assms(3) by (intro flat_eqI) auto
  moreover have "cap_copy_int K (Some (ext_image c buf)) w =
               Some (next_ptr w, new_obj (next_ptr w) sizeof_cap_alloc_s (CapSet ?d) (bumped w))"
    using assms ext_image_head [OF assms(2), of c] int_set_image [OF assms(2)]
    by (simp add: cap_copy_int_def cap_init_ok get_cap_def)
  ultimately show ?thesis using wf by (intro exI [of _ ?d]) simp
qed

end

section \<open>Reading stays inside the buffer\<close>

lemma int_byte_safe:
  assumes "5 + 3 * blen \<le> length buf" "i < 3" "snd vb \<le> blen"
  obtains vb' where "int_byte buf i blen sh vb = Some vb'" "snd vb' \<le> blen"
proof -
  have "5 + 3 * snd vb + i < length buf" if "snd vb \<noteq> blen" using assms that by linarith
  then have "\<exists>vb'. int_byte buf i blen sh vb = Some vb' \<and> snd vb' \<le> blen"
    using assms(3) by (cases vb) (simp add: int_byte_def)
  with that show ?thesis by blast
qed

lemma int_block_safe:
  assumes "5 + 3 * blen \<le> length buf" "i < 3" "bno \<le> blen"
  obtains v bno' where "int_block buf i blen bno = Some (v, bno')" "bno' \<le> blen"
proof -
  note step = int_byte_safe [OF assms(1,2)]
  obtain a where a: "int_byte buf i blen 0 (0, bno) = Some a" "snd a \<le> blen"
    using step [of "(0, bno)"] assms(3) by auto
  obtain b where b: "int_byte buf i blen 8 a = Some b" "snd b \<le> blen" using step [of a] a by blast
  obtain c where c: "int_byte buf i blen 16 b = Some c" "snd c \<le> blen" using step [of b] b by blast
  obtain d where "int_byte buf i blen 24 c = Some d" "snd d \<le> blen" using step [of c] c by blast
  with a b c that [of "fst d" "snd d"] show ?thesis by (simp add: int_block_def)
qed

lemma int_set_safe:
  assumes "5 + 3 * blen \<le> length buf" "i < 3" "wf_cap c"
  obtains c' where "int_set buf blen i c = Some c'" "wf_cap c'" "c_mutex c' = c_mutex c" "c_head c' = c_head c"
proof -
  obtain v0 n0 where 0: "int_block buf i blen 0 = Some (v0, n0)" "n0 \<le> blen"
    using int_block_safe [OF assms(1,2), of 0] by auto
  obtain v1 n1 where "int_block buf i blen n0 = Some (v1, n1)"
    using int_block_safe [OF assms(1,2) 0(2)] by metis
  with 0 assms(3) that [of "set_flat 1 i v1 (set_flat 0 i v0 c)"] show ?thesis by (simp add: int_set_def)
qed

context capget_abi
begin

lemma cap_copy_int_safe:
  assumes "5 + 3 * unat (buf ! 4) \<le> length buf" "take 4 buf = external_magic" "alloc_ok w" "wf_world w"
  shows "\<exists>d w'. cap_copy_int K (Some buf) w = Some (next_ptr w, w') \<and> cap_ready w' (next_ptr w) d"
proof -
  let ?z = "zero_cap LINUX_CAPABILITY_VERSION_3"
  obtain c0 where c0: "int_set buf (unat (buf ! 4)) 0 ?z = Some c0" "wf_cap c0" "c_mutex c0 = 0"
    using int_set_safe [OF assms(1), of 0 ?z] by auto
  obtain c1 where c1: "int_set buf (unat (buf ! 4)) (Suc 0) c0 = Some c1" "wf_cap c1" "c_mutex c1 = 0"
    using int_set_safe [OF assms(1), of "Suc 0" c0] c0 by auto
  obtain c2 where c2: "int_set buf (unat (buf ! 4)) 2 c1 = Some c2" "wf_cap c2" "c_mutex c2 = 0"
    using int_set_safe [OF assms(1), of 2 c1] c1 by auto
  have "cap_copy_int K (Some buf) w =
          Some (next_ptr w, new_obj (next_ptr w) sizeof_cap_alloc_s (CapSet c2) (bumped w))"
    using assms c0 c1 c2 by (simp add: cap_copy_int_def cap_init_ok get_cap_def)
  then show ?thesis
    using c2 assms(4) by (intro exI [of _ c2]) (simp add: cap_ready_def wf_new_bumped)
qed

end

section \<open>Properties\<close>

text \<open>
  C4: exporting a capability set with \<^verbatim>\<open>cap_copy_ext\<close> into a buffer of at least
  \<^verbatim>\<open>cap_size()\<close> bytes and importing it again with \<^verbatim>\<open>cap_copy_int\<close> gives
  a new, unlocked set with the same three flags.
\<close>

theorem cap_ext_roundtrip:
  assumes "capget_abi K" "cap_ready w p c" "alloc_ok w" "29 \<le> len" "29 \<le> length buf"
  shows "\<exists>buf' d w'. cap_copy_ext (Some buf) p len w = Some ((29, Some buf'), w)
     \<and> cap_copy_int K (Some buf') w = Some (next_ptr w, w')
     \<and> cap_ready w' (next_ptr w) d \<and> c_u d = c_u c
     \<and> (\<forall>q. q \<noteq> next_ptr w \<longrightarrow> obj_at w' q = obj_at w q)"
proof -
  note c = cap_readyD [OF assms(2)]
  obtain d where "cap_copy_int K (Some (ext_image c buf)) w =
               Some (next_ptr w, new_obj (next_ptr w) sizeof_cap_alloc_s (CapSet d) (bumped w))"
    and d: "c_u d = c_u c" "wf_cap d" "c_mutex d = 0"
    using capget_abi.cap_copy_int_image [OF assms(1,3,5) c(4)] by blast
  then show ?thesis
    using cap_copy_ext_exec [OF assms(2,4,5)] c d
    by (intro exI [of _ "ext_image c buf"] exI [of _ d]) (simp add: cap_ready_def wf_new_bumped)
qed

theorem cap_ext_roundtrip_witness:
  "\<exists>buf' d w'. cap_copy_ext (Some (replicate 29 0)) 24 29 demo_world = Some ((29, Some buf'), demo_world)
     \<and> cap_copy_int linux_kernel (Some buf') demo_world = Some (40, w') \<and> cap_ready w' 40 d \<and> c_u d = c_u demo_cap"
proof -
  have "alloc_ok demo_world" "(29 :: int) \<le> 29" "29 \<le> length (replicate 29 (0 :: u8))" "next_ptr demo_world = 40"
    by (simp_all add: demo_world_def)
  with cap_ext_roundtrip [OF linux.capget_abi_axioms demo_ready this(1,2,3)] show ?thesis by metis
qed

text \<open>
  C5: \<^verbatim>\<open>cap_copy_ext\<close> writes \<^verbatim>\<open>cap_size()\<close> = 29 bytes at the front of the
  buffer and nothing behind them; when the caller announces less room it refuses with
  \<^verbatim>\<open>EINVAL\<close>, leaves the buffer and the set alone, and releases the mutex.
\<close>

theorem cap_copy_ext_bounds:
  assumes "cap_ready w p c"
  shows "cap_size p w = Some (29, w)
     \<and> (len < 29 \<longrightarrow> cap_copy_ext (Some buf) p len w = Some ((- 1, Some buf), w\<lparr>errno := EINVAL\<rparr>))
     \<and> (29 \<le> len \<and> int (length buf) = len \<longrightarrow>
          (\<exists>pre. length pre = 29 \<and> cap_copy_ext (Some buf) p len w = Some ((29, Some (pre @ drop 29 buf)), w)))"
proof (intro conjI impI)
  note c = cap_readyD [OF assms]
  show "cap_size p w = Some (29, w)"
    using c by (simp add: cap_size_def libcap_exec put_same)
  show "cap_copy_ext (Some buf) p len w = Some ((- 1, Some buf), w\<lparr>errno := EINVAL\<rparr>)" if "len < 29"
    using c that by (simp add: cap_copy_ext_def libcap_exec put_same)
next
  assume "29 \<le> len \<and> int (length buf) = len"
  then have len: "29 \<le> len" "29 \<le> length buf" by linarith+
  have "drop 29 (ext_image c buf) = drop 29 buf"
  proof (rule nth_equalityI)
    fix k
    assume "k < length (drop 29 (ext_image c buf))"
    have same: "ext_fill c i 8 0 b ! (29 + k) = b ! (29 + k)" if "i < 3" for i b
      using that by (auto simp: ext_fill_8 intro!: nth_fold_upd_other)
    show "drop 29 (ext_image c buf) ! k = drop 29 buf ! k"
      using len by (simp add: ext_image_def upt_3 same nth_append external_magic_def)
  qed (use len in simp)
  then have "take 29 (ext_image c buf) @ drop 29 buf = ext_image c buf"
    using append_take_drop_id [of 29 "ext_image c buf"] by simp
  then show "\<exists>pre. length pre = 29 \<and> cap_copy_ext (Some buf) p len w = Some ((29, Some (pre @ drop 29 buf)), w)"
    using len by (intro exI [of _ "take 29 (ext_image c buf)"]) (simp add: cap_copy_ext_exec [OF assms])
qed

theorem cap_copy_ext_bounds_witness:
  "cap_size 24 demo_world = Some (29, demo_world)
     \<and> cap_copy_ext (Some [1, 2]) 24 2 demo_world = Some ((- 1, Some [1, 2]), demo_world\<lparr>errno := EINVAL\<rparr>)"
  using cap_copy_ext_bounds [OF demo_ready, of 2 "[1, 2]"] by simp

text \<open>
  C6: \<^verbatim>\<open>cap_copy_int_check\<close> on a buffer of the announced length never reads outside it:
  it returns a set for a well-formed external form and refuses everything else with
  \<^verbatim>\<open>EINVAL\<close>, whatever the bytes are.
\<close>

theorem cap_copy_int_check_safe:
  assumes "capget_abi K" "wf_world w" "alloc_ok w" "int (length buf) = len"
  shows "(if 5 \<le> length buf \<and> 5 + 3 * unat (buf ! 4) \<le> length buf \<and> take 4 buf = external_magic
          then \<exists>d w'. cap_copy_int_check K (Some buf) len w = Some (next_ptr w, w') \<and> cap_ready w' (next_ptr w) d
          else cap_copy_int_check K (Some buf) len w = Some (NULL, w\<lparr>errno := EINVAL\<rparr>))"
proof (cases "5 \<le> length buf \<and> 5 + 3 * unat (buf ! 4) \<le> length buf")
  case True
  then have "\<not> len < 5" "\<not> len < 5 + int (unat (buf ! 4)) * 3" using assms(4) by linarith+
  then have "cap_copy_int_check K (Some buf) len w = cap_copy_int K (Some buf) w"
    using True by (simp add: cap_copy_int_check_def del: of_nat_unat)
  then show ?thesis
    using True capget_abi.cap_copy_int_safe [OF assms(1) _ _ assms(3,2), of buf] by (simp add: cap_copy_int_def)
next
  case False
  then have "len < 5 \<or> len < 5 + int (unat (buf ! 4)) * 3" using assms(4) by linarith
  with False assms(4) show ?thesis by (auto simp: cap_copy_int_check_def)
qed

theorem cap_copy_int_check_safe_witness:
  "cap_copy_int_check linux_kernel (Some [0x90, 0xC2, 0x01, 0x51, 9]) 5 demo_world = Some (NULL, demo_world\<lparr>errno := EINVAL\<rparr>)"
proof -
  have "wf_world demo_world" "alloc_ok demo_world" "int (length [0x90 :: u8, 0xC2, 0x01, 0x51, 9]) = 5"
    using cap_readyD(3) [OF demo_ready] by (simp_all add: demo_world_def)
  from cap_copy_int_check_safe [OF linux.capget_abi_axioms this] show ?thesis by simp
qed

end
