(* ===== verification/Cap_Names.thy ===== *)
theory Cap_Names
  imports Cap_Flag
begin

text \<open>
  The names of the capabilities: the generator \<^verbatim>\<open>libcap/_makenames.c\<close> of the table
  \<^verbatim>\<open>cap_names.h\<close>, and the lookups of \<^verbatim>\<open>libcap/cap_text.c\<close> that use it
  (\<^verbatim>\<open>namcmp\<close>, \<^verbatim>\<open>lookupname\<close>, \<^verbatim>\<open>cap_from_name\<close>,
  \<^verbatim>\<open>cap_to_name\<close>).  The table itself and the perfect hash that \<^verbatim>\<open>gperf\<close>
  may generate are build products: they are the parameter \<open>N\<close> of the definitions, and
  the locale \<open>names_abi\<close> is what the text routines rely on of them.  Its instance
  \<open>linux_names\<close> is the output of the generator on the capabilities of
  \<^verbatim>\<open>uapi/linux/capability.h\<close>.
\<close>

section \<open>The generated table\<close>

text \<open>
  \<open>cap_names\<close> is \<^verbatim>\<open>LIBCAP_CAP_NAMES\<close> (its length is \<^verbatim>\<open>__CAP_BITS\<close>),
  \<open>name_size\<close> is \<^verbatim>\<open>__CAP_NAME_SIZE\<close>, \<open>gperf\<close> is
  \<^verbatim>\<open>__cap_lookup_name\<close> when the library is built with it.
\<close>

record names_h =
  cap_names :: "string option list"
  name_size :: nat
  gperf :: "(string \<Rightarrow> int option) option"

abbreviation CAP_BITS :: "names_h \<Rightarrow> nat" where "CAP_BITS N \<equiv> length (cap_names N)"

definition recalloc :: "'a option list \<Rightarrow> nat \<Rightarrow> 'a option list" where
  "recalloc p is = p @ replicate (is - length p) None"

record makenames_state =
  mk_maxcaps :: nat
  mk_maxlength :: nat
  mk_pointers :: "string option list"

definition makenames_step :: "string \<times> nat \<Rightarrow> makenames_state \<Rightarrow> makenames_state" where
  "makenames_step entry st =
     (let (nm, index) = entry;
          st = (if mk_maxcaps st \<le> index then st\<lparr>mk_maxcaps := index + 1\<rparr> else st);
          st = (if index \<ge> length (mk_pointers st)
                then st\<lparr>mk_pointers := recalloc (mk_pointers st) (2 * index + 1)\<rparr> else st);
          st = st\<lparr>mk_pointers := (mk_pointers st)[index := Some nm]\<rparr>;
          n = length nm
      in if n > mk_maxlength st then st\<lparr>mk_maxlength := n\<rparr> else st)"

definition makenames :: "(string \<times> nat) list \<Rightarrow> names_h" where
  "makenames lst =
     (let st = fold makenames_step lst \<lparr>mk_maxcaps = 0, mk_maxlength = 0, mk_pointers = []\<rparr> in
      \<lparr>cap_names = map (\<lambda>i. mk_pointers st ! i) [0..<mk_maxcaps st],
       name_size = mk_maxlength st + 1, gperf = None\<rparr>)"

section \<open>Lookups\<close>

fun namcmp :: "string \<Rightarrow> string \<Rightarrow> string option" where
  "namcmp str nam =
     (if nam \<noteq> [] \<and> str \<noteq> [] \<and> tolower (deref str) = deref nam then namcmp (tl str) (tl nam)
      else if nam \<noteq> [] \<or> isalnum (deref str) \<or> deref str = CHR ''_'' then None else Some str)"

declare namcmp.simps [simp del]

fun lookup_loop :: "names_h \<Rightarrow> string \<Rightarrow> nat \<Rightarrow> int \<times> string" where
  "lookup_loop N str 0 = (- 1, str)"
| "lookup_loop N str (Suc n) =
     (case cap_names N ! n of
        None \<Rightarrow> lookup_loop N str n
      | Some nam \<Rightarrow> (case namcmp str nam of Some s \<Rightarrow> (int n, s) | None \<Rightarrow> lookup_loop N str n))"

text \<open>The result is the value and the rest of the string; on failure the string is left alone.\<close>

definition lookupname :: "names_h \<Rightarrow> int \<Rightarrow> string \<Rightarrow> int \<times> string" where
  "lookupname N cmb str =
     (if isdigit (deref str) then
        (let (n, rest, _) = strtoul str 0 in
         if n \<ge> CAP_MAXBITS then (- 1, str) else (int n, rest))
      else
        (let len = length (takeWhile (\<lambda>c. isalpha c \<or> c = CHR ''_'') str) in
         case gperf N of
           Some g \<Rightarrow> (case g (take len str) of Some idx \<Rightarrow> (idx, drop len str) | None \<Rightarrow> (- 1, str))
         | None \<Rightarrow> lookup_loop N str
             (if cmb < 0 \<or> cmb > int (CAP_BITS N) then CAP_BITS N else nat cmb)))"

definition cap_from_name :: "names_h \<Rightarrow> string \<Rightarrow> 'k world \<Rightarrow> int \<times> int option" where
  "cap_from_name N name w =
     (let (n, _) = lookupname N (max_bits w) name in
      (if n < 0 then - 1 else 0, if n \<ge> 0 then Some n else None))"

text \<open>
  \<^verbatim>\<open>asprintf\<close> takes its buffer from the same allocator; the caller frees it at once.
  Its \<^verbatim>\<open>"%u"\<close> prints a negative capability as the \<^verbatim>\<open>unsigned\<close> with the same bits.
\<close>

definition asprintf_buf :: "'k world \<Rightarrow> bool \<times> 'k world" where
  "asprintf_buf w = (let (p, w) = calloc w in (p \<noteq> NULL, w))"

definition cap_to_name :: "names_h \<Rightarrow> int \<Rightarrow> 'k world \<Rightarrow> addr \<times> 'k world" where
  "cap_to_name N cap w =
     (if cap \<ge> 0 \<and> cap < int (CAP_BITS N) then libcap_strdup (cap_names N ! nat cap) w
      else
        (let (ok, w) = asprintf_buf w in
         if \<not> ok then (NULL, w) else libcap_strdup (Some (show_nat (nat (cap mod 2 ^ 32)))) w))"

section \<open>The generator\<close>

lemma length_recalloc [simp]: "length p \<le> is \<Longrightarrow> length (recalloc p is) = is"
  by (simp add: recalloc_def)

lemma nth_recalloc: "i < length p \<Longrightarrow> recalloc p is ! i = p ! i"
  "length p \<le> i \<Longrightarrow> i < is \<Longrightarrow> recalloc p is ! i = None"
  by (simp_all add: recalloc_def nth_append)

text \<open>What the table holds after the entries \<open>lst\<close>, read as a map.\<close>

definition table_of :: "(string \<times> nat) list \<Rightarrow> nat \<Rightarrow> string option" where
  "table_of lst i = map_of (map (\<lambda>(nm, k). (k, nm)) (rev lst)) i"

definition makenames_inv :: "(string \<times> nat) list \<Rightarrow> makenames_state \<Rightarrow> bool" where
  "makenames_inv lst st \<longleftrightarrow> mk_maxcaps st \<le> length (mk_pointers st)
     \<and> (\<forall>(nm, k) \<in> set lst. k < mk_maxcaps st \<and> length nm \<le> mk_maxlength st)
     \<and> (\<forall>i < length (mk_pointers st). mk_pointers st ! i = table_of lst i)"

lemma makenames_inv_step:
  assumes "makenames_inv lst st"
  shows "makenames_inv (lst @ [(nm, k)]) (makenames_step (nm, k) st)"
proof -
  let ?p = "if k \<ge> length (mk_pointers st) then recalloc (mk_pointers st) (2 * k + 1) else mk_pointers st"
  have st': "mk_pointers (makenames_step (nm, k) st) = ?p[k := Some nm]"
    "mk_maxcaps (makenames_step (nm, k) st) = max (mk_maxcaps st) (k + 1)"
    "mk_maxlength (makenames_step (nm, k) st) = max (mk_maxlength st) (length nm)"
    by (auto simp: makenames_step_def Let_def)
  have none: "table_of lst i = None" if "length (mk_pointers st) \<le> i" for i
    using assms that by (fastforce simp: makenames_inv_def table_of_def map_of_eq_None_iff)
  have p: "?p ! i = table_of lst i" if "i < length ?p" for i
    using assms that none [of i] by (cases "i < length (mk_pointers st)")
      (auto simp: makenames_inv_def nth_recalloc split: if_splits)
  have k: "k < length ?p" by simp
  have len: "mk_maxcaps st \<le> length ?p"
    using assms by (auto simp: makenames_inv_def)
  have tab: "table_of (lst @ [(nm, k)]) i = (if i = k then Some nm else table_of lst i)" for i
    by (simp add: table_of_def)
  have "\<forall>i < length ?p. ?p[k := Some nm] ! i = table_of (lst @ [(nm, k)]) i"
    using p k by (auto simp: tab nth_list_update)
  with assms len k show ?thesis
    unfolding makenames_inv_def st' length_list_update by (fastforce simp: max_def)
qed

lemma makenames_inv_fold:
  "makenames_inv lst (fold makenames_step lst \<lparr>mk_maxcaps = 0, mk_maxlength = 0, mk_pointers = []\<rparr>)"
proof (induction lst rule: rev_induct)
  case Nil
  show ?case by (simp add: makenames_inv_def)
next
  case (snoc e lst)
  then show ?case using makenames_inv_step [of lst _ "fst e" "snd e"] by simp
qed

lemma makenames_table:
  "i < CAP_BITS (makenames lst) \<Longrightarrow> cap_names (makenames lst) ! i = table_of lst i"
  "(nm, k) \<in> set lst \<Longrightarrow> k < CAP_BITS (makenames lst) \<and> length nm < name_size (makenames lst)"
  using makenames_inv_fold [of lst] by (auto simp: makenames_def makenames_inv_def Let_def)

section \<open>Names and numbers as tokens\<close>

definition name_char :: "char \<Rightarrow> bool" where
  "name_char c \<longleftrightarrow> islower c \<or> c = CHR ''_''"

text \<open>The character behind a complete token.\<close>

definition token_end :: "string \<Rightarrow> bool" where
  "token_end s \<longleftrightarrow> \<not> isalnum (deref s) \<and> deref s \<noteq> CHR ''_''"

lemma name_char_props [simp]:
  "name_char c \<Longrightarrow> tolower c = c" "name_char c \<Longrightarrow> \<not> isdigit c" "name_char c \<Longrightarrow> isalpha c \<or> c = CHR ''_''"
  by (auto simp: name_char_def tolower_def ctype_defs)

lemma name_char_token: "name_char c \<Longrightarrow> token_end (c # s) \<Longrightarrow> False"
  by (auto simp: name_char_def token_end_def ctype_defs)

lemma token_end_Nil [simp]: "token_end []"
  by (simp add: token_end_def) (simp add: NUL_def)

lemma token_end_not_name: "token_end s \<Longrightarrow> \<not> name_char (deref s)"
  by (cases s) (auto simp: token_end_def name_char_def ctype_defs NUL_def)

text \<open>On a complete token \<open>namcmp\<close> is equality.\<close>

lemma namcmp_token:
  assumes "\<forall>c \<in> set tok. name_char c" "\<forall>c \<in> set nam. name_char c" "token_end rest"
  shows "namcmp (tok @ rest) nam = (if tok = nam then Some rest else None)"
  using assms
proof (induction nam arbitrary: tok)
  case Nil
  then show ?case
    by (cases tok) (auto simp: namcmp.simps token_end_def name_char_def ctype_defs)
next
  case (Cons c nam)
  show ?case
  proof (cases tok)
    case Nil
    have "\<not> (rest \<noteq> [] \<and> tolower (deref rest) = c)"
    proof
      assume h: "rest \<noteq> [] \<and> tolower (deref rest) = c"
      have "name_char c" using Cons.prems by simp
      with h have "isalpha (deref rest) \<or> deref rest = CHR ''_''"
        by (auto simp: tolower_def name_char_def ctype_defs split: if_splits)
      with Cons.prems(3) show False by (simp add: token_end_def isalnum_def)
    qed
    with Nil show ?thesis by (subst namcmp.simps) auto
  next
    case (Cons d tok')
    with Cons.IH [of tok'] Cons.prems show ?thesis
      by (subst namcmp.simps) auto
  qed
qed

lemma namcmp_digit: "isdigit d \<Longrightarrow> name_char c \<Longrightarrow> namcmp (d # s) (c # nam) = None"
  by (subst namcmp.simps) (auto simp: tolower_def name_char_def ctype_defs)

lemma namcmp_length: "namcmp str nam = Some s \<Longrightarrow> length s + length nam = length str"
proof (induction str nam rule: namcmp.induct)
  case (1 str nam)
  have "namcmp (tl str) (tl nam) = Some s" if "nam \<noteq> []"
    using "1.prems" that by (subst (asm) namcmp.simps) (simp split: if_splits)
  moreover have "str \<noteq> [] \<and> tolower (deref str) = deref nam" if "nam \<noteq> []"
    using "1.prems" that by (subst (asm) namcmp.simps) (simp split: if_splits)
  moreover have "s = str" if "nam = []"
    using "1.prems" that by (subst (asm) namcmp.simps) (simp split: if_splits)
  ultimately show ?case
    using "1.IH" by (cases str; cases nam) auto
qed

lemma strtoul_show_nat:
  assumes "0 < n" "n < 2 ^ 64" "\<not> isdigit (deref rest)"
  shows "strtoul (show_nat n @ rest) 0 = (n, rest, False)"
proof -
  obtain d ds where dd: "show_nat n = d # ds" by (cases "show_nat n") simp_all
  have dig: "\<forall>c \<in> set (show_nat n). isdigit c" using show_nat_digits by blast
  then have d: "isdigit d" by (simp add: dd)
  have d0: "d \<noteq> CHR ''0''" using show_nat_hd [OF assms(1)] by (simp add: dd)
  have nsp: "\<not> isspace d" "d \<noteq> CHR ''-''" "d \<noteq> CHR ''+''"
    using d by (auto simp: ctype_defs)
  have base: "strtoul_base 0 (show_nat n @ rest) = (10, show_nat n @ rest)"
    using d0 by (simp add: strtoul_base_def dd)
  have val: "digit_val c < 10 \<longleftrightarrow> isdigit c" for c
    by (auto simp: digit_val_def ctype_defs)
  have "takeWhile (\<lambda>c. digit_val c < 10) (show_nat n @ rest) = show_nat n"
    using dig assms(3) by (cases rest) (simp_all add: val takeWhile_append)
  moreover have "dropWhile isspace (show_nat n @ rest) = show_nat n @ rest"
    using nsp by (simp add: dd)
  moreover have "deref (show_nat n @ rest) = d" by (simp add: dd)
  ultimately show ?thesis
    using base nsp assms(2) digits_value_show_nat [of n]
    by (simp add: strtoul_def Let_def ULONG_MAX_def)
qed

lemma lookup_loop_length: "length (snd (lookup_loop N str n)) \<le> length str"
  by (induction N str n rule: lookup_loop.induct)
    (auto split: option.splits dest: namcmp_length)

lemma lookupname_length: "length (snd (lookupname N cmb str)) \<le> length str"
  using strtoul_length [of str 0] lookup_loop_length [of N str]
  by (auto simp: lookupname_def Let_def split: prod.splits option.splits)

section \<open>What the text routines rely on of the table\<close>

text \<open>How a capability is written: its name, or its number when the table has none.\<close>

definition name_of :: "names_h \<Rightarrow> nat \<Rightarrow> string" where
  "name_of N n = (if n < CAP_BITS N then the (cap_names N ! n) else show_nat n)"

text \<open>The capabilities whose written form the lookup recognises on a kernel with \<open>cmb\<close> capabilities.\<close>

definition readable :: "names_h \<Rightarrow> int \<Rightarrow> nat \<Rightarrow> bool" where
  "readable N cmb n \<longleftrightarrow> n < CAP_MAXBITS \<and> (n < CAP_BITS N \<longrightarrow> gperf N \<noteq> None \<or> int n < cmb)"

locale names_abi =
  fixes N :: names_h
  assumes bits_pos: "0 < CAP_BITS N"
    and bits_max: "CAP_BITS N \<le> CAP_MAXBITS"
    and named: "i < CAP_BITS N \<Longrightarrow> cap_names N ! i \<noteq> None"
    and chars: "Some s \<in> set (cap_names N) \<Longrightarrow> s \<noteq> [] \<and> s \<noteq> ''all'' \<and> (\<forall>c \<in> set s. name_char c)"
    and sizes: "Some s \<in> set (cap_names N) \<Longrightarrow> length s < name_size N"
    and small: "name_size N \<le> 2 ^ 20"
    and distinct_names: "distinct (cap_names N)"
    and room: "sum_list (map (\<lambda>n. length (name_of N n) + 1) [0..<CAP_MAXBITS]) + 128 \<le> name_size N * CAP_MAXBITS"
    and gperf_names: "gperf N = Some g \<Longrightarrow> i < CAP_BITS N \<Longrightarrow> cap_names N ! i = Some s \<Longrightarrow> g s = Some (int i)"
    and gperf_range: "gperf N = Some g \<Longrightarrow> g s = Some idx \<Longrightarrow> 0 \<le> idx \<and> idx < int CAP_MAXBITS"
begin

lemma name_of_named:
  assumes "n < CAP_BITS N"
  shows "cap_names N ! n = Some (name_of N n)" "name_of N n \<noteq> []" "name_of N n \<noteq> ''all''"
    "\<forall>c \<in> set (name_of N n). name_char c"
proof -
  show nth: "cap_names N ! n = Some (name_of N n)"
    using named [OF assms] assms by (auto simp: name_of_def)
  have "Some (name_of N n) \<in> set (cap_names N)"
    using assms nth nth_mem by metis
  then show "name_of N n \<noteq> []" "name_of N n \<noteq> ''all''" "\<forall>c \<in> set (name_of N n). name_char c"
    using chars by blast+
qed

lemma lookup_loop_named:
  assumes "x < n" "n \<le> CAP_BITS N" "token_end rest"
  shows "lookup_loop N (name_of N x @ rest) n = (int x, rest)"
  using assms
proof (induction n)
  case (Suc n)
  note n = name_of_named [of n] name_of_named [of x]
  show ?case
  proof (cases "x = n")
    case True
    with Suc.prems n show ?thesis by (simp add: namcmp_token)
  next
    case False
    then have "cap_names N ! x \<noteq> cap_names N ! n"
      using Suc.prems distinct_names by (simp add: nth_eq_iff_index_eq)
    then have "name_of N x \<noteq> name_of N n" using Suc.prems n False by auto
    with False Suc n show ?thesis by (simp add: namcmp_token)
  qed
qed simp

lemma name_of_chars: "c \<in> set (name_of N x) \<Longrightarrow> isalnum c \<or> c = CHR ''_''"
  using name_of_named(4) [of x] show_nat_digits [of c x]
  by (cases "x < CAP_BITS N") (auto simp: name_of_def name_char_def isalnum_def isalpha_def)

lemma name_of_nonempty [simp]: "name_of N x \<noteq> []"
  using name_of_named(2) [of x] by (cases "x < CAP_BITS N") (auto simp: name_of_def)

text \<open>The lookup reads back what is written for a readable capability.\<close>

lemma lookupname_name_of:
  assumes "readable N cmb x" "0 \<le> cmb" "token_end rest"
  shows "lookupname N cmb (name_of N x @ rest) = (int x, rest)"
proof (cases "x < CAP_BITS N")
  case True
  note x = name_of_named [OF True]
  obtain c s where cs: "name_of N x = c # s" using x(2) by (cases "name_of N x") auto
  have c: "\<not> isdigit c" using x(4) cs by simp
  have tok: "takeWhile (\<lambda>c. isalpha c \<or> c = CHR ''_'') (name_of N x @ rest) = name_of N x"
    using x(4) assms(3) by (cases rest)
      (auto simp: takeWhile_append2 takeWhile_append name_char_def token_end_def isalpha_def isalnum_def)
  show ?thesis
  proof (cases "gperf N")
    case None
    with assms(1) True have "int x < cmb" by (simp add: readable_def)
    then show ?thesis
      using lookup_loop_named [of x _ rest] True c cs None assms(2,3) by (simp add: lookupname_def Let_def)
  next
    case (Some g)
    with gperf_names [OF Some True x(1)] tok c cs show ?thesis by (simp add: lookupname_def Let_def)
  qed
next
  case False
  then have x: "0 < x" "name_of N x = show_nat x" using bits_pos by (linarith, simp add: name_of_def)
  have "x < 64" using assms(1) by (simp add: readable_def)
  moreover have "isdigit (deref (show_nat x @ rest))"
    using show_nat_digits [of _ x] show_nat_nonempty [of x] by (cases "show_nat x") auto
  moreover have "strtoul (show_nat x @ rest) 0 = (x, rest, False)"
    using x \<open>x < 64\<close> assms(3) by (intro strtoul_show_nat) (auto simp: token_end_def isalnum_def)
  ultimately show ?thesis using x(2) by (simp add: lookupname_def)
qed

lemma namcmp_all_name_of: "token_end rest \<Longrightarrow> namcmp (name_of N x @ rest) ''all'' = None"
proof (cases "x < CAP_BITS N")
  case True
  assume "token_end rest"
  moreover have "\<forall>c \<in> set ''all''. name_char c" by (simp add: name_char_def ctype_defs)
  ultimately show ?thesis using name_of_named [OF True] by (simp add: namcmp_token)
next
  case False
  then have "name_of N x = show_nat x" by (simp add: name_of_def)
  moreover have "name_char CHR ''a''" by (simp add: name_char_def ctype_defs)
  ultimately show ?thesis
    using show_nat_digits [of _ x] show_nat_nonempty [of x] by (cases "show_nat x") (auto simp: namcmp_digit)
qed

lemma lookupname_range: "fst (lookupname N cmb str) = - 1 \<or> (0 \<le> fst (lookupname N cmb str) \<and> fst (lookupname N cmb str) < 64)"
proof -
  have "fst (lookup_loop N str n) = - 1 \<or> (0 \<le> fst (lookup_loop N str n) \<and> fst (lookup_loop N str n) < int n)" for n
    by (induction N str n rule: lookup_loop.induct) (auto split: option.splits)
  from this [of "CAP_BITS N"] this [of "nat cmb"] bits_max gperf_range show ?thesis
    by (auto simp: lookupname_def Let_def split: prod.splits option.splits)
qed

end

section \<open>The table of this libcap\<close>

definition linux_cap_list :: "(string \<times> nat) list" where
  "linux_cap_list = [
     (''cap_chown'', 0), (''cap_dac_override'', 1), (''cap_dac_read_search'', 2), (''cap_fowner'',
     3), (''cap_fsetid'', 4), (''cap_kill'', 5), (''cap_setgid'', 6), (''cap_setuid'', 7),
     (''cap_setpcap'', 8), (''cap_linux_immutable'', 9), (''cap_net_bind_service'', 10),
     (''cap_net_broadcast'', 11), (''cap_net_admin'', 12), (''cap_net_raw'', 13), (''cap_ipc_lock'',
     14), (''cap_ipc_owner'', 15), (''cap_sys_module'', 16), (''cap_sys_rawio'', 17),
     (''cap_sys_chroot'', 18), (''cap_sys_ptrace'', 19), (''cap_sys_pacct'', 20),
     (''cap_sys_admin'', 21), (''cap_sys_boot'', 22), (''cap_sys_nice'', 23), (''cap_sys_resource'',
     24), (''cap_sys_time'', 25), (''cap_sys_tty_config'', 26), (''cap_mknod'', 27), (''cap_lease'',
     28), (''cap_audit_write'', 29), (''cap_audit_control'', 30), (''cap_setfcap'', 31),
     (''cap_mac_override'', 32), (''cap_mac_admin'', 33), (''cap_syslog'', 34), (''cap_wake_alarm'',
     35), (''cap_block_suspend'', 36), (''cap_audit_read'', 37), (''cap_perfmon'', 38),
     (''cap_bpf'', 39), (''cap_checkpoint_restore'', 40)]"

definition linux_names :: names_h where
  "linux_names = makenames linux_cap_list"

lemma linux_cap_names: "cap_names linux_names = map (Some \<circ> fst) linux_cap_list"
  "name_size linux_names = 23" "gperf linux_names = None"
  by code_simp+

lemma linux_name_of:
  "map (name_of linux_names) [0..<64] = map fst linux_cap_list @ map show_nat [41..<64]"
  by code_simp

interpretation linux_names: names_abi linux_names
proof
  show "0 < CAP_BITS linux_names" "CAP_BITS linux_names \<le> CAP_MAXBITS" by code_simp+
  show "distinct (cap_names linux_names)" unfolding linux_cap_names by code_simp
  show "cap_names linux_names ! i \<noteq> None" if "i < CAP_BITS linux_names" for i
    using that unfolding linux_cap_names by simp
  have "\<forall>s \<in> set (map fst linux_cap_list). s \<noteq> [] \<and> s \<noteq> ''all'' \<and> (\<forall>c \<in> set s. name_char c) \<and> length s < 23"
    by code_simp
  then show "s \<noteq> [] \<and> s \<noteq> ''all'' \<and> (\<forall>c \<in> set s. name_char c)" "length s < name_size linux_names"
    if "Some s \<in> set (cap_names linux_names)" for s
    using that unfolding linux_cap_names by auto
  show "sum_list (map (\<lambda>n. length (name_of linux_names n) + 1) [0..<CAP_MAXBITS]) + 128
          \<le> name_size linux_names * CAP_MAXBITS"
    by code_simp
qed (simp_all add: linux_cap_names)

section \<open>Names in the heap\<close>

context names_abi
begin

lemma name_of_length: "x < CAP_MAXBITS \<Longrightarrow> length (name_of N x) + 129 \<le> name_size N * CAP_MAXBITS"
proof -
  assume "x < CAP_MAXBITS"
  then have "length (name_of N x) + 1 \<in> set (map (\<lambda>n. length (name_of N n) + 1) [0..<CAP_MAXBITS])"
    by auto
  from member_le_sum_list [OF this] room show ?thesis by linarith
qed

lemma cap_to_name_ok:
  assumes "mem_ok w" "x < CAP_MAXBITS"
  shows "\<exists>v. cap_to_name N (int x) w =
           (next_ptr v, new_obj (next_ptr v) (strdup_size (name_of N x)) (CapStr (name_of N x)) (bumped v))
         \<and> (v = w \<or> v = bumped w)"
proof -
  have len: "length (name_of N x) < 2 ^ 30" using name_of_length [OF assms(2)] small by simp
  have u: "nat (int x mod 4294967296) = x" using assms(2) by simp
  show ?thesis
  proof (cases "x < CAP_BITS N")
    case True
    with name_of_named(1) [OF True] len assms(1) show ?thesis
      by (intro exI [of _ w]) (simp add: cap_to_name_def libcap_strdup_ok)
  next
    case False
    with len assms(1) show ?thesis
      by (intro exI [of _ "bumped w"])
        (simp add: cap_to_name_def libcap_strdup_ok asprintf_buf_def calloc_ok name_of_def u)
  qed
qed

end

section \<open>Properties\<close>

text \<open>
  The table that \<^verbatim>\<open>_makenames\<close> prints has, at every index, the name of the last
  entry of the list for that index and NULL where there is none; every listed index is below
  \<^verbatim>\<open>__CAP_BITS\<close> and every listed name is shorter than \<^verbatim>\<open>__CAP_NAME_SIZE\<close>.
\<close>

theorem makenames_spec:
  "(\<forall>i < CAP_BITS (makenames lst). cap_names (makenames lst) ! i = map_of (map (\<lambda>(nm, k). (k, nm)) (rev lst)) i)
   \<and> (\<forall>(nm, k) \<in> set lst. k < CAP_BITS (makenames lst) \<and> length nm < name_size (makenames lst))"
  using makenames_table [where lst = lst] by (auto simp: table_of_def)

theorem makenames_spec_witness: "CAP_BITS (makenames [(''cap_b'', 3), (''cap_a'', 1)]) > 3"
  using makenames_spec [of "[(''cap_b'', 3), (''cap_a'', 1)]"] by simp

text \<open>
  C7: the string \<^verbatim>\<open>cap_to_name\<close> returns for a capability is read back by
  \<^verbatim>\<open>cap_from_name\<close> as the same capability, by name or by number, for every
  capability the lookup can read on the running kernel.
\<close>

theorem cap_name_roundtrip:
  assumes "names_abi N" "mem_ok w" "x < CAP_MAXBITS" "0 \<le> max_bits w"
    "readable N (max_bits w) x"
  shows "\<exists>p w' s. cap_to_name N (int x) w = (p, w') \<and> p \<noteq> NULL \<and> get_str p w' = Some s
           \<and> cap_from_name N s w' = (0, Some (int x))"
proof -
  obtain v where v: "cap_to_name N (int x) w =
           (next_ptr v, new_obj (next_ptr v) (strdup_size (name_of N x)) (CapStr (name_of N x)) (bumped v))"
    "v = w \<or> v = bumped w"
    using names_abi.cap_to_name_ok [OF assms(1-3)] by blast
  have "lookupname N (max_bits w) (name_of N x @ []) = (int x, [])"
    using names_abi.lookupname_name_of [OF assms(1,5,4), of "[]"] by simp
  with v show ?thesis by (auto simp: get_str_def cap_from_name_def)
qed

theorem cap_name_roundtrip_witness:
  "\<exists>p w' s. cap_to_name linux_names 63 demo_world = (p, w') \<and> p \<noteq> NULL \<and> get_str p w' = Some s
      \<and> cap_from_name linux_names s w' = (0, Some 63)"
proof -
  have "mem_ok demo_world" "(63 :: nat) < CAP_MAXBITS"
    "0 \<le> max_bits demo_world" "readable linux_names (max_bits demo_world) 63"
    by (simp_all add: demo_world_def linux_cap_names readable_def linux_cap_list_def)
  from cap_name_roundtrip [OF linux_names.names_abi_axioms this] show ?thesis by simp
qed

end
