(* ===== verification/Cap_Text.thy ===== *)
theory Cap_Text
  imports Cap_Names
begin

text \<open>
  \<^verbatim>\<open>libcap/cap_text.c\<close>: the textual forms of capability sets and IAB tuples, and the
  reader of \<^verbatim>\<open>/proc/<pid>/status\<close>.  The parsers work on the rest of the string; the
  printers on the characters written to the stack buffer so far, and a write past the buffer of
  \<^verbatim>\<open>CAP_TEXT_SIZE + CAP_TEXT_BUFFER_ZONE\<close> bytes is undefined and has no result.
\<close>

section \<open>Parsing a capability set\<close>

definition setbits :: "u32 list \<Rightarrow> nat \<Rightarrow> nat \<Rightarrow> cap_struct \<Rightarrow> cap_struct" where
  "setbits b s blks a = fold (\<lambda>n a. set_flat n s (flat a n s OR b ! n) a) (rev [0..<blks]) a"

definition clrbits :: "u32 list \<Rightarrow> nat \<Rightarrow> nat \<Rightarrow> cap_struct \<Rightarrow> cap_struct" where
  "clrbits b s blks a = fold (\<lambda>n a. set_flat n s (flat a n s AND NOT (b ! n)) a) (rev [0..<blks]) a"

text \<open>The comparisons with \<^verbatim>\<open>unsigned\<close> convert \<^verbatim>\<open>cmb\<close> to 32 bits.\<close>

definition forceall_mask :: "int \<Rightarrow> nat \<Rightarrow> u32" where
  "forceall_mask cmb n =
     (let base = 32 * int n; ucmb = uint (of_int cmb :: u32) in
      if ucmb \<ge> base + 32 then - 1
      else if ucmb > base then push_bit (nat (cmb mod 32)) 1 - 1
      else 0)"

definition forceall :: "int \<Rightarrow> u32 \<Rightarrow> nat \<Rightarrow> u32 list \<Rightarrow> u32 list" where
  "forceall cmb value blks flt = fold (\<lambda>n flt. flt[n := value AND forceall_mask cmb n]) (rev [0..<blks]) flt"

text \<open>
  The reference parser says what a text means, with bit vectors that take any index; the parser
  that runs, with its array on the stack, follows it.  First the list of capabilities that opens a
  clause; \<^const>\<open>None\<close> is a text without a meaning.
\<close>

definition parse_item :: "names_h \<Rightarrow> int \<Rightarrow> nat \<Rightarrow> string \<times> u32 list \<Rightarrow> (string \<times> u32 list) option" where
  "parse_item N cmb blks sl =
     (let (str, lst) = sl in
      if namcmp str ''all'' \<noteq> None then Some (drop 3 str, forceall cmb (- 1) blks lst)
      else
        (let (n, str) = lookupname N cmb str in
         if n = - 1 then None else Some (str, vec_raise (nat n) lst)))"

lemma parse_item_length: "parse_item N cmb blks (str, lst) = Some (str', lst') \<Longrightarrow> length str' \<le> length str"
  using lookupname_length [of N cmb str]
  by (auto simp: parse_item_def Let_def split: if_splits prod.splits)

function parse_list :: "names_h \<Rightarrow> int \<Rightarrow> nat \<Rightarrow> string \<Rightarrow> u32 list \<Rightarrow> (string \<times> u32 list) option" where
  "parse_list N cmb blks str lst =
     (case parse_item N cmb blks (str, lst) of
        None \<Rightarrow> None
      | Some (str, lst) \<Rightarrow>
          if deref str \<noteq> CHR '','' then Some (str, lst)
          else
            (let str = tl str in
             if \<not> isalnum (deref str) \<and> deref str \<noteq> CHR ''_'' then None
             else parse_list N cmb blks str lst))"
  by pat_completeness auto
termination
proof (relation "measure (\<lambda>(N, cmb, blks, str, lst). length str)")
  fix N :: names_h and cmb blks str lst x str' lst' str''
  assume a: "parse_item N cmb blks (str, lst) = Some x" "(str', lst') = x" "\<not> deref str' \<noteq> CHR '',''"
    "str'' = tl str'"
  then have "str' \<noteq> []" by (auto simp: NUL_def)
  with a parse_item_length [of N cmb blks str lst str' lst']
  show "((N, cmb, blks, str'', lst'), N, cmb, blks, str, lst) \<in> measure (\<lambda>(N, cmb, blks, str, lst). length str)"
    by (cases str') auto
qed simp

declare parse_list.simps [simp del]

lemma parse_list_length: "parse_list N cmb blks str lst = Some (str', lst') \<Longrightarrow> length str' \<le> length str"
proof (induction N cmb blks str lst rule: parse_list.induct)
  case (1 N cmb blks str lst)
  show ?case
  proof (cases "parse_item N cmb blks (str, lst)")
    case None
    with "1.prems" show ?thesis by (simp add: parse_list.simps [of N cmb blks str])
  next
    case (Some sl)
    obtain s l where sl: "sl = (s, l)" by force
    have le: "length s \<le> length str" using parse_item_length Some sl by blast
    show ?thesis
    proof (cases "deref s = CHR '',''")
      case True
      have rec: "parse_list N cmb blks (tl s) l = Some (str', lst')"
        using "1.prems" Some sl True
        by (simp add: parse_list.simps [of N cmb blks str] Let_def split: if_splits)
      have "isalnum (deref (tl s)) \<or> deref (tl s) = CHR ''_''"
        using "1.prems" Some sl True
        by (simp add: parse_list.simps [of N cmb blks str] Let_def split: if_splits)
      with "1.IH" [OF Some] sl True rec have "length str' \<le> length (tl s)" by simp
      with le show ?thesis by simp
    next
      case False
      with "1.prems" Some sl le show ?thesis by (simp add: parse_list.simps [of N cmb blks str])
    qed
  qed
qed

text \<open>One interpretation of the flags read so far.\<close>

definition set_flags :: "int \<Rightarrow> u32 list \<Rightarrow> nat \<Rightarrow> cap_struct \<Rightarrow> cap_struct" where
  "set_flags flags lst blks c =
     (let c = (if flags AND int LIBCAP_EFF \<noteq> 0 then setbits lst CAP_EFFECTIVE blks c else c);
          c = (if flags AND int LIBCAP_PER \<noteq> 0 then setbits lst CAP_PERMITTED blks c else c)
      in if flags AND int LIBCAP_INH \<noteq> 0 then setbits lst CAP_INHERITABLE blks c else c)"

definition clr_flags :: "int \<Rightarrow> u32 list \<Rightarrow> nat \<Rightarrow> cap_struct \<Rightarrow> cap_struct" where
  "clr_flags flags lst blks c =
     (let c = (if flags AND int LIBCAP_EFF \<noteq> 0 then clrbits lst CAP_EFFECTIVE blks c else c);
          c = (if flags AND int LIBCAP_PER \<noteq> 0 then clrbits lst CAP_PERMITTED blks c else c)
      in if flags AND int LIBCAP_INH \<noteq> 0 then clrbits lst CAP_INHERITABLE blks c else c)"

definition apply_op :: "char \<Rightarrow> int \<Rightarrow> u32 list \<Rightarrow> nat \<Rightarrow> cap_struct \<Rightarrow> cap_struct" where
  "apply_op op flags lst blks c =
     (if op = CHR ''='' \<or> op = CHR ''P'' \<or> op = CHR ''M'' then
        (let c = clrbits lst CAP_INHERITABLE blks (clrbits lst CAP_PERMITTED blks
                   (clrbits lst CAP_EFFECTIVE blks c))
         in if op = CHR ''M'' then clr_flags flags lst blks c else set_flags flags lst blks c)
      else if op = CHR ''+'' then set_flags flags lst blks c
      else clr_flags flags lst blks c)"

definition flag_letter :: "char \<Rightarrow> int option" where
  "flag_letter ch = (if ch = CHR ''e'' then Some (int LIBCAP_EFF)
     else if ch = CHR ''i'' then Some (int LIBCAP_INH)
     else if ch = CHR ''p'' then Some (int LIBCAP_PER) else None)"

definition at_end :: "string \<Rightarrow> bool" where
  "at_end str \<longleftrightarrow> str = [] \<or> isspace (deref str)"

text \<open>One turn of the cycle through the actions of a clause: the next operator, flags, text and set.\<close>

definition action_step ::
  "bool \<Rightarrow> u32 list \<Rightarrow> nat \<Rightarrow> char \<Rightarrow> int \<Rightarrow> string \<Rightarrow> cap_struct \<Rightarrow> (char \<times> int \<times> string \<times> cap_struct) option" where
  "action_step listed lst blks op flags str c = do {
     (flags, str) \<leftarrow>
       (if \<not> at_end str then map_option (\<lambda>f. (flags OR f, tl str)) (flag_letter (deref str))
        else if op \<noteq> CHR ''='' then None else Some (flags, str));
     c \<leftarrow> Some (apply_op op flags lst blks c);
     if deref str = CHR ''+'' \<or> deref str = CHR ''-'' then
       (if \<not> listed \<or> \<not> isalpha (deref (tl str)) then None else Some (deref str, 0, tl str, c))
     else Some (op, flags, str, c) }"

lemma action_step_length:
  assumes "action_step listed lst blks op flags str c = Some (op', flags', str', c')"
  shows "length str' \<le> length str" "\<not> at_end str' \<Longrightarrow> length str' < length str"
proof -
  have le: "length (tl (tl str)) \<le> length str" "length (tl str) \<le> length str" by simp_all
  show "length str' \<le> length str"
    using assms le by (auto simp: action_step_def bind_Some_iff simp del: length_tl split: if_splits)
  assume ne: "\<not> at_end str'"
  have lt: "length (tl str) < length str" "length (tl (tl str)) < length str" if "\<not> at_end str"
    using that by (cases str; auto simp: at_end_def)+
  have "deref str \<noteq> CHR ''+'' \<and> deref str \<noteq> CHR ''-''" if "at_end str"
    using that by (auto simp: at_end_def isspace_def NUL_def)
  then show "length str' < length str"
    using assms lt ne
    by (cases "at_end str") (auto simp: action_step_def bind_Some_iff simp del: length_tl split: if_splits)
qed

function parse_actions ::
  "bool \<Rightarrow> u32 list \<Rightarrow> nat \<Rightarrow> char \<Rightarrow> int \<Rightarrow> string \<Rightarrow> cap_struct \<Rightarrow> (string \<times> cap_struct) option" where
  "parse_actions listed lst blks op flags str c =
     (case action_step listed lst blks op flags str c of
        None \<Rightarrow> None
      | Some (op, flags, str, c) \<Rightarrow>
          if \<not> at_end str then parse_actions listed lst blks op flags str c else Some (str, c))"
  by pat_completeness auto
termination
  by (relation "measure (\<lambda>(listed, lst, blks, op, flags, str, c). length str)")
    (auto dest: action_step_length)

declare parse_actions.simps [simp del]

lemma parse_actions_length:
  "parse_actions listed lst blks op flags str c = Some (str', c') \<Longrightarrow> length str' \<le> length str"
proof (induction listed lst blks op flags str c rule: parse_actions.induct)
  case (1 listed lst blks op flags str c)
  show ?case
  proof (cases "action_step listed lst blks op flags str c")
    case None
    with "1.prems" show ?thesis by (simp add: parse_actions.simps [of listed lst blks op flags])
  next
    case (Some r)
    obtain op1 fl1 s1 c1 where r: "r = (op1, fl1, s1, c1)" by (cases r) auto
    with Some have le: "length s1 \<le> length str" using action_step_length(1) by blast
    show ?thesis
    proof (cases "at_end s1")
      case True
      with "1.prems" Some r le show ?thesis by (simp add: parse_actions.simps [of listed lst blks op flags])
    next
      case False
      with "1.prems" Some r have "parse_actions listed lst blks op1 fl1 s1 c1 = Some (str', c')"
        by (simp add: parse_actions.simps [of listed lst blks op flags])
      with "1.IH" Some r False le show ?thesis by fastforce
    qed
  qed
qed

text \<open>
  One clause, from its first character that is not a space: the capabilities it lists (all of
  them when it lists none), and the operator that follows.
\<close>

definition clause_caps :: "names_h \<Rightarrow> int \<Rightarrow> nat \<Rightarrow> string \<Rightarrow> (string \<times> u32 list \<times> bool) option" where
  "clause_caps N cmb blks str =
     (if isalnum (deref str) \<or> deref str = CHR ''_'' then
        map_option (\<lambda>(s, l). (s, l, True)) (parse_list N cmb blks str [0, 0])
      else if deref str = CHR ''+'' \<or> deref str = CHR ''-'' then None
      else Some (str, forceall cmb (- 1) blks [0, 0], False))"

definition clause_op :: "bool \<Rightarrow> string \<Rightarrow> (char \<times> string) option" where
  "clause_op listed str =
     (let op = deref str; str = tl str in
      if op = CHR ''='' \<and> (deref str = CHR ''+'' \<or> deref str = CHR ''-'') then
        (if \<not> listed then None
         else Some (if deref str = CHR ''+'' then CHR ''P'' else CHR ''M'', tl str))
      else if op \<noteq> CHR ''+'' \<and> op \<noteq> CHR ''-'' \<and> op \<noteq> CHR ''='' then None
      else Some (op, str))"

definition parse_clause ::
  "names_h \<Rightarrow> int \<Rightarrow> nat \<Rightarrow> string \<Rightarrow> cap_struct \<Rightarrow> (string \<times> cap_struct) option" where
  "parse_clause N cmb blks str c = do {
     (str, lst, listed) \<leftarrow> clause_caps N cmb blks str;
     (op, str) \<leftarrow> clause_op listed str;
     parse_actions listed lst blks op 0 str c }"

lemma clause_op_length: "clause_op listed str = Some (op, str') \<Longrightarrow> length str' < length str"
  by (cases str) (auto simp: clause_op_def Let_def NUL_def split: if_splits)

lemma clause_caps_length: "clause_caps N cmb blks str = Some (str', l) \<Longrightarrow> length str' \<le> length str"
  by (auto simp: clause_caps_def split: if_splits dest: parse_list_length)

lemma parse_clause_length:
  assumes "parse_clause N cmb blks str c = Some (str', c')"
  shows "length str' < length str"
proof -
  obtain s1 l b op s2 where "clause_caps N cmb blks str = Some (s1, l, b)" "clause_op b s1 = Some (op, s2)"
    "parse_actions b l blks op 0 s2 c = Some (str', c')"
    using assms by (auto simp: parse_clause_def bind_Some_iff)
  then show ?thesis
    using clause_caps_length clause_op_length parse_actions_length by fastforce
qed

function parse_clauses :: "names_h \<Rightarrow> int \<Rightarrow> nat \<Rightarrow> string \<Rightarrow> cap_struct \<Rightarrow> cap_struct option" where
  "parse_clauses N cmb blks str c =
     (let str = dropWhile isspace str in
      if str = [] then Some c
      else
        (case parse_clause N cmb blks str c of
           None \<Rightarrow> None
         | Some (str, c) \<Rightarrow> parse_clauses N cmb blks str c))"
  by pat_completeness auto
termination
proof (relation "measure (\<lambda>(N, cmb, blks, str, c). length str)")
  fix N :: names_h and cmb blks str c str1 x str2 c2
  assume "str1 = dropWhile isspace str" "parse_clause N cmb blks str1 c = Some x" "(str2, c2) = x"
  then have "length str2 < length str1" "length str1 \<le> length str"
    using parse_clause_length length_dropWhile_le by blast+
  then show "((N, cmb, blks, str2, c2), N, cmb, blks, str, c) \<in> measure (\<lambda>(N, cmb, blks, str, c). length str)"
    by simp
qed simp

declare parse_clauses.simps [simp del]

text \<open>
  The same parser with its array of \<^verbatim>\<open>__CAP_BLKS\<close> words on the stack: \<open>raise_cap_mask\<close> has no
  result when it would write outside the array, and then the whole call has none.  In a result,
  \<^const>\<open>None\<close> is \<^verbatim>\<open>goto bad\<close>.  The parser above is what the text means; the one below is what runs.
\<close>

definition raise_cap_mask :: "u32 list \<Rightarrow> int \<Rightarrow> u32 list option" where
  "raise_cap_mask lst n = (if 0 \<le> n \<and> nat n div 32 < length lst then Some (vec_raise (nat n) lst) else None)"

definition scan_item :: "names_h \<Rightarrow> int \<Rightarrow> nat \<Rightarrow> string \<times> u32 list \<Rightarrow> (string \<times> u32 list) option option" where
  "scan_item N cmb blks sl =
     (let (str, lst) = sl in
      if namcmp str ''all'' \<noteq> None then Some (Some (drop 3 str, forceall cmb (- 1) blks lst))
      else
        (let (n, str) = lookupname N cmb str in
         if n = - 1 then Some None else map_option (\<lambda>lst. Some (str, lst)) (raise_cap_mask lst n)))"

lemma scan_item_parses: "scan_item N cmb blks sl = Some r \<Longrightarrow> parse_item N cmb blks sl = r"
  by (auto simp: scan_item_def parse_item_def raise_cap_mask_def Let_def split: if_splits prod.splits)

function scan_list :: "names_h \<Rightarrow> int \<Rightarrow> nat \<Rightarrow> string \<Rightarrow> u32 list \<Rightarrow> (string \<times> u32 list) option option" where
  "scan_list N cmb blks str lst =
     (case scan_item N cmb blks (str, lst) of
        None \<Rightarrow> None
      | Some None \<Rightarrow> Some None
      | Some (Some (str, lst)) \<Rightarrow>
          if deref str \<noteq> CHR '','' then Some (Some (str, lst))
          else
            (let str = tl str in
             if \<not> isalnum (deref str) \<and> deref str \<noteq> CHR ''_'' then Some None
             else scan_list N cmb blks str lst))"
  by pat_completeness auto
termination
proof (relation "measure (\<lambda>(N, cmb, blks, str, lst). length str)")
  fix N :: names_h and cmb blks str lst x y str' lst' str''
  assume a: "scan_item N cmb blks (str, lst) = Some x" "x = Some y" "(str', lst') = y" "\<not> deref str' \<noteq> CHR '',''"
    "str'' = tl str'"
  then have "str' \<noteq> []" by (auto simp: NUL_def)
  with a parse_item_length [of N cmb blks str lst str' lst'] scan_item_parses [OF a(1)]
  show "((N, cmb, blks, str'', lst'), N, cmb, blks, str, lst) \<in> measure (\<lambda>(N, cmb, blks, str, lst). length str)"
    by (cases str') auto
qed simp

declare scan_list.simps [simp del]

definition scan_caps :: "names_h \<Rightarrow> int \<Rightarrow> nat \<Rightarrow> string \<Rightarrow> (string \<times> u32 list \<times> bool) option option" where
  "scan_caps N cmb blks str =
     (if isalnum (deref str) \<or> deref str = CHR ''_'' then
        map_option (map_option (\<lambda>(s, l). (s, l, True))) (scan_list N cmb blks str [0, 0])
      else if deref str = CHR ''+'' \<or> deref str = CHR ''-'' then Some None
      else Some (Some (str, forceall cmb (- 1) blks [0, 0], False)))"

definition scan_clause ::
  "names_h \<Rightarrow> int \<Rightarrow> nat \<Rightarrow> string \<Rightarrow> cap_struct \<Rightarrow> (string \<times> cap_struct) option option" where
  "scan_clause N cmb blks str c =
     map_option (\<lambda>r. do {
       (str, lst, listed) \<leftarrow> r;
       (op, str) \<leftarrow> clause_op listed str;
       parse_actions listed lst blks op 0 str c }) (scan_caps N cmb blks str)"

lemma scan_list_parses: "scan_list N cmb blks str lst = Some r \<Longrightarrow> parse_list N cmb blks str lst = r"
proof (induction N cmb blks str lst rule: scan_list.induct)
  case (1 N cmb blks str lst)
  obtain x where x: "scan_item N cmb blks (str, lst) = Some x"
    using "1.prems" by (subst (asm) scan_list.simps) (auto split: option.splits)
  note p = scan_item_parses [OF x]
  show ?case
  proof (cases x)
    case None
    then show ?thesis using "1.prems" x p by (simp add: parse_list.simps [of N cmb blks str] scan_list.simps [of N cmb blks str])
  next
    case (Some sl)
    obtain s l where sl: "sl = (s, l)" by force
    then show ?thesis using "1.prems" "1.IH" [OF x Some sl [symmetric] _ refl] x p Some
      by (auto simp: parse_list.simps [of N cmb blks str] scan_list.simps [of N cmb blks str] Let_def split: if_splits)
  qed
qed

lemma scan_clause_parses: "scan_clause N cmb blks str c = Some r \<Longrightarrow> parse_clause N cmb blks str c = r"
  using scan_list_parses [of N cmb blks str "[0, 0]"]
  by (auto simp: scan_clause_def scan_caps_def parse_clause_def clause_caps_def split: if_splits)

function scan_clauses :: "names_h \<Rightarrow> int \<Rightarrow> nat \<Rightarrow> string \<Rightarrow> cap_struct \<Rightarrow> cap_struct option option" where
  "scan_clauses N cmb blks str c =
     (let str = dropWhile isspace str in
      if str = [] then Some (Some c)
      else
        (case scan_clause N cmb blks str c of
           None \<Rightarrow> None
         | Some None \<Rightarrow> Some None
         | Some (Some (str, c)) \<Rightarrow> scan_clauses N cmb blks str c))"
  by pat_completeness auto
termination
proof (relation "measure (\<lambda>(N, cmb, blks, str, c). length str)")
  fix N :: names_h and cmb blks str c str1 x y str2 c2
  assume "str1 = dropWhile isspace str" "scan_clause N cmb blks str1 c = Some x" "x = Some y" "(str2, c2) = y"
  then have "length str2 < length str1" "length str1 \<le> length str"
    using scan_clause_parses parse_clause_length length_dropWhile_le by blast+
  then show "((N, cmb, blks, str2, c2), N, cmb, blks, str, c) \<in> measure (\<lambda>(N, cmb, blks, str, c). length str)"
    by simp
qed simp

declare scan_clauses.simps [simp del]

lemma scan_clauses_parses: "scan_clauses N cmb blks str c = Some r \<Longrightarrow> parse_clauses N cmb blks str c = r"
proof (induction N cmb blks str c rule: scan_clauses.induct)
  case (1 N cmb blks str c)
  let ?s = "dropWhile isspace str"
  show ?case
  proof (cases "?s = []")
    case True
    then show ?thesis using "1.prems"
      by (simp add: parse_clauses.simps [of N cmb blks str] scan_clauses.simps [of N cmb blks str])
  next
    case False
    obtain x where x: "scan_clause N cmb blks ?s c = Some x"
      using "1.prems" False
      by (cases "scan_clause N cmb blks ?s c") (simp_all only: scan_clauses.simps [of N cmb blks str] Let_def if_False option.case option.distinct)
    note p = scan_clause_parses [OF x]
    show ?thesis
    proof (cases x)
      case None
      then show ?thesis using "1.prems" x p False
        by (simp add: parse_clauses.simps [of N cmb blks str] scan_clauses.simps [of N cmb blks str] Let_def
            del: dropWhile_eq_Nil_conv)
    next
      case (Some sc)
      obtain s d where sc: "sc = (s, d)" by force
      show ?thesis using "1.prems" "1.IH" [OF refl False x Some sc [symmetric]] x p Some sc False
        by (simp add: parse_clauses.simps [of N cmb blks str] scan_clauses.simps [of N cmb blks str] Let_def
            del: dropWhile_eq_Nil_conv)
    qed
  qed
qed

definition cap_from_text ::
  "names_h \<Rightarrow> 'k kernel \<Rightarrow> string option \<Rightarrow> 'k world \<Rightarrow> (addr \<times> 'k world) option" where
  "cap_from_text N K str w =
     (case str of
        None \<Rightarrow> Some (NULL, w\<lparr>errno := EINVAL\<rparr>)
      | Some s \<Rightarrow> do {
          (res, w) \<leftarrow> cap_init K w;
          if res = NULL then Some (NULL, w)
          else do {
            c \<leftarrow> get_cap res w;
            (case (if h_version (c_head c) = LINUX_CAPABILITY_VERSION_1 then Some 1
                   else if h_version (c_head c) = LINUX_CAPABILITY_VERSION_2 then Some 2
                   else if h_version (c_head c) = LINUX_CAPABILITY_VERSION_3 then Some 2 else None) of
               None \<Rightarrow> do {
                 (_, w) \<leftarrow> cap_free res w;
                 Some (NULL, w\<lparr>errno := EINVAL\<rparr>) }
             | Some cap_blks \<Rightarrow>
                 (case scan_clauses N (max_bits w) cap_blks s c of
                    None \<Rightarrow> None
                  | Some (Some c) \<Rightarrow> Some (res, put_obj res (CapSet c) w)
                  | Some None \<Rightarrow> do {
                      (_, w) \<leftarrow> cap_free res w;
                      Some (NULL, w\<lparr>errno := EINVAL\<rparr>) })) } })"

section \<open>Printing a capability set\<close>

definition CAP_TEXT_SIZE :: "names_h \<Rightarrow> nat" where
  "CAP_TEXT_SIZE N = name_size N * CAP_MAXBITS"

abbreviation (input) CAP_TEXT_BUFFER_ZONE :: nat where "CAP_TEXT_BUFFER_ZONE \<equiv> 100"

text \<open>\<open>put_text\<close> is \<^verbatim>\<open>p += sprintf(p, ...)\<close>, which stores a NUL too, and \<open>put_char\<close> is \<^verbatim>\<open>*p++ = c\<close>.\<close>

definition put_text :: "names_h \<Rightarrow> string \<Rightarrow> string \<Rightarrow> string option" where
  "put_text N buf s =
     (if length buf + length s + 1 \<le> CAP_TEXT_SIZE N + CAP_TEXT_BUFFER_ZONE then Some (buf @ s) else None)"

definition put_char :: "names_h \<Rightarrow> string \<Rightarrow> char \<Rightarrow> string option" where
  "put_char N buf ch =
     (if length buf + 1 \<le> CAP_TEXT_SIZE N + CAP_TEXT_BUFFER_ZONE then Some (buf @ [ch]) else None)"

definition getstateflags :: "cap_struct \<Rightarrow> nat \<Rightarrow> nat" where
  "getstateflags caps capno =
     (if isset_cap caps capno CAP_EFFECTIVE then LIBCAP_EFF else 0) OR
     (if isset_cap caps capno CAP_PERMITTED then LIBCAP_PER else 0) OR
     (if isset_cap caps capno CAP_INHERITABLE then LIBCAP_INH else 0)"

definition flag_text :: "int \<Rightarrow> string" where
  "flag_text n = (if n AND int LIBCAP_EFF \<noteq> 0 then ''e'' else [])
     @ (if n AND int LIBCAP_INH \<noteq> 0 then ''i'' else [])
     @ (if n AND int LIBCAP_PER \<noteq> 0 then ''p'' else [])"

definition histogram :: "cap_struct \<Rightarrow> nat list \<Rightarrow> nat list" where
  "histogram caps ns =
     fold (\<lambda>n histo. histo[getstateflags caps n := Suc (histo ! getstateflags caps n)]) ns (replicate 8 0)"

definition prevailing :: "nat list \<Rightarrow> nat" where
  "prevailing histo = fold (\<lambda>t m. if histo ! t \<ge> histo ! m then t else m) (rev [0..<7]) 7"

text \<open>
  The names of the capabilities of \<open>ns\<close> that are in state \<open>t\<close>, each with a comma.  The
  inner \<^const>\<open>None\<close> is a NULL name or \<^verbatim>\<open>ERANGE\<close>: the caller returns NULL.
\<close>

fun print_names ::
  "names_h \<Rightarrow> cap_struct \<Rightarrow> nat \<Rightarrow> nat list \<Rightarrow> string \<Rightarrow> 'k world \<Rightarrow> (string option \<times> 'k world) option" where
  "print_names N caps t [] buf w = Some (Some buf, w)"
| "print_names N caps t (n # ns) buf w =
     (if getstateflags caps n = t then
        (let (this_cap_name, w) = cap_to_name N (int n) w in
         if this_cap_name = NULL then Some (None, w)
         else do {
           s \<leftarrow> get_str this_cap_name w;
           if length s + length buf > CAP_TEXT_SIZE N then do {
             (_, w) \<leftarrow> cap_free this_cap_name w;
             Some (None, w\<lparr>errno := ERANGE\<rparr>) }
           else do {
             buf \<leftarrow> put_text N buf (s @ '','');
             (_, w) \<leftarrow> cap_free this_cap_name w;
             print_names N caps t ns buf w } })
      else print_names N caps t ns buf w)"

definition print_ops :: "names_h \<Rightarrow> nat \<Rightarrow> nat \<Rightarrow> string \<times> nat \<Rightarrow> (string \<times> nat) option" where
  "print_ops N m t bb = do {
     (buf, base) \<leftarrow> Some bb;
     (buf, base) \<leftarrow>
       (let n = int t AND NOT (int m) in
        if n \<noteq> 0 then
          (let short = (buf ! base = CHR ''='' \<and> buf ! (base + 1) = CHR '' '') in
           map_option (\<lambda>buf. (buf, if short then base + 2 else base))
             (put_text N buf ((if short then ''='' else ''+'') @ flag_text n)))
        else Some (buf, base));
     buf \<leftarrow>
       (let n = NOT (int t) AND int m in
        if n \<noteq> 0 then put_text N buf (''-'' @ flag_text n) else Some buf);
     Some (buf, base) }"

text \<open>The clauses of the capabilities the kernel names, for the states \<open>ts\<close>.\<close>

fun print_named ::
  "names_h \<Rightarrow> cap_struct \<Rightarrow> nat list \<Rightarrow> nat list \<Rightarrow> nat \<Rightarrow> nat list \<Rightarrow> string \<times> nat \<Rightarrow> 'k world
     \<Rightarrow> ((string \<times> nat) option \<times> 'k world) option" where
  "print_named N caps ns histo m [] bb w = Some (Some bb, w)"
| "print_named N caps ns histo m (t # ts) bb w =
     (if t = m \<or> histo ! t = 0 then print_named N caps ns histo m ts bb w
      else do {
        buf \<leftarrow> put_char N (fst bb) CHR '' '';
        (r, w) \<leftarrow> print_names N caps t ns buf w;
        (case r of
           None \<Rightarrow> Some (None, w)
         | Some buf \<Rightarrow> do {
             bb \<leftarrow> print_ops N m t (butlast buf, snd bb);
             if length (fst bb) > CAP_TEXT_SIZE N then Some (None, w\<lparr>errno := ERANGE\<rparr>)
             else print_named N caps ns histo m ts bb w }) })"

text \<open>The clauses of the remaining capabilities, which can only be raised.\<close>

fun print_rest ::
  "names_h \<Rightarrow> cap_struct \<Rightarrow> nat list \<Rightarrow> nat list \<Rightarrow> nat list \<Rightarrow> string \<Rightarrow> 'k world
     \<Rightarrow> (string option \<times> 'k world) option" where
  "print_rest N caps ns histo [] buf w = Some (Some buf, w)"
| "print_rest N caps ns histo (t # ts) buf w =
     (if histo ! t = 0 then print_rest N caps ns histo ts buf w
      else do {
        buf \<leftarrow> put_char N buf CHR '' '';
        (r, w) \<leftarrow> print_names N caps t ns buf w;
        (case r of
           None \<Rightarrow> Some (None, w)
         | Some buf \<Rightarrow> do {
             buf \<leftarrow> put_text N (butlast buf) (''+'' @ flag_text (int t));
             if length buf > CAP_TEXT_SIZE N then Some (None, w\<lparr>errno := ERANGE\<rparr>)
             else print_rest N caps ns histo ts buf w }) })"

text \<open>
  Returns the string and, in the second component, the value stored in \<^verbatim>\<open>*length_p\<close>.
  \<^verbatim>\<open>cap_max_bits\<close> beyond the 64 bits of a set would index past \<^verbatim>\<open>u[]\<close>.
\<close>

definition cap_to_text ::
  "names_h \<Rightarrow> addr \<Rightarrow> 'k world \<Rightarrow> ((addr \<times> nat option) \<times> 'k world) option" where
  "cap_to_text N caps w = do {
     good \<leftarrow> good_cap_t caps w;
     if \<not> good then Some ((NULL, None), w\<lparr>errno := EINVAL\<rparr>)
     else if max_bits w < 0 \<or> max_bits w > int CAP_MAXBITS then None
     else do {
       c \<leftarrow> get_cap caps w;
       cmb \<leftarrow> Some (nat (max_bits w));
       histo \<leftarrow> Some (histogram c [0..<cmb]);
       m \<leftarrow> Some (prevailing histo);
       buf \<leftarrow> put_text N [] (''='' @ flag_text (int m));
       (r, w) \<leftarrow> print_named N c [0..<cmb] histo m (rev [0..<8]) (buf, 0) w;
       (case r of
          None \<Rightarrow> Some ((NULL, None), w)
        | Some (buf, base) \<Rightarrow> do {
            (r, w) \<leftarrow> print_rest N c [cmb..<CAP_MAXBITS] (histogram c [cmb..<CAP_MAXBITS]) (rev [1..<8]) buf w;
            (case r of
               None \<Rightarrow> Some ((NULL, None), w)
             | Some buf \<Rightarrow>
                 (let (s, w) = libcap_strdup (Some (drop base buf)) w in
                  Some ((s, Some (length buf - base)), w))) }) } }"

end
