(* ===== verification/Cap_Text_Spec.thy ===== *)
theory Cap_Text_Spec
  imports Cap_Text
begin

text \<open>
  What the parser and the printer of \<^verbatim>\<open>cap_text.c\<close> compute: the effect of each
  operator and of a whole clause bit by bit, the text of a clause as the parser reads it, and
  the round trip \<^verbatim>\<open>cap_from_text(cap_to_text(c)) = c\<close>.
\<close>

section \<open>Bits of the parser's operations\<close>

lemma rev_upt_2: "rev [0..<2] = [Suc 0, 0]"
  by (simp add: numeral_2_eq_2)

lemma setbits_fields [simp]:
  "c_mutex (setbits b s blks a) = c_mutex a" "c_head (setbits b s blks a) = c_head a"
  "c_rootid (setbits b s blks a) = c_rootid a"
proof -
  have "c_mutex (fold (\<lambda>n a. set_flat n s (flat a n s OR b ! n) a) ns a) = c_mutex a \<and>
        c_head (fold (\<lambda>n a. set_flat n s (flat a n s OR b ! n) a) ns a) = c_head a \<and>
        c_rootid (fold (\<lambda>n a. set_flat n s (flat a n s OR b ! n) a) ns a) = c_rootid a" for ns
    by (induction ns arbitrary: a) simp_all
  then show "c_mutex (setbits b s blks a) = c_mutex a" "c_head (setbits b s blks a) = c_head a"
    "c_rootid (setbits b s blks a) = c_rootid a" by (simp_all add: setbits_def)
qed

lemma clrbits_fields [simp]:
  "c_mutex (clrbits b s blks a) = c_mutex a" "c_head (clrbits b s blks a) = c_head a"
  "c_rootid (clrbits b s blks a) = c_rootid a"
proof -
  have "c_mutex (fold (\<lambda>n a. set_flat n s (flat a n s AND NOT (b ! n)) a) ns a) = c_mutex a \<and>
        c_head (fold (\<lambda>n a. set_flat n s (flat a n s AND NOT (b ! n)) a) ns a) = c_head a \<and>
        c_rootid (fold (\<lambda>n a. set_flat n s (flat a n s AND NOT (b ! n)) a) ns a) = c_rootid a" for ns
    by (induction ns arbitrary: a) simp_all
  then show "c_mutex (clrbits b s blks a) = c_mutex a" "c_head (clrbits b s blks a) = c_head a"
    "c_rootid (clrbits b s blks a) = c_rootid a" by (simp_all add: clrbits_def)
qed

lemma wf_setbits [simp]: "wf_cap a \<Longrightarrow> wf_cap (setbits b s 2 a)" "wf_cap a \<Longrightarrow> wf_cap (clrbits b s 2 a)"
  by (simp_all add: setbits_def clrbits_def rev_upt_2)

lemma flat_setbits:
  "wf_cap a \<Longrightarrow> s < 3 \<Longrightarrow> t < 3 \<Longrightarrow> i < 2 \<Longrightarrow>
     flat (setbits b s 2 a) i t = (if t = s then flat a i t OR b ! i else flat a i t)"
  "wf_cap a \<Longrightarrow> s < 3 \<Longrightarrow> t < 3 \<Longrightarrow> i < 2 \<Longrightarrow>
     flat (clrbits b s 2 a) i t = (if t = s then flat a i t AND NOT (b ! i) else flat a i t)"
  by (auto simp: setbits_def clrbits_def rev_upt_2 less_2_cases_iff)

lemma isset_setbits [simp]:
  assumes "wf_cap a" "s < 3" "t < 3" "x < 64"
  shows "isset_cap (setbits b s 2 a) x t \<longleftrightarrow> isset_cap a x t \<or> (t = s \<and> vec_isset b x)"
    "isset_cap (clrbits b s 2 a) x t \<longleftrightarrow> isset_cap a x t \<and> \<not> (t = s \<and> vec_isset b x)"
  using assms by (simp_all add: isset_cap_bit vec_isset_bit flat_setbits bit_or_iff bit_and_iff bit_not_iff)

lemma set_flags_props:
  assumes "wf_cap c"
  shows "wf_cap (set_flags f l 2 c)" "c_mutex (set_flags f l 2 c) = c_mutex c" "c_head (set_flags f l 2 c) = c_head c"
    "wf_cap (clr_flags f l 2 c)" "c_mutex (clr_flags f l 2 c) = c_mutex c" "c_head (clr_flags f l 2 c) = c_head c"
    "c_rootid (set_flags f l 2 c) = c_rootid c" "c_rootid (clr_flags f l 2 c) = c_rootid c"
  using assms by (simp_all add: set_flags_def clr_flags_def Let_def)

lemma int_and_flag: "(f :: int) AND 1 \<noteq> 0 \<longleftrightarrow> bit f 0" "f AND 2 \<noteq> 0 \<longleftrightarrow> bit f (Suc 0)" "f AND 4 \<noteq> 0 \<longleftrightarrow> bit f 2"
  using bit_iff_and_push_bit_not_eq_0 [of f 0] bit_iff_and_push_bit_not_eq_0 [of f "Suc 0"]
    bit_iff_and_push_bit_not_eq_0 [of f 2]
  by (simp_all add: push_bit_eq_mult)

lemma isset_set_flags:
  assumes "wf_cap c" "s < 3" "x < 64"
  shows "isset_cap (set_flags f l 2 c) x s \<longleftrightarrow> isset_cap c x s \<or> (bit f s \<and> vec_isset l x)"
    "isset_cap (clr_flags f l 2 c) x s \<longleftrightarrow> isset_cap c x s \<and> \<not> (bit f s \<and> vec_isset l x)"
proof -
  have "s = 0 \<or> s = Suc 0 \<or> s = 2" using assms(2) by auto
  then show "isset_cap (set_flags f l 2 c) x s \<longleftrightarrow> isset_cap c x s \<or> (bit f s \<and> vec_isset l x)"
    "isset_cap (clr_flags f l 2 c) x s \<longleftrightarrow> isset_cap c x s \<and> \<not> (bit f s \<and> vec_isset l x)"
    unfolding set_flags_def clr_flags_def Let_def of_nat_numeral of_nat_1 int_and_flag
    using assms by (elim disjE; auto)+
qed

text \<open>What an operator makes of one bit of the listed capabilities.\<close>

definition op_bit :: "char \<Rightarrow> bool \<Rightarrow> bool \<Rightarrow> bool" where
  "op_bit op fl old \<longleftrightarrow>
     (if op = CHR ''='' \<or> op = CHR ''P'' then fl else if op = CHR ''M'' then False
      else if op = CHR ''+'' then old \<or> fl else old \<and> \<not> fl)"

definition op_result :: "char \<Rightarrow> int \<Rightarrow> u32 list \<Rightarrow> cap_struct \<Rightarrow> cap_struct \<Rightarrow> bool" where
  "op_result op f l c c' \<longleftrightarrow> wf_cap c' \<and> c_mutex c' = c_mutex c \<and> c_head c' = c_head c \<and> c_rootid c' = c_rootid c
     \<and> (\<forall>x < 64. \<forall>s < 3. isset_cap c' x s = (if vec_isset l x then op_bit op (bit f s) (isset_cap c x s) else isset_cap c x s))"

lemma apply_op_result: "wf_cap c \<Longrightarrow> op_result op f l c (apply_op op f l 2 c)"
  by (auto simp: op_result_def apply_op_def Let_def set_flags_props isset_set_flags op_bit_def)

lemma vec_isset_forceall:
  assumes "0 \<le> cmb" "cmb \<le> 64" "x < 64"
  shows "vec_isset (forceall cmb (- 1) 2 [0, 0]) x \<longleftrightarrow> int x < cmb"
proof -
  have u: "uint (of_int cmb :: u32) = cmb"
    using assms(1,2) by (simp add: uint_word_of_int_eq take_bit_int_eq_self)
  have low: "bit ((push_bit k 1 :: u32) - 1) n \<longleftrightarrow> n < k" if "k < 32" "n < 32" for k n
    using that mask_eq_exp_minus_1 [of k, where 'a = u32]
    by (simp add: push_bit_of_1 bit_simps flip: mask_eq_exp_minus_1)
  have "bit (forceall_mask cmb (x div 32)) (x mod 32) \<longleftrightarrow> int x < cmb"
  proof -
    consider "cmb \<ge> 32 * int (x div 32) + 32" | "cmb > 32 * int (x div 32)" "cmb < 32 * int (x div 32) + 32"
      | "cmb \<le> 32 * int (x div 32)" by linarith
    then show ?thesis
    proof cases
      case 1
      have "int x < 32 * int (x div 32) + 32" by (simp add: zdiv_int)
      with 1 u show ?thesis by (simp add: forceall_mask_def Let_def bit_simps)
    next
      case 2
      then have "nat (cmb mod 32) < 32" by simp
      moreover have "int (x mod 32) < cmb mod 32 \<longleftrightarrow> int x < cmb"
      proof -
        have "int x = 32 * int (x div 32) + int (x mod 32)" by presburger
        moreover have "cmb mod 32 = cmb - 32 * int (x div 32)"
        proof -
          have "(cmb - 32 * int (x div 32)) mod 32 = cmb mod 32"
            using mod_mult_self2 [of cmb 32 "- int (x div 32)"] by (simp del: mod_mult_self2)
          with 2 show ?thesis by simp
        qed
        ultimately show ?thesis by linarith
      qed
      ultimately show ?thesis using 2 u low [of "nat (cmb mod 32)" "x mod 32"]
        by (simp add: forceall_mask_def Let_def) linarith
    next
      case 3
      have "32 * int (x div 32) \<le> int x" by (simp add: zdiv_int)
      with 3 u show ?thesis by (simp add: forceall_mask_def Let_def)
    qed
  qed
  moreover have "forceall cmb (- 1) 2 [0, 0] = [forceall_mask cmb 0, forceall_mask cmb 1]"
    by (simp add: forceall_def rev_upt_2)
  moreover have "x div 32 = 0 \<or> x div 32 = 1" using assms(3) by auto
  ultimately show ?thesis by (auto simp: vec_isset_bit)
qed

lemma length_forceall [simp]: "length (forceall cmb v blks l) = length l"
proof -
  have "length (fold (\<lambda>n flt. flt[n := v AND forceall_mask cmb n]) ns l) = length l" for ns
    by (induction ns arbitrary: l) simp_all
  then show ?thesis by (simp add: forceall_def)
qed

section \<open>Actions\<close>

definition letters :: "string \<Rightarrow> bool" where
  "letters ls \<longleftrightarrow> (\<forall>c \<in> set ls. flag_letter c \<noteq> None)"

definition flags_of :: "string \<Rightarrow> int" where
  "flags_of ls = foldr (\<lambda>c f. the (flag_letter c) OR f) ls 0"

lemma flags_of_simps [simp]: "flags_of [] = 0" "flags_of (c # ls) = the (flag_letter c) OR flags_of ls"
  by (simp_all add: flags_of_def)

lemma flag_letter_char:
  assumes "flag_letter c \<noteq> None"
  shows "isalpha c" "\<not> isspace c" "c \<noteq> CHR ''+''" "c \<noteq> CHR ''-''" "\<not> at_end (c # s)"
  using assms by (auto simp: flag_letter_def at_end_def ctype_defs split: if_splits)

lemma op_result_trans:
  assumes "op_result op f l c c1" "op_result op (f OR g) l c1 c2"
  shows "op_result op (f OR g) l c c2"
  using assms by (auto simp: op_result_def op_bit_def bit_or_iff split: if_splits)

text \<open>
  A run of flag letters applies the operator with all of them; then the clause ends, or the
  minus operator takes over with fresh flags.
\<close>

lemma parse_actions_letters:
  assumes "letters (a # ls)" "wf_cap c"
    and "at_end rest \<or> (listed \<and> (\<exists>y ys. rest = CHR ''-'' # y # ys \<and> flag_letter y \<noteq> None))"
  shows "\<exists>c1. op_result op (f OR flags_of (a # ls)) l c c1
     \<and> parse_actions listed l 2 op f (a # ls @ rest) c =
         (if at_end rest then Some (rest, c1) else parse_actions listed l 2 CHR ''-'' 0 (tl rest) c1)"
  using assms
proof (induction ls arbitrary: a f c)
  case Nil
  then obtain v where a: "flag_letter a = Some v" by (auto simp: letters_def)
  then have ne: "\<not> at_end (a # rest)" using flag_letter_char(5) [of a] by auto
  let ?c1 = "apply_op op (f OR v) l 2 c"
  have res: "op_result op (f OR v) l c ?c1" using Nil by (simp add: apply_op_result)
  show ?case
  proof (cases "at_end rest")
    case True
    then have "deref rest \<noteq> CHR ''+'' \<and> deref rest \<noteq> CHR ''-''"
      by (auto simp: at_end_def ctype_defs NUL_def)
    with a ne res True show ?thesis
      by (intro exI [of _ ?c1]) (simp add: parse_actions.simps [of _ _ _ _ _ "a # rest"] action_step_def)
  next
    case False
    then obtain y ys where r: "rest = CHR ''-'' # y # ys" "flag_letter y \<noteq> None" listed using Nil.prems by auto
    with a ne res False flag_letter_char [of y] show ?thesis
      by (intro exI [of _ ?c1]) (simp add: parse_actions.simps [of _ _ _ _ _ "a # CHR ''-'' # y # ys"] action_step_def)
  qed
next
  case (Cons b ls)
  then obtain v where a: "flag_letter a = Some v" by (auto simp: letters_def)
  let ?c1 = "apply_op op (f OR v) l 2 c"
  have b: "flag_letter b \<noteq> None" using Cons.prems by (simp add: letters_def)
  have res: "op_result op (f OR v) l c ?c1" using Cons.prems by (simp add: apply_op_result)
  then have wf: "wf_cap ?c1" by (simp add: op_result_def)
  obtain c2 where c2: "op_result op (f OR v OR flags_of (b # ls)) l ?c1 c2"
     "parse_actions listed l 2 op (f OR v) (b # ls @ rest) ?c1 =
         (if at_end rest then Some (rest, c2) else parse_actions listed l 2 CHR ''-'' 0 (tl rest) c2)"
    using Cons.IH [of b ?c1 "f OR v"] Cons.prems wf by (auto simp: letters_def or.assoc)
  have "parse_actions listed l 2 op f (a # (b # ls) @ rest) c = parse_actions listed l 2 op (f OR v) (b # ls @ rest) ?c1"
    using a b flag_letter_char [of b] flag_letter_char(5) [of a]
    by (simp add: parse_actions.simps [of _ _ _ _ _ "a # b # _"] action_step_def)
  then show ?case
    using c2 op_result_trans [OF res, of "flags_of (b # ls)" c2] a by (intro exI [of _ c2]) (simp add: or.assoc)
qed

lemma flag_text_letters: "letters (flag_text n)"
  by (auto simp: letters_def flag_text_def flag_letter_def)

lemma bit_flags_of_flag_text: "s < 3 \<Longrightarrow> bit (flags_of (flag_text n)) s \<longleftrightarrow> bit n s"
proof -
  have "bit (1 :: int) s \<longleftrightarrow> s = 0" "bit (2 :: int) s \<longleftrightarrow> s = Suc 0" "bit (4 :: int) s \<longleftrightarrow> s = 2"
    using bit_push_bit_iff [of 1 "1 :: int" s] bit_push_bit_iff [of 2 "1 :: int" s] 
    by (auto simp: bit_1_iff push_bit_eq_mult)
  moreover assume "s < 3"
  then have "s = 0 \<or> s = Suc 0 \<or> s = 2" by auto
  ultimately show ?thesis
    unfolding flag_text_def of_nat_numeral of_nat_1 int_and_flag
    by (elim disjE) (auto simp: flag_letter_def bit_or_iff)
qed

lemma flag_text_nonempty: "flag_text n \<noteq> [] \<longleftrightarrow> (\<exists>s < 3. bit n s)"
proof -
  have "(\<exists>s < 3. bit n s) \<longleftrightarrow> bit n 0 \<or> bit n (Suc 0) \<or> bit n 2"
    using all_nat_less_3 [of "\<lambda>s. \<not> bit n s"] by auto
  then show ?thesis unfolding flag_text_def of_nat_numeral of_nat_1 int_and_flag by auto
qed

section \<open>Clauses\<close>

text \<open>The list of names a clause opens with.\<close>

definition join_names :: "names_h \<Rightarrow> nat list \<Rightarrow> string" where
  "join_names N ns = butlast (concat (map (\<lambda>n. name_of N n @ '','') ns))"

lemma concat_names_nonempty: "ns \<noteq> [] \<Longrightarrow> concat (map (\<lambda>n. name_of N n @ '','') ns) \<noteq> []"
  by (cases ns) auto

lemma join_names_Cons:
  "join_names N [n] = name_of N n"
  "ns \<noteq> [] \<Longrightarrow> join_names N (n # ns) = name_of N n @ '','' @ join_names N ns"
  using concat_names_nonempty [of ns N] by (simp_all add: join_names_def butlast_append)

lemma parse_list_item:
  assumes "parse_item N cmb blks (str, l) = Some (str', l')"
  shows "deref str' \<noteq> CHR '','' \<Longrightarrow> parse_list N cmb blks str l = Some (str', l')"
    "deref str' = CHR '','' \<Longrightarrow> isalnum (deref (tl str')) \<or> deref (tl str') = CHR ''_'' \<Longrightarrow>
       parse_list N cmb blks str l = parse_list N cmb blks (tl str') l'"
  using assms by (auto simp: parse_list.simps [of N cmb blks str] Let_def)

context names_abi
begin

lemma deref_name_of: "isalnum (deref (name_of N x @ s)) \<or> deref (name_of N x @ s) = CHR ''_''"
  using name_of_chars [of "hd (name_of N x)" x] name_of_nonempty [of x]
  by (cases "name_of N x") auto

lemma deref_join_names:
  assumes "ns \<noteq> []"
  shows "isalnum (deref (join_names N ns @ s)) \<or> deref (join_names N ns @ s) = CHR ''_''"
proof (cases ns)
  case (Cons n ms)
  then show ?thesis
    using deref_name_of [of n s] deref_name_of [of n "CHR '','' # join_names N ms @ s"]
    by (cases "ms = []") (auto simp: join_names_Cons)
qed (use assms in simp)

lemma parse_item_name_of:
  assumes "readable N cmb n" "0 \<le> cmb" "token_end rest"
  shows "parse_item N cmb blks (name_of N n @ rest, l) = Some (rest, vec_raise n l)"
  using namcmp_all_name_of [OF assms(3)] lookupname_name_of [OF assms] by (simp add: parse_item_def)

lemma parse_list_join:
  assumes "ns \<noteq> []" "\<forall>n \<in> set ns. readable N cmb n" "0 \<le> cmb" "token_end rest" "deref rest \<noteq> CHR '',''"
  shows "parse_list N cmb blks (join_names N ns @ rest) l = Some (rest, fold vec_raise ns l)"
  using assms
proof (induction ns arbitrary: l)
  case (Cons n ns)
  show ?case
  proof (cases "ns = []")
    case True
    with Cons.prems parse_item_name_of [of cmb n rest blks l] show ?thesis
      by (simp add: join_names_Cons parse_list_item)
  next
    case False
    have comma: "token_end (CHR '','' # s)" for s by (simp add: token_end_def ctype_defs)
    have "parse_item N cmb blks (name_of N n @ CHR '','' # join_names N ns @ rest, l)
            = Some (CHR '','' # join_names N ns @ rest, vec_raise n l)"
      using Cons.prems by (intro parse_item_name_of comma) auto
    from parse_list_item(2) [OF this] deref_join_names [OF False] Cons False
    show ?thesis by (simp add: join_names_Cons)
  qed
qed simp

end

lemma vec_isset_fold_raise:
  assumes "\<forall>n \<in> set ns. n < 64" "x < 64"
  shows "vec_isset (fold vec_raise ns [0, 0]) x \<longleftrightarrow> x \<in> set ns"
proof -
  have "\<not> vec_isset [0, 0] x"
  proof -
    have "x div 32 = 0 \<or> x div 32 = 1" using assms(2) by auto
    then show ?thesis by (auto simp: vec_isset_def)
  qed
  then show ?thesis
    using vec.test_fold_up [where s = "[0, 0]" and xs = ns and y = x] assms by simp
qed

text \<open>The operators behind the list: \<open>op1\<close> with the flags to raise, minus with those to drop.\<close>

definition ops_text :: "string \<Rightarrow> nat \<Rightarrow> nat \<Rightarrow> string" where
  "ops_text op1 m t =
     (let n = int t AND NOT (int m) in if n \<noteq> 0 then op1 @ flag_text n else [])
     @ (let n = NOT (int t) AND int m in if n \<noteq> 0 then ''-'' @ flag_text n else [])"

lemma small_flags_cases: "(t :: nat) < 8 \<Longrightarrow> t = 0 \<or> t = 1 \<or> t = 2 \<or> t = 3 \<or> t = 4 \<or> t = 5 \<or> t = 6 \<or> t = 7"
  by auto

lemma bit_small: "(t :: nat) < 8 \<Longrightarrow> bit (int t) s \<Longrightarrow> s < 3"
proof -
  assume "t < 8" "bit (int t) s"
  then have "bit (take_bit 3 t) s" by (simp add: bit_of_nat_iff_bit take_bit_nat_eq_self)
  then show "s < 3" by (simp add: bit_take_bit_iff)
qed

lemma diff_flags_nonempty:
  assumes "t < 8" "m < 8"
  shows "int t AND NOT (int m) \<noteq> 0 \<longleftrightarrow> flag_text (int t AND NOT (int m)) \<noteq> []"
    "NOT (int t) AND int m \<noteq> 0 \<longleftrightarrow> flag_text (NOT (int t) AND int m) \<noteq> []"
proof -
  have "n \<noteq> 0 \<longleftrightarrow> (\<exists>s. bit n s)" for n :: int
    using bit_eq_iff [of n 0] by simp
  then show "int t AND NOT (int m) \<noteq> 0 \<longleftrightarrow> flag_text (int t AND NOT (int m)) \<noteq> []"
    "NOT (int t) AND int m \<noteq> 0 \<longleftrightarrow> flag_text (NOT (int t) AND int m) \<noteq> []"
    using bit_small [OF assms(1)] bit_small [OF assms(2)]
    unfolding flag_text_nonempty by (auto simp: bit_and_iff bit_not_iff)
qed

lemma parse_actions_flag_text:
  assumes "flag_text n \<noteq> []" "wf_cap c"
    and "at_end rest \<or> (listed \<and> (\<exists>k r. flag_text k \<noteq> [] \<and> rest = CHR ''-'' # flag_text k @ r))"
  shows "\<exists>c1. op_result op (flags_of (flag_text n)) l c c1
     \<and> parse_actions listed l 2 op 0 (flag_text n @ rest) c =
         (if at_end rest then Some (rest, c1) else parse_actions listed l 2 CHR ''-'' 0 (tl rest) c1)"
proof -
  obtain a ls where f: "flag_text n = a # ls" using assms(1) by (cases "flag_text n") auto
  have "at_end rest \<or> (listed \<and> (\<exists>y ys. rest = CHR ''-'' # y # ys \<and> flag_letter y \<noteq> None))"
  proof (cases "at_end rest")
    case False
    then obtain k r where k: "listed" "flag_text k \<noteq> []" "rest = CHR ''-'' # flag_text k @ r" using assms(3) by auto
    then obtain y ys where "flag_text k = y # ys" by (cases "flag_text k") auto
    with k flag_text_letters [of k] show ?thesis by (auto simp: letters_def)
  qed simp
  from parse_actions_letters [OF _ assms(2) this, of a ls op 0 l] flag_text_letters [of n] f show ?thesis by simp
qed

text \<open>
  Capabilities that share the state \<open>m\<close> are brought into the state \<open>t\<close> by the
  printed operators; the others are left alone.
\<close>

definition moved :: "nat set \<Rightarrow> nat \<Rightarrow> cap_struct \<Rightarrow> cap_struct \<Rightarrow> bool" where
  "moved S t c c' \<longleftrightarrow> wf_cap c' \<and> c_mutex c' = c_mutex c \<and> c_head c' = c_head c \<and> c_rootid c' = c_rootid c
     \<and> (\<forall>x < 64. \<forall>s < 3. isset_cap c' x s = (if x \<in> S then bit (int t) s else isset_cap c x s))"

lemma moved_unique: "moved S t c a \<Longrightarrow> moved S t c b \<Longrightarrow> a = b"
proof -
  assume m: "moved S t c a" "moved S t c b"
  then have "c_u a = c_u b" by (auto simp: moved_def intro!: cap_u_eqI)
  with m show "a = b" by (intro cap_struct.equality) (simp_all add: moved_def)
qed

lemma parse_ops_text:
  assumes tm: "t < 8" "m < 8" "t \<noteq> m" and c: "wf_cap c" and e: "at_end rest"
    and op1: "op1 = ''+'' \<or> (op1 = ''='' \<and> m = 0)"
    and l: "\<And>x. x < 64 \<Longrightarrow> vec_isset l x \<longleftrightarrow> x \<in> S"
    and old: "\<And>x s. x \<in> S \<Longrightarrow> x < 64 \<Longrightarrow> s < 3 \<Longrightarrow> isset_cap c x s = bit (int m) s"
  shows "\<exists>op str c'. clause_op True (ops_text op1 m t @ rest) = Some (op, str)
           \<and> parse_actions True l 2 op 0 str c = Some (rest, c') \<and> moved S t c c'"
proof -
  define n1 where "n1 = int t AND NOT (int m)"
  define n2 where "n2 = NOT (int t) AND int m"
  note ne = diff_flags_nonempty [OF tm(1,2), folded n1_def n2_def]
  have b1: "bit n1 s \<longleftrightarrow> bit (int t) s \<and> \<not> bit (int m) s" for s by (auto simp: n1_def bit_and_iff bit_not_iff)
  have b2: "bit n2 s \<longleftrightarrow> \<not> bit (int t) s \<and> bit (int m) s" for s by (auto simp: n2_def bit_and_iff bit_not_iff)
  have tx: "ops_text op1 m t = (if n1 \<noteq> 0 then op1 @ flag_text n1 else []) @ (if n2 \<noteq> 0 then ''-'' @ flag_text n2 else [])"
    by (simp add: ops_text_def n1_def n2_def)
  have lett: "deref (flag_text n @ r) \<noteq> CHR ''+''" "deref (flag_text n @ r) \<noteq> CHR ''-''" if "flag_text n \<noteq> []" for n r
    using that flag_text_letters [of n] flag_letter_char by (cases "flag_text n"; force simp: letters_def)+
  note bits = bit_flags_of_flag_text
  show ?thesis
  proof (cases "n1 = 0")
    case True
    then have n2: "n2 \<noteq> 0"
    proof -
      have "\<exists>s. bit (int t) s \<noteq> bit (int m) s" using tm(3) bit_eq_iff [of "int t" "int m"] by auto
      then have "\<exists>s. bit n1 s \<or> bit n2 s" unfolding b1 b2 by blast
      with True show ?thesis by auto
    qed
    with ne obtain c1 where c1: "op_result CHR ''-'' (flags_of (flag_text n2)) l c c1"
      "parse_actions True l 2 CHR ''-'' 0 (flag_text n2 @ rest) c = Some (rest, c1)"
      using parse_actions_flag_text [of n2 c rest True "CHR ''-''" l] c e by auto
    have "\<not> bit n1 s" for s using True by simp
    then have "moved S t c c1"
      using c1(1) l old by (auto simp: moved_def op_result_def op_bit_def bits b1 b2)
    with c1 True n2 show ?thesis by (simp add: tx clause_op_def)
  next
    case False
    have opc: "clause_op True (op1 @ flag_text n1 @ r) = Some (hd op1, flag_text n1 @ r)" for r
      using op1 lett [of n1 r] ne False by (auto simp: clause_op_def)
    show ?thesis
    proof (cases "n2 = 0")
      case True
      from False ne obtain c1 where c1: "op_result (hd op1) (flags_of (flag_text n1)) l c c1"
        "parse_actions True l 2 (hd op1) 0 (flag_text n1 @ rest) c = Some (rest, c1)"
        using parse_actions_flag_text [of n1 c rest True "hd op1" l] c e by auto
      have "\<not> bit n2 s" for s using True by simp
      then have "moved S t c c1"
        using c1(1) l old op1 by (auto simp: moved_def op_result_def op_bit_def bits b1 b2)
      with c1 True False opc [of rest] show ?thesis by (simp add: tx)
    next
      case n2: False
      then have op: "op1 = ''+''" using op1 by (auto simp: n2_def)
      have "\<not> at_end (CHR ''-'' # flag_text n2 @ rest)" by (simp add: at_end_def ctype_defs)
      then obtain c1 where c1: "op_result CHR ''+'' (flags_of (flag_text n1)) l c c1"
        "parse_actions True l 2 CHR ''+'' 0 (flag_text n1 @ CHR ''-'' # flag_text n2 @ rest) c
           = parse_actions True l 2 CHR ''-'' 0 (flag_text n2 @ rest) c1"
        using parse_actions_flag_text [of n1 c "CHR ''-'' # flag_text n2 @ rest" True "CHR ''+''" l] False n2 ne c by auto
      then have "wf_cap c1" by (simp add: op_result_def)
      with n2 ne obtain c2 where c2: "op_result CHR ''-'' (flags_of (flag_text n2)) l c1 c2"
        "parse_actions True l 2 CHR ''-'' 0 (flag_text n2 @ rest) c1 = Some (rest, c2)"
        using parse_actions_flag_text [of n2 c1 rest True "CHR ''-''" l] e by auto
      have "moved S t c c2"
        using c1(1) c2(1) l old by (auto simp: moved_def op_result_def op_bit_def bits b1 b2)
      with c1 c2 n2 False opc [of "CHR ''-'' # flag_text n2 @ rest"] op show ?thesis
        unfolding tx by simp
    qed
  qed
qed

lemma parse_clauses_space: "parse_clauses N cmb blks (CHR '' '' # str) c = parse_clauses N cmb blks str c"
  by (simp add: parse_clauses.simps [of N cmb blks str] parse_clauses.simps [of N cmb blks "CHR '' '' # str"] isspace_def)

lemma parse_clauses_clause:
  "\<not> at_end str \<Longrightarrow> parse_clause N cmb blks str c = Some (rest, c') \<Longrightarrow>
     parse_clauses N cmb blks str c = parse_clauses N cmb blks rest c'"
  by (subst parse_clauses.simps) (cases str; simp add: at_end_def)

lemma at_end_simps [simp]: "at_end []" "at_end (CHR '' '' # s)"
  by (simp_all add: at_end_def isspace_def)

lemma at_end_ops: "at_end rest \<Longrightarrow> deref rest \<noteq> CHR ''+'' \<and> deref rest \<noteq> CHR ''-''"
  by (auto simp: at_end_def ctype_defs NUL_def)

text \<open>The default clause \<^verbatim>\<open>=F\<close> gives every capability the kernel names the state \<open>m\<close>.\<close>

lemma parse_default_clause_at:
  assumes "m < 8" "wf_cap c" "at_end rest" "0 \<le> cmb" "cmb \<le> 64"
  shows "\<exists>c'. parse_clauses N cmb 2 (CHR ''='' # flag_text (int m) @ rest) c = parse_clauses N cmb 2 rest c'
     \<and> moved {x. int x < cmb} m c c'"
proof -
  let ?l = "forceall cmb (- 1) 2 [0, 0]" and ?f = "flag_text (int m)"
  have caps: "clause_caps N cmb 2 (CHR ''='' # ?f @ rest) = Some (CHR ''='' # ?f @ rest, ?l, False)"
    by (simp add: clause_caps_def ctype_defs)
  have "deref (?f @ rest) \<noteq> CHR ''+'' \<and> deref (?f @ rest) \<noteq> CHR ''-''"
  proof (cases ?f)
    case (Cons a ls)
    with flag_text_letters [of "int m"] flag_letter_char [of a] show ?thesis by (simp add: letters_def)
  qed (use at_end_ops [OF assms(3)] in simp)
  then have op: "clause_op False (CHR ''='' # ?f @ rest) = Some (CHR ''='', ?f @ rest)"
    by (simp add: clause_op_def)
  have "\<exists>c'. parse_actions False ?l 2 CHR ''='' 0 (?f @ rest) c = Some (rest, c') \<and> op_result CHR ''='' (flags_of ?f) ?l c c'"
  proof (cases "?f = []")
    case True
    with assms(2,3) at_end_ops [OF assms(3)] show ?thesis
      by (intro exI [of _ "apply_op CHR ''='' 0 ?l 2 c"])
        (simp add: parse_actions.simps [of _ _ _ _ _ rest] action_step_def apply_op_result)
  next
    case False
    with parse_actions_flag_text [of "int m" c rest False "CHR ''=''" ?l] assms show ?thesis by auto
  qed
  then obtain c' where c': "parse_actions False ?l 2 CHR ''='' 0 (?f @ rest) c = Some (rest, c')"
    "op_result CHR ''='' (flags_of ?f) ?l c c'" by blast
  have "moved {x. int x < cmb} m c c'"
    using c'(2) assms(4,5) by (auto simp: moved_def op_result_def op_bit_def bit_flags_of_flag_text vec_isset_forceall)
  moreover have "parse_clause N cmb 2 (CHR ''='' # ?f @ rest) c = Some (rest, c')"
    using caps op c'(1) by (simp add: parse_clause_def)
  moreover have "\<not> at_end (CHR ''='' # ?f @ rest)" by (simp add: at_end_def ctype_defs)
  ultimately show ?thesis using parse_clauses_clause by blast
qed

lemma parse_default_clause:
  assumes "m < 8" "wf_cap c" "0 \<le> cmb" "cmb \<le> 64"
  shows "\<exists>c'. moved {x. int x < cmb} m c c' \<and> (\<forall>rest. at_end rest \<longrightarrow>
           parse_clauses N cmb 2 (CHR ''='' # flag_text (int m) @ rest) c = parse_clauses N cmb 2 rest c')"
proof -
  have "\<exists>c'. moved {x. int x < cmb} m c c' \<and>
      parse_clauses N cmb 2 (CHR ''='' # flag_text (int m) @ rest) c = parse_clauses N cmb 2 rest c'"
    if "at_end rest" for rest using parse_default_clause_at [OF assms(1,2) that assms(3,4)] by blast
  then show ?thesis using moved_unique at_end_simps(1) by metis
qed

context names_abi
begin

lemma parse_named_clause_at:
  assumes "t < 8" "m < 8" "t \<noteq> m" "wf_cap c" "at_end rest" "0 \<le> cmb"
    and "op1 = ''+'' \<or> (op1 = ''='' \<and> m = 0)" "ns \<noteq> []" "\<forall>n \<in> set ns. readable N cmb n"
    and "\<And>x s. x \<in> set ns \<Longrightarrow> x < 64 \<Longrightarrow> s < 3 \<Longrightarrow> isset_cap c x s = bit (int m) s"
  shows "\<exists>c'. parse_clauses N cmb 2 (join_names N ns @ ops_text op1 m t @ rest) c = parse_clauses N cmb 2 rest c'
     \<and> moved (set ns) t c c'"
proof -
  let ?l = "fold vec_raise ns [0, 0]"
  have "\<forall>n \<in> set ns. n < 64" using assms(9) by (auto simp: readable_def)
  then have l: "\<And>x. x < 64 \<Longrightarrow> vec_isset ?l x \<longleftrightarrow> x \<in> set ns" by (rule vec_isset_fold_raise)
  obtain op str c' where o: "clause_op True (ops_text op1 m t @ rest) = Some (op, str)"
    "parse_actions True ?l 2 op 0 str c = Some (rest, c')" "moved (set ns) t c c'"
    using parse_ops_text [OF assms(1-5,7) l assms(10)] by blast
  have d: "deref (ops_text op1 m t @ rest) \<in> {CHR ''+'', CHR ''='', CHR ''-''}"
    using o(1) by (auto simp: clause_op_def Let_def split: if_splits)
  have tok: "token_end (ops_text op1 m t @ rest)" "deref (ops_text op1 m t @ rest) \<noteq> CHR '',''"
    using d by (auto simp: token_end_def ctype_defs)
  have first: "isalnum (deref (join_names N ns @ s)) \<or> deref (join_names N ns @ s) = CHR ''_''" for s
    using deref_join_names [OF assms(8)] .
  have "clause_caps N cmb 2 (join_names N ns @ ops_text op1 m t @ rest) = Some (ops_text op1 m t @ rest, ?l, True)"
    using parse_list_join [OF assms(8,9,6) tok, of 2 "[0, 0]"] first by (simp add: clause_caps_def)
  then have "parse_clause N cmb 2 (join_names N ns @ ops_text op1 m t @ rest) c = Some (rest, c')"
    using o by (simp add: parse_clause_def)
  moreover have "\<not> at_end (join_names N ns @ s)" for s
    using first [of s] by (auto simp: at_end_def ctype_defs NUL_def)
  ultimately show ?thesis using o(3) parse_clauses_clause by blast
qed

lemma parse_named_clause:
  assumes "t < 8" "m < 8" "t \<noteq> m" "wf_cap c" "0 \<le> cmb"
    and "op1 = ''+'' \<or> (op1 = ''='' \<and> m = 0)" "ns \<noteq> []" "\<forall>n \<in> set ns. readable N cmb n"
    and "\<And>x s. x \<in> set ns \<Longrightarrow> x < 64 \<Longrightarrow> s < 3 \<Longrightarrow> isset_cap c x s = bit (int m) s"
  shows "\<exists>c'. moved (set ns) t c c' \<and> (\<forall>rest. at_end rest \<longrightarrow>
     parse_clauses N cmb 2 (join_names N ns @ ops_text op1 m t @ rest) c = parse_clauses N cmb 2 rest c')"
proof -
  have "\<exists>c'. moved (set ns) t c c' \<and>
     parse_clauses N cmb 2 (join_names N ns @ ops_text op1 m t @ rest) c = parse_clauses N cmb 2 rest c'"
    if "at_end rest" for rest using parse_named_clause_at [OF assms(1-4) that assms(5-9)] by blast
  then show ?thesis using moved_unique at_end_simps(1) by metis
qed

end

section \<open>Printing\<close>

lemma getstateflags_less: "getstateflags c x < 8"
  by (auto simp: getstateflags_def)

lemma bit_getstateflags: "s < 3 \<Longrightarrow> bit (int (getstateflags c x)) s \<longleftrightarrow> isset_cap c x s"
proof -
  assume "s < 3"
  then have "s = 0 \<or> s = Suc 0 \<or> s = 2" by auto
  then show ?thesis
    unfolding getstateflags_def
    by (elim disjE; cases "isset_cap c x 0"; cases "isset_cap c x (Suc 0)"; cases "isset_cap c x 2")
      (simp_all add: bit_iff_odd)
qed

lemma histogram_nth:
  assumes "t < 8"
  shows "histogram c ns ! t = length (filter (\<lambda>n. getstateflags c n = t) ns)"
proof -
  have "length (fold (\<lambda>n h. h[getstateflags c n := Suc (h ! getstateflags c n)]) ns h) = length h
     \<and> (length h = 8 \<longrightarrow> fold (\<lambda>n h. h[getstateflags c n := Suc (h ! getstateflags c n)]) ns h ! t =
          h ! t + length (filter (\<lambda>n. getstateflags c n = t) ns))" for h
    by (induction ns arbitrary: h) (auto simp: nth_list_update getstateflags_less)
  from this [of "replicate 8 0"] assms show ?thesis by (simp add: histogram_def)
qed

lemma prevailing_less: "prevailing h < 8"
proof -
  have "fold (\<lambda>t m. if h ! t \<ge> h ! m then t else m) ts m < 8" if "\<forall>t \<in> set ts. t < 8" "m < 8" for ts m
    using that by (induction ts arbitrary: m) auto
  then show ?thesis by (simp add: prevailing_def)
qed

text \<open>The characters the names of \<open>ns\<close> take, with a separator each.\<close>

definition cost :: "names_h \<Rightarrow> nat list \<Rightarrow> nat" where
  "cost N ns = sum_list (map (\<lambda>n. length (name_of N n) + 1) ns)"

abbreviation in_state :: "cap_struct \<Rightarrow> nat \<Rightarrow> nat list \<Rightarrow> nat list" where
  "in_state c t ns \<equiv> filter (\<lambda>n. getstateflags c n = t) ns"

lemma cost_length: "length (concat (map (\<lambda>n. name_of N n @ '','') ns)) = cost N ns"
  by (induction ns) (simp_all add: cost_def)

lemma cost_split:
  "t \<notin> T \<Longrightarrow> cost N (filter (\<lambda>n. getstateflags c n \<in> insert t T) ns) =
     cost N (in_state c t ns) + cost N (filter (\<lambda>n. getstateflags c n \<in> T) ns)"
  by (induction ns) (auto simp: cost_def)

lemma cost_filter_le: "cost N (filter P ns) \<le> cost N ns"
  by (induction ns) (auto simp: cost_def)

context names_abi
begin

lemma print_names_ok:
  assumes "mem_ok w" "wf_world w" "\<forall>n \<in> set ns. n < 64"
    and "length buf + cost N (in_state c t ns) \<le> CAP_TEXT_SIZE N"
  shows "\<exists>k. print_names N c t ns buf w =
           Some (Some (buf @ concat (map (\<lambda>n. name_of N n @ '','') (in_state c t ns))), bumps k w)"
  using assms
proof (induction ns arbitrary: buf w)
  case Nil
  show ?case by (intro exI [of _ 0]) simp
next
  case (Cons n ns)
  show ?case
  proof (cases "getstateflags c n = t")
    case True
    obtain v where v: "cap_to_name N (int n) w =
           (next_ptr v, new_obj (next_ptr v) (strdup_size (name_of N n)) (CapStr (name_of N n)) (bumped v))"
      "v = w \<or> v = bumped w"
      using cap_to_name_ok [OF Cons.prems(1), of n] Cons.prems(3) by auto
    then obtain j where j: "v = bumps j w" by (metis bumps_simps(1,2))
    have "wf_world v" using Cons.prems(2) j by simp
    then have fresh: "heap (bumped v) (next_ptr v) = None" using wf_fresh [of v] by simp
    have len: "length buf + (length (name_of N n) + 1) + cost N (in_state c t ns) \<le> CAP_TEXT_SIZE N"
      using Cons.prems(4) True by (simp add: cost_def)
    have "\<exists>k. print_names N c t ns (buf @ name_of N n @ '','') (bumped v) =
           Some (Some ((buf @ name_of N n @ '','') @ concat (map (\<lambda>n. name_of N n @ '','') (in_state c t ns))), bumps k (bumped v))"
      using Cons.prems len j by (intro Cons.IH) simp_all
    moreover have "print_names N c t (n # ns) buf w = print_names N c t ns (buf @ name_of N n @ '','') (bumped v)"
      using True v(1) len fresh
      by (simp add: get_str_def put_text_def cap_free_str del_new)
    ultimately show ?thesis using True j by auto
  next
    case False
    with Cons.IH [of w buf] Cons.prems show ?thesis by simp
  qed
qed

end

lemma flag_text_length: "length (flag_text n) \<le> 3"
  by (simp add: flag_text_def)

lemma ops_text_length:
  assumes "length op1 = 1"
  shows "length (ops_text op1 m t) \<le> 5"
proof -
  let ?a = "int t AND NOT (int m)" and ?b = "NOT (int t) AND int m"
  have dis: "\<not> (bit ?a s \<and> bit ?b s)" for s by (auto simp: bit_and_iff bit_not_iff)
  have "length (flag_text ?a) + length (flag_text ?b) \<le> 3"
    unfolding flag_text_def of_nat_numeral of_nat_1 int_and_flag
    using dis [of 0] dis [of "Suc 0"] dis [of 2] by simp
  then show ?thesis using assms by (simp add: ops_text_def Let_def)
qed

lemma print_ops_eq:
  assumes "length B + 6 \<le> CAP_TEXT_SIZE N + 100" "short \<longleftrightarrow> B ! base = CHR ''='' \<and> B ! (base + 1) = CHR '' ''"
  shows "print_ops N m t (B, base) =
           Some (B @ ops_text (if short then ''='' else ''+'') m t,
                 if int t AND NOT (int m) \<noteq> 0 \<and> short then base + 2 else base)"
proof -
  have len: "length (ops_text (if short then ''='' else ''+'') m t) \<le> 5" by (rule ops_text_length) simp
  show ?thesis
    using assms(1) len
    unfolding print_ops_def ops_text_def Let_def Option.bind.simps prod.case assms(2) [symmetric]
    by (cases short; cases "int t AND NOT (int m) = 0"; cases "NOT (int t) AND int m = 0")
      (simp_all add: put_text_def)
qed

section \<open>The text read back\<close>

definition zero3 :: cap_struct where "zero3 = zero_cap LINUX_CAPABILITY_VERSION_3"

text \<open>Parsing what is printed so far leads from the empty set to \<open>c1\<close>.\<close>

definition reads :: "names_h \<Rightarrow> int \<Rightarrow> string \<Rightarrow> nat \<Rightarrow> cap_struct \<Rightarrow> bool" where
  "reads N cmb buf base c1 \<longleftrightarrow>
     (\<forall>rest. at_end rest \<longrightarrow> parse_clauses N cmb 2 (drop base buf @ rest) zero3 = parse_clauses N cmb 2 rest c1)"

text \<open>
  The states in \<open>D\<close> (below \<open>lo\<close>) and in \<open>E\<close> (from \<open>lo\<close> on) are
  done; the capabilities below \<open>lo\<close> that are not have the prevailing state \<open>m\<close>.
\<close>

definition progress :: "cap_struct \<Rightarrow> nat \<Rightarrow> nat \<Rightarrow> nat set \<Rightarrow> nat set \<Rightarrow> cap_struct \<Rightarrow> bool" where
  "progress c m lo D E c1 \<longleftrightarrow> wf_cap c1 \<and> c_mutex c1 = 0 \<and> c_head c1 = c_head zero3 \<and> c_rootid c1 = 0
     \<and> (\<forall>x < 64. \<forall>s < 3. isset_cap c1 x s =
          (if x < lo then (if getstateflags c x \<in> D then isset_cap c x s else bit (int m) s)
           else getstateflags c x \<in> E \<and> isset_cap c x s))"

definition shape :: "nat \<Rightarrow> string \<Rightarrow> nat \<Rightarrow> cap_struct \<Rightarrow> bool" where
  "shape m buf base c1 \<longleftrightarrow>
     (base = 0 \<and> buf = CHR ''='' # flag_text (int m) \<and> (m = 0 \<longrightarrow> (\<forall>x < 64. \<forall>s < 3. \<not> isset_cap c1 x s)))
     \<or> (base + 2 \<le> length buf \<and> \<not> (buf ! base = CHR ''='' \<and> buf ! (base + 1) = CHR '' ''))"

lemma zero3_props: "wf_cap zero3" "c_mutex zero3 = 0" "c_rootid zero3 = 0" "x < 64 \<Longrightarrow> s < 3 \<Longrightarrow> \<not> isset_cap zero3 x s"
  by (simp_all add: zero3_def)

lemma progress_skip:
  assumes "progress c m lo D E c1" "t = m \<or> in_state c t [0..<lo] = []"
  shows "progress c m lo (insert t D) E c1"
  using assms bit_getstateflags [of _ c]
  by (fastforce simp: progress_def filter_empty_conv)

lemma progress_skip_rest:
  assumes "progress c m lo D E c1" "in_state c t [lo..<64] = []"
  shows "progress c m lo D (insert t E) c1"
  using assms by (auto simp: progress_def filter_empty_conv)

lemma progress_moved:
  assumes "progress c m lo D E c1" "moved (set (in_state c t [0..<lo])) t c1 c2"
  shows "progress c m lo (insert t D) E c2"
  using assms bit_getstateflags [of _ c] by (auto simp: progress_def moved_def)

lemma progress_moved_rest:
  assumes "progress c m lo D E c1" "moved (set (in_state c t [lo..<64])) t c1 c2"
  shows "progress c m lo D (insert t E) c2"
  using assms bit_getstateflags [of _ c] by (auto simp: progress_def moved_def)

lemma moved_zero:
  assumes "moved S t zero3 c2" "progress c m lo D E c1" "\<forall>x < 64. \<forall>s < 3. \<not> isset_cap c1 x s"
  shows "moved S t c1 c2"
  using assms zero3_props by (auto simp: moved_def progress_def)

lemma reads_append:
  assumes "reads N cmb buf base c1" "base \<le> length buf"
    and "\<And>rest. at_end rest \<Longrightarrow> parse_clauses N cmb 2 (str @ rest) c1 = parse_clauses N cmb 2 rest c2"
  shows "reads N cmb (buf @ CHR '' '' # str) base c2"
  using assms by (simp add: reads_def parse_clauses_space)

text \<open>The short form is used for the first clause behind a bare \<^verbatim>\<open>=\<close> only.\<close>

lemma shape_long:
  assumes "shape m buf base c1" "m < 8"
    and "\<not> (base = 0 \<and> buf = ''='' \<and> m = 0 \<and> (\<forall>x < 64. \<forall>s < 3. \<not> isset_cap c1 x s))"
  shows "base + 2 \<le> length buf \<and> \<not> (buf ! base = CHR ''='' \<and> buf ! (base + 1) = CHR '' '')"
proof (cases "flag_text (int m)")
  case Nil
  then have "\<not> (\<exists>s < 3. bit (int m) s)" using flag_text_nonempty by blast
  then have "m = 0" using bit_small [OF assms(2)] bit_eq_iff [of "int m" 0] by auto
  with assms Nil show ?thesis by (auto simp: shape_def)
next
  case (Cons a ls)
  with flag_text_letters [of "int m"] flag_letter_char(2) [of a] have "a \<noteq> CHR '' ''"
    by (auto simp: letters_def isspace_def)
  with assms(1) Cons show ?thesis by (auto simp: shape_def)
qed

context names_abi
begin

lemma join_names_hd:
  assumes "ns \<noteq> []"
  shows "join_names N ns \<noteq> []" "hd (join_names N ns) \<noteq> CHR ''=''" "hd (join_names N ns) \<noteq> CHR '' ''"
proof -
  have d: "isalnum (deref (join_names N ns)) \<or> deref (join_names N ns) = CHR ''_''"
    using deref_join_names [OF assms, of "[]"] by simp
  then show ne: "join_names N ns \<noteq> []" by (auto simp: NUL_def ctype_defs)
  then show "hd (join_names N ns) \<noteq> CHR ''=''" "hd (join_names N ns) \<noteq> CHR '' ''"
    using d by (cases "join_names N ns"; auto simp: ctype_defs)+
qed

text \<open>One clause of the named capabilities, in the short form and in the long one.\<close>

lemma named_step:
  assumes inv: "reads N cmb buf base c1" "progress c m lo D {} c1" "shape m buf base c1"
    and t: "t \<notin> D" "t < 8" "m < 8" "t \<noteq> m" and ns: "in_state c t [0..<lo] \<noteq> []"
    and rd: "\<forall>n \<in> set (in_state c t [0..<lo]). readable N cmb n" and cmb: "0 \<le> cmb"
    and B: "B = buf @ CHR '' '' # join_names N (in_state c t [0..<lo])" "length B + 6 \<le> CAP_TEXT_SIZE N + 100"
  shows "\<exists>buf' base' c2. print_ops N m t (B, base) = Some (buf', base') \<and> length buf' \<le> length B + 5
     \<and> reads N cmb buf' base' c2 \<and> progress c m lo (insert t D) {} c2 \<and> shape m buf' base' c2"
proof -
  let ?ns = "in_state c t [0..<lo]" and ?J = "join_names N (in_state c t [0..<lo])"
  have wf: "wf_cap c1" using inv(2) by (simp add: progress_def)
  have old: "isset_cap c1 x s = bit (int m) s" if "x \<in> set ?ns" "x < 64" "s < 3" for x s
    using inv(2) t(1) that by (auto simp: progress_def)
  note J = join_names_hd [OF ns]
  show ?thesis
  proof (cases "base = 0 \<and> buf = ''='' \<and> m = 0 \<and> (\<forall>x < 64. \<forall>s < 3. \<not> isset_cap c1 x s)")
    case True
    then have sh: "True \<longleftrightarrow> B ! base = CHR ''='' \<and> B ! (base + 1) = CHR '' ''" using B(1) by simp
    have n1: "int t AND NOT (int m) \<noteq> 0" using True t(4) by simp
    have po: "print_ops N m t (B, base) = Some (B @ ops_text ''='' m t, 2)"
      using print_ops_eq [OF B(2) sh, of m t] n1 True by simp
    obtain c2 where c2: "moved (set ?ns) t zero3 c2" "\<And>rest. at_end rest \<Longrightarrow>
       parse_clauses N cmb 2 (?J @ ops_text ''='' m t @ rest) zero3 = parse_clauses N cmb 2 rest c2"
      using parse_named_clause [OF t(2-4) zero3_props(1) cmb _ ns rd, of "''=''"] True zero3_props(4) by auto
    have "reads N cmb (B @ ops_text ''='' m t) 2 c2" using c2(2) True B(1) by (simp add: reads_def)
    moreover have "progress c m lo (insert t D) {} c2"
      using progress_moved [OF inv(2) moved_zero [OF c2(1) inv(2)]] True by blast
    moreover have "shape m (B @ ops_text ''='' m t) 2 c2"
    proof -
      have "length (ops_text ''='' m t) \<ge> 2"
        using n1 diff_flags_nonempty(1) [OF t(2,3)] by (cases "flag_text (int t AND NOT (int m))") (auto simp: ops_text_def)
      moreover have "(B @ ops_text ''='' m t) ! 2 \<noteq> CHR ''=''"
        using True B(1) J by (cases ?J) auto
      ultimately show ?thesis using True B(1) by (auto simp: shape_def)
    qed
    ultimately show ?thesis using po ops_text_length [of "''=''" m t] by auto
  next
    case False
    then have long: "base + 2 \<le> length buf" "\<not> (buf ! base = CHR ''='' \<and> buf ! (base + 1) = CHR '' '')"
      using shape_long [OF inv(3) t(3)] by blast+
    then have two: "base \<le> length buf" "\<not> (B ! base = CHR ''='' \<and> B ! (base + 1) = CHR '' '')"
      using B(1) by (auto simp: nth_append)
    have po: "print_ops N m t (B, base) = Some (B @ ops_text ''+'' m t, base)"
      using print_ops_eq [of B N False base m t] B(2) two(2) by simp
    obtain c2 where c2: "moved (set ?ns) t c1 c2" "\<And>rest. at_end rest \<Longrightarrow>
       parse_clauses N cmb 2 (?J @ ops_text ''+'' m t @ rest) c1 = parse_clauses N cmb 2 rest c2"
      using parse_named_clause [OF t(2-4) wf cmb _ ns rd old, of "''+''"] by auto
    have "reads N cmb (B @ ops_text ''+'' m t) base c2"
      using reads_append [OF inv(1) two(1), of "?J @ ops_text ''+'' m t" c2] c2(2) B(1) by simp
    moreover have "shape m (B @ ops_text ''+'' m t) base c2"
      using long B(1) by (auto simp: shape_def nth_append)
    ultimately show ?thesis
      using po progress_moved [OF inv(2) c2(1)] ops_text_length [of "''+''" m t] by auto
  qed
qed

end

lemma butlast_names:
  "ns \<noteq> [] \<Longrightarrow> butlast (buf @ CHR '' '' # concat (map (\<lambda>n. name_of N n @ '','') ns)) = buf @ CHR '' '' # join_names N ns"
  using concat_names_nonempty [of ns N] by (simp add: join_names_def butlast_append)

lemma length_join_names: "ns \<noteq> [] \<Longrightarrow> length (join_names N ns) + 1 = cost N ns"
  using concat_names_nonempty [of ns N] cost_length [of N ns] by (cases "cost N ns") (auto simp: join_names_def)

lemma readable_low: "x < lo \<Longrightarrow> lo \<le> 64 \<Longrightarrow> readable N (int lo) x"
  by (simp add: readable_def)

context names_abi
begin

lemma print_named_ok:
  assumes "mem_ok w" "wf_world w" "lo \<le> 64" "m < 8" "distinct ts" "set ts \<subseteq> {..<8}" "D \<inter> set ts = {}"
    and "reads N (int lo) buf base c1" "progress c m lo D {} c1" "shape m buf base c1"
    and "length buf + cost N (filter (\<lambda>n. getstateflags c n \<in> set ts) [0..<lo]) + 6 * length ts \<le> CAP_TEXT_SIZE N"
  shows "\<exists>buf' base' c2 k.
     print_named N c [0..<lo] (histogram c [0..<lo]) m ts (buf, base) w = Some (Some (buf', base'), bumps k w)
     \<and> reads N (int lo) buf' base' c2 \<and> progress c m lo (D \<union> set ts) {} c2 \<and> shape m buf' base' c2
     \<and> length buf' \<le> length buf + cost N (filter (\<lambda>n. getstateflags c n \<in> set ts) [0..<lo]) + 6 * length ts"
  using assms
proof (induction ts arbitrary: buf base c1 D w)
  case Nil
  then show ?case by (intro exI [of _ buf] exI [of _ base] exI [of _ c1] exI [of _ 0]) simp
next
  case (Cons t ts)
  let ?ns = "in_state c t [0..<lo]"
  let ?R = "cost N (filter (\<lambda>n. getstateflags c n \<in> set ts) [0..<lo])"
  have t: "t < 8" "t \<notin> set ts" "t \<notin> D" using Cons.prems by auto
  have cs: "cost N (filter (\<lambda>n. getstateflags c n \<in> set (t # ts)) [0..<lo]) = cost N ?ns + ?R"
    using cost_split [of t "set ts"] t by simp
  show ?case
  proof (cases "t = m \<or> ?ns = []")
    case True
    then have skip: "t = m \<or> histogram c [0..<lo] ! t = 0" using t by (simp add: histogram_nth)
    have "insert t D \<inter> set ts = {}" using Cons.prems t by auto
    from Cons.IH [OF Cons.prems(1-4) _ _ this Cons.prems(8) progress_skip [OF Cons.prems(9) True] Cons.prems(10)]
    obtain buf' base' c2 k where "print_named N c [0..<lo] (histogram c [0..<lo]) m ts (buf, base) w = Some (Some (buf', base'), bumps k w)"
      "reads N (int lo) buf' base' c2" "progress c m lo (insert t D \<union> set ts) {} c2" "shape m buf' base' c2"
      "length buf' \<le> length buf + ?R + 6 * length ts"
      using Cons.prems cs by auto
    with skip cs show ?thesis by (intro exI [of _ buf'] exI [of _ base'] exI [of _ c2] exI [of _ k]) auto
  next
    case False
    then have hist: "\<not> (t = m \<or> histogram c [0..<lo] ! t = 0)" using t by (simp add: histogram_nth)
    let ?B = "buf @ CHR '' '' # join_names N ?ns"
    have lenB: "length ?B = length buf + cost N ?ns" using length_join_names [of ?ns N] False by simp
    have room: "length buf + 6 + cost N ?ns + ?R + 6 * length ts \<le> CAP_TEXT_SIZE N" using Cons.prems(11) cs by simp
    obtain j where j: "print_names N c t [0..<lo] (buf @ '' '') w =
        Some (Some ((buf @ '' '') @ concat (map (\<lambda>n. name_of N n @ '','') ?ns)), bumps j w)"
      using print_names_ok [OF Cons.prems(1,2), of "[0..<lo]" "buf @ '' ''" c t] Cons.prems(3) room by auto
    have rd: "\<forall>n \<in> set ?ns. readable N (int lo) n" using Cons.prems(3) readable_low by auto
    obtain buf1 base1 c2 where s: "print_ops N m t (?B, base) = Some (buf1, base1)" "length buf1 \<le> length ?B + 5"
      "reads N (int lo) buf1 base1 c2" "progress c m lo (insert t D) {} c2" "shape m buf1 base1 c2"
      using named_step [OF Cons.prems(8-10) t(3,1) Cons.prems(4) _ _ rd _ refl] False room lenB by auto
    have "insert t D \<inter> set ts = {}" using Cons.prems t by auto
    from Cons.IH [OF _ _ Cons.prems(3,4) _ _ this s(3-5), of "bumps j w"]
    obtain buf' base' c3 k where r: "print_named N c [0..<lo] (histogram c [0..<lo]) m ts (buf1, base1) (bumps j w)
        = Some (Some (buf', base'), bumps k (bumps j w))"
      "reads N (int lo) buf' base' c3" "progress c m lo (insert t D \<union> set ts) {} c3" "shape m buf' base' c3"
      "length buf' \<le> length buf1 + ?R + 6 * length ts"
      using Cons.prems s(2) room lenB by auto
    have "print_named N c [0..<lo] (histogram c [0..<lo]) m (t # ts) (buf, base) w
        = Some (Some (buf', base'), bumps (j + k) w)"
      using hist room j s(1,2) lenB r(1) butlast_names [of ?ns buf N] False by (simp add: put_char_def)
    moreover have "length buf' \<le> length buf + cost N (filter (\<lambda>n. getstateflags c n \<in> set (t # ts)) [0..<lo]) + 6 * length (t # ts)"
      using r(5) s(2) lenB cs by simp
    ultimately show ?thesis
      using r by (intro exI [of _ buf'] exI [of _ base'] exI [of _ c3] exI [of _ "j + k"]) simp
  qed
qed

end

lemma ops_text_plus: "t < 8 \<Longrightarrow> t \<noteq> 0 \<Longrightarrow> ops_text ''+'' 0 t = CHR ''+'' # flag_text (int t)"
  by (simp add: ops_text_def)

context names_abi
begin

lemma print_rest_ok:
  assumes "mem_ok w" "wf_world w" "distinct ts" "set ts \<subseteq> {1..<8}" "E \<inter> set ts = {}"
    and "reads N (int lo) buf base c1" "progress c m lo D E c1" "base \<le> length buf"
    and "\<forall>x \<in> {lo..<64}. getstateflags c x \<noteq> 0 \<longrightarrow> readable N (int lo) x"
    and "length buf + cost N (filter (\<lambda>n. getstateflags c n \<in> set ts) [lo..<64]) + 5 * length ts \<le> CAP_TEXT_SIZE N"
  shows "\<exists>buf' c2 k.
     print_rest N c [lo..<64] (histogram c [lo..<64]) ts buf w = Some (Some buf', bumps k w)
     \<and> reads N (int lo) buf' base c2 \<and> progress c m lo D (E \<union> set ts) c2 \<and> length buf' \<le> CAP_TEXT_SIZE N"
  using assms
proof (induction ts arbitrary: buf c1 E w)
  case Nil
  then show ?case by (intro exI [of _ buf] exI [of _ c1] exI [of _ 0]) simp
next
  case (Cons t ts)
  let ?ns = "in_state c t [lo..<64]"
  let ?R = "cost N (filter (\<lambda>n. getstateflags c n \<in> set ts) [lo..<64])"
  have t: "t < 8" "0 < t" "t \<notin> set ts" "t \<notin> E" using Cons.prems by auto
  have cs: "cost N (filter (\<lambda>n. getstateflags c n \<in> set (t # ts)) [lo..<64]) = cost N ?ns + ?R"
    using cost_split [of t "set ts"] t by simp
  have disj: "insert t E \<inter> set ts = {}" using Cons.prems t by auto
  show ?case
  proof (cases "?ns = []")
    case True
    then have skip: "histogram c [lo..<64] ! t = 0" using t by (simp add: histogram_nth)
    from Cons.IH [OF Cons.prems(1,2) _ _ disj Cons.prems(6) progress_skip_rest [OF Cons.prems(7) True] Cons.prems(8,9)]
    show ?thesis using Cons.prems cs skip by auto
  next
    case False
    then have hist: "histogram c [lo..<64] ! t \<noteq> 0" using t by (simp add: histogram_nth)
    let ?B = "buf @ CHR '' '' # join_names N ?ns"
    have lenB: "length ?B = length buf + cost N ?ns" using length_join_names [of ?ns N] False by simp
    have room: "length buf + 5 + cost N ?ns + ?R + 5 * length ts \<le> CAP_TEXT_SIZE N" using Cons.prems(10) cs by simp
    obtain j where j: "print_names N c t [lo..<64] (buf @ '' '') w =
        Some (Some ((buf @ '' '') @ concat (map (\<lambda>n. name_of N n @ '','') ?ns)), bumps j w)"
      using print_names_ok [OF Cons.prems(1,2), of "[lo..<64]" "buf @ '' ''" c t] room by auto
    have rd: "\<forall>n \<in> set ?ns. readable N (int lo) n" using Cons.prems(9) t by auto
    have wf: "wf_cap c1" using Cons.prems(7) by (simp add: progress_def)
    have old: "isset_cap c1 x s = bit (int 0) s" if "x \<in> set ?ns" "x < 64" "s < 3" for x s
      using Cons.prems(7) t(4) that by (auto simp: progress_def)
    obtain c2 where c2: "moved (set ?ns) t c1 c2" "\<And>rest. at_end rest \<Longrightarrow>
       parse_clauses N (int lo) 2 (join_names N ?ns @ ops_text ''+'' 0 t @ rest) c1 = parse_clauses N (int lo) 2 rest c2"
      using parse_named_clause [OF t(1) _ _ wf _ _ False rd old, of "''+''"] t by auto
    let ?buf1 = "?B @ CHR ''+'' # flag_text (int t)"
    have len1: "length ?buf1 \<le> length ?B + 4" using flag_text_length [of "int t"] by simp
    have "reads N (int lo) ?buf1 base c2"
      using reads_append [OF Cons.prems(6,8), of "join_names N ?ns @ ops_text ''+'' 0 t" c2] c2(2) ops_text_plus [of t] t by simp
    from Cons.IH [OF _ _ _ _ disj this progress_moved_rest [OF Cons.prems(7) c2(1)] _ Cons.prems(9), of "bumps j w"]
    obtain buf' c3 k where r: "print_rest N c [lo..<64] (histogram c [lo..<64]) ts ?buf1 (bumps j w)
        = Some (Some buf', bumps k (bumps j w))"
      "reads N (int lo) buf' base c3" "progress c m lo D (insert t E \<union> set ts) c3" "length buf' \<le> CAP_TEXT_SIZE N"
      using Cons.prems len1 room lenB by auto
    have "print_rest N c [lo..<64] (histogram c [lo..<64]) (t # ts) buf w = Some (Some buf', bumps (j + k) w)"
      using hist room j lenB len1 r(1) butlast_names [of ?ns buf N] False by (simp add: put_char_def put_text_def)
    with r show ?thesis by (intro exI [of _ buf'] exI [of _ c3] exI [of _ "j + k"]) simp
  qed
qed

text \<open>\<^verbatim>\<open>cap_to_text\<close> on a set whose capabilities are all readable.\<close>

lemma cap_to_text_ok:
  assumes "cap_ready w p c" "mem_ok w" "max_bits w = int lo" "lo \<le> 64"
    and "\<forall>x \<in> {lo..<64}. getstateflags c x \<noteq> 0 \<longrightarrow> readable N (int lo) x"
  shows "\<exists>s c2 k. cap_to_text N p w =
            Some ((next_ptr (bumps k w), Some (length s)),
              new_obj (next_ptr (bumps k w)) (strdup_size s) (CapStr s) (bumps (Suc k) w))
     \<and> parse_clauses N (int lo) 2 s zero3 = Some c2
     \<and> wf_cap c2 \<and> c_mutex c2 = 0 \<and> c_u c2 = c_u c
     \<and> (\<forall>rest. at_end rest \<longrightarrow> parse_clauses N (int lo) 2 (s @ rest) zero3 = parse_clauses N (int lo) 2 rest c2)"
proof -
  note p = cap_readyD [OF assms(1)]
  define m where "m = prevailing (histogram c [0..<lo])"
  have m: "m < 8" by (simp add: m_def prevailing_less)
  obtain c0 where c0: "moved {x. int x < int lo} m zero3 c0" "\<And>rest. at_end rest \<Longrightarrow>
     parse_clauses N (int lo) 2 (CHR ''='' # flag_text (int m) @ rest) zero3 = parse_clauses N (int lo) 2 rest c0"
    using parse_default_clause [OF m zero3_props(1), of "int lo" N] assms(4) by auto
  let ?b0 = "CHR ''='' # flag_text (int m)"
  have r0: "reads N (int lo) ?b0 0 c0" using c0(2) by (simp add: reads_def)
  have p0: "progress c m lo {} {} c0" using c0(1) zero3_props by (auto simp: progress_def moved_def)
  have s0: "shape m ?b0 0 c0" using c0(1) zero3_props(4) by (auto simp: shape_def moved_def)
  have total: "cost N [0..<64] + 128 \<le> CAP_TEXT_SIZE N" using room by (simp add: cost_def CAP_TEXT_SIZE_def)
  have split: "cost N [0..<lo] + cost N [lo..<64] = cost N [0..<64]"
    using assms(4) upt_add_eq_append [of 0 lo "64 - lo"] by (simp add: cost_def)
  note le = cost_filter_le [of N "\<lambda>n. getstateflags c n \<in> set (rev [0..<8])" "[0..<lo]"]
    cost_filter_le [of N "\<lambda>n. getstateflags c n \<in> set (rev [1..<8])" "[lo..<64]"]
  have l0: "length ?b0 \<le> 4" using flag_text_length [of "int m"] by simp
  have sub8: "set (rev [0..<8]) \<subseteq> {..<8}" "set (rev [1..<8]) \<subseteq> {1..<8}" by auto
  have bud0: "length ?b0 + cost N (filter (\<lambda>n. getstateflags c n \<in> set (rev [0..<8])) [0..<lo]) + 6 * length (rev [0..<8]) \<le> CAP_TEXT_SIZE N"
    using le total split l0 by simp
  obtain buf base c1 k where nm: "print_named N c [0..<lo] (histogram c [0..<lo]) m (rev [0..<8]) (?b0, 0) w = Some (Some (buf, base), bumps k w)"
    "reads N (int lo) buf base c1" "progress c m lo (set (rev [0..<8])) {} c1" "shape m buf base c1"
    "length buf \<le> length ?b0 + cost N (filter (\<lambda>n. getstateflags c n \<in> set (rev [0..<8])) [0..<lo]) + 6 * length (rev [0..<8])"
    using print_named_ok [OF assms(2) p(3) assms(4) m _ sub8(1) _ r0 p0 s0 bud0] by auto
  have bud1: "length buf + cost N (filter (\<lambda>n. getstateflags c n \<in> set (rev [1..<8])) [lo..<64]) + 5 * length (rev [1..<8]) \<le> CAP_TEXT_SIZE N"
    using nm(5) le total split l0 by simp
  have b: "base \<le> length buf" using nm(4) by (auto simp: shape_def)
  obtain buf2 c2 j where rs: "print_rest N c [lo..<64] (histogram c [lo..<64]) (rev [1..<8]) buf (bumps k w) = Some (Some buf2, bumps j (bumps k w))"
    "reads N (int lo) buf2 base c2" "progress c m lo (set (rev [0..<8])) ({} \<union> set (rev [1..<8])) c2" "length buf2 \<le> CAP_TEXT_SIZE N"
    using print_rest_ok [OF _ _ _ sub8(2) _ nm(2,3) b assms(5) bud1, of "bumps k w"] assms(2) p(3) by auto
  have "isset_cap c2 x s = isset_cap c x s" if "x < 64" "s < 3" for x s
    using rs(3) that getstateflags_less [of c x] bit_getstateflags [OF that(2), of c x]
    by (cases "getstateflags c x = 0") (auto simp: progress_def)
  then have eq: "c_u c2 = c_u c" using rs(3) p(4) by (intro cap_u_eqI) (auto simp: progress_def)
  have tx: "parse_clauses N (int lo) 2 (drop base buf2) zero3 = Some c2"
    using rs(2) by (auto simp: reads_def parse_clauses.simps [of _ _ _ "[]"] dest: spec [of _ "[]"])
  have "name_size N * 64 < 2 ^ 30" using small by simp
  then have "length (drop base buf2) < 2 ^ 30" using rs(4) by (simp add: CAP_TEXT_SIZE_def)
  then have sd: "libcap_strdup (Some (drop base buf2)) (bumps (k + j) w) =
      (next_ptr (bumps (k + j) w), new_obj (next_ptr (bumps (k + j) w)) (strdup_size (drop base buf2)) (CapStr (drop base buf2)) (bumps (Suc (k + j)) w))"
    using libcap_strdup_ok [of "bumps (k + j) w" "drop base buf2"] assms(2) by simp
  have "put_text N [] ?b0 = Some ?b0" using bud0 by (simp add: put_text_def)
  then have "cap_to_text N p w = Some ((next_ptr (bumps (k + j) w), Some (length (drop base buf2))),
      new_obj (next_ptr (bumps (k + j) w)) (strdup_size (drop base buf2)) (CapStr (drop base buf2)) (bumps (Suc (k + j)) w))"
    using p assms(3,4) nm(1) rs(1) sd
    by (simp add: cap_to_text_def libcap_exec m_def [symmetric] bumps_simps)
  with tx eq rs(2,3) show ?thesis
    by (intro exI [of _ "drop base buf2"] exI [of _ c2] exI [of _ "k + j"]) (simp add: progress_def reads_def)
qed

end

section \<open>The parser on any text\<close>

text \<open>The parser changes the flags of a set and nothing else.\<close>

definition kept :: "cap_struct \<Rightarrow> cap_struct \<Rightarrow> bool" where
  "kept c c' \<longleftrightarrow> wf_cap c' \<and> c_mutex c' = c_mutex c \<and> c_head c' = c_head c \<and> c_rootid c' = c_rootid c"

lemma kept_refl: "wf_cap c \<Longrightarrow> kept c c"
  by (simp add: kept_def)

lemma kept_trans: "kept a b \<Longrightarrow> kept b c \<Longrightarrow> kept a c"
  by (simp add: kept_def)

lemma apply_op_keeps: "wf_cap c \<Longrightarrow> kept c (apply_op op f l 2 c)"
  using apply_op_result [of c op f l] by (simp add: op_result_def kept_def)

lemma parse_actions_keeps:
  "parse_actions listed l 2 op f str c = Some (str', c') \<Longrightarrow> wf_cap c \<Longrightarrow> kept c c'"
proof (induction listed l "2 :: nat" op f str c rule: parse_actions.induct)
  case (1 listed l op f str c)
  obtain op1 f1 s1 c1 where a: "action_step listed l 2 op f str c = Some (op1, f1, s1, c1)"
    using "1.prems"(1) by (subst (asm) parse_actions.simps) (auto split: option.splits)
  have c1: "kept c c1"
    using a apply_op_keeps [OF "1.prems"(2)] kept_refl [OF "1.prems"(2)]
    by (auto simp: action_step_def bind_Some_iff split: if_splits)
  show ?case
  proof (cases "at_end s1")
    case True
    with a c1 "1.prems"(1) show ?thesis by (subst (asm) parse_actions.simps) simp
  next
    case False
    then have "parse_actions listed l 2 op1 f1 s1 c1 = Some (str', c')"
      using a "1.prems"(1) by (subst (asm) parse_actions.simps) simp
    then have "kept c1 c'" using "1.hyps" [OF a] False c1 by (auto simp: kept_def)
    with c1 show ?thesis by (rule kept_trans)
  qed
qed

lemma parse_clauses_keeps:
  "parse_clauses N cmb 2 str c = Some c' \<Longrightarrow> wf_cap c \<Longrightarrow> kept c c'"
proof (induction N cmb "2 :: nat" str c rule: parse_clauses.induct)
  case (1 N cmb str c)
  show ?case
  proof (cases "dropWhile isspace str = []")
    case True
    with "1.prems" kept_refl show ?thesis by (subst (asm) parse_clauses.simps) simp
  next
    case False
    then obtain s1 c1 where s: "parse_clause N cmb 2 (dropWhile isspace str) c = Some (s1, c1)"
      and r: "parse_clauses N cmb 2 s1 c1 = Some c'"
      using "1.prems"(1) unfolding parse_clauses.simps [of N cmb 2 str c]
      by (auto simp: Let_def split: option.splits if_splits)
    then have "kept c c1"
      using parse_actions_keeps "1.prems"(2) by (fastforce simp: parse_clause_def bind_Some_iff)
    moreover from this have "kept c1 c'" using "1.hyps" [OF refl False s refl] r by (simp add: kept_def)
    ultimately show ?thesis by (rule kept_trans)
  qed
qed

text \<open>With the table of the contract, every index the lookup returns lies in the array of the parser.\<close>

lemma length_parse_item: "parse_item N cmb blks (str, l) = Some (str', l') \<Longrightarrow> length l' = length l"
  by (auto simp: parse_item_def Let_def split: if_splits prod.splits)

context names_abi
begin

lemma scan_item_eq:
  assumes "length l = 2"
  shows "scan_item N cmb blks (str, l) = Some (parse_item N cmb blks (str, l))"
proof -
  have "nat n div 32 < 2" if "n < 64" for n :: int using that by linarith
  then show ?thesis
    using lookupname_range [of cmb str] assms
    by (auto simp: scan_item_def parse_item_def raise_cap_mask_def Let_def split: prod.split)
qed

lemma scan_list_eq: "length l = 2 \<Longrightarrow> scan_list N cmb blks str l = Some (parse_list N cmb blks str l)"
proof (induction "length str" arbitrary: str l rule: less_induct)
  case less
  note item = scan_item_eq [OF less.prems, of cmb blks str]
  show ?case
  proof (cases "parse_item N cmb blks (str, l)")
    case None
    then show ?thesis using item by (simp add: scan_list.simps [of N cmb blks str] parse_list.simps [of N cmb blks str])
  next
    case (Some sl)
    then obtain s k where sk: "parse_item N cmb blks (str, l) = Some (s, k)" by (cases sl) auto
    have "length (tl s) < length str" if "deref s = CHR '',''"
      using that parse_item_length [OF sk] by (cases s) (auto simp: NUL_def)
    then show ?thesis
      using less.hyps [of "tl s" k] item sk length_parse_item [OF sk] less.prems
      by (simp add: scan_list.simps [of N cmb blks str] parse_list.simps [of N cmb blks str] Let_def)
  qed
qed

lemma scan_clause_eq: "scan_clause N cmb blks str c = Some (parse_clause N cmb blks str c)"
  using scan_list_eq [of "[0, 0]" cmb blks str]
  by (simp add: scan_clause_def parse_clause_def scan_caps_def clause_caps_def)

lemma scan_clauses_eq: "scan_clauses N cmb blks str c = Some (parse_clauses N cmb blks str c)"
proof (induction "length str" arbitrary: str c rule: less_induct)
  case less
  let ?s = "dropWhile isspace str"
  note cl = scan_clause_eq [of cmb blks ?s c]
  show ?case
  proof (cases "?s = [] \<or> parse_clause N cmb blks ?s c = None")
    case True
    then show ?thesis using cl
      by (auto simp: scan_clauses.simps [of N cmb blks str] parse_clauses.simps [of N cmb blks str] Let_def)
  next
    case False
    then obtain s d where sd: "parse_clause N cmb blks ?s c = Some (s, d)" by auto
    then have "length s < length str"
      using parse_clause_length length_dropWhile_le [of isspace str] by fastforce
    then show ?thesis using less.hyps [of s d] cl sd False
      by (simp add: scan_clauses.simps [of N cmb blks str] parse_clauses.simps [of N cmb blks str] Let_def
          del: dropWhile_eq_Nil_conv)
  qed
qed

end

context capget_abi
begin

lemma cap_from_text_run:
  assumes "alloc_ok w" "wf_world w"
  shows "cap_from_text N K (Some s) w =
    (case scan_clauses N (max_bits w) 2 s zero3 of
       None \<Rightarrow> None
     | Some (Some c) \<Rightarrow> Some (next_ptr w, new_obj (next_ptr w) sizeof_cap_alloc_s (CapSet c) (bumped w))
     | Some None \<Rightarrow> Some (NULL, (bumped w)\<lparr>errno := EINVAL\<rparr>))"
  using assms wf_fresh [of w]
  by (simp add: cap_from_text_def cap_init_ok get_cap_def zero3_def version_defs cap_free_set del_new split: option.splits)

lemma cap_from_text_exec:
  assumes "names_abi N" "alloc_ok w" "wf_world w"
  shows "cap_from_text N K (Some s) w =
    (case parse_clauses N (max_bits w) 2 s zero3 of
       Some c \<Rightarrow> Some (next_ptr w, new_obj (next_ptr w) sizeof_cap_alloc_s (CapSet c) (bumped w))
     | None \<Rightarrow> Some (NULL, (bumped w)\<lparr>errno := EINVAL\<rparr>))"
  using cap_from_text_run [OF assms(2,3)] names_abi.scan_clauses_eq [OF assms(1)] by (simp split: option.splits)

end

context names_abi
begin

lemma lookup_loop_unknown:
  assumes "n \<le> x" "x < CAP_BITS N" "token_end rest"
  shows "lookup_loop N (name_of N x @ rest) n = (- 1, name_of N x @ rest)"
  using assms(1)
proof (induction n)
  case (Suc n)
  note n = name_of_named [of n] name_of_named [OF assms(2)]
  have "cap_names N ! x \<noteq> cap_names N ! n"
    using Suc.prems assms(2) distinct_names by (simp add: nth_eq_iff_index_eq)
  then have "name_of N x \<noteq> name_of N n" using Suc.prems assms(2) n by auto
  with Suc n assms(2,3) show ?case by (simp add: namcmp_token)
qed simp

lemma lookupname_unknown:
  assumes "gperf N = None" "0 \<le> cmb" "cmb \<le> int x" "x < CAP_BITS N" "token_end rest"
  shows "lookupname N cmb (name_of N x @ rest) = (- 1, name_of N x @ rest)"
proof -
  note x = name_of_named [OF assms(4)]
  obtain c s where cs: "name_of N x = c # s" using x(2) by (cases "name_of N x") auto
  then have "\<not> isdigit c" using x(4) by simp
  with cs assms lookup_loop_unknown [of "nat cmb" x rest] show ?thesis by (simp add: lookupname_def Let_def)
qed

end

section \<open>Properties\<close>

text \<open>
  C8: \<^verbatim>\<open>cap_from_text\<close> reads back what \<^verbatim>\<open>cap_to_text\<close> prints: for every
  capability set whose raised capabilities the lookup can read on the running kernel, the
  printer returns a string (the buffer is large enough and nothing is written past it), its
  length is the one stored in \<^verbatim>\<open>*length_p\<close>, and the parser turns it into a new set with
  the same three flags.
\<close>

theorem cap_text_roundtrip:
  assumes "names_abi N" "capget_abi K" "cap_ready w p c" "mem_ok w" "0 \<le> max_bits w" "max_bits w \<le> 64"
    and "\<forall>x < 64. getstateflags c x \<noteq> 0 \<longrightarrow> readable N (max_bits w) x"
  shows "\<exists>q s w1 r d w2. cap_to_text N p w = Some ((q, Some (length s)), w1) \<and> get_str q w1 = Some s
     \<and> cap_from_text N K (Some s) w1 = Some (r, w2) \<and> r \<noteq> NULL
     \<and> get_cap r w2 = Some d \<and> c_u d = c_u c \<and> c_mutex d = 0"
proof -
  obtain lo where lo: "max_bits w = int lo" using assms(5) nonneg_int_cases by blast
  have "lo \<le> 64" "\<forall>x \<in> {lo..<64}. getstateflags c x \<noteq> 0 \<longrightarrow> readable N (int lo) x" using assms(6,7) lo by auto
  then obtain s d k where s: "cap_to_text N p w = Some ((next_ptr (bumps k w), Some (length s)),
        new_obj (next_ptr (bumps k w)) (strdup_size s) (CapStr s) (bumps (Suc k) w))"
      "parse_clauses N (int lo) 2 s zero3 = Some d" "wf_cap d" "c_mutex d = 0" "c_u d = c_u c"
    using names_abi.cap_to_text_ok [OF assms(1,3,4) lo] by blast
  let ?w1 = "new_obj (next_ptr (bumps k w)) (strdup_size s) (CapStr s) (bumped (bumps k w))"
  have "wf_world ?w1" using cap_readyD(3) [OF assms(3)] by (intro wf_new_bumped) simp_all
  then have "cap_from_text N K (Some s) ?w1 =
      Some (next_ptr ?w1, new_obj (next_ptr ?w1) sizeof_cap_alloc_s (CapSet d) (bumped ?w1))"
    using capget_abi.cap_from_text_exec [OF assms(2,1), of ?w1 s] s(2) lo assms(4) by simp
  with s show ?thesis by (fastforce simp: get_str_def get_cap_def)
qed

theorem cap_text_roundtrip_witness:
  "\<exists>q s w1 r d w2. cap_to_text linux_names 24 demo_world = Some ((q, Some (length s)), w1) \<and> get_str q w1 = Some s
     \<and> cap_from_text linux_names linux_kernel (Some s) w1 = Some (r, w2) \<and> r \<noteq> NULL
     \<and> get_cap r w2 = Some d \<and> c_u d = c_u demo_cap \<and> c_mutex d = 0"
proof -
  have "mem_ok demo_world" "0 \<le> max_bits demo_world" "max_bits demo_world \<le> 64"
    "\<forall>x < 64. getstateflags demo_cap x \<noteq> 0 \<longrightarrow> readable linux_names (max_bits demo_world) x"
    by (auto simp: demo_world_def readable_def linux_cap_names linux_cap_list_def)
  from cap_text_roundtrip [OF linux_names.names_abi_axioms linux.capget_abi_axioms demo_ready this] show ?thesis .
qed

text \<open>
  C9: \<^verbatim>\<open>cap_from_text\<close> on any text, well formed or not, returns without a write outside
  the array of \<^verbatim>\<open>__CAP_BLKS\<close> words on its stack.  It computes what the reference parser
  says the text means: a well-formed unlocked set with that contents, every other object as it was;
  or, when the text means nothing, NULL with \<^verbatim>\<open>EINVAL\<close> and the set it had allocated
  released again.
\<close>

theorem cap_from_text_total:
  assumes "names_abi N" "capget_abi K" "wf_world w" "alloc_ok w"
  shows "case parse_clauses N (max_bits w) 2 s zero3 of
      Some d \<Rightarrow> \<exists>w'. cap_from_text N K (Some s) w = Some (next_ptr w, w') \<and> cap_ready w' (next_ptr w) d
                  \<and> (\<forall>q. q \<noteq> next_ptr w \<longrightarrow> obj_at w' q = obj_at w q)
    | None \<Rightarrow> cap_from_text N K (Some s) w = Some (NULL, (bumped w)\<lparr>errno := EINVAL\<rparr>)"
proof (cases "parse_clauses N (max_bits w) 2 s zero3")
  case None
  then show ?thesis using capget_abi.cap_from_text_exec [OF assms(2,1,4,3), of s] by simp
next
  case (Some d)
  then have "wf_cap d" "c_mutex d = 0" using parse_clauses_keeps [OF Some zero3_props(1)] zero3_props(2) by (simp_all add: kept_def)
  then show ?thesis
    using capget_abi.cap_from_text_exec [OF assms(2,1,4,3), of s] Some assms(3)
    by (auto simp: cap_ready_def wf_new_bumped)
qed

theorem cap_from_text_total_witness:
  "cap_from_text linux_names linux_kernel (Some ''+e'') demo_world = Some (NULL, (bumped demo_world)\<lparr>errno := EINVAL\<rparr>)"
proof -
  have w: "wf_world demo_world" "alloc_ok demo_world" using cap_readyD(3) [OF demo_ready] by (simp_all add: demo_world_def)
  have "parse_clauses linux_names 41 2 ''+e'' zero3 = None"
    by (simp add: parse_clauses.simps parse_clause_def clause_caps_def ctype_defs)
  then have "parse_clauses linux_names (max_bits demo_world) 2 ''+e'' zero3 = None" by (simp add: demo_world_def)
  with cap_from_text_total [OF linux_names.names_abi_axioms linux.capget_abi_axioms w, of "''+e''"] show ?thesis by simp
qed

text \<open>
  The text \<^verbatim>\<open>=F\<close> means: every capability the running kernel knows
  (\<^verbatim>\<open>cap_max_bits\<close>) gets exactly the flags F, every bit above is clear.
\<close>

theorem cap_from_text_all:
  assumes "names_abi N" "capget_abi K" "wf_world w" "alloc_ok w" "0 \<le> max_bits w" "max_bits w \<le> 64" "m < 8"
  shows "\<exists>w' d. cap_from_text N K (Some (''='' @ flag_text (int m))) w = Some (next_ptr w, w')
     \<and> cap_ready w' (next_ptr w) d
     \<and> (\<forall>x < 64. \<forall>f < 3. isset_cap d x f \<longleftrightarrow> int x < max_bits w \<and> bit m f)"
proof -
  obtain d where d: "moved {x. int x < max_bits w} m zero3 d"
    "parse_clauses N (max_bits w) 2 (CHR ''='' # flag_text (int m) @ []) zero3 = parse_clauses N (max_bits w) 2 [] d"
    using parse_default_clause [OF assms(7) zero3_props(1) assms(5,6), of N] at_end_simps(1) by blast
  then have "parse_clauses N (max_bits w) 2 (''='' @ flag_text (int m)) zero3 = Some d"
    by (simp add: parse_clauses.simps [of _ _ _ "[]"])
  then have "cap_from_text N K (Some (''='' @ flag_text (int m))) w =
      Some (next_ptr w, new_obj (next_ptr w) sizeof_cap_alloc_s (CapSet d) (bumped w))"
    using capget_abi.cap_from_text_exec [OF assms(2,1,4,3)] by simp
  then show ?thesis
    using d(1) zero3_props assms(3)
    by (intro exI [of _ "new_obj (next_ptr w) sizeof_cap_alloc_s (CapSet d) (bumped w)"] exI [of _ d])
      (auto simp: moved_def cap_ready_def wf_new_bumped bit_of_nat_iff_bit)
qed

theorem cap_from_text_all_witness:
  "\<exists>w' d. cap_from_text linux_names linux_kernel (Some ''=ep'') demo_world = Some (40, w')
     \<and> isset_cap d 40 0 \<and> \<not> isset_cap d 41 0 \<and> \<not> isset_cap d 40 2"
proof -
  have w: "wf_world demo_world" "alloc_ok demo_world" "0 \<le> max_bits demo_world" "max_bits demo_world \<le> 64" "(3 :: nat) < 8"
    "next_ptr demo_world = 40" "max_bits demo_world = 41"
    using cap_readyD(3) [OF demo_ready] by (simp_all add: demo_world_def)
  have "''='' @ flag_text (int 3) = ''=ep''" by (simp add: flag_text_def)
  with cap_from_text_all [OF linux_names.names_abi_axioms linux.capget_abi_axioms w(1-5)] w(6,7)
  obtain w' d where r: "cap_from_text linux_names linux_kernel (Some ''=ep'') demo_world = Some (40, w')"
    "\<forall>x < 64. \<forall>f < 3. isset_cap d x f \<longleftrightarrow> int x < 41 \<and> bit (3 :: nat) f" by auto
  then have "isset_cap d 40 0 \<and> \<not> isset_cap d 41 0 \<and> \<not> isset_cap d 40 2" by (simp add: bit_iff_odd)
  with r(1) show ?thesis by blast
qed

text \<open>
  Without the perfect hash, the name \<^verbatim>\<open>cap_to_name\<close> prints for a capability
  that the library knows and the running kernel does not is not read back:
  \<^verbatim>\<open>cap_from_name\<close> refuses it, so the round trips need the capabilities to be below
  \<^verbatim>\<open>cap_max_bits\<close>.
\<close>

theorem cap_name_unknown_to_kernel:
  assumes "names_abi N" "mem_ok w" "gperf N = None" "0 \<le> max_bits w" "max_bits w \<le> int x" "x < CAP_BITS N"
  shows "\<exists>p w' s. cap_to_name N (int x) w = (p, w') \<and> get_str p w' = Some s \<and> cap_from_name N s w' = (- 1, None)"
proof -
  have "x < CAP_MAXBITS" using names_abi.bits_max [OF assms(1)] assms(6) by linarith
  then obtain v where v: "cap_to_name N (int x) w =
           (next_ptr v, new_obj (next_ptr v) (strdup_size (name_of N x)) (CapStr (name_of N x)) (bumped v))"
    "v = w \<or> v = bumped w"
    using names_abi.cap_to_name_ok [OF assms(1,2)] by blast
  have "lookupname N (max_bits w) (name_of N x @ []) = (- 1, name_of N x @ [])"
    using assms(3-6) by (intro names_abi.lookupname_unknown [OF assms(1)]) simp_all
  with v show ?thesis by (auto simp: get_str_def cap_from_name_def)
qed

definition old_kernel_world :: "linux world" where
  "old_kernel_world = (machine plain_linux)\<lparr>max_bits := 38\<rparr>"

theorem cap_name_unknown_to_kernel_witness:
  "\<exists>p w' s. cap_to_name linux_names 39 old_kernel_world = (p, w') \<and> get_str p w' = Some s
     \<and> cap_from_name linux_names s w' = (- 1, None)"
proof -
  have "mem_ok old_kernel_world" "0 \<le> max_bits old_kernel_world" "max_bits old_kernel_world \<le> int 39"
    "39 < CAP_BITS linux_names"
    by (simp_all add: old_kernel_world_def mem_ok_def machine_def linux_cap_names linux_cap_list_def)
  from cap_name_unknown_to_kernel [OF linux_names.names_abi_axioms this(1) linux_cap_names(3) this(2-4)] show ?thesis by simp
qed

end
