(* ===== verification/Cap_Iab_Text.thy ===== *)
theory Cap_Iab_Text
  imports Cap_Text_Spec
begin

text \<open>
  The IAB half of \<^verbatim>\<open>libcap/cap_text.c\<close>: the textual form of an IAB tuple, and the
  tuple of another process read from \<^verbatim>\<open>/proc/<pid>/status\<close>.  The file system is the
  parameter \<open>fs\<close>: the content of a file that can be opened, or the error number.
\<close>

section \<open>Definitions\<close>

text \<open>One capability of \<^verbatim>\<open>cap_iab_to_text\<close>; the flag is \<^verbatim>\<open>first\<close>.\<close>

definition iab_print_cap :: "names_h \<Rightarrow> cap_iab_s \<Rightarrow> nat \<Rightarrow> string \<times> bool \<Rightarrow> (string \<times> bool) option" where
  "iab_print_cap N t c bf = do {
     (buf, first) \<leftarrow> Some bf;
     (let ib = vec_isset (iab_i t) c; ab = vec_isset (iab_a t) c; nbb = vec_isset (iab_nb t) c in
      if \<not> (nbb \<or> ab \<or> ib) then Some (buf, first)
      else do {
        buf \<leftarrow> (if \<not> first then put_char N buf CHR '','' else Some buf);
        (buf, keep) \<leftarrow> (if nbb then map_option (\<lambda>b. (b, True)) (put_char N buf CHR ''!'') else Some (buf, False));
        (buf, keep) \<leftarrow>
          (if ab then map_option (\<lambda>b. (b, True)) (put_char N buf CHR 0x5E)
           else if nbb \<and> ib then map_option (\<lambda>b. (b, keep)) (put_char N buf CHR ''%'')
           else Some (buf, keep));
        if keep \<or> ib then do {
          nam \<leftarrow> (if c < CAP_BITS N then cap_names N ! c else Some (show_nat c));
          buf \<leftarrow> put_text N buf nam;
          Some (buf, False) }
        else Some (buf, first) }) }"

fun iab_print :: "names_h \<Rightarrow> cap_iab_s \<Rightarrow> nat list \<Rightarrow> string \<times> bool \<Rightarrow> (string \<times> bool) option" where
  "iab_print N t [] bf = Some bf"
| "iab_print N t (c # cs) bf = do {
     bf \<leftarrow> iab_print_cap N t c bf;
     iab_print N t cs bf }"

definition cap_iab_to_text :: "names_h \<Rightarrow> addr \<Rightarrow> 'k world \<Rightarrow> (addr \<times> 'k world) option" where
  "cap_iab_to_text N iab w = do {
     good \<leftarrow> good_cap_iab_t iab w;
     (buf, w) \<leftarrow>
       (if good then
          (if max_bits w > int CAP_MAXBITS then None
           else do {
             w \<leftarrow> cap_mu_lock iab w;
             t \<leftarrow> get_iab iab w;
             (buf, _) \<leftarrow> iab_print N t [0..<nat (max_bits w)] ([], True);
             w \<leftarrow> cap_mu_unlock iab w;
             Some (buf, w) })
        else Some ([], w));
     Some (libcap_strdup (Some buf) w) }"

definition iab_raise_flags :: "int \<Rightarrow> nat \<Rightarrow> cap_iab_s \<Rightarrow> cap_iab_s" where
  "iab_raise_flags flags c t =
     (let t = (if flags AND int LIBCAP_IAB_I_FLAG \<noteq> 0 then t\<lparr>iab_i := vec_raise c (iab_i t)\<rparr> else t);
          t = (if flags AND int LIBCAP_IAB_A_FLAG \<noteq> 0 then t\<lparr>iab_a := vec_raise c (iab_a t)\<rparr> else t)
      in if flags AND int LIBCAP_IAB_NB_FLAG \<noteq> 0 then t\<lparr>iab_nb := vec_raise c (iab_nb t)\<rparr> else t)"

text \<open>The reference parser of a tuple; \<^const>\<open>None\<close> is a text without a meaning.\<close>

function iab_parse :: "names_h \<Rightarrow> int \<Rightarrow> int \<Rightarrow> string \<Rightarrow> cap_iab_s \<Rightarrow> cap_iab_s option" where
  "iab_parse N cmb flags text t =
     (if text = [] then Some t
      else if deref text = CHR ''!'' then iab_parse N cmb (flags OR int LIBCAP_IAB_NB_FLAG) (tl text) t
      else if deref text = CHR 0x5E then iab_parse N cmb (flags OR int LIBCAP_IAB_IA_FLAG) (tl text) t
      else if deref text = CHR ''%'' then iab_parse N cmb (flags OR int LIBCAP_IAB_I_FLAG) (tl text) t
      else
        (let flags = (if flags = 0 then int LIBCAP_IAB_I_FLAG else flags);
             c = fst (lookupname N cmb text); rest = snd (lookupname N cmb text) in
         if c = - 1 then None
         else
           (let t = iab_raise_flags flags (nat c) t in
            if rest = [] then Some t
            else if deref rest \<noteq> CHR '','' then None
            else iab_parse N cmb 0 (tl rest) t)))"
  by pat_completeness auto
termination
proof (relation "measure (\<lambda>(N, cmb, flags, text, t). length text)", goal_cases)
  case (5 N cmb flags s t)
  then have "length (snd (lookupname N cmb s)) \<le> length s" "snd (lookupname N cmb s) \<noteq> []"
    using lookupname_length by auto
  with 5 show ?case by (cases "snd (lookupname N cmb s)") auto
qed (auto simp: length_greater_0_conv [symmetric] simp del: length_greater_0_conv)

declare iab_parse.simps [simp del]

text \<open>
  The same loop with its writes to the vectors of \<^verbatim>\<open>__CAP_BLKS\<close> words checked: no result when
  the lookup gives an index outside them.  In a result, \<^const>\<open>None\<close> is
  \<^verbatim>\<open>goto cleanup\<close>.  This is the parser that runs; the one above says what a text means.
\<close>

definition iab_raise_at :: "int \<Rightarrow> int \<Rightarrow> cap_iab_s \<Rightarrow> cap_iab_s option" where
  "iab_raise_at flags c t = (if 0 \<le> c \<and> nat c div 32 < CAP_BLKS then Some (iab_raise_flags flags (nat c) t) else None)"

function iab_scan :: "names_h \<Rightarrow> int \<Rightarrow> int \<Rightarrow> string \<Rightarrow> cap_iab_s \<Rightarrow> cap_iab_s option option" where
  "iab_scan N cmb flags text t =
     (if text = [] then Some (Some t)
      else if deref text = CHR ''!'' then iab_scan N cmb (flags OR int LIBCAP_IAB_NB_FLAG) (tl text) t
      else if deref text = CHR 0x5E then iab_scan N cmb (flags OR int LIBCAP_IAB_IA_FLAG) (tl text) t
      else if deref text = CHR ''%'' then iab_scan N cmb (flags OR int LIBCAP_IAB_I_FLAG) (tl text) t
      else
        (let flags = (if flags = 0 then int LIBCAP_IAB_I_FLAG else flags);
             c = fst (lookupname N cmb text); rest = snd (lookupname N cmb text) in
         if c = - 1 then Some None
         else
           (case iab_raise_at flags c t of
              None \<Rightarrow> None
            | Some t \<Rightarrow>
                if rest = [] then Some (Some t)
                else if deref rest \<noteq> CHR '','' then Some None
                else iab_scan N cmb 0 (tl rest) t)))"
  by pat_completeness auto
termination
proof (relation "measure (\<lambda>(N, cmb, flags, text, t). length text)", goal_cases)
  case (5 N cmb flags s t)
  then have "length (snd (lookupname N cmb s)) \<le> length s" "snd (lookupname N cmb s) \<noteq> []"
    using lookupname_length by auto
  with 5 show ?case by (cases "snd (lookupname N cmb s)") auto
qed (auto simp: length_greater_0_conv [symmetric] simp del: length_greater_0_conv)

declare iab_scan.simps [simp del]

definition cap_iab_from_text :: "names_h \<Rightarrow> string option \<Rightarrow> 'k world \<Rightarrow> (addr \<times> 'k world) option" where
  "cap_iab_from_text N text w =
     (let (iab, w) = cap_iab_init w in
      if iab = NULL then Some (NULL, w)
      else
        (case text of
           None \<Rightarrow> Some (iab, w)
         | Some s \<Rightarrow> do {
             t \<leftarrow> get_iab iab w;
             (case iab_scan N (max_bits w) 0 s t of
                None \<Rightarrow> None
              | Some (Some t) \<Rightarrow> Some (iab, put_obj iab (CapIab t) w)
              | Some None \<Rightarrow> do {
                  (_, w) \<leftarrow> cap_free iab w;
                  Some (NULL, w\<lparr>errno := EINVAL\<rparr>) }) }))"

definition hex_digit :: "char \<Rightarrow> u32 option" where
  "hex_digit c =
     (if c = NUL \<or> code c < code CHR ''0'' then None
      else if code c \<le> code CHR ''9'' then Some (of_nat (code c - code CHR ''0''))
      else if code c > code CHR ''f'' then None
      else if code c \<ge> code CHR ''a'' then Some (of_nat (code c + 10 - code CHR ''a''))
      else if code c < code CHR ''A'' then None
      else if code c \<le> code CHR ''F'' then Some (of_nat (code c + 10 - code CHR ''A''))
      else None)"

fun hex_loop :: "nat \<Rightarrow> u32 \<Rightarrow> string \<Rightarrow> u32" where
  "hex_loop 0 v c = v"
| "hex_loop (Suc i) v c =
     (case hex_digit (deref c) of None \<Rightarrow> 0 | Some d \<Rightarrow> hex_loop i (push_bit 4 v + d) (tl c))"

definition parse_hex32 :: "string \<Rightarrow> u32" where
  "parse_hex32 c = hex_loop 8 0 c"

text \<open>The new array and whether the string was accepted (\<^verbatim>\<open>~0\<close>) or not (0).\<close>

definition parse_vec_string :: "int \<Rightarrow> u32 list \<Rightarrow> string \<Rightarrow> bool \<Rightarrow> u32 list \<times> u32" where
  "parse_vec_string cmb vals c invert =
     (let words = length c div 8 in
      if words > CAP_BLKS then (vals, 0)
      else
        (let vals = forceall cmb (- 1) words vals in
         (fold (\<lambda>i vals.
             (let val = parse_hex32 (drop (8 * (words - 1 - i)) c);
                  val = (if invert then NOT val else val)
              in vals[i := vals ! i AND val])) [0..<words] vals, - 1)))"

definition cap_proc_root :: "string option \<Rightarrow> 'k world \<Rightarrow> addr \<times> 'k world" where
  "cap_proc_root root w =
     (let old = proc_dir w in
      case root of
        None \<Rightarrow> (old, w)
      | Some r \<Rightarrow> (let (p, w) = libcap_strdup (Some r) w in (old, w\<lparr>proc_dir := p\<rparr>)))"

definition cleanup_libcap :: "'k world \<Rightarrow> 'k world option" where
  "cleanup_libcap w =
     (if proc_dir w = NULL then Some w
      else do {
        (_, w) \<leftarrow> cap_free (proc_dir w) w;
        Some (w\<lparr>proc_dir := NULL\<rparr>) })"

abbreviation (input) PROC_LINE_MAX :: nat where "PROC_LINE_MAX \<equiv> 8 + 8 * CAP_BLKS + 100"

text \<open>\<^verbatim>\<open>fgets(line, n, file)\<close>: at most \<open>n - 1\<close> characters, up to and including a newline.\<close>

definition fgets :: "nat \<Rightarrow> string \<Rightarrow> (string \<times> string) option" where
  "fgets n s =
     (if s = [] then None
      else
        (let upto = takeWhile (\<lambda>c. c \<noteq> CHR 0x0A) s;
             len = min (n - 1) (if length upto < length s then Suc (length upto) else length upto)
         in Some (take len s, drop len s)))"

definition status_line :: "int \<Rightarrow> string \<Rightarrow> cap_iab_s \<times> u32 \<Rightarrow> cap_iab_s \<times> u32" where
  "status_line cmb line tok =
     (let (t, ok) = tok in
      if take 3 line \<noteq> ''Cap'' then (t, ok)
      else if take 5 (drop 3 line) = ''Inh:'' @ [CHR 0x09] then
        (let (v, r) = parse_vec_string cmb (iab_i t) (drop 8 line) False in
         (t\<lparr>iab_i := v\<rparr>, (r AND of_nat LIBCAP_IAB_I_FLAG) OR ok))
      else if take 5 (drop 3 line) = ''Bnd:'' @ [CHR 0x09] then
        (let (v, r) = parse_vec_string cmb (iab_nb t) (drop 8 line) True in
         (t\<lparr>iab_nb := v\<rparr>, (r AND of_nat LIBCAP_IAB_NB_FLAG) OR ok))
      else if take 5 (drop 3 line) = ''Amb:'' @ [CHR 0x09] then
        (let (v, r) = parse_vec_string cmb (iab_a t) (drop 8 line) False in
         (t\<lparr>iab_a := v\<rparr>, (r AND of_nat LIBCAP_IAB_A_FLAG) OR ok))
      else (t, ok))"

function status_loop :: "int \<Rightarrow> string \<Rightarrow> cap_iab_s \<times> u32 \<Rightarrow> cap_iab_s \<times> u32" where
  "status_loop cmb file tok =
     (case fgets (PROC_LINE_MAX - 1) file of
        None \<Rightarrow> tok
      | Some (line, file) \<Rightarrow> status_loop cmb file (status_line cmb line tok))"
  by pat_completeness auto
termination
  by (relation "measure (\<lambda>(cmb, file, tok). length file)")
    (auto simp: fgets_def Let_def neq_Nil_conv split: if_splits)

declare status_loop.simps [simp del]

definition show_int :: "int \<Rightarrow> string" where
  "show_int n = (if n < 0 then CHR ''-'' # show_nat (nat (- n)) else show_nat (nat n))"

definition cap_iab_get_pid ::
  "(string \<Rightarrow> int + string) \<Rightarrow> int \<Rightarrow> 'k world \<Rightarrow> (addr \<times> 'k world) option" where
  "cap_iab_get_pid fs pid w = do {
     proc_root \<leftarrow> (if proc_dir w = NULL then Some ''/proc'' else get_str (proc_dir w) w);
     (let (ok, w) = asprintf_buf w in
      if \<not> ok then Some (NULL, w)
      else
        (case fs (proc_root @ ''/'' @ show_int pid @ ''/status'') of
           Inl e \<Rightarrow> Some (NULL, w\<lparr>errno := e\<rparr>)
         | Inr file \<Rightarrow>
             (let (iab, w) = cap_iab_init w in
              do {
                (ok, w) \<leftarrow>
                  (if iab \<noteq> NULL then do {
                     t \<leftarrow> get_iab iab w;
                     (let (t, ok) = status_loop (max_bits w) file (t, 0) in
                      Some (ok, put_obj iab (CapIab t) w)) }
                   else Some (0, w));
                if ok \<noteq> of_nat LIBCAP_IAB_IA_FLAG OR of_nat LIBCAP_IAB_NB_FLAG then do {
                  (_, w) \<leftarrow> cap_free iab w;
                  Some (NULL, w) }
                else Some (iab, w) }))) }"

section \<open>The text of a tuple\<close>

definition iab_any :: "cap_iab_s \<Rightarrow> nat \<Rightarrow> bool" where
  "iab_any t c \<longleftrightarrow> vec_isset (iab_nb t) c \<or> vec_isset (iab_a t) c \<or> vec_isset (iab_i t) c"

definition iab_prefix :: "cap_iab_s \<Rightarrow> nat \<Rightarrow> string" where
  "iab_prefix t c = (if vec_isset (iab_nb t) c then ''!'' else [])
     @ (if vec_isset (iab_a t) c then [CHR 0x5E]
        else if vec_isset (iab_nb t) c \<and> vec_isset (iab_i t) c then ''%'' else [])"

primrec iab_txt :: "names_h \<Rightarrow> cap_iab_s \<Rightarrow> bool \<Rightarrow> nat list \<Rightarrow> string" where
  "iab_txt N t first [] = []"
| "iab_txt N t first (c # cs) = (if first then [] else '','') @ iab_prefix t c @ name_of N c @ iab_txt N t False cs"

text \<open>The flags the parser collects in front of a name.\<close>

definition iab_flags :: "cap_iab_s \<Rightarrow> nat \<Rightarrow> int" where
  "iab_flags t c =
     (let f = (if vec_isset (iab_nb t) c then 16 else 0)
            OR (if vec_isset (iab_a t) c then 12
                else if vec_isset (iab_nb t) c \<and> vec_isset (iab_i t) c then 4 else 0)
      in if f = 0 then 4 else f)"

lemma iab_prefix_length: "length (iab_prefix t c) \<le> 2"
  by (simp add: iab_prefix_def)

lemma iab_txt_length: "length (iab_txt N t f cs) \<le> cost N cs + 2 * length cs"
proof (induction cs arbitrary: f)
  case (Cons c cs)
  from Cons.IH [of False] iab_prefix_length [of t c] show ?case by (simp add: cost_def)
qed simp

lemma iab_mutex_txt: "iab_txt N (t\<lparr>i_mutex := m\<rparr>) f cs = iab_txt N t f cs" "iab_any (t\<lparr>i_mutex := m\<rparr>) = iab_any t"
proof -
  show "iab_txt N (t\<lparr>i_mutex := m\<rparr>) f cs = iab_txt N t f cs"
    by (induction cs arbitrary: f) (simp_all add: iab_prefix_def)
  show "iab_any (t\<lparr>i_mutex := m\<rparr>) = iab_any t" by (rule ext) (simp add: iab_any_def)
qed

context names_abi
begin

lemma iab_print_cap_ok:
  assumes "length buf + length (name_of N c) + 4 \<le> CAP_TEXT_SIZE N + 100"
  shows "iab_print_cap N t c (buf, first) =
    Some (if iab_any t c then (buf @ (if first then [] else '','') @ iab_prefix t c @ name_of N c, False) else (buf, first))"
proof -
  have nam: "(if c < CAP_BITS N then cap_names N ! c else Some (show_nat c)) = Some (name_of N c)"
    using name_of_named(1) [of c] by (auto simp: name_of_def)
  show ?thesis
    using assms
    by (cases "vec_isset (iab_nb t) c"; cases "vec_isset (iab_a t) c"; cases "vec_isset (iab_i t) c"; cases first)
      (simp_all add: iab_print_cap_def nam iab_any_def iab_prefix_def put_char_def put_text_def)
qed

lemma iab_print_ok:
  assumes "length buf + (cost N cs + 2 * length cs) + 1 \<le> CAP_TEXT_SIZE N + 100"
  shows "iab_print N t cs (buf, first) =
    Some (buf @ iab_txt N t first (filter (iab_any t) cs), first \<and> filter (iab_any t) cs = [])"
  using assms
proof (induction cs arbitrary: buf first)
  case (Cons c cs)
  have "length buf + length (name_of N c) + 4 \<le> CAP_TEXT_SIZE N + 100" using Cons.prems by (simp add: cost_def)
  note c = iab_print_cap_ok [OF this]
  show ?case
  proof (cases "iab_any t c")
    case True
    let ?b = "buf @ (if first then [] else '','') @ iab_prefix t c @ name_of N c"
    have "length ?b + (cost N cs + 2 * length cs) + 1 \<le> CAP_TEXT_SIZE N + 100"
      using Cons.prems iab_prefix_length [of t c] by (simp add: cost_def)
    from Cons.IH [OF this, of False] True c show ?thesis by simp
  next
    case False
    with Cons.IH [of buf first] Cons.prems c show ?thesis by (simp add: cost_def)
  qed
qed simp

lemma cap_iab_to_text_ok:
  assumes "iab_ready w p t" "mem_ok w" "max_bits w = int lo" "lo \<le> 64"
  defines "s \<equiv> iab_txt N t True (filter (iab_any t) [0..<lo])"
  shows "cap_iab_to_text N p w = Some (next_ptr w, new_obj (next_ptr w) (strdup_size s) (CapStr s) (bumped w))"
proof -
  note p = iab_readyD [OF assms(1)]
  let ?cs = "filter (iab_any t) [0..<lo]"
  have split: "cost N [0..<lo] + cost N [lo..<64] = cost N [0..<64]"
    using assms(4) upt_add_eq_append [of 0 lo "64 - lo"] by (simp add: cost_def)
  have "cost N [0..<64] + 128 \<le> CAP_TEXT_SIZE N" using room by (simp add: cost_def CAP_TEXT_SIZE_def)
  with split assms(4) have bound: "length [] + (cost N [0..<lo] + 2 * length [0..<lo]) + 1 \<le> CAP_TEXT_SIZE N + 100" by simp
  have pr: "iab_print N (t\<lparr>i_mutex := m\<rparr>) [0..<lo] ([], True) = Some (s, ?cs = [])" for m
    using iab_print_ok [OF bound, of "t\<lparr>i_mutex := m\<rparr>" True] by (simp add: s_def iab_mutex_txt)
  have "length s \<le> CAP_TEXT_SIZE N + 100"
    using bound cost_filter_le [of N "iab_any t" "[0..<lo]"] length_filter_le [of "iab_any t" "[0..<lo]"]
      iab_txt_length [of N t True ?cs] by (simp add: s_def)
  then have len: "length s < 2 ^ 30" using small by (simp add: CAP_TEXT_SIZE_def)
  show ?thesis
    using p assms(3,4) pr [of 1] libcap_strdup_ok [OF mem_ok_simps(1) [OF assms(2)] len]
    by (simp add: cap_iab_to_text_def libcap_exec put_same)
qed

lemma iab_parse_name:
  assumes "readable N cmb c" "0 \<le> cmb" "rest = [] \<or> deref rest = CHR '',''"
  shows "iab_parse N cmb f (name_of N c @ rest) t0 =
    (let t1 = iab_raise_flags (if f = 0 then 4 else f) c t0 in
     if rest = [] then Some t1 else iab_parse N cmb 0 (tl rest) t1)"
proof -
  have tok: "token_end rest" using assms(3) by (elim disjE) (simp, simp add: token_end_def ctype_defs)
  have d: "deref (name_of N c @ rest) \<noteq> CHR ''!''" "deref (name_of N c @ rest) \<noteq> CHR 0x5E" "deref (name_of N c @ rest) \<noteq> CHR ''%''"
    using deref_name_of [of c rest] by (auto simp: ctype_defs)
  show ?thesis
    using assms(3) d lookupname_name_of [OF assms(1,2) tok]
    by (subst iab_parse.simps) (auto simp: Let_def)
qed

lemma iab_parse_item:
  assumes "readable N cmb c" "0 \<le> cmb" "rest = [] \<or> deref rest = CHR '',''"
  shows "iab_parse N cmb 0 (iab_prefix t c @ name_of N c @ rest) t0 =
    (let t1 = iab_raise_flags (iab_flags t c) c t0 in
     if rest = [] then Some t1 else iab_parse N cmb 0 (tl rest) t1)"
  using iab_parse_name [OF assms]
  by (cases "vec_isset (iab_nb t) c"; cases "vec_isset (iab_a t) c"; cases "vec_isset (iab_i t) c")
    (simp_all add: iab_prefix_def iab_flags_def iab_parse.simps [of _ _ _ "CHR ''!'' # _"]
      iab_parse.simps [of _ _ _ "CHR 0x5E # _"] iab_parse.simps [of _ _ _ "CHR ''%'' # _"] Let_def)

lemma iab_parse_txt:
  assumes "\<forall>c \<in> set cs. readable N cmb c" "0 \<le> cmb"
  shows "iab_parse N cmb 0 (iab_txt N t True cs) t0 = Some (fold (\<lambda>c. iab_raise_flags (iab_flags t c) c) cs t0)"
  using assms
proof (induction cs arbitrary: t0)
  case Nil
  show ?case by (simp add: iab_parse.simps)
next
  case (Cons c cs)
  let ?r = "iab_txt N t False cs"
  have r: "?r = [] \<and> cs = [] \<or> deref ?r = CHR '','' \<and> tl ?r = iab_txt N t True cs \<and> ?r \<noteq> []" by (cases cs) auto
  then have "?r = [] \<or> deref ?r = CHR '',''" by blast
  from iab_parse_item [OF _ _ this, of cmb c t t0] Cons r show ?case by (auto simp: Let_def)
qed

end

lemma iab_raise_flags_bits:
  assumes "wf_iab t0" "c < 64" "x < 64"
  shows "wf_iab (iab_raise_flags f c t0)" "i_mutex (iab_raise_flags f c t0) = i_mutex t0"
    "vec_isset (iab_i (iab_raise_flags f c t0)) x \<longleftrightarrow> vec_isset (iab_i t0) x \<or> (x = c \<and> f AND 4 \<noteq> 0)"
    "vec_isset (iab_a (iab_raise_flags f c t0)) x \<longleftrightarrow> vec_isset (iab_a t0) x \<or> (x = c \<and> f AND 8 \<noteq> 0)"
    "vec_isset (iab_nb (iab_raise_flags f c t0)) x \<longleftrightarrow> vec_isset (iab_nb t0) x \<or> (x = c \<and> f AND 16 \<noteq> 0)"
proof -
  show "wf_iab (iab_raise_flags f c t0)" "i_mutex (iab_raise_flags f c t0) = i_mutex t0"
    using assms(1) by (simp_all add: iab_raise_flags_def Let_def)
  show "vec_isset (iab_i (iab_raise_flags f c t0)) x \<longleftrightarrow> vec_isset (iab_i t0) x \<or> (x = c \<and> f AND 4 \<noteq> 0)"
    "vec_isset (iab_a (iab_raise_flags f c t0)) x \<longleftrightarrow> vec_isset (iab_a t0) x \<or> (x = c \<and> f AND 8 \<noteq> 0)"
    "vec_isset (iab_nb (iab_raise_flags f c t0)) x \<longleftrightarrow> vec_isset (iab_nb t0) x \<or> (x = c \<and> f AND 16 \<noteq> 0)"
    using assms by (auto simp: iab_raise_flags_def Let_def)
qed

text \<open>Reading the items of a tuple with the invariant raises the bits of the tuple.\<close>

lemma iab_flags_bits:
  assumes "iab_inv t" "c < 64" "iab_any t c"
  shows "iab_flags t c AND 4 \<noteq> 0 \<longleftrightarrow> vec_isset (iab_i t) c" "iab_flags t c AND 8 \<noteq> 0 \<longleftrightarrow> vec_isset (iab_a t) c"
    "iab_flags t c AND 16 \<noteq> 0 \<longleftrightarrow> vec_isset (iab_nb t) c"
proof -
  have "vec_isset (iab_a t) c \<Longrightarrow> vec_isset (iab_i t) c" using assms(1,2) by (simp add: iab_inv_def)
  then show "iab_flags t c AND 4 \<noteq> 0 \<longleftrightarrow> vec_isset (iab_i t) c" "iab_flags t c AND 8 \<noteq> 0 \<longleftrightarrow> vec_isset (iab_a t) c"
    "iab_flags t c AND 16 \<noteq> 0 \<longleftrightarrow> vec_isset (iab_nb t) c"
    using assms(3)
    by (cases "vec_isset (iab_nb t) c"; cases "vec_isset (iab_a t) c"; cases "vec_isset (iab_i t) c";
        simp add: iab_flags_def iab_any_def)+
qed

lemma fold_raise_flags:
  assumes "wf_iab t0" "\<forall>c \<in> set cs. c < 64" "x < 64" "iab_inv t" "\<forall>c \<in> set cs. iab_any t c"
  shows "wf_iab (fold (\<lambda>c. iab_raise_flags (iab_flags t c) c) cs t0)
     \<and> i_mutex (fold (\<lambda>c. iab_raise_flags (iab_flags t c) c) cs t0) = i_mutex t0
     \<and> (vec_isset (iab_i (fold (\<lambda>c. iab_raise_flags (iab_flags t c) c) cs t0)) x \<longleftrightarrow>
          vec_isset (iab_i t0) x \<or> (x \<in> set cs \<and> vec_isset (iab_i t) x))
     \<and> (vec_isset (iab_a (fold (\<lambda>c. iab_raise_flags (iab_flags t c) c) cs t0)) x \<longleftrightarrow>
          vec_isset (iab_a t0) x \<or> (x \<in> set cs \<and> vec_isset (iab_a t) x))
     \<and> (vec_isset (iab_nb (fold (\<lambda>c. iab_raise_flags (iab_flags t c) c) cs t0)) x \<longleftrightarrow>
          vec_isset (iab_nb t0) x \<or> (x \<in> set cs \<and> vec_isset (iab_nb t) x))"
  using assms
proof (induction cs arbitrary: t0)
  case (Cons c cs)
  let ?t1 = "iab_raise_flags (iab_flags t c) c t0"
  have c: "c < 64" "iab_any t c" using Cons.prems by auto
  note b = iab_raise_flags_bits [OF Cons.prems(1) c(1) Cons.prems(3), of "iab_flags t c"]
  note f = iab_flags_bits [OF Cons.prems(4) c]
  have "\<forall>c \<in> set cs. c < 64" "\<forall>c \<in> set cs. iab_any t c" using Cons.prems by auto
  note IH = Cons.IH [OF b(1) this(1) Cons.prems(3,4) this(2)]
  show ?case
    unfolding fold_simps o_apply
    using IH unfolding b(2-5) f by (cases "x = c") auto
qed simp

lemma zero_iab_bits [simp]:
  "x < 64 \<Longrightarrow> \<not> vec_isset (iab_i zero_iab) x" "x < 64 \<Longrightarrow> \<not> vec_isset (iab_a zero_iab) x"
  "x < 64 \<Longrightarrow> \<not> vec_isset (iab_nb zero_iab) x"
proof -
  have "\<not> vec_isset [0, 0] x" if "x < 64" for x
    using vec_isset_fold_raise [of "[]" x] that by simp
  then show "x < 64 \<Longrightarrow> \<not> vec_isset (iab_i zero_iab) x" "x < 64 \<Longrightarrow> \<not> vec_isset (iab_a zero_iab) x"
    "x < 64 \<Longrightarrow> \<not> vec_isset (iab_nb zero_iab) x"
    by (simp_all add: zero_iab_def)
qed

section \<open>The parser on any text\<close>

text \<open>Prefixes ask for an ambient bit together with the inheritable one only.\<close>

definition amb_with_inh :: "int \<Rightarrow> bool" where
  "amb_with_inh f \<longleftrightarrow> (f AND 8 \<noteq> 0 \<longrightarrow> f AND 4 \<noteq> 0)"

lemma amb_with_inh_or: "amb_with_inh f \<Longrightarrow> amb_with_inh (f OR 16)" "amb_with_inh (f OR 12)" "amb_with_inh (f OR 4)"
proof -
  have b: "g AND 4 \<noteq> 0 \<longleftrightarrow> bit g 2" "g AND 8 \<noteq> 0 \<longleftrightarrow> bit g 3" for g :: int
    using bit_iff_and_push_bit_not_eq_0 [of g 2] bit_iff_and_push_bit_not_eq_0 [of g 3] by (simp_all add: push_bit_eq_mult)
  have n: "bit (4 :: int) 2" "bit (12 :: int) 2" "\<not> bit (16 :: int) 2" "\<not> bit (16 :: int) 3" by (simp_all add: bit_iff_odd)
  show "amb_with_inh f \<Longrightarrow> amb_with_inh (f OR 16)" "amb_with_inh (f OR 12)" "amb_with_inh (f OR 4)"
    unfolding amb_with_inh_def b using n by (auto simp: bit_or_iff)
qed

lemma iab_raise_keeps:
  assumes "wf_iab t" "c < 64" "iab_inv t" "amb_with_inh f"
  shows "wf_iab (iab_raise_flags f c t)" "i_mutex (iab_raise_flags f c t) = i_mutex t" "iab_inv (iab_raise_flags f c t)"
  using assms iab_raise_flags_bits [OF assms(1,2), of _ f] by (auto simp: iab_inv_def amb_with_inh_def)

context names_abi
begin

lemma iab_parse_keeps:
  assumes "iab_parse N cmb f s t = Some t'" "wf_iab t" "iab_inv t" "amb_with_inh f"
  shows "wf_iab t' \<and> i_mutex t' = i_mutex t \<and> iab_inv t'"
  using assms
proof (induction "length s" arbitrary: s f t rule: less_induct)
  case less
  have a4: "amb_with_inh (if f = 0 then 4 else f)" "amb_with_inh 0" using less.prems(4) by (auto simp: amb_with_inh_def)
  consider "s = []" | "s \<noteq> []" "deref s \<in> {CHR ''!'', CHR 0x5E, CHR ''%''}"
    | "s \<noteq> []" "deref s \<notin> {CHR ''!'', CHR 0x5E, CHR ''%''}" by blast
  then show ?case
  proof cases
    case 1
    with less.prems show ?thesis by (simp add: iab_parse.simps)
  next
    case 2
    then obtain g where "iab_parse N cmb (f OR g) (tl s) t = Some t'" "amb_with_inh (f OR g)"
      using less.prems(1,4) amb_with_inh_or [of f] by (subst (asm) iab_parse.simps) auto
    moreover have "length (tl s) < length s" using 2 by simp
    ultimately show ?thesis using less by blast
  next
    case 3
    obtain c rest where l: "lookupname N cmb s = (c, rest)" by force
    let ?t1 = "iab_raise_flags (if f = 0 then 4 else f) (nat c) t"
    have c: "c \<noteq> - 1" using less.prems(1) 3 l by (subst (asm) iab_parse.simps) auto
    then have c64: "nat c < 64" using lookupname_range [of cmb s] l by auto
    note k = iab_raise_keeps [OF less.prems(2) c64 less.prems(3) a4(1)]
    show ?thesis
    proof (cases "rest = []")
      case True
      then have "t' = ?t1" using less.prems(1) 3 l c by (subst (asm) iab_parse.simps) auto
      with k show ?thesis by simp
    next
      case False
      then have r: "iab_parse N cmb 0 (tl rest) ?t1 = Some t'"
        using less.prems(1) 3 l c by (subst (asm) iab_parse.simps) (auto simp: Let_def split: if_splits)
      have "length (tl rest) < length s" using lookupname_length [of N cmb s] l False by (cases rest) auto
      from less.hyps [OF this r k(1,3) a4(2)] k(2) show ?thesis by simp
    qed
  qed
qed

end

context names_abi
begin

lemma iab_scan_eq: "iab_scan N cmb f s t = Some (iab_parse N cmb f s t)"
proof (induction "length s" arbitrary: s f t rule: less_induct)
  case less
  note ih = less.hyps
  consider "s = []" | "s \<noteq> []" "deref s \<in> {CHR ''!'', CHR 0x5E, CHR ''%''}"
    | "s \<noteq> []" "deref s \<notin> {CHR ''!'', CHR 0x5E, CHR ''%''}" by blast
  then show ?case
  proof cases
    case 1
    then show ?thesis by (simp add: iab_parse.simps iab_scan.simps)
  next
    case 2
    have "length (tl s) < length s" using 2(1) by simp
    from ih [OF this] 2 show ?thesis
      by (subst iab_scan.simps, subst iab_parse.simps) auto
  next
    case 3
    obtain c rest where l: "lookupname N cmb s = (c, rest)" by force
    have "iab_raise_at g c t = Some (iab_raise_flags g (nat c) t)" if "c \<noteq> - 1" for g
    proof -
      have "0 \<le> c" "c < 64" using lookupname_range [of cmb s] l that by auto
      then show ?thesis by (simp add: iab_raise_at_def)
    qed
    moreover have "length (tl rest) < length s" if "rest \<noteq> []"
      using lookupname_length [of N cmb s] l that by (cases rest) auto
    ultimately show ?thesis using 3 l ih [of "tl rest"]
      by (subst iab_scan.simps, subst iab_parse.simps) (auto simp: Let_def)
  qed
qed

lemma cap_iab_from_text_exec:
  assumes "alloc_ok w" "wf_world w"
  shows "cap_iab_from_text N (Some s) w =
    (case iab_parse N (max_bits w) 0 s zero_iab of
       Some t \<Rightarrow> Some (next_ptr w, new_obj (next_ptr w) sizeof_cap_alloc_s (CapIab t) (bumped w))
     | None \<Rightarrow> Some (NULL, (bumped w)\<lparr>errno := EINVAL\<rparr>))"
  using assms wf_fresh [of w]
  by (simp add: cap_iab_from_text_def iab_scan_eq cap_iab_init_ok get_iab_def cap_free_iab del_new split: option.splits)

end

section \<open>Hexadecimal words\<close>

definition hex_char :: "nat \<Rightarrow> char" where
  "hex_char d = char_of (if d < 10 then 48 + d else 87 + d)"

primrec hex_text :: "nat \<Rightarrow> u32 \<Rightarrow> string" where
  "hex_text 0 v = []"
| "hex_text (Suc k) v = hex_char (unat (take_bit 4 (drop_bit (4 * k) v))) # hex_text k v"

lemma length_hex_text [simp]: "length (hex_text k v) = k"
  by (induction k) simp_all

lemma code_hex_char: "d < 16 \<Longrightarrow> code (hex_char d) = (if d < 10 then 48 + d else 87 + d)"
  by (simp add: hex_char_def)

lemma hex_digit_char:
  assumes "d < 16"
  shows "hex_digit (hex_char d) = Some (of_nat d)"
proof -
  have "hex_char d \<noteq> NUL" using code_hex_char [OF assms] by (auto simp: NUL_def split: if_splits)
  then show ?thesis using code_hex_char [OF assms] assms by (simp add: hex_digit_def)
qed

lemma nibble_less: "unat (take_bit 4 (v :: u32)) < 16"
  using take_bit_nat_less_exp [of 4 "unat v"] by (simp add: unsigned_take_bit_eq)

lemma hex_loop_text: "hex_loop k (drop_bit (4 * k) v) (hex_text k v @ rest) = v"
proof (induction k)
  case (Suc k)
  let ?d = "take_bit 4 (drop_bit (4 * k) v)"
  have "drop_bit (4 * Suc k) v = drop_bit 4 (drop_bit (4 * k) v)" by (simp add: add.commute)
  then have "push_bit 4 (drop_bit (4 * Suc k) v) + ?d = drop_bit (4 * k) v"
    by (simp only: bits_ident)
  then show ?case using Suc.IH hex_digit_char [OF nibble_less] by simp
qed simp

lemma parse_hex32_text: "parse_hex32 (hex_text 8 v @ rest) = v"
proof -
  have "drop_bit 32 v = 0" by (rule bit_word_eqI) (simp add: bit_simps)
  then show ?thesis using hex_loop_text [of 8 v rest] by (simp add: parse_hex32_def)
qed

lemma hex_text_no_newline: "c \<in> set (hex_text k v) \<Longrightarrow> c \<noteq> CHR 0x0A"
proof (induction k)
  case (Suc k)
  have "hex_char d \<noteq> CHR 0x0A" if "d < 16" for d
    using code_hex_char [OF that] by (auto split: if_splits)
  with Suc nibble_less show ?case by (metis hex_text.simps(2) set_ConsD)
qed simp

section \<open>The status file of a process\<close>

definition plain_line :: "string \<Rightarrow> bool" where
  "plain_line l \<longleftrightarrow> (\<exists>b. l = b @ [CHR 0x0A] \<and> CHR 0x0A \<notin> set b) \<and> length l \<le> 122"

text \<open>A line of proc(5): \<^verbatim>\<open>Cap\<close>, the set, a tab, 16 digits, most significant first.\<close>

definition cap_line :: "string \<Rightarrow> u32 list \<Rightarrow> string" where
  "cap_line nm v = ''Cap'' @ nm @ '':'' @ [CHR 0x09] @ hex_text 8 (v ! 1) @ hex_text 8 (v ! 0) @ [CHR 0x0A]"

lemma fgets_line:
  assumes "plain_line l"
  shows "fgets 123 (l @ rest) = Some (l, rest)"
proof -
  obtain b where b: "l = b @ [CHR 0x0A]" "CHR 0x0A \<notin> set b" "length l \<le> 122" using assms by (auto simp: plain_line_def)
  then have "takeWhile (\<lambda>c. c \<noteq> CHR 0x0A) (l @ rest) = b" by (auto simp: takeWhile_append)
  with b show ?thesis by (simp add: fgets_def)
qed

lemma status_loop_line:
  "plain_line l \<Longrightarrow> status_loop cmb (l @ rest) tok = status_loop cmb rest (status_line cmb l tok)"
  by (simp add: status_loop.simps [of cmb "l @ rest"] fgets_line)

lemma status_loop_other:
  "\<forall>l \<in> set ls. plain_line l \<and> take 3 l \<noteq> ''Cap'' \<Longrightarrow> status_loop cmb (concat ls @ rest) tok = status_loop cmb rest tok"
  by (induction ls) (auto simp: status_loop_line status_line_def split: prod.splits)

lemma status_loop_Nil [simp]: "status_loop cmb [] tok = tok"
  by (simp add: status_loop.simps fgets_def)

lemma plain_cap_line: "length nm = 3 \<Longrightarrow> CHR 0x0A \<notin> set nm \<Longrightarrow> plain_line (cap_line nm v)"
  using hex_text_no_newline
  by (auto simp: plain_line_def cap_line_def intro!: exI [of _ "''Cap'' @ nm @ '':'' @ [CHR 0x09] @ hex_text 8 (v ! 1) @ hex_text 8 (v ! 0)"])

lemma parse_vec_line:
  assumes "length vals = 2"
  shows "parse_vec_string cmb vals (hex_text 8 (v ! 1) @ hex_text 8 (v ! 0) @ [CHR 0x0A]) invert =
    (map (\<lambda>i. forceall_mask cmb i AND (if invert then NOT (v ! i) else v ! i)) [0..<2], - 1)"
proof -
  obtain a b where "vals = [a, b]" using assms by (auto simp: length_2_conv)
  moreover have "parse_hex32 (hex_text 8 (v ! 1) @ hex_text 8 (v ! 0) @ [CHR 0x0A]) = v ! 1"
    "parse_hex32 (hex_text 8 (v ! 0) @ [CHR 0x0A]) = v ! 0" by (rule parse_hex32_text)+
  ultimately show ?thesis
    by (simp add: parse_vec_string_def Let_def forceall_def rev_upt_2)
qed

lemma status_line_cap:
  assumes "wf_iab t"
  shows "status_line cmb (cap_line ''Inh'' v) (t, ok) =
      (t\<lparr>iab_i := map (\<lambda>i. forceall_mask cmb i AND v ! i) [0..<2]\<rparr>, 4 OR ok)"
    "status_line cmb (cap_line ''Bnd'' v) (t, ok) =
      (t\<lparr>iab_nb := map (\<lambda>i. forceall_mask cmb i AND NOT (v ! i)) [0..<2]\<rparr>, 16 OR ok)"
    "status_line cmb (cap_line ''Amb'' v) (t, ok) =
      (t\<lparr>iab_a := map (\<lambda>i. forceall_mask cmb i AND v ! i) [0..<2]\<rparr>, 8 OR ok)"
    "status_line cmb (cap_line ''Prm'' v) (t, ok) = (t, ok)"
    "status_line cmb (cap_line ''Eff'' v) (t, ok) = (t, ok)"
  using assms parse_vec_line [of _ cmb v]
  by (simp_all add: status_line_def cap_line_def)

lemma vec_isset_masked:
  assumes "0 \<le> cmb" "cmb \<le> 64" "x < 64"
  shows "vec_isset (map (\<lambda>i. forceall_mask cmb i AND f i) [0..<2]) x \<longleftrightarrow> int x < cmb \<and> bit (f (x div 32)) (x mod 32)"
proof -
  have "forceall cmb (- 1) 2 [0, 0] = [forceall_mask cmb 0, forceall_mask cmb 1]"
    by (simp add: forceall_def rev_upt_2)
  moreover have "x div 32 = 0 \<or> x div 32 = 1" using assms(3) by auto
  ultimately show ?thesis using vec_isset_forceall [OF assms] by (auto simp: vec_isset_bit bit_and_iff)
qed

section \<open>Properties\<close>

text \<open>
  C10: \<^verbatim>\<open>cap_iab_from_text\<close> reads back what \<^verbatim>\<open>cap_iab_to_text\<close> prints: for a
  tuple whose ambient bits are inheritable, the printer stays inside its buffer and the parser
  gives a tuple with the same three vectors, restricted to the capabilities of the running kernel.
\<close>

theorem cap_iab_text_roundtrip:
  assumes "names_abi N" "iab_ready w p t" "iab_inv t" "mem_ok w" "0 \<le> max_bits w" "max_bits w \<le> 64"
  shows "\<exists>q s w1 r d w2. cap_iab_to_text N p w = Some (q, w1) \<and> get_str q w1 = Some s
     \<and> cap_iab_from_text N (Some s) w1 = Some (r, w2) \<and> r \<noteq> NULL \<and> get_iab r w2 = Some d \<and> i_mutex d = 0
     \<and> (\<forall>x < 64. vec_isset (iab_i d) x = (int x < max_bits w \<and> vec_isset (iab_i t) x)
          \<and> vec_isset (iab_a d) x = (int x < max_bits w \<and> vec_isset (iab_a t) x)
          \<and> vec_isset (iab_nb d) x = (int x < max_bits w \<and> vec_isset (iab_nb t) x))"
proof -
  note p = iab_readyD [OF assms(2)]
  obtain lo where lo: "max_bits w = int lo" "lo \<le> 64" using assms(5,6) nonneg_int_cases [of "max_bits w"] by auto
  let ?cs = "filter (iab_any t) [0..<lo]"
  let ?s = "iab_txt N t True ?cs"
  let ?d = "fold (\<lambda>c. iab_raise_flags (iab_flags t c) c) ?cs zero_iab"
  let ?w1 = "new_obj (next_ptr w) (strdup_size ?s) (CapStr ?s) (bumped w)"
  have to: "cap_iab_to_text N p w = Some (next_ptr w, ?w1)"
    by (rule names_abi.cap_iab_to_text_ok [OF assms(1,2,4) lo])
  have rd: "\<forall>c \<in> set ?cs. readable N (int lo) c" using lo(2) by (simp add: readable_def)
  have w1: "wf_world ?w1" "alloc_ok ?w1" using p(3) assms(4) by (simp_all add: wf_new_bumped)
  have fr: "cap_iab_from_text N (Some ?s) ?w1 =
      Some (next_ptr ?w1, new_obj (next_ptr ?w1) sizeof_cap_alloc_s (CapIab ?d) (bumped ?w1))"
    using names_abi.cap_iab_from_text_exec [OF assms(1) w1(2,1), of ?s] names_abi.iab_parse_txt [OF assms(1) rd, of t zero_iab] lo(1) by simp
  have bits: "wf_iab ?d \<and> i_mutex ?d = i_mutex zero_iab
     \<and> (vec_isset (iab_i ?d) x \<longleftrightarrow> vec_isset (iab_i zero_iab) x \<or> (x \<in> set ?cs \<and> vec_isset (iab_i t) x))
     \<and> (vec_isset (iab_a ?d) x \<longleftrightarrow> vec_isset (iab_a zero_iab) x \<or> (x \<in> set ?cs \<and> vec_isset (iab_a t) x))
     \<and> (vec_isset (iab_nb ?d) x \<longleftrightarrow> vec_isset (iab_nb zero_iab) x \<or> (x \<in> set ?cs \<and> vec_isset (iab_nb t) x))"
    if "x < 64" for x
    using lo(2) that assms(3) by (intro fold_raise_flags) auto
  have "i_mutex ?d = 0" using bits [of 0] by (simp add: zero_iab_def)
  moreover have "\<forall>x < 64. vec_isset (iab_i ?d) x = (int x < max_bits w \<and> vec_isset (iab_i t) x)
          \<and> vec_isset (iab_a ?d) x = (int x < max_bits w \<and> vec_isset (iab_a t) x)
          \<and> vec_isset (iab_nb ?d) x = (int x < max_bits w \<and> vec_isset (iab_nb t) x)"
    using bits lo(1) by (auto simp: iab_any_def)
  moreover have "get_str (next_ptr w) ?w1 = Some ?s"
    "get_iab (next_ptr ?w1) (new_obj (next_ptr ?w1) sizeof_cap_alloc_s (CapIab ?d) (bumped ?w1)) = Some ?d"
    by (simp_all add: get_str_def get_iab_def)
  ultimately show ?thesis using to fr next_ptr_pos(2) by blast
qed

theorem cap_iab_text_roundtrip_witness:
  "\<exists>q s w1 r w2. cap_iab_to_text linux_names 24 demo_iab_world = Some (q, w1) \<and> get_str q w1 = Some s
     \<and> cap_iab_from_text linux_names (Some s) w1 = Some (r, w2) \<and> r \<noteq> NULL"
proof -
  have "mem_ok demo_iab_world" "0 \<le> max_bits demo_iab_world" "max_bits demo_iab_world \<le> 64"
    by (simp_all add: demo_iab_world_def)
  from cap_iab_text_roundtrip [OF linux_names.names_abi_axioms demo_iab_ready iab_inv_zero this] show ?thesis by metis
qed

text \<open>
  C11: \<^verbatim>\<open>cap_iab_from_text\<close> on any text returns: either an unlocked tuple in which
  every ambient bit is inheritable, or NULL with \<^verbatim>\<open>EINVAL\<close> and the tuple it had
  allocated released again.
\<close>

theorem cap_iab_from_text_total:
  assumes "names_abi N" "wf_world w" "alloc_ok w"
  shows "(\<exists>w' t. cap_iab_from_text N (Some s) w = Some (next_ptr w, w') \<and> iab_ready w' (next_ptr w) t \<and> iab_inv t
            \<and> (\<forall>q. q \<noteq> next_ptr w \<longrightarrow> obj_at w' q = obj_at w q))
     \<or> cap_iab_from_text N (Some s) w = Some (NULL, (bumped w)\<lparr>errno := EINVAL\<rparr>)"
proof (cases "iab_parse N (max_bits w) 0 s zero_iab")
  case None
  then show ?thesis using names_abi.cap_iab_from_text_exec [OF assms(1,3,2), of s] by simp
next
  case (Some t)
  have "amb_with_inh 0" by (simp add: amb_with_inh_def)
  from names_abi.iab_parse_keeps [OF assms(1) Some _ iab_inv_zero this]
  have "wf_iab t" "i_mutex t = 0" "iab_inv t" by (simp_all add: zero_iab_def [THEN arg_cong [of _ _ i_mutex]])
  then show ?thesis
    using names_abi.cap_iab_from_text_exec [OF assms(1,3,2), of s] Some assms(2)
    by (auto simp: iab_ready_def wf_new_bumped)
qed

theorem cap_iab_from_text_total_witness:
  "cap_iab_from_text linux_names (Some ''!bogus'') demo_iab_world = Some (NULL, (bumped demo_iab_world)\<lparr>errno := EINVAL\<rparr>)"
proof -
  have w: "wf_world demo_iab_world" "alloc_ok demo_iab_world"
    using iab_readyD(3) [OF demo_iab_ready] by (simp_all add: demo_iab_world_def)
  have "lookupname linux_names 41 ''bogus'' = (- 1, ''bogus'')" by code_simp
  then have "iab_parse linux_names 41 0 ''!bogus'' zero_iab = None" by (simp add: iab_parse.simps)
  then have "fst (the (cap_iab_from_text linux_names (Some ''!bogus'') demo_iab_world)) = NULL"
    using linux_names.cap_iab_from_text_exec [OF w(2,1)] by (simp add: demo_iab_world_def)
  with cap_iab_from_text_total [OF linux_names.names_abi_axioms w, of "''!bogus''"] show ?thesis by force
qed

text \<open>
  \<^verbatim>\<open>cap_iab_get_pid\<close> on a status file in the format of proc(5) returns the
  inheritable and ambient sets of the process and the complement of its bounding set, each
  restricted to the capabilities of the running kernel, whatever other lines the file has.
\<close>

theorem cap_iab_get_pid_spec:
  assumes "wf_world w" "mem_ok w" "proc_dir w = NULL" "0 \<le> max_bits w" "max_bits w \<le> 64"
    and "fs (''/proc/'' @ show_int pid @ ''/status'') = Inr (concat pre @ cap_line ''Inh'' I @ cap_line ''Prm'' P
           @ cap_line ''Eff'' E @ cap_line ''Bnd'' B @ cap_line ''Amb'' A @ concat post)"
    and "\<forall>l \<in> set pre \<union> set post. plain_line l \<and> take 3 l \<noteq> ''Cap''"
  shows "\<exists>q w' t. cap_iab_get_pid fs pid w = Some (q, w') \<and> iab_ready w' q t
     \<and> (\<forall>x < 64. vec_isset (iab_i t) x = (int x < max_bits w \<and> bit (I ! (x div 32)) (x mod 32))
          \<and> vec_isset (iab_a t) x = (int x < max_bits w \<and> bit (A ! (x div 32)) (x mod 32))
          \<and> vec_isset (iab_nb t) x = (int x < max_bits w \<and> \<not> bit (B ! (x div 32)) (x mod 32)))"
proof -
  let ?cmb = "max_bits w"
  let ?m = "\<lambda>f. map (\<lambda>i. forceall_mask ?cmb i AND f i) [0..<2]"
  let ?t = "\<lparr>i_mutex = 0, iab_i = ?m (\<lambda>i. I ! i), iab_a = ?m (\<lambda>i. A ! i), iab_nb = ?m (\<lambda>i. NOT (B ! i))\<rparr>"
  have pl: "plain_line (cap_line ''Inh'' v)" "plain_line (cap_line ''Prm'' v)" "plain_line (cap_line ''Eff'' v)"
    "plain_line (cap_line ''Bnd'' v)" "plain_line (cap_line ''Amb'' v)" for v
    by (simp_all add: plain_cap_line)
  have wf: "wf_iab \<lparr>i_mutex = 0, iab_i = [a, b], iab_a = [c, d], iab_nb = [e, f]\<rparr>" for a b c d e f
    by (simp add: wf_iab_def)
  have "status_loop ?cmb (concat pre @ cap_line ''Inh'' I @ cap_line ''Prm'' P
      @ cap_line ''Eff'' E @ cap_line ''Bnd'' B @ cap_line ''Amb'' A @ concat post) (zero_iab, 0) = (?t, 28)"
    using status_loop_other [of pre ?cmb] status_loop_other [of post ?cmb "[]"] assms(7)
    by (simp add: status_loop_line pl zero_iab_def status_line_cap wf)
  then have "cap_iab_get_pid fs pid w = Some (next_ptr (bumped w),
      new_obj (next_ptr (bumped w)) sizeof_cap_alloc_s (CapIab ?t) (bumped (bumped w)))"
    using assms(2,3,6)
    by (simp add: cap_iab_get_pid_def asprintf_buf_def calloc_ok cap_iab_init_ok get_iab_def)
  moreover have "iab_ready (new_obj (next_ptr (bumped w)) sizeof_cap_alloc_s (CapIab ?t) (bumped (bumped w))) (next_ptr (bumped w)) ?t"
    using assms(1) wf_new_bumped [OF wf_bumped [OF assms(1)], of "CapIab ?t" sizeof_cap_alloc_s]
    by (simp add: iab_ready_def wf_iab_def)
  moreover have "\<forall>x < 64. vec_isset (iab_i ?t) x = (int x < max_bits w \<and> bit (I ! (x div 32)) (x mod 32))
          \<and> vec_isset (iab_a ?t) x = (int x < max_bits w \<and> bit (A ! (x div 32)) (x mod 32))
          \<and> vec_isset (iab_nb ?t) x = (int x < max_bits w \<and> \<not> bit (B ! (x div 32)) (x mod 32))"
    using vec_isset_masked [OF assms(4,5)] by (simp add: bit_not_iff del: upt_2)
  ultimately show ?thesis by blast
qed

definition demo_status :: string where
  "demo_status = concat [''Name:init'' @ [CHR 0x0A]] @ cap_line ''Inh'' [1, 0] @ cap_line ''Prm'' [0, 0]
     @ cap_line ''Eff'' [0, 0] @ cap_line ''Bnd'' [0xFFFFFFFF, 0x1FF] @ cap_line ''Amb'' [1, 0] @ concat []"

theorem cap_iab_get_pid_spec_witness:
  "\<exists>q w' t. cap_iab_get_pid (\<lambda>_. Inr demo_status) 1 demo_iab_world = Some (q, w') \<and> iab_ready w' q t
     \<and> vec_isset (iab_a t) 0 \<and> \<not> vec_isset (iab_nb t) 7"
proof -
  have w: "wf_world demo_iab_world" "mem_ok demo_iab_world" "proc_dir demo_iab_world = NULL"
    "0 \<le> max_bits demo_iab_world" "max_bits demo_iab_world \<le> 64"
    using iab_readyD(3) [OF demo_iab_ready]
    by (simp_all add: demo_iab_world_def) (simp add: machine_def with_obj_def new_obj_def bumped_def)
  have "plain_line (''Name:init'' @ [CHR 0x0A])" by (simp add: plain_line_def)
  then have l: "\<forall>l \<in> set [''Name:init'' @ [CHR 0x0A]] \<union> set []. plain_line l \<and> take 3 l \<noteq> ''Cap''" by simp
  obtain q w' t where r: "cap_iab_get_pid (\<lambda>_. Inr demo_status) 1 demo_iab_world = Some (q, w')" "iab_ready w' q t"
    "\<forall>x < 64. vec_isset (iab_i t) x = (int x < max_bits demo_iab_world \<and> bit ([1, 0 :: u32] ! (x div 32)) (x mod 32))
          \<and> vec_isset (iab_a t) x = (int x < max_bits demo_iab_world \<and> bit ([1, 0 :: u32] ! (x div 32)) (x mod 32))
          \<and> vec_isset (iab_nb t) x = (int x < max_bits demo_iab_world \<and> \<not> bit ([0xFFFFFFFF, 0x1FF :: u32] ! (x div 32)) (x mod 32))"
    using cap_iab_get_pid_spec [OF w, of "\<lambda>_. Inr demo_status" 1 "[''Name:init'' @ [CHR 0x0A]]" "[1, 0]" "[0, 0]" "[0, 0]"
        "[0xFFFFFFFF, 0x1FF]" "[1, 0]" "[]", OF demo_status_def [THEN arg_cong [of _ _ Inr]] l] by blast
  have "vec_isset (iab_a t) 0" "\<not> vec_isset (iab_nb t) 7"
    using r(3) by (simp_all add: demo_iab_world_def) 
  with r show ?thesis by blast
qed

end
