(* ===== verification/Cap_File.thy ===== *)
theory Cap_File
  imports Cap_Flag
begin

text \<open>
  \<^verbatim>\<open>libcap/cap_file.c\<close>: capabilities of files, kept in the extended attribute
  \<^verbatim>\<open>security.capability\<close>.  The file system calls are the parameter \<open>'k vfs\<close>; an
  attribute is its bytes, and the structure \<^verbatim>\<open>vfs_ns_cap_data\<close> is read from and written
  to them in little-endian order, which is what \<^verbatim>\<open>FIXUP_32BITS\<close> achieves on either
  kind of machine.
\<close>

section \<open>The file system as the library sees it\<close>

text \<open>Raw calls: a negative error number or the result.  The flag of \<open>v_open\<close> is \<^verbatim>\<open>O_PATH\<close>.\<close>

record 'k vfs =
  v_fgetxattr :: "int \<Rightarrow> nat \<Rightarrow> 'k \<Rightarrow> int + u8 list"
  v_getxattr :: "string \<Rightarrow> nat \<Rightarrow> 'k \<Rightarrow> int + u8 list"
  v_fsetxattr :: "int \<Rightarrow> u8 list \<Rightarrow> 'k \<Rightarrow> int \<times> 'k"
  v_setxattr :: "string \<Rightarrow> u8 list \<Rightarrow> 'k \<Rightarrow> int \<times> 'k"
  v_fremovexattr :: "int \<Rightarrow> 'k \<Rightarrow> int \<times> 'k"
  v_removexattr :: "string \<Rightarrow> 'k \<Rightarrow> int \<times> 'k"
  v_fstat :: "int \<Rightarrow> 'k \<Rightarrow> int + nat"
  v_open :: "string \<Rightarrow> bool \<Rightarrow> 'k \<Rightarrow> int \<times> 'k"
  v_close :: "int \<Rightarrow> 'k \<Rightarrow> 'k"

definition kcall :: "('k \<Rightarrow> int \<times> 'k) \<Rightarrow> 'k world \<Rightarrow> int \<times> 'k world" where
  "kcall f w = (let (r, k) = f (kern w) in libc_ret r (w\<lparr>kern := k\<rparr>))"

definition S_ISREG :: "nat \<Rightarrow> bool" where "S_ISREG m \<longleftrightarrow> m AND 0xF000 = 0x8000"
definition S_ISLNK :: "nat \<Rightarrow> bool" where "S_ISLNK m \<longleftrightarrow> m AND 0xF000 = 0xA000"

section \<open>The attribute\<close>

record vfs_ns_cap_data =
  magic_etc :: u32
  vdata :: "(u32 \<times> u32) list"
  rootid :: u32

definition VFS_CAP_REVISION_MASK :: u32 where "VFS_CAP_REVISION_MASK = 0xFF000000"
definition VFS_CAP_REVISION_1 :: u32 where "VFS_CAP_REVISION_1 = 0x01000000"
definition VFS_CAP_REVISION_2 :: u32 where "VFS_CAP_REVISION_2 = 0x02000000"
definition VFS_CAP_REVISION_3 :: u32 where "VFS_CAP_REVISION_3 = 0x03000000"
definition VFS_CAP_FLAGS_EFFECTIVE :: u32 where "VFS_CAP_FLAGS_EFFECTIVE = 0x000001"

abbreviation (input) XATTR_CAPS_SZ_1 :: int where "XATTR_CAPS_SZ_1 \<equiv> 12"
abbreviation (input) XATTR_CAPS_SZ_2 :: int where "XATTR_CAPS_SZ_2 \<equiv> 20"
abbreviation (input) XATTR_CAPS_SZ_3 :: int where "XATTR_CAPS_SZ_3 \<equiv> 24"

lemmas vfs_defs = VFS_CAP_REVISION_MASK_def VFS_CAP_REVISION_1_def VFS_CAP_REVISION_2_def
  VFS_CAP_REVISION_3_def VFS_CAP_FLAGS_EFFECTIVE_def

definition le32 :: "u32 \<Rightarrow> u8 list" where
  "le32 v = [ucast v, ucast (drop_bit 8 v), ucast (drop_bit 16 v), ucast (drop_bit 24 v)]"

definition get_le32 :: "u8 list \<Rightarrow> nat \<Rightarrow> u32" where
  "get_le32 b k = ucast (b ! k) OR push_bit 8 (ucast (b ! (k + 1))) OR push_bit 16 (ucast (b ! (k + 2)))
     OR push_bit 24 (ucast (b ! (k + 3)))"

definition raw_bytes :: "vfs_ns_cap_data \<Rightarrow> u8 list" where
  "raw_bytes raw = le32 (magic_etc raw) @ concat (map (\<lambda>(p, i). le32 p @ le32 i) (vdata raw)) @ le32 (rootid raw)"

text \<open>The structure on the stack after \<^verbatim>\<open>getxattr\<close> stored \<open>b\<close> over the old content \<open>junk\<close>.\<close>

definition raw_of :: "u8 list \<Rightarrow> u8 list \<Rightarrow> vfs_ns_cap_data" where
  "raw_of junk b =
     (let m = take 24 (b @ drop (length b) junk) in
      \<lparr>magic_etc = get_le32 m 0, vdata = [(get_le32 m 4, get_le32 m 8), (get_le32 m 12, get_le32 m 16)],
       rootid = get_le32 m 20\<rparr>)"

definition load_block :: "vfs_ns_cap_data \<Rightarrow> nat \<Rightarrow> cap_struct \<Rightarrow> cap_struct" where
  "load_block raw i c =
     (let c = set_flat i CAP_INHERITABLE (snd (vdata raw ! i)) c;
          c = set_flat i CAP_PERMITTED (fst (vdata raw ! i)) c
      in if magic_etc raw AND VFS_CAP_FLAGS_EFFECTIVE \<noteq> 0
         then set_flat i CAP_EFFECTIVE (flat c i CAP_INHERITABLE OR flat c i CAP_PERMITTED) c else c)"

definition zero_block :: "nat \<Rightarrow> cap_struct \<Rightarrow> cap_struct" where
  "zero_block i c = set_flat i CAP_INHERITABLE 0 (set_flat i CAP_PERMITTED 0 (set_flat i CAP_EFFECTIVE 0 c))"

text \<open>The part of \<^verbatim>\<open>_fcaps_load\<close> behind the switch over the revision.\<close>

definition fcaps_load_data ::
  "vfs_ns_cap_data \<Rightarrow> addr \<Rightarrow> nat \<Rightarrow> int \<Rightarrow> cap_struct \<Rightarrow> 'k world \<Rightarrow> (addr \<times> 'k world) option" where
  "fcaps_load_data raw result tocopy bytes c w =
     (if bytes \<noteq> 0 then do {
        (_, w) \<leftarrow> cap_free result (put_obj result (CapSet c) w);
        Some (NULL, w) }
      else
        (let c = fold (load_block raw) [0..<tocopy] c;
             c = fold zero_block [tocopy..<CAP_BLKS] c
         in Some (result, put_obj result (CapSet c) w)))"

definition fcaps_load :: "vfs_ns_cap_data \<Rightarrow> addr \<Rightarrow> int \<Rightarrow> 'k world \<Rightarrow> (addr \<times> 'k world) option" where
  "fcaps_load raw result bytes w = do {
     c \<leftarrow> get_cap result w;
     (let rev = magic_etc raw AND VFS_CAP_REVISION_MASK in
      case (if rev = VFS_CAP_REVISION_1 then Some (1, bytes - XATTR_CAPS_SZ_1, c)
            else if rev = VFS_CAP_REVISION_2 then Some (2, bytes - XATTR_CAPS_SZ_2, c)
            else if rev = VFS_CAP_REVISION_3 then Some (2, bytes - XATTR_CAPS_SZ_3, c\<lparr>c_rootid := rootid raw\<rparr>)
            else None) of
        None \<Rightarrow> do {
          (_, w) \<leftarrow> cap_free result w;
          Some (NULL, w) }
      | Some (tocopy, bytes, c) \<Rightarrow> fcaps_load_data raw result tocopy bytes c w) }"

text \<open>The part of \<^verbatim>\<open>_fcaps_save\<close> under the mutex; \<^const>\<open>None\<close> is \<^verbatim>\<open>EINVAL\<close>.\<close>

definition save_locked :: "vfs_ns_cap_data \<Rightarrow> cap_struct \<Rightarrow> (vfs_ns_cap_data \<times> int) option" where
  "save_locked raw c = do {
     (magic, tocopy, bytes) \<leftarrow>
       (if h_version (c_head c) = LINUX_CAPABILITY_VERSION_1 then Some (VFS_CAP_REVISION_1, 1, XATTR_CAPS_SZ_1)
        else if h_version (c_head c) \<in> {LINUX_CAPABILITY_VERSION_2, LINUX_CAPABILITY_VERSION_3}
        then Some (VFS_CAP_REVISION_2, 2, XATTR_CAPS_SZ_2) else None);
     (magic, tocopy, bytes, raw) \<leftarrow>
       (if c_rootid c \<noteq> 0 then
          (if h_version (c_head c) < LINUX_CAPABILITY_VERSION_3 then None
           else Some (VFS_CAP_REVISION_3, 2, XATTR_CAPS_SZ_3, raw\<lparr>rootid := c_rootid c\<rparr>))
        else Some (magic, tocopy, bytes, raw));
     eff_not_zero \<leftarrow> Some (fold (\<lambda>i e. e OR flat c i CAP_EFFECTIVE) [0..<tocopy] 0);
     if \<exists>i \<in> set [tocopy..<CAP_BLKS]. flat c i CAP_EFFECTIVE \<noteq> 0 \<or> flat c i CAP_INHERITABLE \<noteq> 0 \<or> flat c i CAP_PERMITTED \<noteq> 0
     then None
     else if \<exists>i \<in> set [0..<tocopy]. eff_not_zero \<noteq> 0 \<and>
               NOT (flat c i CAP_EFFECTIVE) AND (flat c i CAP_PERMITTED OR flat c i CAP_INHERITABLE) \<noteq> 0
     then None
     else
       (let raw = raw\<lparr>vdata := fold (\<lambda>i d. d[i := (flat c i CAP_PERMITTED, flat c i CAP_INHERITABLE)]) [0..<tocopy] (vdata raw)\<rparr>
        in Some (raw\<lparr>magic_etc := (if eff_not_zero = 0 then magic else magic OR VFS_CAP_FLAGS_EFFECTIVE)\<rparr>, bytes)) }"

definition fcaps_save ::
  "vfs_ns_cap_data \<Rightarrow> addr \<Rightarrow> 'k world \<Rightarrow> ((vfs_ns_cap_data \<times> int) option \<times> 'k world) option" where
  "fcaps_save raw cap_d w = do {
     good \<leftarrow> good_cap_t cap_d w;
     if \<not> good then Some (None, w\<lparr>errno := EINVAL\<rparr>)
     else do {
       w \<leftarrow> cap_mu_lock cap_d w;
       c \<leftarrow> get_cap cap_d w;
       (case save_locked raw c of
          None \<Rightarrow> do {
            w \<leftarrow> cap_mu_unlock cap_d (w\<lparr>errno := EINVAL\<rparr>);
            Some (None, w) }
        | Some rb \<Rightarrow> do {
            w \<leftarrow> cap_mu_unlock cap_d w;
            Some (Some rb, w) }) } }"

section \<open>The operations\<close>

definition get_with ::
  "'k kernel \<Rightarrow> u8 list \<Rightarrow> (nat \<Rightarrow> 'k \<Rightarrow> int + u8 list) \<Rightarrow> 'k world \<Rightarrow> (addr \<times> 'k world) option" where
  "get_with K junk getx w = do {
     (result, w) \<leftarrow> cap_init K w;
     if result = NULL then Some (NULL, w)
     else
       (case getx 24 (kern w) of
          Inl e \<Rightarrow> do {
            (_, w) \<leftarrow> cap_free result (w\<lparr>errno := e\<rparr>);
            Some (NULL, w) }
        | Inr b \<Rightarrow>
            if length b < 4 then do {
              (_, w) \<leftarrow> cap_free result w;
              Some (NULL, w) }
            else fcaps_load (raw_of junk b) result (int (length b)) w) }"

definition cap_get_fd :: "'k kernel \<Rightarrow> 'k vfs \<Rightarrow> u8 list \<Rightarrow> int \<Rightarrow> 'k world \<Rightarrow> (addr \<times> 'k world) option" where
  "cap_get_fd K V junk fildes w = get_with K junk (v_fgetxattr V fildes) w"

definition cap_get_file :: "'k kernel \<Rightarrow> 'k vfs \<Rightarrow> u8 list \<Rightarrow> string \<Rightarrow> 'k world \<Rightarrow> (addr \<times> 'k world) option" where
  "cap_get_file K V junk filename w = get_with K junk (v_getxattr V filename) w"

definition cap_get_nsowner :: "addr \<Rightarrow> 'k world \<Rightarrow> (u32 \<times> 'k world) option" where
  "cap_get_nsowner cap_d w = do {
     good \<leftarrow> good_cap_t cap_d w;
     if \<not> good then Some (- 1, w\<lparr>errno := EINVAL\<rparr>)
     else do {
       w \<leftarrow> cap_mu_lock cap_d w;
       c \<leftarrow> get_cap cap_d w;
       w \<leftarrow> cap_mu_unlock cap_d w;
       Some (c_rootid c, w) } }"

definition cap_set_fd :: "'k vfs \<Rightarrow> vfs_ns_cap_data \<Rightarrow> int \<Rightarrow> addr \<Rightarrow> 'k world \<Rightarrow> (int \<times> 'k world) option" where
  "cap_set_fd V raw fildes cap_d w =
     (case v_fstat V fildes (kern w) of
        Inl e \<Rightarrow> Some (- 1, w\<lparr>errno := e\<rparr>)
      | Inr st_mode \<Rightarrow>
          if S_ISLNK st_mode \<or> \<not> S_ISREG st_mode then Some (- 1, w\<lparr>errno := EINVAL\<rparr>)
          else if cap_d = NULL then Some (kcall (v_fremovexattr V fildes) w)
          else do {
            (r, w) \<leftarrow> fcaps_save raw cap_d w;
            (case r of
               None \<Rightarrow> Some (- 1, w)
             | Some (raw, sizeofcaps) \<Rightarrow>
                 Some (kcall (v_fsetxattr V fildes (take (nat sizeofcaps) (raw_bytes raw))) w)) })"

definition v_close_w :: "'k vfs \<Rightarrow> int \<Rightarrow> 'k world \<Rightarrow> 'k world" where
  "v_close_w V fd w = w\<lparr>kern := v_close V fd (kern w)\<rparr>"

definition fdpath :: "int \<Rightarrow> string" where
  "fdpath fd = ''/proc/self/fd/'' @ show_nat (nat fd)"

text \<open>The second half of \<^verbatim>\<open>cap_set_file\<close>, for a file that cannot be read.\<close>

definition set_file_path ::
  "'k vfs \<Rightarrow> vfs_ns_cap_data \<Rightarrow> string \<Rightarrow> addr \<Rightarrow> 'k world \<Rightarrow> (int \<times> 'k world) option" where
  "set_file_path V raw filename cap_d w =
     (let (fd, w) = kcall (v_open V filename True) w in
      if fd < 0 then Some (- 1, w)
      else
        (case v_fstat V fd (kern w) of
           Inl e \<Rightarrow> Some (- 1, v_close_w V fd (w\<lparr>errno := e\<rparr>))
         | Inr st_mode \<Rightarrow>
             if S_ISLNK st_mode \<or> \<not> S_ISREG st_mode then Some (- 1, (v_close_w V fd w)\<lparr>errno := EINVAL\<rparr>)
             else do {
               (ret, w) \<leftarrow>
                 (if length (fdpath fd) \<ge> 64 then Some (- 1, w\<lparr>errno := EINVAL\<rparr>)
                  else if cap_d = NULL then Some (kcall (v_removexattr V (fdpath fd)) w)
                  else do {
                    (r, w) \<leftarrow> fcaps_save raw cap_d w;
                    (case r of
                       None \<Rightarrow> Some (- 1, w)
                     | Some (raw, sizeofcaps) \<Rightarrow>
                         Some (kcall (v_setxattr V (fdpath fd) (take (nat sizeofcaps) (raw_bytes raw))) w)) });
               Some (ret, v_close_w V fd w) }))"

definition cap_set_file ::
  "'k vfs \<Rightarrow> vfs_ns_cap_data \<Rightarrow> string \<Rightarrow> addr \<Rightarrow> 'k world \<Rightarrow> (int \<times> 'k world) option" where
  "cap_set_file V raw filename cap_d w =
     (let (fd, w) = kcall (v_open V filename False) w in
      if fd \<ge> 0 then do {
        (ret, w) \<leftarrow> cap_set_fd V raw fd cap_d w;
        Some (ret, v_close_w V fd w) }
      else set_file_path V raw filename cap_d w)"

definition cap_set_nsowner :: "addr \<Rightarrow> u32 \<Rightarrow> 'k world \<Rightarrow> (int \<times> 'k world) option" where
  "cap_set_nsowner cap_d rootuid w = do {
     good \<leftarrow> good_cap_t cap_d w;
     if \<not> good then Some (- 1, w\<lparr>errno := EINVAL\<rparr>)
     else do {
       w \<leftarrow> cap_mu_lock cap_d w;
       c \<leftarrow> get_cap cap_d w;
       w \<leftarrow> cap_mu_unlock cap_d (put_obj cap_d (CapSet (c\<lparr>c_rootid := rootuid\<rparr>)) w);
       Some (0, w) } }"

section \<open>Bytes\<close>

lemma word32_of_le:
  fixes v :: u32
  shows "ucast (ucast v :: u8) OR push_bit 8 (ucast (ucast (drop_bit 8 v) :: u8))
           OR push_bit 16 (ucast (ucast (drop_bit 16 v) :: u8))
           OR push_bit 24 (ucast (ucast (drop_bit 24 v) :: u8)) = v" (is "?l = v")
proof (rule word32_eqI)
  fix n :: nat
  assume n: "n < 32"
  have *: "bit (push_bit k (ucast (ucast u :: u8)) :: u32) n \<longleftrightarrow> k \<le> n \<and> n < k + 8 \<and> bit u (n - k)"
    for u :: u32 and k
    using n by (auto simp: bit_simps)
  have z: "bit (ucast (ucast v :: u8) :: u32) n \<longleftrightarrow> n < 8 \<and> bit v n" using n by (auto simp: bit_simps)
  show "bit ?l n = bit v n"
    using n by (simp only: bit_or_iff * z) (cases "n < 8"; cases "n < 16"; cases "n < 24"; simp add: bit_drop_bit_eq)
qed

lemma get_le32_le32: "get_le32 (pre @ le32 v @ post) (length pre) = v"
  using word32_of_le [of v] by (simp add: get_le32_def le32_def nth_append or.assoc)

lemma length_le32 [simp]: "length (le32 v) = 4"
  by (simp add: le32_def)

lemma get_le32_at: "k = length pre \<Longrightarrow> b = pre @ le32 v @ post \<Longrightarrow> get_le32 b k = v"
  by (simp add: get_le32_le32)

lemma raw_bytes_2:
  "vdata raw = [(p0, i0), (p1, i1)] \<Longrightarrow>
     raw_bytes raw = le32 (magic_etc raw) @ le32 p0 @ le32 i0 @ le32 p1 @ le32 i1 @ le32 (rootid raw)"
  by (simp add: raw_bytes_def)

text \<open>Reading back the 20 bytes of revision 2 or the 24 bytes of revision 3.\<close>

lemma raw_of_saved:
  assumes "vdata raw = [(p0, i0), (p1, i1)]" "n = 20 \<or> n = 24"
  shows "magic_etc (raw_of junk (take n (raw_bytes raw))) = magic_etc raw"
    "vdata (raw_of junk (take n (raw_bytes raw))) = vdata raw"
    "n = 24 \<Longrightarrow> rootid (raw_of junk (take n (raw_bytes raw))) = rootid raw"
proof -
  let ?h = "le32 (magic_etc raw) @ le32 p0 @ le32 i0 @ le32 p1 @ le32 i1"
  define m where "m = take 24 (take n (raw_bytes raw) @ drop (length (take n (raw_bytes raw))) junk)"
  have rb: "raw_bytes raw = ?h @ le32 (rootid raw)" using raw_bytes_2 [OF assms(1)] by simp
  have m: "\<exists>post. m = ?h @ post" "n = 24 \<Longrightarrow> m = ?h @ le32 (rootid raw)"
    using assms(2) by (auto simp: m_def rb)
  then obtain post where post: "m = ?h @ post" by blast
  have "get_le32 m 0 = magic_etc raw" by (rule get_le32_at [of 0 "[]"]) (simp_all add: post)
  moreover have "get_le32 m 4 = p0" by (rule get_le32_at [of 4 "le32 (magic_etc raw)"]) (simp_all add: post)
  moreover have "get_le32 m 8 = i0" by (rule get_le32_at [of 8 "le32 (magic_etc raw) @ le32 p0"]) (simp_all add: post)
  moreover have "get_le32 m 12 = p1"
    by (rule get_le32_at [of 12 "le32 (magic_etc raw) @ le32 p0 @ le32 i0"]) (simp_all add: post)
  moreover have "get_le32 m 16 = i1"
    by (rule get_le32_at [of 16 "le32 (magic_etc raw) @ le32 p0 @ le32 i0 @ le32 p1"]) (simp_all add: post)
  moreover have "n = 24 \<Longrightarrow> get_le32 m 20 = rootid raw"
    by (rule get_le32_at [of 20 ?h]) (use m(2) in simp_all)
  ultimately show "magic_etc (raw_of junk (take n (raw_bytes raw))) = magic_etc raw"
    "vdata (raw_of junk (take n (raw_bytes raw))) = vdata raw"
    "n = 24 \<Longrightarrow> rootid (raw_of junk (take n (raw_bytes raw))) = rootid raw"
    unfolding raw_of_def Let_def m_def [symmetric] using assms(1) by simp_all
qed

section \<open>Saving and loading\<close>

text \<open>The effective bit of the attribute stands for all permitted and inheritable capabilities.\<close>

definition eff_legal :: "cap_struct \<Rightarrow> bool" where
  "eff_legal c \<longleftrightarrow> (\<forall>x < 64. \<not> isset_cap c x CAP_EFFECTIVE)
     \<or> (\<forall>x < 64. isset_cap c x CAP_PERMITTED \<or> isset_cap c x CAP_INHERITABLE \<longrightarrow> isset_cap c x CAP_EFFECTIVE)"

definition eff_any :: "cap_struct \<Rightarrow> bool" where
  "eff_any c \<longleftrightarrow> (\<exists>x < 64. isset_cap c x CAP_EFFECTIVE)"

lemma flat_zero_iff: "i < 2 \<Longrightarrow> flat c i s = 0 \<longleftrightarrow> (\<forall>n < 32. \<not> isset_cap c (32 * i + n) s)"
proof -
  assume i: "i < 2"
  have "flat c i s = 0 \<longleftrightarrow> (\<forall>n < 32. \<not> bit (flat c i s) n)"
    using word32_eqI [of "flat c i s" 0] by auto
  with i show ?thesis by (simp add: flat_bit_eq)
qed

lemma all_blocks: "(\<forall>i < (2 :: nat). \<forall>n < (32 :: nat). P (32 * i + n)) \<longleftrightarrow> (\<forall>x < 64. P x)"
proof
  assume h: "\<forall>i < (2 :: nat). \<forall>n < (32 :: nat). P (32 * i + n)"
  show "\<forall>x < 64. P x"
  proof (intro allI impI)
    fix x :: nat
    assume "x < 64"
    then have "x div 32 < 2" "x mod 32 < 32" by auto
    with h have "P (32 * (x div 32) + x mod 32)" by blast
    then show "P x" by simp
  qed
qed auto

lemma eff_any_flat: "eff_any c \<longleftrightarrow> flat c 0 0 OR flat c 1 0 \<noteq> 0"
proof -
  have "flat c 0 0 OR flat c 1 0 = 0 \<longleftrightarrow> flat c 0 0 = 0 \<and> flat c 1 0 = 0" by (rule or_eq_0_iff)
  also have "\<dots> \<longleftrightarrow> (\<forall>i < 2. \<forall>n < 32. \<not> isset_cap c (32 * i + n) 0)"
    unfolding all_nat_less_2 by (simp add: flat_zero_iff)
  also have "\<dots> \<longleftrightarrow> (\<forall>x < 64. \<not> isset_cap c x 0)" by (rule all_blocks)
  finally show ?thesis by (auto simp: eff_any_def)
qed

lemma partial_eff_flat:
  "(\<exists>i < 2. NOT (flat c i 0) AND (flat c i 1 OR flat c i 2) \<noteq> 0) \<longleftrightarrow>
     (\<exists>x < 64. (isset_cap c x 1 \<or> isset_cap c x 2) \<and> \<not> isset_cap c x 0)"
proof -
  have "NOT (flat c i 0) AND (flat c i 1 OR flat c i 2) = 0 \<longleftrightarrow>
      (\<forall>n < 32. \<not> ((isset_cap c (32 * i + n) 1 \<or> isset_cap c (32 * i + n) 2) \<and> \<not> isset_cap c (32 * i + n) 0))"
    if "i < 2" for i
  proof -
    have "NOT (flat c i 0) AND (flat c i 1 OR flat c i 2) = 0 \<longleftrightarrow>
        (\<forall>n < 32. \<not> bit (NOT (flat c i 0) AND (flat c i 1 OR flat c i 2)) n)"
      using word32_eqI [of "NOT (flat c i 0) AND (flat c i 1 OR flat c i 2)" 0] by auto
    then show ?thesis by (auto simp: bit_and_iff bit_or_iff bit_not_iff flat_bit_eq [OF that])
  qed
  then have "(\<forall>i < 2. NOT (flat c i 0) AND (flat c i 1 OR flat c i 2) = 0) \<longleftrightarrow>
      (\<forall>x < 64. \<not> ((isset_cap c x 1 \<or> isset_cap c x 2) \<and> \<not> isset_cap c x 0))"
    using all_blocks [of "\<lambda>x. \<not> ((isset_cap c x 1 \<or> isset_cap c x 2) \<and> \<not> isset_cap c x 0)"] by simp
  then show ?thesis by blast
qed

lemma ver3_props: "LINUX_CAPABILITY_VERSION_3 \<noteq> LINUX_CAPABILITY_VERSION_1"
  by (simp add: version_defs)

text \<open>The structure and the bytes that are written for a legal set.\<close>

definition saved_raw :: "vfs_ns_cap_data \<Rightarrow> cap_struct \<Rightarrow> vfs_ns_cap_data" where
  "saved_raw raw c =
     \<lparr>magic_etc = (if c_rootid c \<noteq> 0 then VFS_CAP_REVISION_3 else VFS_CAP_REVISION_2)
                   OR (if eff_any c then VFS_CAP_FLAGS_EFFECTIVE else 0),
      vdata = [(flat c 0 1, flat c 0 2), (flat c 1 1, flat c 1 2)],
      rootid = (if c_rootid c \<noteq> 0 then c_rootid c else rootid raw)\<rparr>"

definition saved_size :: "cap_struct \<Rightarrow> nat" where
  "saved_size c = (if c_rootid c \<noteq> 0 then 24 else 20)"

definition saved_bytes :: "vfs_ns_cap_data \<Rightarrow> cap_struct \<Rightarrow> u8 list" where
  "saved_bytes raw c = take (saved_size c) (raw_bytes (saved_raw raw c))"

lemma save_locked_v3:
  assumes "h_version (c_head c) = LINUX_CAPABILITY_VERSION_3" "length (vdata raw) = 2"
  shows "save_locked raw c = (if eff_legal c then Some (saved_raw raw c, int (saved_size c)) else None)"
proof -
  have legal: "eff_legal c \<longleftrightarrow> \<not> (eff_any c \<and> (\<exists>i < 2. NOT (flat c i 0) AND (flat c i 1 OR flat c i 2) \<noteq> 0))"
    unfolding partial_eff_flat eff_any_def eff_legal_def by auto
  obtain a b where vd: "vdata raw = [a, b]" using assms(2) by (auto simp: length_2_conv)
  show ?thesis
  proof (cases raw)
    case (fields m d r)
    then show ?thesis
      using assms(1) vd ver3_props
      unfolding save_locked_def legal ex_nat_less_2 eff_any_flat saved_raw_def saved_size_def
      by (cases "flat c 0 0 OR flat c 1 0 = 0"; cases "c_rootid c = 0")
        auto
  qed
qed

lemma magic_rev:
  "(VFS_CAP_REVISION_3 OR (if e then VFS_CAP_FLAGS_EFFECTIVE else 0)) AND VFS_CAP_REVISION_MASK = VFS_CAP_REVISION_3"
  "(VFS_CAP_REVISION_2 OR (if e then VFS_CAP_FLAGS_EFFECTIVE else 0)) AND VFS_CAP_REVISION_MASK = VFS_CAP_REVISION_2"
  "(VFS_CAP_REVISION_3 OR (if e then VFS_CAP_FLAGS_EFFECTIVE else 0)) AND VFS_CAP_FLAGS_EFFECTIVE \<noteq> 0 \<longleftrightarrow> e"
  "(VFS_CAP_REVISION_2 OR (if e then VFS_CAP_FLAGS_EFFECTIVE else 0)) AND VFS_CAP_FLAGS_EFFECTIVE \<noteq> 0 \<longleftrightarrow> e"
  by (simp_all add: vfs_defs)

lemma wf_load_block [simp]: "wf_cap c \<Longrightarrow> i < 2 \<Longrightarrow> wf_cap (load_block raw i c)" "wf_cap c \<Longrightarrow> i < 2 \<Longrightarrow> wf_cap (zero_block i c)"
  by (simp_all add: load_block_def zero_block_def Let_def)

lemma load_block_fields [simp]:
  "c_mutex (load_block raw i c) = c_mutex c" "c_rootid (load_block raw i c) = c_rootid c" "c_head (load_block raw i c) = c_head c"
  "c_mutex (zero_block i c) = c_mutex c" "c_rootid (zero_block i c) = c_rootid c" "c_head (zero_block i c) = c_head c"
  by (simp_all add: load_block_def zero_block_def Let_def)

lemma flat_load_block:
  "wf_cap c \<Longrightarrow> i < 2 \<Longrightarrow> b < 2 \<Longrightarrow> s < 3 \<Longrightarrow> flat (load_block raw i c) b s =
    (if b \<noteq> i then flat c b s
     else if s = 2 then snd (vdata raw ! i) else if s = 1 then fst (vdata raw ! i)
     else if magic_etc raw AND VFS_CAP_FLAGS_EFFECTIVE \<noteq> 0 then snd (vdata raw ! i) OR fst (vdata raw ! i) else flat c b s)"
  by (auto simp: load_block_def Let_def)

text \<open>What a file keeps of a set: the permitted and inheritable flags, and one bit for the effective flag.\<close>

definition file_image :: "cap_struct \<Rightarrow> cap_struct \<Rightarrow> bool" where
  "file_image c d \<longleftrightarrow> c_rootid d = c_rootid c
     \<and> (\<forall>x < 64. isset_cap d x CAP_PERMITTED = isset_cap c x CAP_PERMITTED
          \<and> isset_cap d x CAP_INHERITABLE = isset_cap c x CAP_INHERITABLE
          \<and> isset_cap d x CAP_EFFECTIVE = (eff_any c \<and> (isset_cap c x CAP_PERMITTED \<or> isset_cap c x CAP_INHERITABLE)))"

lemma flat_zero_cap: "b < 2 \<Longrightarrow> s < 3 \<Longrightarrow> flat (zero_cap v) b s = 0"
proof -
  assume "b < 2" "s < 3"
  then have "b = 0 \<or> b = 1" "s = 0 \<or> s = 1 \<or> s = 2" by auto
  then show ?thesis by (auto simp: zero_cap_def flat_def)
qed

text \<open>The set an attribute stands for, if it stands for one: revision 1 has one block, 2 and 3 have two.\<close>

definition attr_caps :: "u8 list \<Rightarrow> u8 list \<Rightarrow> cap_struct option" where
  "attr_caps junk b =
     (let raw = raw_of junk b; z = zero_cap LINUX_CAPABILITY_VERSION_3; rev = magic_etc raw AND VFS_CAP_REVISION_MASK in
      if rev = VFS_CAP_REVISION_1 \<and> length b = 12 then Some (zero_block 1 (load_block raw 0 z))
      else if rev = VFS_CAP_REVISION_2 \<and> length b = 20 then Some (load_block raw 1 (load_block raw 0 z))
      else if rev = VFS_CAP_REVISION_3 \<and> length b = 24
      then Some (load_block raw 1 (load_block raw 0 (z\<lparr>c_rootid := rootid raw\<rparr>)))
      else None)"

lemma attr_caps_wf: "attr_caps junk b = Some d \<Longrightarrow> wf_cap d \<and> c_mutex d = 0"
  by (auto simp: attr_caps_def Let_def split: if_splits)

lemma fcaps_load_exec:
  assumes "obj_at w q = Some (CapSet (zero_cap LINUX_CAPABILITY_VERSION_3))" "q \<noteq> 0" "q mod 8 = 0" "4 \<le> length b"
  shows "fcaps_load (raw_of junk b) q (int (length b)) w =
    (case attr_caps junk b of None \<Rightarrow> Some (NULL, del_obj q w) | Some d \<Rightarrow> Some (q, put_obj q (CapSet d) w))"
proof -
  let ?raw = "raw_of junk b" and ?z = "zero_cap LINUX_CAPABILITY_VERSION_3"
  let ?rev = "magic_etc ?raw AND VFS_CAP_REVISION_MASK"
  have fr: "cap_free q w = Some (0, del_obj q w)" "cap_free q (put_obj q (CapSet ?z) w) = Some (0, del_obj q w)"
    "cap_free q (put_obj q (CapSet (?z\<lparr>c_rootid := r\<rparr>)) w) = Some (0, del_obj q w)" for r
    using assms by (simp_all add: cap_free_set)
  have d: "fcaps_load_data ?raw q n (int (length b) - int m) c w =
      (if length b = m then Some (q, put_obj q (CapSet (fold zero_block [n..<2] (fold (load_block ?raw) [0..<n] c))) w)
       else Some (NULL, del_obj q w))" if "c = ?z \<or> (\<exists>r. c = ?z\<lparr>c_rootid := r\<rparr>)" for n m c
    using fr that by (auto simp: fcaps_load_data_def)
  have eq: "fcaps_load ?raw q (int (length b)) w =
      (if ?rev = VFS_CAP_REVISION_1 then fcaps_load_data ?raw q 1 (int (length b) - int 12) ?z w
       else if ?rev = VFS_CAP_REVISION_2 then fcaps_load_data ?raw q 2 (int (length b) - int 20) ?z w
       else if ?rev = VFS_CAP_REVISION_3 then fcaps_load_data ?raw q 2 (int (length b) - int 24) (?z\<lparr>c_rootid := rootid ?raw\<rparr>) w
       else Some (NULL, del_obj q w))"
    using fr(1) get_obj(1) [OF assms(1)] by (simp add: fcaps_load_def)
  have rev: "VFS_CAP_REVISION_1 \<noteq> VFS_CAP_REVISION_2" "VFS_CAP_REVISION_1 \<noteq> VFS_CAP_REVISION_3" "VFS_CAP_REVISION_2 \<noteq> VFS_CAP_REVISION_3"
    by (simp_all add: vfs_defs)
  have fold: "fold zero_block [1..<2] (fold (load_block ?raw) [0..<1] c) = zero_block 1 (load_block ?raw 0 c)"
    "fold zero_block [2..<2] (fold (load_block ?raw) [0..<2] c) = load_block ?raw 1 (load_block ?raw 0 c)" for c
    by (simp_all add: numeral_2_eq_2)
  consider "?rev = VFS_CAP_REVISION_1" | "?rev = VFS_CAP_REVISION_2" | "?rev = VFS_CAP_REVISION_3"
    | "?rev \<notin> {VFS_CAP_REVISION_1, VFS_CAP_REVISION_2, VFS_CAP_REVISION_3}" by blast
  then show ?thesis
  proof cases
    case 1
    then show ?thesis using eq rev d [of ?z 1 12] fold(1) by (simp add: attr_caps_def Let_def)
  next
    case 2
    then show ?thesis using eq rev d [of ?z 2 20] fold(2) by (simp add: attr_caps_def Let_def)
  next
    case 3
    then show ?thesis using eq rev d [OF disjI2, OF exI, OF refl, of 2 24 "rootid ?raw"] fold(2) by (simp add: attr_caps_def Let_def)
  next
    case 4
    then show ?thesis using eq by (simp add: attr_caps_def Let_def)
  qed
qed

context capget_abi
begin

text \<open>Both readers compute \<open>attr_caps\<close> of the attribute, whatever its bytes are.\<close>

lemma get_with_exec:
  assumes "wf_world w" "alloc_ok w"
  shows "get_with K junk getx w =
    (case getx 24 (kern w) of
       Inl e \<Rightarrow> Some (NULL, (bumped w)\<lparr>errno := e\<rparr>)
     | Inr b \<Rightarrow> (case attr_caps junk b of
                   None \<Rightarrow> Some (NULL, bumped w)
                 | Some d \<Rightarrow> Some (next_ptr w, new_obj (next_ptr w) sizeof_cap_alloc_s (CapSet d) (bumped w))))"
proof -
  let ?q = "next_ptr w"
  let ?w1 = "new_obj ?q sizeof_cap_alloc_s (CapSet (zero_cap LINUX_CAPABILITY_VERSION_3)) (bumped w)"
  have fresh: "heap (bumped w) ?q = None" using wf_fresh [OF assms(1)] by simp
  have del: "del_obj ?q ?w1 = bumped w" using fresh by (rule del_new)
  have free: "cap_free ?q (?w1\<lparr>errno := e\<rparr>) = Some (0, (bumped w)\<lparr>errno := e\<rparr>)" "cap_free ?q ?w1 = Some (0, bumped w)" for e
    using del del_new [of "(bumped w)\<lparr>errno := e\<rparr>" ?q] fresh by (simp_all add: cap_free_set)
  show ?thesis
  proof (cases "getx 24 (kern w)")
    case (Inl e)
    then show ?thesis using cap_init_ok [OF assms(2)] free(1) [of e] by (simp add: get_with_def)
  next
    case (Inr b)
    show ?thesis
    proof (cases "length b < 4")
      case True
      then show ?thesis using cap_init_ok [OF assms(2)] Inr free(2) by (simp add: get_with_def attr_caps_def Let_def)
    next
      case False
      then show ?thesis
        using cap_init_ok [OF assms(2)] Inr fcaps_load_exec [of ?w1 ?q b junk] del
        by (simp add: get_with_def split: option.split)
    qed
  qed
qed

end

lemma saved_bytes_load:
  "length (saved_bytes raw c) = saved_size c" "saved_size c \<le> 24"
  "\<exists>d. attr_caps junk (saved_bytes raw c) = Some d \<and> file_image c d"
proof -
  let ?b = "saved_bytes raw c" and ?z = "zero_cap LINUX_CAPABILITY_VERSION_3"
  let ?r = "raw_of junk ?b" and ?root = "c_rootid c \<noteq> 0"
  have vd: "vdata (saved_raw raw c) = [(flat c 0 1, flat c 0 2), (flat c 1 1, flat c 1 2)]" by (simp add: saved_raw_def)
  show len: "length ?b = saved_size c" "saved_size c \<le> 24"
    using raw_bytes_2 [OF vd] by (simp_all add: saved_bytes_def saved_size_def)
  have n: "saved_size c = 20 \<or> saved_size c = 24" by (simp add: saved_size_def)
  have r1: "vdata ?r = [(flat c 0 1, flat c 0 2), (flat c 1 1, flat c 1 2)]"
    unfolding saved_bytes_def using raw_of_saved(2) [OF vd n] vd by simp
  have r2: "magic_etc ?r = (if ?root then VFS_CAP_REVISION_3 else VFS_CAP_REVISION_2) OR (if eff_any c then VFS_CAP_FLAGS_EFFECTIVE else 0)"
    unfolding saved_bytes_def raw_of_saved(1) [OF vd n] by (simp add: saved_raw_def)
  have r3: "rootid ?r = c_rootid c" if ?root
    unfolding saved_bytes_def using raw_of_saved(3) [OF vd n, of junk] that by (simp add: saved_size_def saved_raw_def)
  let ?z' = "if ?root then ?z\<lparr>c_rootid := rootid ?r\<rparr> else ?z"
  define d where "d = load_block ?r 1 (load_block ?r 0 ?z')"
  have wf: "wf_cap ?z'" by simp
  have eff: "magic_etc ?r AND VFS_CAP_FLAGS_EFFECTIVE \<noteq> 0 \<longleftrightarrow> eff_any c"
    using r2 magic_rev(3,4) by (cases ?root) simp_all
  have rev: "magic_etc ?r AND VFS_CAP_REVISION_MASK = (if ?root then VFS_CAP_REVISION_3 else VFS_CAP_REVISION_2)"
    using r2 magic_rev(1,2) by (cases ?root) simp_all
  have "attr_caps junk ?b = Some d"
    using rev len(1) by (cases ?root) (simp_all add: attr_caps_def Let_def d_def saved_size_def vfs_defs)
  moreover have z: "flat ?z' b s = 0" if "b < 2" "s < 3" for b s
    using flat_zero_cap [OF that] by simp
  have fl: "flat d b s = (if s = 2 then flat c b 2 else if s = 1 then flat c b 1
      else if eff_any c then flat c b 2 OR flat c b 1 else 0)" if "b < 2" "s < 3" for b s
    using that wf z [OF that] eff r1 by (auto simp: d_def flat_load_block less_2_cases_iff)
  have "c_rootid d = c_rootid c" using r3 by (auto simp: d_def)
  then have "file_image c d" by (auto simp: file_image_def isset_cap_bit fl bit_or_iff)
  ultimately show "\<exists>d. attr_caps junk ?b = Some d \<and> file_image c d" by blast
qed

section \<open>What the file operations rely on of the file system\<close>

text \<open>
  fgetxattr(2) and fsetxattr(2): an attribute that fits the caller's buffer is returned as it was
  stored, and a call that stores one returns 0 or a negative error number.
\<close>

locale vfs_abi =
  fixes V :: "'k vfs"
  assumes fset_fget: "v_fsetxattr V fd b k = (0, k') \<Longrightarrow> length b \<le> sz \<Longrightarrow> v_fgetxattr V fd sz k' = Inr b"
    and fset_ret: "v_fsetxattr V fd b k = (r, k') \<Longrightarrow> r \<le> 0"

text \<open>
  The same through paths: a regular file that was opened by its path without following a link is
  the file getxattr(2) reads under that path once the descriptor is closed.
\<close>

definition plain_path :: "string \<Rightarrow> bool" where
  "plain_path f \<longleftrightarrow> take 14 f \<noteq> ''/proc/self/fd/''"

locale path_abi = vfs_abi V for V :: "'k vfs" +
  assumes open_set: "v_open V f False k = (fd, k1) \<Longrightarrow> 0 \<le> fd \<Longrightarrow> v_fstat V fd k1 = Inr mode \<Longrightarrow> S_ISREG mode \<Longrightarrow>
      plain_path f \<Longrightarrow> v_fsetxattr V fd b k1 = (0, k2) \<Longrightarrow> length b \<le> sz \<Longrightarrow> v_getxattr V f sz (v_close V fd k2) = Inr b"
    and opath_set: "v_open V f True k = (fd, k1) \<Longrightarrow> 0 \<le> fd \<Longrightarrow> v_fstat V fd k1 = Inr mode \<Longrightarrow> S_ISREG mode \<Longrightarrow>
      plain_path f \<Longrightarrow> v_setxattr V (fdpath fd) b k1 = (0, k2) \<Longrightarrow> length b \<le> sz \<Longrightarrow> v_getxattr V f sz (v_close V fd k2) = Inr b"
    and set_ret: "v_setxattr V f b k = (r, k') \<Longrightarrow> r \<le> 0"

text \<open>A reference instance: named files with a mode and at most one attribute, and open descriptors.\<close>

definition CAP_SETFCAP :: nat where "CAP_SETFCAP = 31"

definition lk_getx :: "string option \<Rightarrow> nat \<Rightarrow> linux \<Rightarrow> int + u8 list" where
  "lk_getx path sz k =
     (case Option.bind path (lk_files k) of
        None \<Rightarrow> Inl 2
      | Some (m, None) \<Rightarrow> Inl ENODATA
      | Some (m, Some b) \<Rightarrow> if length b \<le> sz then Inr b else Inl ERANGE)"

definition lk_setx :: "string option \<Rightarrow> u8 list option \<Rightarrow> linux \<Rightarrow> int \<times> linux" where
  "lk_setx path b k =
     (case path of
        None \<Rightarrow> (- 9, k)
      | Some f \<Rightarrow>
          (case lk_files k f of
             None \<Rightarrow> (- 2, k)
           | Some (m, _) \<Rightarrow>
               if CAP_SETFCAP \<notin> lk_eff k then (- EPERM, k)
               else (0, k\<lparr>lk_files := (lk_files k)(f \<mapsto> (m, b))\<rparr>)))"

definition lk_resolve :: "linux \<Rightarrow> string \<Rightarrow> string option" where
  "lk_resolve k path =
     (if take 14 path = ''/proc/self/fd/'' then lk_fds k (int (digits_value 10 (drop 14 path))) else Some path)"

definition lk_open :: "string \<Rightarrow> bool \<Rightarrow> linux \<Rightarrow> int \<times> linux" where
  "lk_open f opath k =
     (case lk_files k f of
        None \<Rightarrow> (- 2, k)
      | Some (m, _) \<Rightarrow>
          if \<not> opath \<and> S_ISLNK m then (- 40, k)
          else if \<not> opath \<and> \<not> bit m 8 then (- 13, k)
          else if lk_fds k 3 \<noteq> None then (- 24, k)
          else (3, k\<lparr>lk_fds := (lk_fds k)(3 \<mapsto> f)\<rparr>))"

definition linux_vfs :: "linux vfs" where
  "linux_vfs = \<lparr>
     v_fgetxattr = (\<lambda>fd sz k. lk_getx (lk_fds k fd) sz k),
     v_getxattr = (\<lambda>f sz k. lk_getx (lk_resolve k f) sz k),
     v_fsetxattr = (\<lambda>fd b k. lk_setx (lk_fds k fd) (Some b) k),
     v_setxattr = (\<lambda>f b k. lk_setx (lk_resolve k f) (Some b) k),
     v_fremovexattr = (\<lambda>fd k. lk_setx (lk_fds k fd) None k),
     v_removexattr = (\<lambda>f k. lk_setx (lk_resolve k f) None k),
     v_fstat = (\<lambda>fd k. case Option.bind (lk_fds k fd) (lk_files k) of None \<Rightarrow> Inl 9 | Some (m, _) \<Rightarrow> Inr m),
     v_open = lk_open,
     v_close = (\<lambda>fd k. k\<lparr>lk_fds := (lk_fds k)(fd := None)\<rparr>)\<rparr>"

interpretation linux_vfs: vfs_abi linux_vfs
  by unfold_locales
    (auto simp: linux_vfs_def lk_setx_def lk_getx_def split: option.splits if_splits)

lemma lk_setx_read: "lk_setx (Some f) (Some b) k = (0, k') \<Longrightarrow> length b \<le> sz \<Longrightarrow> lk_getx (Some f) sz (k'\<lparr>lk_fds := g\<rparr>) = Inr b"
  by (auto simp: lk_setx_def lk_getx_def split: option.splits if_splits)

lemma lk_open_fd: "lk_open f p k = (fd, k1) \<Longrightarrow> 0 \<le> fd \<Longrightarrow> fd = 3 \<and> lk_fds k1 3 = Some f"
  by (auto simp: lk_open_def split: option.splits if_splits prod.splits)

lemma lk_resolve_fdpath: "lk_resolve k (fdpath 3) = lk_fds k 3"
proof -
  have "drop 14 (fdpath 3) = ''3''" "digits_value 10 ''3'' = 3" "take 14 (fdpath 3) = ''/proc/self/fd/''" by code_simp+
  then show ?thesis by (simp add: lk_resolve_def)
qed

lemma lk_path_read:
  assumes "lk_open f p k = (fd, k1)" "0 \<le> fd" "plain_path f" "lk_setx (lk_fds k1 fd) (Some b) k1 = (0, k2)" "length b \<le> sz"
  shows "lk_getx (lk_resolve (k2\<lparr>lk_fds := g\<rparr>) f) sz (k2\<lparr>lk_fds := g\<rparr>) = Inr b"
  using lk_open_fd [OF assms(1,2)] lk_setx_read [of f b k1 k2 sz] assms(3-5) by (simp add: lk_resolve_def plain_path_def)

interpretation linux_paths: path_abi linux_vfs
proof (unfold_locales, goal_cases)
  case (1 f k fd k1 mode b k2 sz)
  then show ?case using lk_path_read [of f False k fd k1 b k2 sz] by (simp add: linux_vfs_def)
next
  case (2 f k fd k1 mode b k2 sz)
  then show ?case using lk_path_read [of f True k fd k1 b k2 sz] lk_open_fd [of f True k fd k1] lk_resolve_fdpath [of k1]
    by (simp add: linux_vfs_def)
next
  case (3 f b k r k')
  then show ?case by (auto simp: linux_vfs_def lk_setx_def split: option.splits if_splits)
qed

section \<open>Properties\<close>

lemma fcaps_save_exec:
  assumes "cap_ready w p c"
  shows "fcaps_save raw p w =
    (case save_locked raw c of None \<Rightarrow> Some (None, w\<lparr>errno := EINVAL\<rparr>) | Some rb \<Rightarrow> Some (Some rb, w))"
proof -
  have "save_locked raw (c\<lparr>c_mutex := m\<rparr>) = save_locked raw c" for m
    by (simp add: save_locked_def)
  then show ?thesis
    using cap_readyD [OF assms] by (simp add: fcaps_save_def libcap_exec put_same split: option.splits)
qed

lemma cap_set_fd_exec:
  assumes "cap_ready w p c" "h_version (c_head c) = LINUX_CAPABILITY_VERSION_3" "length (vdata raw) = 2"
    "v_fstat V fd (kern w) = Inr mode" "S_ISREG mode"
  shows "cap_set_fd V raw fd p w =
     (if eff_legal c then Some (kcall (v_fsetxattr V fd (saved_bytes raw c)) w) else Some (- 1, w\<lparr>errno := EINVAL\<rparr>))"
proof -
  have "\<not> S_ISLNK mode" using assms(5) by (simp add: S_ISLNK_def S_ISREG_def)
  then show ?thesis
    using assms(4,5) cap_readyD(5) [OF assms(1)] fcaps_save_exec [OF assms(1), of raw] save_locked_v3 [OF assms(2,3)]
    by (simp add: cap_set_fd_def saved_bytes_def)
qed

lemma kcall_0:
  assumes "kcall f w = (0, w1)" "\<And>r k. f (kern w) = (r, k) \<Longrightarrow> r \<le> 0"
  shows "f (kern w) = (0, kern w1) \<and> w1 = w\<lparr>kern := kern w1\<rparr>"
  using assms by (auto simp: kcall_def libc_ret_def split: prod.splits if_splits)

lemma ready_kern: "cap_ready w p c \<Longrightarrow> cap_ready (w\<lparr>kern := k\<rparr>) p c" "cap_ready w p c \<Longrightarrow> cap_ready (w\<lparr>errno := e\<rparr>) p c"
  by (simp_all add: cap_ready_def)

context path_abi
begin

text \<open>A successful \<^verbatim>\<open>cap_set_file\<close> of a set wrote the bytes of a legal one, whichever way it took.\<close>

lemma cap_set_file_saved:
  assumes "cap_ready w p c" "h_version (c_head c) = LINUX_CAPABILITY_VERSION_3" "length (vdata raw) = 2" "plain_path f"
    "cap_set_file V raw f p w = Some (0, w1)"
  shows "eff_legal c \<and> v_getxattr V f 24 (kern w1) = Inr (saved_bytes raw c) \<and> (\<exists>e. w1 = w\<lparr>kern := kern w1, errno := e\<rparr>)"
proof -
  note p = cap_readyD [OF assms(1)]
  obtain fd k1 where o1: "v_open V f False (kern w) = (fd, k1)" by fastforce
  let ?b = "saved_bytes raw c"
  have len: "length ?b \<le> 24" using saved_bytes_load(1) [of raw c] saved_bytes_load(2) [of c] by simp
  show ?thesis
  proof (cases "fd \<ge> 0")
    case True
    let ?w = "w\<lparr>kern := k1\<rparr>"
    obtain w' where s: "cap_set_fd V raw fd p ?w = Some (0, w')" "w1 = v_close_w V fd w'"
      using assms(5) o1 True by (auto simp: cap_set_file_def kcall_def libc_ret_def bind_Some_iff)
    then obtain mode where m: "v_fstat V fd k1 = Inr mode" "S_ISREG mode"
      by (auto simp: cap_set_fd_def split: sum.splits if_splits)
    have "eff_legal c" "kcall (v_fsetxattr V fd ?b) ?w = (0, w')"
      using cap_set_fd_exec [OF ready_kern(1) [OF assms(1)] assms(2,3), of V fd k1 mode] m s(1) by (auto split: if_splits)
    with kcall_0 [of "v_fsetxattr V fd ?b" ?w w'] fset_ret [of fd ?b]
    have k: "v_fsetxattr V fd ?b k1 = (0, kern w')" "w' = ?w\<lparr>kern := kern w'\<rparr>" by auto
    have "v_getxattr V f 24 (kern w1) = Inr ?b"
      using open_set [OF o1 True m assms(4) k(1) len] s(2) by (simp add: v_close_w_def)
    moreover have "w1 = w\<lparr>kern := kern w1, errno := errno w\<rparr>" unfolding s(2) v_close_w_def by (subst k(2)) simp
    ultimately show ?thesis using \<open>eff_legal c\<close> by blast
  next
    case False
    let ?v = "w\<lparr>kern := k1, errno := - fd\<rparr>"
    obtain fd2 k2 where o2: "v_open V f True k1 = (fd2, k2)" by fastforce
    let ?w = "?v\<lparr>kern := k2\<rparr>"
    have run: "set_file_path V raw f p ?v = Some (0, w1)"
      using assms(5) o1 False by (simp add: cap_set_file_def kcall_def libc_ret_def)
    then have nn: "fd2 \<ge> 0" using o2 by (auto simp: set_file_path_def kcall_def libc_ret_def split: if_splits)
    obtain mode where m: "v_fstat V fd2 k2 = Inr mode" "S_ISREG mode" "\<not> S_ISLNK mode"
      using run o2 nn by (auto simp: set_file_path_def kcall_def libc_ret_def split: sum.splits if_splits)
    have ready: "cap_ready ?w p c" using assms(1) by (simp add: ready_kern)
    have "eff_legal c \<and> (\<exists>w'. kcall (v_setxattr V (fdpath fd2) ?b) ?w = (0, w') \<and> w1 = v_close_w V fd2 w')"
      using run o2 nn m p(5) fcaps_save_exec [OF ready, of raw] save_locked_v3 [OF assms(2,3)]
      by (auto simp: set_file_path_def kcall_def [of "v_open V f True"] libc_ret_def saved_bytes_def split: if_splits prod.splits)
    then obtain w' where l: "eff_legal c" "kcall (v_setxattr V (fdpath fd2) ?b) ?w = (0, w')" "w1 = v_close_w V fd2 w'" by blast
    from kcall_0 [OF l(2)] set_ret [of "fdpath fd2" ?b]
    have k: "v_setxattr V (fdpath fd2) ?b k2 = (0, kern w')" "w' = ?w\<lparr>kern := kern w'\<rparr>" by auto
    have "v_getxattr V f 24 (kern w1) = Inr ?b"
      using opath_set [OF o2 nn m(1,2) assms(4) k(1) len] l(3) by (simp add: v_close_w_def)
    moreover have "w1 = w\<lparr>kern := kern w1, errno := - fd\<rparr>" unfolding l(3) v_close_w_def by (subst k(2)) simp
    ultimately show ?thesis using l(1) by blast
  qed
qed

end

text \<open>
  C12: file capabilities round trip: when \<^verbatim>\<open>cap_set_fd\<close> succeeds on a regular file,
  \<^verbatim>\<open>cap_get_fd\<close> returns a new set with the same permitted and inheritable flags and
  the same namespace owner, whose effective flag is that of all permitted and inheritable
  capabilities if the original had any effective capability, and empty otherwise.
\<close>

theorem cap_file_roundtrip:
  assumes "vfs_abi V" "capget_abi K" "cap_ready w p c" "h_version (c_head c) = LINUX_CAPABILITY_VERSION_3"
    "length (vdata raw) = 2" "v_fstat V fd (kern w) = Inr mode" "S_ISREG mode" "alloc_ok w"
    "cap_set_fd V raw fd p w = Some (0, w1)"
  shows "\<exists>q d w2. cap_get_fd K V junk fd w1 = Some (q, w2) \<and> cap_ready w2 q d \<and> file_image c d"
proof -
  note p = cap_readyD [OF assms(3)]
  let ?b = "saved_bytes raw c"
  have legal: "eff_legal c" and "kcall (v_fsetxattr V fd ?b) w = (0, w1)"
    using cap_set_fd_exec [OF assms(3-7)] assms(9) by (auto split: if_splits)
  then obtain k' where k': "v_fsetxattr V fd ?b (kern w) = (0, k')" and w1: "w1 = w\<lparr>kern := k'\<rparr>"
    using vfs_abi.fset_ret [OF assms(1), of fd ?b "kern w"]
    by (auto simp: kcall_def libc_ret_def split: prod.splits if_splits)
  obtain d where d: "attr_caps junk ?b = Some d" "file_image c d" using saved_bytes_load(3) by blast
  have "v_fgetxattr V fd 24 (kern w1) = Inr ?b"
    using vfs_abi.fset_fget [OF assms(1) k', of 24] saved_bytes_load(1,2) w1 by simp
  moreover have "wf_world w1" "alloc_ok w1" using p(3) assms(8) w1 by (simp_all add: alloc_ok_def)
  ultimately show ?thesis
    using capget_abi.get_with_exec [OF assms(2), of w1 junk "v_fgetxattr V fd"] d attr_caps_wf [OF d(1)]
    by (auto simp: cap_get_fd_def cap_ready_def wf_new_bumped)
qed

definition file_cap :: cap_struct where
  "file_cap = raise_cap 12 CAP_PERMITTED (raise_cap 12 CAP_EFFECTIVE (zero_cap LINUX_CAPABILITY_VERSION_3))"

definition file_linux :: linux where
  "file_linux = plain_linux\<lparr>lk_eff := {CAP_SETFCAP}, lk_files := [''prog'' \<mapsto> (0x81A4, None), ''pipe'' \<mapsto> (0x11A4, None)],
     lk_fds := [3 \<mapsto> ''prog'']\<rparr>"

definition file_world :: "linux world" where
  "file_world = with_obj (CapSet file_cap) (machine file_linux)"

definition blank_raw :: vfs_ns_cap_data where
  "blank_raw = \<lparr>magic_etc = 0, vdata = [(0, 0), (0, 0)], rootid = 0\<rparr>"

lemma file_cap_props: "wf_cap file_cap" "c_mutex file_cap = 0" "h_version (c_head file_cap) = LINUX_CAPABILITY_VERSION_3"
  "c_rootid file_cap = 0" "x < 64 \<Longrightarrow> s < 3 \<Longrightarrow> isset_cap file_cap x s \<longleftrightarrow> x = 12 \<and> s < 2"
  by (auto simp: file_cap_def)

lemma file_ready: "cap_ready file_world 24 file_cap" "kern file_world = file_linux" "alloc_ok file_world"
  by (simp_all add: cap_ready_def file_world_def wf_with_obj file_cap_props)

lemma file_legal: "eff_legal file_cap" "eff_any file_cap"
  by (auto simp: eff_legal_def eff_any_def file_cap_props intro!: exI [of _ 12])

lemma file_stat: "v_fstat linux_vfs 3 file_linux = Inr 0x81A4" "S_ISREG 0x81A4"
  by (simp_all add: linux_vfs_def file_linux_def S_ISREG_def)

theorem cap_file_roundtrip_witness:
  "\<exists>w1 q d w2. cap_set_fd linux_vfs blank_raw 3 24 file_world = Some (0, w1)
     \<and> cap_get_fd linux_kernel linux_vfs [] 3 w1 = Some (q, w2) \<and> cap_ready w2 q d \<and> file_image file_cap d"
proof -
  have raw: "length (vdata blank_raw) = 2" by (simp add: blank_raw_def)
  have st: "v_fstat linux_vfs 3 (kern file_world) = Inr 0x81A4" using file_stat file_ready by simp
  have "\<exists>w1. kcall (v_fsetxattr linux_vfs 3 b) file_world = (0, w1)" for b
    by (simp add: kcall_def libc_ret_def file_ready linux_vfs_def lk_setx_def file_linux_def)
  then obtain w1 where "cap_set_fd linux_vfs blank_raw 3 24 file_world = Some (0, w1)"
    using cap_set_fd_exec [OF file_ready(1) file_cap_props(3) raw st file_stat(2)] file_legal(1) by metis
  with cap_file_roundtrip [OF linux_vfs.vfs_abi_axioms linux.capget_abi_axioms file_ready(1) file_cap_props(3) raw st
      file_stat(2) file_ready(3)] show ?thesis by metis
qed

text \<open>
  A set whose effective flag is neither empty nor covers all its permitted and inheritable
  capabilities has no file representation: \<^verbatim>\<open>cap_set_fd\<close> refuses it with
  \<^verbatim>\<open>EINVAL\<close>, without a file system call that changes anything, and releases the mutex.
  A representable set is written as 20 bytes, or 24 when it has a namespace owner.
\<close>

theorem cap_set_fd_effective:
  assumes "cap_ready w p c" "h_version (c_head c) = LINUX_CAPABILITY_VERSION_3" "length (vdata raw) = 2"
    "v_fstat V fd (kern w) = Inr mode" "S_ISREG mode"
  shows "(\<not> eff_legal c \<longrightarrow> cap_set_fd V raw fd p w = Some (- 1, w\<lparr>errno := EINVAL\<rparr>))
     \<and> (eff_legal c \<longrightarrow> (\<exists>b. length b = (if c_rootid c \<noteq> 0 then 24 else 20)
          \<and> cap_set_fd V raw fd p w = Some (kcall (v_fsetxattr V fd b) w)))"
  using cap_set_fd_exec [OF assms] saved_bytes_load(1) [of raw c] by (auto simp: saved_size_def)

theorem cap_set_fd_effective_witness:
  "\<exists>b. length b = 20 \<and> cap_set_fd linux_vfs blank_raw 3 24 file_world = Some (kcall (v_fsetxattr linux_vfs 3 b) file_world)"
proof -
  have raw: "length (vdata blank_raw) = 2" by (simp add: blank_raw_def)
  have st: "v_fstat linux_vfs 3 (kern file_world) = Inr 0x81A4" using file_stat file_ready by simp
  from cap_set_fd_effective [OF file_ready(1) file_cap_props(3) raw st file_stat(2)] file_legal(1) file_cap_props(4)
  show ?thesis by simp
qed

text \<open>
  C13: \<^verbatim>\<open>cap_get_fd\<close> accepts or rejects any attribute: it returns an unlocked,
  well-formed set, or NULL with the set it had allocated released again; no other object changes.
\<close>

theorem cap_get_fd_total:
  assumes "capget_abi K" "wf_world w" "alloc_ok w"
  shows "(\<exists>w' d. cap_get_fd K V junk fd w = Some (next_ptr w, w') \<and> cap_ready w' (next_ptr w) d
            \<and> (\<forall>q. q \<noteq> next_ptr w \<longrightarrow> obj_at w' q = obj_at w q))
     \<or> (\<exists>w'. cap_get_fd K V junk fd w = Some (NULL, w') \<and> heap w' = heap w)"
  using capget_abi.get_with_exec [OF assms, of junk "v_fgetxattr V fd"] attr_caps_wf assms(2)
  by (fastforce simp: cap_get_fd_def cap_ready_def wf_new_bumped split: sum.splits option.splits)

theorem cap_get_fd_total_witness:
  "\<exists>w'. cap_get_fd linux_kernel linux_vfs [] 3 file_world = Some (NULL, w') \<and> heap w' = heap file_world"
proof -
  have w: "wf_world file_world" "next_ptr file_world \<noteq> NULL" using cap_readyD(3) [OF file_ready(1)] by simp_all
  have "fst (the (cap_get_fd linux_kernel linux_vfs [] 3 file_world)) = NULL"
    using linux.cap_init_ok [OF file_ready(3)]
    by (simp add: cap_get_fd_def get_with_def file_ready linux_vfs_def lk_getx_def file_linux_def cap_free_set)
  with cap_get_fd_total [OF linux.capget_abi_axioms w(1) file_ready(3), of linux_vfs "[]" 3] w(2) show ?thesis by force
qed

text \<open>
  C14: \<^verbatim>\<open>cap_set_file\<close> touches regular files only: whichever of its two ways of opening
  the file succeeds, a descriptor of anything else makes it return \<open>-1\<close> with
  \<^verbatim>\<open>EINVAL\<close>, with the descriptor closed and no attribute call made.
\<close>

theorem cap_set_file_regular_only:
  assumes "v_open V f False (kern w) = (r1, k1)"
    and "if r1 \<ge> 0 then k2 = k1 \<and> fd = r1 else v_open V f True k1 = (fd, k2) \<and> fd \<ge> 0"
    and "v_fstat V fd k2 = Inr mode" "\<not> S_ISREG mode"
  shows "cap_set_file V raw f p w = Some (- 1, w\<lparr>kern := v_close V fd k2, errno := EINVAL\<rparr>)"
  using assms
  by (cases "r1 \<ge> 0")
    (simp_all add: cap_set_file_def cap_set_fd_def set_file_path_def kcall_def libc_ret_def v_close_w_def)

theorem cap_set_file_regular_only_witness:
  "\<exists>k. cap_set_file linux_vfs blank_raw ''pipe'' 24 (file_world\<lparr>kern := file_linux\<lparr>lk_fds := Map.empty\<rparr>\<rparr>) =
     Some (- 1, file_world\<lparr>kern := k, errno := EINVAL\<rparr>)"
proof -
  let ?k = "file_linux\<lparr>lk_fds := Map.empty\<rparr>"
  let ?w = "file_world\<lparr>kern := ?k\<rparr>"
  have o: "v_open linux_vfs ''pipe'' False (kern ?w) = (3, ?k\<lparr>lk_fds := [3 \<mapsto> ''pipe'']\<rparr>)"
    by (simp add: linux_vfs_def lk_open_def file_linux_def S_ISLNK_def bit_iff_odd)
  have s: "v_fstat linux_vfs 3 (?k\<lparr>lk_fds := [3 \<mapsto> ''pipe'']\<rparr>) = Inr 0x11A4" "\<not> S_ISREG 0x11A4"
    by (simp_all add: linux_vfs_def file_linux_def S_ISREG_def)
  from cap_set_file_regular_only [OF o _ s, of blank_raw 24] show ?thesis by auto
qed

end
