(* ===== verification/Cap_Proc.thy ===== *)
theory Cap_Proc
  imports Cap_Flag
begin

text \<open>
  \<^verbatim>\<open>libcap/cap_proc.c\<close> up to the launcher, \<^verbatim>\<open>libcap/cap_syscalls.c\<close> and the
  start-up code of \<^verbatim>\<open>libcap/cap_alloc.c\<close>: reading and changing the capability state of
  the calling process.

  \<^item> Every operation that changes kernel state takes the syscaller it uses, as the static
    functions of the source do; the public functions pass \<open>multithread\<close>.
  \<^item> A C library wrapper (\<^verbatim>\<open>prctl\<close>, \<^verbatim>\<open>capset\<close>, \<^verbatim>\<open>setuid\<close>) is the
    raw kernel call with the \<open>libc_syscall\<close> return convention.
  \<^item> The loops over "all capabilities the kernel knows" end when the kernel refuses one; a kernel
    that never does would make them run for ever, so they are partial functions, and their
    termination is proved from the contract of the kernel.
\<close>

section \<open>Constants\<close>

abbreviation (input) PR_GET_KEEPCAPS :: int where "PR_GET_KEEPCAPS \<equiv> 7"
abbreviation (input) PR_SET_KEEPCAPS :: int where "PR_SET_KEEPCAPS \<equiv> 8"
abbreviation (input) PR_SET_NAME :: int where "PR_SET_NAME \<equiv> 15"
abbreviation (input) PR_CAPBSET_READ :: int where "PR_CAPBSET_READ \<equiv> 23"
abbreviation (input) PR_CAPBSET_DROP :: int where "PR_CAPBSET_DROP \<equiv> 24"
abbreviation (input) PR_GET_SECUREBITS :: int where "PR_GET_SECUREBITS \<equiv> 27"
abbreviation (input) PR_SET_SECUREBITS :: int where "PR_SET_SECUREBITS \<equiv> 28"
abbreviation (input) PR_SET_NO_NEW_PRIVS :: int where "PR_SET_NO_NEW_PRIVS \<equiv> 38"
abbreviation (input) PR_CAP_AMBIENT :: int where "PR_CAP_AMBIENT \<equiv> 47"
abbreviation (input) PR_CAP_AMBIENT_IS_SET :: int where "PR_CAP_AMBIENT_IS_SET \<equiv> 1"
abbreviation (input) PR_CAP_AMBIENT_RAISE :: int where "PR_CAP_AMBIENT_RAISE \<equiv> 2"
abbreviation (input) PR_CAP_AMBIENT_LOWER :: int where "PR_CAP_AMBIENT_LOWER \<equiv> 3"
abbreviation (input) PR_CAP_AMBIENT_CLEAR_ALL :: int where "PR_CAP_AMBIENT_CLEAR_ALL \<equiv> 4"

abbreviation (input) CAP_MODE_UNCERTAIN :: nat where "CAP_MODE_UNCERTAIN \<equiv> 0"
abbreviation (input) CAP_MODE_NOPRIV :: nat where "CAP_MODE_NOPRIV \<equiv> 1"
abbreviation (input) CAP_MODE_PURE1E_INIT :: nat where "CAP_MODE_PURE1E_INIT \<equiv> 2"
abbreviation (input) CAP_MODE_PURE1E :: nat where "CAP_MODE_PURE1E \<equiv> 3"
abbreviation (input) CAP_MODE_HYBRID :: nat where "CAP_MODE_HYBRID \<equiv> 4"

definition SECBIT :: "nat \<Rightarrow> u32" where
  "SECBIT n = push_bit n 1"

text \<open>
  \<^verbatim>\<open>SECBIT_NOROOT\<close> is bit 0, \<^verbatim>\<open>SECBIT_NO_SETUID_FIXUP\<close> bit 2,
  \<^verbatim>\<open>SECBIT_KEEP_CAPS\<close> bit 4, \<^verbatim>\<open>SECBIT_NO_CAP_AMBIENT_RAISE\<close> bit 6; the lock
  of each is the next bit.
\<close>

definition CAP_SECURED_BITS_BASIC :: u32 where
  "CAP_SECURED_BITS_BASIC = SECBIT 0 OR SECBIT 1 OR SECBIT 2 OR SECBIT 3 OR SECBIT 5"

definition CAP_SECURED_BITS_AMBIENT :: u32 where
  "CAP_SECURED_BITS_AMBIENT = CAP_SECURED_BITS_BASIC OR SECBIT 6 OR SECBIT 7"

section \<open>System calls\<close>

definition libc :: "'k kernel \<Rightarrow> syscall \<Rightarrow> 'k world \<Rightarrow> int \<times> 'k world" where
  "libc K sc w = run_sysfn (libc_syscall K) sc w"

definition prctl :: "'k kernel \<Rightarrow> int \<Rightarrow> int \<Rightarrow> int \<Rightarrow> int \<Rightarrow> int \<Rightarrow> int \<Rightarrow> 'k world \<Rightarrow> int \<times> 'k world" where
  "prctl K cmd a1 a2 a3 a4 a5 w = libc K (SysPrctl cmd a1 a2 a3 a4 a5) w"

text \<open>The cast to \<^verbatim>\<open>unsigned long\<close>.\<close>

definition pr_arg :: "int \<Rightarrow> int" where
  "pr_arg x = x mod 2 ^ 64"

text \<open>
  \<^verbatim>\<open>psx_load_syscalls\<close>: the weak definition of \<^verbatim>\<open>cap_syscalls.c\<close> when the program
  is not linked with libpsx, else the one of \<^verbatim>\<open>psx.c\<close>, which installs its two functions.
\<close>

datatype 'k psx_link = No_psx | Psx "'k sysfn" "'k sysfn"

definition psx_load_syscalls :: "'k psx_link \<Rightarrow> 'k world \<Rightarrow> 'k world" where
  "psx_load_syscalls link w =
     (case link of
        No_psx \<Rightarrow> w\<lparr>overrode_syscalls := False\<rparr>
      | Psx f3 f6 \<Rightarrow> w\<lparr>multithread := \<lparr>three = f3, six = f6\<rparr>\<rparr>)"

definition cap_set_syscall :: "'k psx_link \<Rightarrow> ('k sysfn \<times> 'k sysfn) option \<Rightarrow> 'k world \<Rightarrow> 'k world" where
  "cap_set_syscall link new w =
     (case new of
        None \<Rightarrow> psx_load_syscalls link w
      | Some (new_syscall, new_syscall6) \<Rightarrow> w\<lparr>multithread := \<lparr>three = new_syscall, six = new_syscall6\<rparr>\<rparr>)"

definition libcap_capset :: "'k kernel \<Rightarrow> 'k syscaller \<Rightarrow> cap_header \<Rightarrow> cap_data list \<Rightarrow> 'k world \<Rightarrow> int \<times> 'k world" where
  "libcap_capset K sc header data w =
     (if overrode_syscalls w then run_sysfn (three sc) (SysCapset header data) w
      else libc K (SysCapset header data) w)"

text \<open>A negative result becomes \<open>-1\<close>, its negation \<^verbatim>\<open>errno\<close>.\<close>

definition neg_errno :: "int \<times> 'k world \<Rightarrow> int \<times> 'k world" where
  "neg_errno rw = (case rw of (result, w) \<Rightarrow>
     if result \<ge> 0 then (result, w) else (- 1, w\<lparr>errno := - result\<rparr>))"

definition libcap_wprctl3 :: "'k kernel \<Rightarrow> 'k syscaller \<Rightarrow> int \<Rightarrow> int \<Rightarrow> int \<Rightarrow> 'k world \<Rightarrow> int \<times> 'k world" where
  "libcap_wprctl3 K sc pr_cmd arg1 arg2 w =
     (if overrode_syscalls w
      then neg_errno (run_sysfn (three sc) (SysPrctl pr_cmd arg1 arg2 0 0 0) w)
      else prctl K pr_cmd arg1 arg2 0 0 0 w)"

definition libcap_wprctl6 ::
  "'k kernel \<Rightarrow> 'k syscaller \<Rightarrow> int \<Rightarrow> int \<Rightarrow> int \<Rightarrow> int \<Rightarrow> int \<Rightarrow> int \<Rightarrow> 'k world \<Rightarrow> int \<times> 'k world" where
  "libcap_wprctl6 K sc pr_cmd arg1 arg2 arg3 arg4 arg5 w =
     (if overrode_syscalls w
      then neg_errno (run_sysfn (six sc) (SysPrctl pr_cmd arg1 arg2 arg3 arg4 arg5) w)
      else prctl K pr_cmd arg1 arg2 arg3 arg4 arg5 w)"

section \<open>Capability sets of a process\<close>

definition cap_get_proc :: "'k kernel \<Rightarrow> 'k world \<Rightarrow> (addr \<times> 'k world) option" where
  "cap_get_proc K w = do {
     (result, w) \<leftarrow> cap_init K w;
     if result \<noteq> NULL then do {
       c \<leftarrow> get_cap result w;
       (r, c, w) \<leftarrow> Some (capget K True c w);
       w \<leftarrow> Some (put_obj result (CapSet c) w);
       if r \<noteq> 0 then do {
         (_, w) \<leftarrow> cap_free result w;
         Some (NULL, w) }
       else Some (result, w) }
     else Some (result, w) }"

definition cap_set_proc_sc :: "'k kernel \<Rightarrow> 'k syscaller \<Rightarrow> addr \<Rightarrow> 'k world \<Rightarrow> (int \<times> 'k world) option" where
  "cap_set_proc_sc K sc cap_d w = do {
     good \<leftarrow> good_cap_t cap_d w;
     if \<not> good then Some (- 1, w\<lparr>errno := EINVAL\<rparr>)
     else do {
       w \<leftarrow> cap_mu_lock cap_d w;
       c \<leftarrow> get_cap cap_d w;
       (retval, w) \<leftarrow> Some (libcap_capset K sc (c_head c) (map data_of_flat (c_u c)) w);
       w \<leftarrow> cap_mu_unlock cap_d w;
       Some (retval, w) } }"

definition cap_set_proc :: "'k kernel \<Rightarrow> addr \<Rightarrow> 'k world \<Rightarrow> (int \<times> 'k world) option" where
  "cap_set_proc K cap_d w = cap_set_proc_sc K (multithread w) cap_d w"

definition capgetp :: "'k kernel \<Rightarrow> int \<Rightarrow> addr \<Rightarrow> 'k world \<Rightarrow> (int \<times> 'k world) option" where
  "capgetp K pid cap_d w = do {
     good \<leftarrow> good_cap_t cap_d w;
     if \<not> good then Some (- 1, w\<lparr>errno := EINVAL\<rparr>)
     else do {
       w \<leftarrow> cap_mu_lock cap_d w;
       c \<leftarrow> get_cap cap_d w;
       (error, c, w) \<leftarrow> Some (capget K True (c\<lparr>c_head := (c_head c)\<lparr>h_pid := pid\<rparr>\<rparr>) w);
       w \<leftarrow> Some (put_obj cap_d (CapSet (c\<lparr>c_head := (c_head c)\<lparr>h_pid := 0\<rparr>\<rparr>)) w);
       w \<leftarrow> cap_mu_unlock cap_d w;
       Some (error, w) } }"

definition cap_get_pid :: "'k kernel \<Rightarrow> int \<Rightarrow> 'k world \<Rightarrow> (addr \<times> 'k world) option" where
  "cap_get_pid K pid w = do {
     (result, w) \<leftarrow> cap_init K w;
     if result \<noteq> NULL then do {
       (error, w) \<leftarrow> capgetp K pid result w;
       if error \<noteq> 0 then do {
         my_errno \<leftarrow> Some (errno w);
         (_, w) \<leftarrow> cap_free result w;
         Some (NULL, w\<lparr>errno := my_errno\<rparr>) }
       else Some (result, w) }
     else Some (result, w) }"

definition capsetp :: "'k kernel \<Rightarrow> int \<Rightarrow> addr \<Rightarrow> 'k world \<Rightarrow> (int \<times> 'k world) option" where
  "capsetp K pid cap_d w = do {
     good \<leftarrow> good_cap_t cap_d w;
     if \<not> good then Some (- 1, w\<lparr>errno := EINVAL\<rparr>)
     else do {
       w \<leftarrow> cap_mu_lock cap_d w;
       c \<leftarrow> get_cap cap_d w;
       (error, w) \<leftarrow> Some (libc K (SysCapset ((c_head c)\<lparr>h_pid := pid\<rparr>) (map data_of_flat (c_u c))) w);
       w \<leftarrow> Some (put_obj cap_d (CapSet (c\<lparr>c_head := \<lparr>h_version = LINUX_CAPABILITY_VERSION_3, h_pid = 0\<rparr>\<rparr>)) w);
       w \<leftarrow> cap_mu_unlock cap_d w;
       Some (error, w) } }"

section \<open>Bounding set, ambient set, securebits\<close>

definition cap_get_bound :: "'k kernel \<Rightarrow> int \<Rightarrow> 'k world \<Rightarrow> int \<times> 'k world" where
  "cap_get_bound K cap w = prctl K PR_CAPBSET_READ (pr_arg cap) (pr_arg 0) 0 0 0 w"

definition cap_drop_bound_sc :: "'k kernel \<Rightarrow> 'k syscaller \<Rightarrow> int \<Rightarrow> 'k world \<Rightarrow> int \<times> 'k world" where
  "cap_drop_bound_sc K sc cap w = libcap_wprctl3 K sc PR_CAPBSET_DROP (pr_arg cap) (pr_arg 0) w"

definition cap_drop_bound :: "'k kernel \<Rightarrow> int \<Rightarrow> 'k world \<Rightarrow> int \<times> 'k world" where
  "cap_drop_bound K cap w = cap_drop_bound_sc K (multithread w) cap w"

definition cap_get_ambient :: "'k kernel \<Rightarrow> int \<Rightarrow> 'k world \<Rightarrow> int \<times> 'k world" where
  "cap_get_ambient K cap w =
     (let (result, w) = prctl K PR_CAP_AMBIENT (pr_arg PR_CAP_AMBIENT_IS_SET) (pr_arg cap) (pr_arg 0) (pr_arg 0) 0 w in
      if result < 0 then (- 1, w\<lparr>errno := - result\<rparr>) else (result, w))"

definition cap_set_ambient_sc :: "'k kernel \<Rightarrow> 'k syscaller \<Rightarrow> int \<Rightarrow> int \<Rightarrow> 'k world \<Rightarrow> int \<times> 'k world" where
  "cap_set_ambient_sc K sc cap raised w =
     (if raised \<noteq> CAP_SET \<and> raised \<noteq> CAP_CLEAR then (- 1, w\<lparr>errno := EINVAL\<rparr>)
      else
        (let val = (if raised = CAP_SET then PR_CAP_AMBIENT_RAISE else PR_CAP_AMBIENT_LOWER) in
         libcap_wprctl6 K sc PR_CAP_AMBIENT (pr_arg val) (pr_arg cap) (pr_arg 0) (pr_arg 0) (pr_arg 0) w))"

definition cap_set_ambient :: "'k kernel \<Rightarrow> int \<Rightarrow> int \<Rightarrow> 'k world \<Rightarrow> int \<times> 'k world" where
  "cap_set_ambient K cap raised w = cap_set_ambient_sc K (multithread w) cap raised w"

text \<open>
  The loop of \<^verbatim>\<open>_cap_reset_ambient\<close> from capability \<open>c\<close> on: whether it was left
  because the kernel refused a capability (every known one is clear), and the world.
\<close>

partial_function (option) ambient_scan :: "'k kernel \<Rightarrow> int \<Rightarrow> 'k world \<Rightarrow> (bool \<times> 'k world) option" where
  "ambient_scan K c w =
     (let (result, w) = cap_get_ambient K c w in
      if result = - 1 then Some (True, w)
      else if result = 0 then ambient_scan K (c + 1) w
      else Some (False, w))"

definition cap_reset_ambient_sc :: "'k kernel \<Rightarrow> 'k syscaller \<Rightarrow> 'k world \<Rightarrow> (int \<times> 'k world) option" where
  "cap_reset_ambient_sc K sc w = do {
     olderrno \<leftarrow> Some (errno w);
     (refused, w) \<leftarrow> ambient_scan K 0 w;
     if refused then Some (0, w\<lparr>errno := olderrno\<rparr>)
     else Some (libcap_wprctl6 K sc PR_CAP_AMBIENT (pr_arg PR_CAP_AMBIENT_CLEAR_ALL)
                  (pr_arg 0) (pr_arg 0) (pr_arg 0) (pr_arg 0) w) }"

definition cap_reset_ambient :: "'k kernel \<Rightarrow> 'k world \<Rightarrow> (int \<times> 'k world) option" where
  "cap_reset_ambient K w = cap_reset_ambient_sc K (multithread w) w"

definition cap_get_secbits :: "'k kernel \<Rightarrow> 'k world \<Rightarrow> u32 \<times> 'k world" where
  "cap_get_secbits K w =
     (let (r, w) = prctl K PR_GET_SECUREBITS (pr_arg 0) (pr_arg 0) 0 0 0 w in (word_of_int r, w))"

definition cap_set_secbits_sc :: "'k kernel \<Rightarrow> 'k syscaller \<Rightarrow> u32 \<Rightarrow> 'k world \<Rightarrow> int \<times> 'k world" where
  "cap_set_secbits_sc K sc bits w = libcap_wprctl3 K sc PR_SET_SECUREBITS (uint bits) 0 w"

definition cap_set_secbits :: "'k kernel \<Rightarrow> u32 \<Rightarrow> 'k world \<Rightarrow> int \<times> 'k world" where
  "cap_set_secbits K bits w = cap_set_secbits_sc K (multithread w) bits w"

definition cap_set_no_new_privs_sc :: "'k kernel \<Rightarrow> 'k syscaller \<Rightarrow> 'k world \<Rightarrow> 'k world" where
  "cap_set_no_new_privs_sc K sc w = snd (libcap_wprctl6 K sc PR_SET_NO_NEW_PRIVS 1 0 0 0 0 w)"

definition cap_prctl :: "'k kernel \<Rightarrow> int \<Rightarrow> int \<Rightarrow> int \<Rightarrow> int \<Rightarrow> int \<Rightarrow> int \<Rightarrow> 'k world \<Rightarrow> int \<times> 'k world" where
  "cap_prctl K pr_cmd arg1 arg2 arg3 arg4 arg5 w = prctl K pr_cmd arg1 arg2 arg3 arg4 arg5 w"

definition cap_prctlw :: "'k kernel \<Rightarrow> int \<Rightarrow> int \<Rightarrow> int \<Rightarrow> int \<Rightarrow> int \<Rightarrow> int \<Rightarrow> 'k world \<Rightarrow> int \<times> 'k world" where
  "cap_prctlw K pr_cmd arg1 arg2 arg3 arg4 arg5 w =
     libcap_wprctl6 K (multithread w) pr_cmd arg1 arg2 arg3 arg4 arg5 w"

section \<open>Start-up\<close>

text \<open>
  \<^verbatim>\<open>_libcap_initialize\<close>: the constructor that measures how many capabilities the running
  kernel has; \<open>bits\<close> is the generated constant \<^verbatim>\<open>__CAP_BITS\<close>.
\<close>

definition libcap_initialize :: "'k kernel \<Rightarrow> 'k psx_link \<Rightarrow> int \<Rightarrow> 'k world \<Rightarrow> 'k world option" where
  "libcap_initialize K link bits w =
     (let errno_saved = errno w in
      if libcap_mutex w \<noteq> 0 then None
      else
        (let w = w\<lparr>libcap_mutex := 1\<rparr>;
             w = (if max_bits w = 0 then
                    (let w = cap_set_syscall link None w;
                         (m, w) = binary_search (cap_get_bound K) 0 (int CAP_MAXBITS) bits w
                     in w\<lparr>max_bits := m\<rparr>)
                  else w)
         in Some (w\<lparr>libcap_mutex := 0, errno := errno_saved\<rparr>)))"

definition cap_max_bits :: "'k world \<Rightarrow> int" where
  "cap_max_bits w = max_bits w"

section \<open>Modes\<close>

definition CAP_AMBIENT_SUPPORTED :: "'k kernel \<Rightarrow> 'k world \<Rightarrow> bool \<times> 'k world" where
  "CAP_AMBIENT_SUPPORTED K w = (let (r, w) = cap_get_ambient K 0 w in (r \<ge> 0, w))"

definition cap_mode_name :: "nat \<Rightarrow> string" where
  "cap_mode_name flavor =
     (if flavor = CAP_MODE_NOPRIV then ''NOPRIV''
      else if flavor = CAP_MODE_PURE1E_INIT then ''PURE1E_INIT''
      else if flavor = CAP_MODE_PURE1E then ''PURE1E''
      else if flavor = CAP_MODE_UNCERTAIN then ''UNCERTAIN''
      else if flavor = CAP_MODE_HYBRID then ''HYBRID''
      else ''UNKNOWN'')"

text \<open>The loop of \<^verbatim>\<open>CAP_MODE_NOPRIV\<close> that drops every bounding capability.\<close>

partial_function (option) drop_all_bounds ::
  "'k kernel \<Rightarrow> 'k syscaller \<Rightarrow> int \<Rightarrow> 'k world \<Rightarrow> 'k world option" where
  "drop_all_bounds K sc c w =
     (let (r, w) = cap_get_bound K c w in
      if r \<ge> 0 then (let (_, w) = cap_drop_bound_sc K sc c w in drop_all_bounds K sc (c + 1) w)
      else Some w)"

text \<open>The body shared by the three locked-down modes, after their fall-through.\<close>

definition lock_down ::
  "'k kernel \<Rightarrow> 'k syscaller \<Rightarrow> nat \<Rightarrow> addr \<Rightarrow> 'k world \<Rightarrow> (int \<times> 'k world) option" where
  "lock_down K sc flavor working w = do {
     (ret, secbits, w) \<leftarrow>
       (let (supported, w) = CAP_AMBIENT_SUPPORTED K w in
        if \<not> supported then Some (0, CAP_SECURED_BITS_BASIC, w)
        else do {
          (ret, w) \<leftarrow> cap_reset_ambient_sc K sc w;
          Some (ret, CAP_SECURED_BITS_AMBIENT, w) });
     if ret \<noteq> 0 then Some (ret, w)
     else do {
       (ret, w) \<leftarrow> Some (cap_set_secbits_sc K sc secbits w);
       if flavor \<noteq> CAP_MODE_NOPRIV then Some (ret, w)
       else do {
         w \<leftarrow> drop_all_bounds K sc 0 w;
         (_, w) \<leftarrow> cap_clear_flag working (int CAP_PERMITTED) w;
         Some (ret, cap_set_no_new_privs_sc K sc w) } } }"

definition set_mode_flavor ::
  "'k kernel \<Rightarrow> 'k syscaller \<Rightarrow> nat \<Rightarrow> addr \<Rightarrow> 'k world \<Rightarrow> (int \<times> 'k world) option" where
  "set_mode_flavor K sc flavor working w =
     (if flavor = CAP_MODE_NOPRIV \<or> flavor = CAP_MODE_PURE1E_INIT then do {
        (_, w) \<leftarrow> cap_clear_flag working (int CAP_INHERITABLE) w;
        lock_down K sc flavor working w }
      else if flavor = CAP_MODE_PURE1E then lock_down K sc flavor working w
      else if flavor = CAP_MODE_HYBRID then Some (cap_set_secbits_sc K sc 0 w)
      else Some (- 1, w\<lparr>errno := EINVAL\<rparr>))"

text \<open>
  The operands of \<^verbatim>\<open>|\<close> are evaluated from left to right, as the compilers the library is
  built with do; C leaves the order open.
\<close>

definition cap_set_mode_sc :: "'k kernel \<Rightarrow> 'k syscaller \<Rightarrow> nat \<Rightarrow> 'k world \<Rightarrow> (int \<times> 'k world) option" where
  "cap_set_mode_sc K sc flavor w = do {
     (working, w) \<leftarrow> cap_get_proc K w;
     if working = NULL then Some (- 1, w)
     else do {
       (r1, w) \<leftarrow> cap_set_flag working (int CAP_EFFECTIVE) 1 [int CAP_SETPCAP] CAP_SET w;
       (r2, w) \<leftarrow> cap_set_proc_sc K sc working w;
       (ret, w) \<leftarrow> (if r1 OR r2 = 0 then set_mode_flavor K sc flavor working w else Some (r1 OR r2, w));
       (_, w) \<leftarrow> cap_clear_flag working (int CAP_EFFECTIVE) w;
       (r3, w) \<leftarrow> cap_set_proc_sc K sc working w;
       (_, w) \<leftarrow> cap_free working w;
       Some (r3 OR ret, w) } }"

definition cap_set_mode :: "'k kernel \<Rightarrow> nat \<Rightarrow> 'k world \<Rightarrow> (int \<times> 'k world) option" where
  "cap_set_mode K flavor w = cap_set_mode_sc K (multithread w) flavor w"

text \<open>
  The ambient check of \<^verbatim>\<open>cap_get_mode\<close>: whether the process can still be in a locked-down
  mode.
\<close>

partial_function (option) get_mode_ambient ::
  "'k kernel \<Rightarrow> u32 \<Rightarrow> int \<Rightarrow> int \<Rightarrow> 'k world \<Rightarrow> (bool \<times> 'k world) option" where
  "get_mode_ambient K secbits olderrno c w =
     (let (ret, w) = cap_get_ambient K c w in
      if ret = - 1 then
        Some (\<not> (c \<noteq> 0 \<and> secbits \<noteq> CAP_SECURED_BITS_AMBIENT), w\<lparr>errno := olderrno\<rparr>)
      else if ret \<noteq> 0 then Some (False, w)
      else get_mode_ambient K secbits olderrno (c + 1) w)"

partial_function (option) get_mode_bound :: "'k kernel \<Rightarrow> int \<Rightarrow> 'k world \<Rightarrow> (nat \<times> 'k world) option" where
  "get_mode_bound K c w =
     (let (v, w) = cap_get_bound K c w in
      if v = - 1 then Some (CAP_MODE_NOPRIV, w)
      else if v \<noteq> 0 then Some (CAP_MODE_PURE1E_INIT, w)
      else get_mode_bound K (c + 1) w)"

definition cap_get_mode :: "'k kernel \<Rightarrow> 'k world \<Rightarrow> (nat \<times> 'k world) option" where
  "cap_get_mode K w =
     (let (secbits, w) = cap_get_secbits K w in
      if secbits = 0 then Some (CAP_MODE_HYBRID, w)
      else if secbits AND CAP_SECURED_BITS_BASIC \<noteq> CAP_SECURED_BITS_BASIC then Some (CAP_MODE_UNCERTAIN, w)
      else do {
        (ok, w) \<leftarrow> get_mode_ambient K secbits (errno w) 0 w;
        if \<not> ok then Some (CAP_MODE_UNCERTAIN, w)
        else do {
          (working, w) \<leftarrow> cap_get_proc K w;
          (empty, w) \<leftarrow> cap_init K w;
          (ret, cf, w) \<leftarrow>
            (if working = NULL \<or> empty = NULL then Some (- 1, 0, w)
             else do {
               (cf, w) \<leftarrow> cap_compare K empty working w;
               Some (0 :: int, cf, w) });
          (_, w) \<leftarrow> cap_free empty w;
          (_, w) \<leftarrow> cap_free working w;
          if ret \<noteq> 0 then Some (CAP_MODE_UNCERTAIN, w)
          else if CAP_DIFFERS cf CAP_INHERITABLE then Some (CAP_MODE_PURE1E, w)
          else if CAP_DIFFERS cf CAP_PERMITTED \<or> CAP_DIFFERS cf CAP_EFFECTIVE then Some (CAP_MODE_PURE1E_INIT, w)
          else get_mode_bound K 0 w } })"

section \<open>User and group identities\<close>

definition cap_setuid_sc :: "'k kernel \<Rightarrow> 'k syscaller \<Rightarrow> u32 \<Rightarrow> 'k world \<Rightarrow> (int \<times> 'k world) option" where
  "cap_setuid_sc K sc uid w = do {
     (working, w) \<leftarrow> cap_get_proc K w;
     if working = NULL then Some (- 1, w)
     else do {
       (_, w) \<leftarrow> cap_set_flag working (int CAP_EFFECTIVE) 1 [int CAP_SETUID] CAP_SET w;
       (_, w) \<leftarrow> Some (libcap_wprctl3 K sc PR_SET_KEEPCAPS 1 0 w);
       (ret, w) \<leftarrow> cap_set_proc_sc K sc working w;
       (ret, w) \<leftarrow> Some (if ret = 0 then
                          (if overrode_syscalls w then neg_errno (run_sysfn (three sc) (SysSetuid uid) w)
                           else libc K (SysSetuid uid) w)
                        else (ret, w));
       olderrno \<leftarrow> Some (errno w);
       (_, w) \<leftarrow> Some (libcap_wprctl3 K sc PR_SET_KEEPCAPS 0 0 w);
       (_, w) \<leftarrow> cap_clear_flag working (int CAP_EFFECTIVE) w;
       (_, w) \<leftarrow> cap_set_proc_sc K sc working w;
       (_, w) \<leftarrow> cap_free working w;
       Some (ret, w\<lparr>errno := olderrno\<rparr>) } }"

definition cap_setuid :: "'k kernel \<Rightarrow> u32 \<Rightarrow> 'k world \<Rightarrow> (int \<times> 'k world) option" where
  "cap_setuid K uid w = cap_setuid_sc K (multithread w) uid w"

text \<open>The two identity calls of \<^verbatim>\<open>_cap_setgroups\<close>, once its capability is raised.\<close>

definition change_groups ::
  "'k kernel \<Rightarrow> 'k syscaller \<Rightarrow> u32 \<Rightarrow> int \<Rightarrow> u32 list option \<Rightarrow> int \<Rightarrow> 'k world \<Rightarrow> int \<times> 'k world" where
  "change_groups K sc gid ngroups groups ret w =
     (if overrode_syscalls w then
        (let (ret, w) = (if ret = 0 then run_sysfn (three sc) (SysSetgid gid) w else (ret, w));
             (ret, w) = (if ret = 0 then run_sysfn (three sc) (SysSetgroups ngroups groups) w else (ret, w))
         in if ret < 0 then (- 1, w\<lparr>errno := - ret\<rparr>) else (ret, w))
      else
        (let (ret, w) = (if ret = 0 then libc K (SysSetgid gid) w else (ret, w))
         in if ret = 0 then libc K (SysSetgroups ngroups groups) w else (ret, w)))"

definition cap_setgroups_sc ::
  "'k kernel \<Rightarrow> 'k syscaller \<Rightarrow> u32 \<Rightarrow> int \<Rightarrow> u32 list option \<Rightarrow> 'k world \<Rightarrow> (int \<times> 'k world) option" where
  "cap_setgroups_sc K sc gid ngroups groups w = do {
     (working, w) \<leftarrow> cap_get_proc K w;
     if working = NULL then Some (- 1, w)
     else do {
       (_, w) \<leftarrow> cap_set_flag working (int CAP_EFFECTIVE) 1 [int CAP_SETGID] CAP_SET w;
       (ret, w) \<leftarrow> cap_set_proc_sc K sc working w;
       (ret, w) \<leftarrow> Some (change_groups K sc gid ngroups groups ret w);
       olderrno \<leftarrow> Some (errno w);
       (_, w) \<leftarrow> cap_clear_flag working (int CAP_EFFECTIVE) w;
       (_, w) \<leftarrow> cap_set_proc_sc K sc working w;
       (_, w) \<leftarrow> cap_free working w;
       Some (ret, w\<lparr>errno := olderrno\<rparr>) } }"

definition cap_setgroups ::
  "'k kernel \<Rightarrow> u32 \<Rightarrow> int \<Rightarrow> u32 list option \<Rightarrow> 'k world \<Rightarrow> (int \<times> 'k world) option" where
  "cap_setgroups K gid ngroups groups w = cap_setgroups_sc K (multithread w) gid ngroups groups w"

section \<open>The IAB tuple of a process\<close>

text \<open>
  The loops run over the capabilities of the kernel and index vectors of \<^verbatim>\<open>__CAP_BLKS\<close> words:
  a kernel with more than \<^verbatim>\<open>__CAP_MAXBITS\<close> capabilities would take them out of bounds.
\<close>

fun iab_get_loop :: "'k kernel \<Rightarrow> nat \<Rightarrow> cap_iab_s \<Rightarrow> 'k world \<Rightarrow> cap_iab_s \<times> 'k world" where
  "iab_get_loop K 0 t w = (t, w)"
| "iab_get_loop K (Suc c) t w =
     (let (b, w) = cap_get_bound K (int c) w;
          t = (if b = 0 then t\<lparr>iab_nb := vec_raise c (iab_nb t)\<rparr> else t);
          (a, w) = cap_get_ambient K (int c) w;
          t = (if a = 1 then t\<lparr>iab_a := vec_raise c (iab_a t)\<rparr> else t)
      in iab_get_loop K c t w)"

definition cap_iab_get_proc :: "'k kernel \<Rightarrow> 'k world \<Rightarrow> (addr \<times> 'k world) option" where
  "cap_iab_get_proc K w =
     (let (iab, w) = cap_iab_init w in
      if iab = NULL then Some (NULL, w)
      else do {
        (current, w) \<leftarrow> cap_get_proc K w;
        if current = NULL then do {
          (_, w) \<leftarrow> cap_free iab w;
          Some (NULL, w) }
        else do {
          (_, w) \<leftarrow> cap_iab_fill K iab CAP_IAB_INH current (int CAP_INHERITABLE) w;
          (_, w) \<leftarrow> cap_free current w;
          t \<leftarrow> get_iab iab w;
          (t, w) \<leftarrow> (if cap_max_bits w > int CAP_MAXBITS then None
                     else Some (iab_get_loop K (nat (cap_max_bits w)) t w));
          Some (iab, put_obj iab (CapIab t) w) } })"

text \<open>
  The first loop of \<^verbatim>\<open>_cap_iab_set_proc\<close>: whether an inheritable bit is asked for that the
  process neither has inheritable nor permitted, whether the bounding vector is empty, and the set
  with the new inheritable flag.
\<close>

definition iab_raising :: "cap_iab_s \<Rightarrow> cap_struct \<Rightarrow> bool" where
  "iab_raising t c = (\<exists>i \<in> {..<CAP_BLKS}.
     iab_i t ! i AND NOT (flat c i CAP_INHERITABLE OR flat c i CAP_PERMITTED) \<noteq> 0)"

definition iab_new_inh :: "cap_iab_s \<Rightarrow> cap_struct \<Rightarrow> cap_struct" where
  "iab_new_inh t c = fold (\<lambda>i. set_flat i CAP_INHERITABLE (iab_i t ! i)) [0..<CAP_BLKS] c"

text \<open>The second loop: whether a bounding bit that is still set has to be dropped.\<close>

fun iab_check_bound :: "'k kernel \<Rightarrow> cap_iab_s \<Rightarrow> nat \<Rightarrow> 'k world \<Rightarrow> bool \<times> 'k world" where
  "iab_check_bound K t 0 w = (False, w)"
| "iab_check_bound K t (Suc c) w =
     (if vec_isset (iab_nb t) c then
        (let (b, w) = cap_get_bound K (int c) w in
         if b \<noteq> 0 then (True, w) else iab_check_bound K t c w)
      else iab_check_bound K t c w)"

text \<open>The third loop: raise the ambient bits, drop the bounding bits, stop at the first error.\<close>

fun iab_apply_loop ::
  "'k kernel \<Rightarrow> 'k syscaller \<Rightarrow> cap_iab_s \<Rightarrow> bool \<Rightarrow> nat \<Rightarrow> 'k world \<Rightarrow> int \<times> 'k world" where
  "iab_apply_loop K sc t check_bound 0 w = (0, w)"
| "iab_apply_loop K sc t check_bound (Suc c) w =
     (let (ret, w) = (if vec_isset (iab_a t) c then cap_set_ambient_sc K sc (int c) CAP_SET w else (0, w)) in
      if ret \<noteq> 0 then (ret, w)
      else
        (let (ret, w) = (if check_bound \<and> vec_isset (iab_nb t) c
                         then cap_drop_bound_sc K sc (int c) w else (0, w)) in
         if ret \<noteq> 0 then (ret, w)
         else iab_apply_loop K sc t check_bound c w))"

text \<open>What follows the label \<^verbatim>\<open>defer\<close>.\<close>

definition iab_set_defer :: "addr \<Rightarrow> addr \<Rightarrow> int \<Rightarrow> 'k world \<Rightarrow> (int \<times> 'k world) option" where
  "iab_set_defer working temp ret w = do {
     (_, w) \<leftarrow> cap_free working w;
     (_, w) \<leftarrow> cap_free temp w;
     Some (ret, w) }"

definition cap_iab_set_proc_sc :: "'k kernel \<Rightarrow> 'k syscaller \<Rightarrow> addr \<Rightarrow> 'k world \<Rightarrow> (int \<times> 'k world) option" where
  "cap_iab_set_proc_sc K sc iab w = do {
     (temp, w) \<leftarrow> cap_get_proc K w;
     if temp = NULL then Some (- 1, w)
     else do {
       t \<leftarrow> get_iab iab w;
       c \<leftarrow> get_cap temp w;
       raising \<leftarrow> Some (iab_raising t c);
       check_bound \<leftarrow> Some (\<exists>i \<in> {..<CAP_BLKS}. iab_nb t ! i \<noteq> 0);
       w \<leftarrow> (if cap_max_bits w > int CAP_MAXBITS then None else Some (put_obj temp (CapSet (iab_new_inh t c)) w));
       (check_bound, w) \<leftarrow> Some (if check_bound then iab_check_bound K t (nat (cap_max_bits w)) w else (False, w));
       raising \<leftarrow> Some (raising \<or> check_bound);
       (working, w) \<leftarrow> cap_dup K temp w;
       if working = NULL then iab_set_defer working temp (- 1) w
       else do {
         (ret, w) \<leftarrow> (if raising then cap_set_flag working (int CAP_EFFECTIVE) 1 [int CAP_SETPCAP] CAP_SET w
                      else Some (0, w));
         if ret \<noteq> 0 then iab_set_defer working temp ret w
         else do {
           (ret, w) \<leftarrow> cap_set_proc_sc K sc working w;
           if ret \<noteq> 0 then iab_set_defer working temp ret w
           else do {
             (ret, w) \<leftarrow> cap_reset_ambient_sc K sc w;
             (ret, w) \<leftarrow> Some (if ret \<noteq> 0 then (ret, w)
                             else iab_apply_loop K sc t check_bound (nat (cap_max_bits w)) w);
             (_, w) \<leftarrow> cap_set_proc K temp w;
             iab_set_defer working temp ret w } } } } }"

definition cap_iab_set_proc :: "'k kernel \<Rightarrow> addr \<Rightarrow> 'k world \<Rightarrow> (int \<times> 'k world) option" where
  "cap_iab_set_proc K iab w = do {
     good \<leftarrow> good_cap_iab_t iab w;
     if \<not> good then Some (- 1, w\<lparr>errno := EINVAL\<rparr>)
     else do {
       w \<leftarrow> cap_mu_lock iab w;
       (retval, w) \<leftarrow> cap_iab_set_proc_sc K (multithread w) iab w;
       w \<leftarrow> cap_mu_unlock iab w;
       Some (retval, w) } }"

end
