(* ===== verification/Cap_Cred.thy ===== *)
theory Cap_Cred
  imports Cap_Proc
begin

text \<open>
  What \<^verbatim>\<open>cap_proc.c\<close> relies on of the kernel: the locale \<open>cred_abi\<close> says, over
  an abstract view of the credentials, what capget(2), capset(2), prctl(2) and setuid(2) document.
  A call that fails leaves the credentials alone; a call that succeeds has the effect
  \<open>cap_post\<close>; the calls of \<open>cap_sure\<close> never fail.  The execution rules of the
  operations are proved once inside the locale, whichever way the calls reach the kernel.
\<close>

section \<open>Credentials\<close>

record creds =
  p_eff :: "nat set"
  p_per :: "nat set"
  p_inh :: "nat set"
  p_amb :: "nat set"
  p_bnd :: "nat set"
  p_ncaps :: nat
  p_sbits :: u32
  p_uid :: u32
  p_gid :: u32
  p_groups :: "u32 list"
  p_root :: string

definition wf_creds :: "creds \<Rightarrow> bool" where
  "wf_creds v \<longleftrightarrow> p_eff v \<subseteq> p_per v \<and> p_amb v \<subseteq> p_per v \<inter> p_inh v \<and> p_per v \<subseteq> {..<p_ncaps v}
     \<and> p_inh v \<subseteq> {..<p_ncaps v} \<and> p_bnd v \<subseteq> {..<p_ncaps v} \<and> CAP_SETPCAP < p_ncaps v
     \<and> p_ncaps v \<le> 64"

abbreviation self_head :: cap_header where
  "self_head \<equiv> \<lparr>h_version = LINUX_CAPABILITY_VERSION_3, h_pid = 0\<rparr>"

text \<open>The effect of a successful call that returns \<open>r\<close>.\<close>

definition capset_post :: "cap_data list \<Rightarrow> creds \<Rightarrow> creds" where
  "capset_post d v =
     (let E = set_of_data d_effective d \<inter> {..<p_ncaps v};
          P = set_of_data d_permitted d \<inter> {..<p_ncaps v};
          I = set_of_data d_inheritable d \<inter> {..<p_ncaps v}
      in v\<lparr>p_eff := E, p_per := P, p_inh := I, p_amb := p_amb v \<inter> P \<inter> I\<rparr>)"

definition ambient_post :: "int \<Rightarrow> int \<Rightarrow> int \<Rightarrow> creds \<Rightarrow> creds \<Rightarrow> bool" where
  "ambient_post op c r v v' \<longleftrightarrow>
     (op = PR_CAP_AMBIENT_IS_SET \<longrightarrow> v' = v \<and> c < int (p_ncaps v) \<and> r = of_bool (nat c \<in> p_amb v))
   \<and> (op = PR_CAP_AMBIENT_RAISE \<longrightarrow> r = 0 \<and> v' = v\<lparr>p_amb := insert (nat c) (p_amb v)\<rparr>)
   \<and> (op = PR_CAP_AMBIENT_LOWER \<longrightarrow> r = 0 \<and> v' = v\<lparr>p_amb := p_amb v - {nat c}\<rparr>)
   \<and> (op = PR_CAP_AMBIENT_CLEAR_ALL \<longrightarrow> r = 0 \<and> v' = v\<lparr>p_amb := {}\<rparr>)"

definition prctl_post :: "int \<Rightarrow> int \<Rightarrow> int \<Rightarrow> int \<Rightarrow> creds \<Rightarrow> creds \<Rightarrow> bool" where
  "prctl_post cmd a1 a2 r v v' \<longleftrightarrow>
     (cmd = PR_CAPBSET_READ \<longrightarrow> v' = v \<and> a1 < int (p_ncaps v) \<and> r = of_bool (nat a1 \<in> p_bnd v))
   \<and> (cmd = PR_CAPBSET_DROP \<longrightarrow> r = 0 \<and> a1 < int (p_ncaps v) \<and> v' = v\<lparr>p_bnd := p_bnd v - {nat a1}\<rparr>)
   \<and> (cmd = PR_GET_SECUREBITS \<longrightarrow> v' = v \<and> r = uint (p_sbits v))
   \<and> (cmd = PR_SET_SECUREBITS \<longrightarrow> r = 0 \<and> v' = v\<lparr>p_sbits := word_of_int a1\<rparr>)
   \<and> (cmd = PR_SET_KEEPCAPS \<longrightarrow> r = 0
        \<and> v' = v\<lparr>p_sbits := (if a1 = 1 then Bit_Operations.set_bit 4 (p_sbits v) else unset_bit 4 (p_sbits v))\<rparr>)
   \<and> (cmd = PR_SET_NO_NEW_PRIVS \<longrightarrow> r = 0 \<and> v' = v)
   \<and> (cmd = PR_SET_NAME \<longrightarrow> r = 0 \<and> v' = v)
   \<and> (cmd = PR_CAP_AMBIENT \<longrightarrow> ambient_post a1 a2 r v v')"

definition setuid_post :: "u32 \<Rightarrow> creds \<Rightarrow> creds \<Rightarrow> bool" where
  "setuid_post u v v' \<longleftrightarrow>
     (let v1 = v\<lparr>p_uid := u\<rparr> in
      v' = v1 \<or> v' = v1\<lparr>p_eff := {}, p_amb := {}\<rparr> \<or> v' = v1\<lparr>p_eff := p_per v\<rparr>
      \<or> \<not> bit (p_sbits v) 4 \<and> v' = v1\<lparr>p_eff := {}, p_per := {}, p_amb := {}\<rparr>)"

definition cap_post :: "syscall \<Rightarrow> int \<Rightarrow> creds \<Rightarrow> creds \<Rightarrow> bool" where
  "cap_post s r v v' \<longleftrightarrow>
     (case s of
        SysCapset h d \<Rightarrow> h = self_head \<longrightarrow> r = 0 \<and> v' = capset_post d v
      | SysPrctl cmd a1 a2 a3 a4 a5 \<Rightarrow> prctl_post cmd a1 a2 r v v'
      | SysSetuid u \<Rightarrow> r = 0 \<and> setuid_post u v v'
      | SysSetgid g \<Rightarrow> r = 0 \<and> v' = v\<lparr>p_gid := g\<rparr>
      | SysSetgroups n gs \<Rightarrow> r = 0 \<and> v' = v\<lparr>p_groups := take (nat n) (case gs of None \<Rightarrow> [] | Some l \<Rightarrow> l)\<rparr>
      | SysChroot d \<Rightarrow> r = 0 \<and> v' = v\<lparr>p_root := d\<rparr>)"

text \<open>Calls that are never refused.\<close>

definition cap_sure :: "syscall \<Rightarrow> creds \<Rightarrow> bool" where
  "cap_sure s v \<longleftrightarrow>
     (case s of
        SysCapset h d \<Rightarrow> h = self_head \<and> length d = 2
          \<and> set_of_data d_effective d \<subseteq> set_of_data d_permitted d
          \<and> set_of_data d_permitted d \<subseteq> p_per v \<and> set_of_data d_inheritable d \<subseteq> p_inh v
      | SysPrctl cmd a1 a2 a3 a4 a5 \<Rightarrow>
          cmd = PR_CAPBSET_READ \<and> 0 \<le> a1 \<and> a1 < int (p_ncaps v)
        \<or> cmd = PR_CAPBSET_DROP \<and> 0 \<le> a1 \<and> a1 < int (p_ncaps v) \<and> CAP_SETPCAP \<in> p_eff v
        \<or> cmd = PR_GET_SECUREBITS
        \<or> cmd = PR_SET_KEEPCAPS \<and> (a1 = 0 \<or> a1 = 1) \<and> \<not> bit (p_sbits v) 5
        \<or> cmd = PR_CAP_AMBIENT \<and> a1 = PR_CAP_AMBIENT_IS_SET \<and> 0 \<le> a2 \<and> a2 < int (p_ncaps v) \<and> a3 = 0 \<and> a4 = 0
      | _ \<Rightarrow> False)"

text \<open>
  A system call function that reaches the kernel: either the C library's \<^verbatim>\<open>syscall\<close> or one
  that returns the kernel's negative result itself.
\<close>

definition posix_sys :: "'k kernel \<Rightarrow> 'k sysfn \<Rightarrow> bool" where
  "posix_sys K f \<longleftrightarrow> (\<forall>s k. case k_syscall K s k of (r, k') \<Rightarrow> (case f s k of (r', e, k'') \<Rightarrow>
     k'' = k' \<and> (if r < 0 then r' < 0 else r' = r \<and> e = None)))"

definition caller_ok :: "'k kernel \<Rightarrow> 'k syscaller \<Rightarrow> 'k world \<Rightarrow> bool" where
  "caller_ok K sc w \<longleftrightarrow> (overrode_syscalls w \<longrightarrow> posix_sys K (three sc) \<and> posix_sys K (six sc))"

lemma posix_libc_syscall: "posix_sys K (libc_syscall K)"
  by (auto simp: posix_sys_def libc_syscall_def split: prod.splits)

text \<open>The world after a call that changed the kernel and perhaps \<^verbatim>\<open>errno\<close>.\<close>

definition after :: "'k \<Rightarrow> int \<Rightarrow> 'k world \<Rightarrow> 'k world" where
  "after k e w = w\<lparr>kern := k, errno := e\<rparr>"

lemma after_simps [simp]:
  "kern (after k e w) = k" "errno (after k e w) = e" "obj_at (after k e w) p = obj_at w p"
  "max_bits (after k e w) = max_bits w" "overrode_syscalls (after k e w) = overrode_syscalls w"
  "multithread (after k e w) = multithread w" "singlethread (after k e w) = singlethread w"
  "heap (after k e w) = heap w"
  "mem_calls (after k e w) = mem_calls w" "mem_ok (after k e w) = mem_ok w" "alloc_ok (after k e w) = alloc_ok w"
  "next_ptr (after k e w) = next_ptr w" "put_obj p ob (after k e w) = after k e (put_obj p ob w)"
  "del_obj p (after k e w) = after k e (del_obj p w)" "bumped (after k e w) = after k e (bumped w)"
  "new_obj p sz ob (after k e w) = after k e (new_obj p sz ob w)"
  "after k e (after k' e' w) = after k e w" "caller_ok K sc (after k e w) = caller_ok K sc w"
  by (simp_all add: after_def obj_at_def put_obj_def del_obj_def new_obj_def bumped_def mem_ok_def alloc_ok_def
      next_ptr_def caller_ok_def)

lemma wf_after [simp]: "wf_world (after k e w) = wf_world w"
  by (simp add: wf_world_def after_def)

lemma after_errno [simp]: "(after k e w)\<lparr>errno := e'\<rparr> = after k e' w"
  by (simp add: after_def)

lemma after_kern [simp]: "(after k e w)\<lparr>kern := k'\<rparr> = after k' e w"
  by (simp add: after_def)

lemma libc_ret_after: "libc_ret r (after k e w) = (if r < 0 then - 1 else r, after k (if r < 0 then - r else e) w)"
  by (simp add: libc_ret_def)

lemma after_eq [simp]: "after k e w = after k' e' w \<longleftrightarrow> k = k' \<and> e = e'"
  by (metis after_simps(1,2))

lemma after_self: "after (kern w) (errno w) w = w"
  by (simp add: after_def)

lemma ready_after [simp]:
  "cap_ready (after k e w) p c = cap_ready w p c" "iab_ready (after k e w) p t = iab_ready w p t"
  by (simp_all add: cap_ready_def iab_ready_def)

lemma heap_fields_switch [simp]:
  "overrode_syscalls (put_obj p ob w) = overrode_syscalls w" "overrode_syscalls (new_obj p sz ob w) = overrode_syscalls w"
  "overrode_syscalls (del_obj p w) = overrode_syscalls w" "overrode_syscalls (bumped w) = overrode_syscalls w"
  "multithread (put_obj p ob w) = multithread w" "multithread (new_obj p sz ob w) = multithread w"
  "multithread (del_obj p w) = multithread w" "multithread (bumped w) = multithread w"
  by (simp_all add: put_obj_def new_obj_def del_obj_def bumped_def)

lemma caller_ok_heap [simp]:
  "caller_ok K sc (put_obj p ob w) = caller_ok K sc w" "caller_ok K sc (new_obj p sz ob w) = caller_ok K sc w"
  "caller_ok K sc (del_obj p w) = caller_ok K sc w" "caller_ok K sc (bumped w) = caller_ok K sc w"
  by (simp_all add: caller_ok_def)

text \<open>What no capability operation changes.\<close>

definition ids :: "creds \<Rightarrow> nat \<times> u32 \<times> u32 \<times> u32 list \<times> string" where
  "ids v = (p_ncaps v, p_uid v, p_gid v, p_groups v, p_root v)"

lemma ids_upd [simp]:
  "ids (v\<lparr>p_eff := x\<rparr>) = ids v" "ids (v\<lparr>p_per := x\<rparr>) = ids v" "ids (v\<lparr>p_inh := x\<rparr>) = ids v"
  "ids (v\<lparr>p_amb := x\<rparr>) = ids v" "ids (v\<lparr>p_bnd := x\<rparr>) = ids v" "ids (v\<lparr>p_sbits := y\<rparr>) = ids v"
  "ids (capset_post d v) = ids v"
  by (simp_all add: ids_def capset_post_def Let_def)

section \<open>Capability sets as sets of numbers\<close>

definition caps_of :: "cap_struct \<Rightarrow> nat \<Rightarrow> nat set" where
  "caps_of c s = {x. x < 64 \<and> isset_cap c x s}"

lemma caps_of_iff: "x \<in> caps_of c s \<longleftrightarrow> x < 64 \<and> isset_cap c x s"
  by (simp add: caps_of_def)

lemma set_of_data_cap:
  assumes "wf_cap c"
  shows "set_of_data d_effective (map data_of_flat (c_u c)) = caps_of c CAP_EFFECTIVE"
    "set_of_data d_permitted (map data_of_flat (c_u c)) = caps_of c CAP_PERMITTED"
    "set_of_data d_inheritable (map data_of_flat (c_u c)) = caps_of c CAP_INHERITABLE"
  using assms
  by (auto simp: set_of_data_def caps_of_def isset_cap_bit data_of_flat_def flat_def)

text \<open>The set \<^verbatim>\<open>cap_get_proc\<close> returns for the credentials \<open>v\<close>.\<close>

definition proc_cap :: "creds \<Rightarrow> cap_struct" where
  "proc_cap v = (zero_cap LINUX_CAPABILITY_VERSION_3)
     \<lparr>c_u := map flat_of_data (data_of_sets (p_eff v) (p_per v) (p_inh v))\<rparr>"

lemma proc_cap_fields [simp]: "c_mutex (proc_cap v) = 0" "c_head (proc_cap v) = self_head" "wf_cap (proc_cap v)"
  by (auto simp: proc_cap_def wf_cap_def data_of_sets_def flat_of_data_def)

lemma caps_of_proc_cap:
  assumes "wf_creds v"
  shows "caps_of (proc_cap v) CAP_EFFECTIVE = p_eff v" "caps_of (proc_cap v) CAP_PERMITTED = p_per v"
    "caps_of (proc_cap v) CAP_INHERITABLE = p_inh v"
proof -
  have b: "x \<in> p_eff v \<Longrightarrow> x < 64" "x \<in> p_per v \<Longrightarrow> x < 64" "x \<in> p_inh v \<Longrightarrow> x < 64" for x
    using assms by (auto simp: wf_creds_def)
  have f: "flat (proc_cap v) b s = (if s = 0 then word_of_set (p_eff v) b else if s = 1 then word_of_set (p_per v) b
             else word_of_set (p_inh v) b)" if "b < 2" "s < 3" for b s
    using that by (auto simp: proc_cap_def flat_def data_of_sets_def flat_of_data_def less_2_cases_iff
        numeral_3_eq_3 less_Suc_eq)
  show "caps_of (proc_cap v) CAP_EFFECTIVE = p_eff v" "caps_of (proc_cap v) CAP_PERMITTED = p_per v"
    "caps_of (proc_cap v) CAP_INHERITABLE = p_inh v"
    using b by (auto simp: caps_of_def isset_cap_bit f bit_word_of_set)
qed

lemma caps_of_raise:
  "wf_cap c \<Longrightarrow> x < 64 \<Longrightarrow> s < 3 \<Longrightarrow> t < 3 \<Longrightarrow>
     caps_of (set_flag_loop [int x] s CAP_SET c) t = (if t = s then insert x (caps_of c t) else caps_of c t)"
  by (auto simp: caps_of_def isset_set_flag_loop)

lemma caps_of_clear:
  "wf_cap c \<Longrightarrow> s < 3 \<Longrightarrow> t < 3 \<Longrightarrow> caps_of (clear_flag_loop s c) t = (if t = s then {} else caps_of c t)"
  by (auto simp: caps_of_def)

lemma pr_arg_small [simp]: "0 \<le> c \<Longrightarrow> c < 2 ^ 64 \<Longrightarrow> pr_arg c = c"
  by (simp add: pr_arg_def)

lemma pr_arg_num [simp]: "pr_arg 0 = 0" "pr_arg 1 = 1" "pr_arg 2 = 2" "pr_arg 3 = 3" "pr_arg 4 = 4"
  by (simp_all add: pr_arg_def)

section \<open>The contract\<close>

locale cred_abi = capget_abi K for K :: "'k kernel" +
  fixes view :: "'k \<Rightarrow> creds"
    and valid :: "'k \<Rightarrow> bool"
  assumes valid_wf: "valid k \<Longrightarrow> wf_creds (view k)"
    and capget_self: "valid k \<Longrightarrow> k_capget K k self_head True =
       (0, LINUX_CAPABILITY_VERSION_3, data_of_sets (p_eff (view k)) (p_per (view k)) (p_inh (view k)))"
    and syscall_post: "valid k \<Longrightarrow> k_syscall K s k = (r, k') \<Longrightarrow>
       valid k' \<and> (if r < 0 then view k' = view k else cap_post s r (view k) (view k'))"
    and syscall_sure: "valid k \<Longrightarrow> cap_sure s (view k) \<Longrightarrow> 0 \<le> fst (k_syscall K s k)"
    and chdir_root: "valid k \<Longrightarrow> k_chdir_root K k = (r, k') \<Longrightarrow> valid k' \<and> view k' = view k"
begin

text \<open>The outcome of the call \<open>s\<close> made in the world \<open>w\<close>.\<close>

definition outcome :: "syscall \<Rightarrow> 'k world \<Rightarrow> int \<Rightarrow> 'k world \<Rightarrow> bool" where
  "outcome s w r w' \<longleftrightarrow> (\<exists>k e. w' = after k e w \<and> valid k
     \<and> (if r < 0 then view k = view (kern w) else e = errno w \<and> cap_post s r (view (kern w)) (view k))
     \<and> (cap_sure s (view (kern w)) \<longrightarrow> 0 \<le> r))"

lemma outcomeE:
  assumes "outcome s w r w'"
  obtains k e where "w' = after k e w" "valid k"
    "r < 0 \<Longrightarrow> view k = view (kern w)" "0 \<le> r \<Longrightarrow> e = errno w" "0 \<le> r \<Longrightarrow> cap_post s r (view (kern w)) (view k)"
    "cap_sure s (view (kern w)) \<Longrightarrow> 0 \<le> r"
proof -
  from assms obtain k e where o: "w' = after k e w \<and> valid k
     \<and> (if r < 0 then view k = view (kern w) else e = errno w \<and> cap_post s r (view (kern w)) (view k))
     \<and> (cap_sure s (view (kern w)) \<longrightarrow> 0 \<le> r)"
    unfolding outcome_def by blast
  have 1: "view k = view (kern w)" if "r < 0" using o that by simp
  have 2: "e = errno w" "cap_post s r (view (kern w)) (view k)" if "0 \<le> r" using o that by auto
  show ?thesis using that [of k e] o 1 2 by blast
qed

lemma outcome_run:
  assumes "posix_sys K f" "valid (kern w)"
  shows "outcome s w (fst (run_sysfn f s w)) (snd (run_sysfn f s w))"
proof -
  obtain r k' where k: "k_syscall K s (kern w) = (r, k')" by fastforce
  obtain r' e k'' where f: "f s (kern w) = (r', e, k'')" by (cases "f s (kern w)") auto
  have p: "k'' = k' \<and> (if r < 0 then r' < 0 else r' = r \<and> e = None)"
    using assms(1) [unfolded posix_sys_def, THEN spec, of s, THEN spec, of "kern w"] k f by simp
  let ?e = "case e of None \<Rightarrow> errno w | Some n \<Rightarrow> n"
  have run: "run_sysfn f s w = (r', after k' ?e w)"
    using f p by (simp add: run_sysfn_def after_def)
  have "valid k' \<and> (if r' < 0 then view k' = view (kern w) else ?e = errno w \<and> cap_post s r' (view (kern w)) (view k'))"
    using syscall_post [OF assms(2) k] p by (auto split: if_splits)
  moreover have "0 \<le> r'" if "cap_sure s (view (kern w))"
    using syscall_sure [OF assms(2) that] k p by (auto split: if_splits)
  ultimately show ?thesis unfolding outcome_def run fst_conv snd_conv by blast
qed

lemma outcome_libc: "valid (kern w) \<Longrightarrow> outcome s w (fst (libc K s w)) (snd (libc K s w))"
  unfolding libc_def by (rule outcome_run [OF posix_libc_syscall])

lemma outcome_neg:
  assumes "outcome s w (fst rw) (snd rw)"
  shows "outcome s w (fst (neg_errno rw)) (snd (neg_errno rw))"
proof (cases rw)
  case (Pair r w')
  show ?thesis
  proof (cases "r < 0")
    case True
    from assms Pair obtain k e where o: "w' = after k e w" "valid k" "view k = view (kern w)"
      "cap_sure s (view (kern w)) \<Longrightarrow> 0 \<le> r"
      using True by (auto elim!: outcomeE)
    have "neg_errno rw = (- 1, after k (- r) w)" using Pair True o(1) by (simp add: neg_errno_def)
    then show ?thesis using o(2-4) True by (auto simp: outcome_def)
  next
    case False
    with assms Pair show ?thesis by (simp add: neg_errno_def)
  qed
qed

lemma outcome_capset:
  "caller_ok K sc w \<Longrightarrow> valid (kern w) \<Longrightarrow>
     outcome (SysCapset h d) w (fst (libcap_capset K sc h d w)) (snd (libcap_capset K sc h d w))"
  by (simp add: libcap_capset_def caller_ok_def outcome_run outcome_libc)

lemma outcome_wprctl3:
  "caller_ok K sc w \<Longrightarrow> valid (kern w) \<Longrightarrow>
     outcome (SysPrctl cmd a b 0 0 0) w (fst (libcap_wprctl3 K sc cmd a b w)) (snd (libcap_wprctl3 K sc cmd a b w))"
  by (simp add: libcap_wprctl3_def prctl_def caller_ok_def outcome_run outcome_neg outcome_libc)

lemma outcome_wprctl6:
  "caller_ok K sc w \<Longrightarrow> valid (kern w) \<Longrightarrow>
     outcome (SysPrctl cmd a b c d e) w (fst (libcap_wprctl6 K sc cmd a b c d e w))
       (snd (libcap_wprctl6 K sc cmd a b c d e w))"
  by (simp add: libcap_wprctl6_def prctl_def caller_ok_def outcome_run outcome_neg outcome_libc)

lemma outcome_bound:
  "valid (kern w) \<Longrightarrow> outcome (SysPrctl PR_CAPBSET_READ (pr_arg c) 0 0 0 0) w
     (fst (cap_get_bound K c w)) (snd (cap_get_bound K c w))"
  by (simp add: cap_get_bound_def prctl_def outcome_libc)

lemma outcome_ambient:
  assumes "valid (kern w)"
  shows "outcome (SysPrctl PR_CAP_AMBIENT PR_CAP_AMBIENT_IS_SET (pr_arg c) 0 0 0) w
           (fst (cap_get_ambient K c w)) (snd (cap_get_ambient K c w))"
proof -
  let ?s = "SysPrctl PR_CAP_AMBIENT PR_CAP_AMBIENT_IS_SET (pr_arg c) 0 0 0"
  have "cap_get_ambient K c w = neg_errno (libc K ?s w)"
    by (auto simp: cap_get_ambient_def prctl_def neg_errno_def split: prod.splits)
  with outcome_neg [OF outcome_libc [OF assms, of ?s]] show ?thesis by simp
qed

text \<open>The bounding and ambient queries, for a capability number.\<close>

lemma get_bound:
  assumes "valid (kern w)" "0 \<le> c" "c < 2 ^ 64"
  obtains k e where "cap_get_bound K c w =
      (if c < int (p_ncaps (view (kern w))) then of_bool (nat c \<in> p_bnd (view (kern w))) else - 1, after k e w)"
    "valid k" "view k = view (kern w)"
proof -
  let ?s = "SysPrctl PR_CAPBSET_READ c 0 0 0 0" and ?v = "view (kern w)"
  have l: "cap_get_bound K c w = libc K ?s w" using assms by (simp add: cap_get_bound_def prctl_def)
  obtain r w' where rw: "libc K ?s w = (r, w')" by fastforce
  have "outcome ?s w r w'" using outcome_libc [OF assms(1), of ?s] rw by simp
  then obtain k e where o: "w' = after k e w" "valid k" "r < 0 \<Longrightarrow> view k = ?v"
    "0 \<le> r \<Longrightarrow> cap_post ?s r ?v (view k)" "cap_sure ?s ?v \<Longrightarrow> 0 \<le> r"
    by (elim outcomeE) blast
  have m1: "r < 0 \<Longrightarrow> r = - 1"
    using rw by (auto simp: libc_def run_sysfn_def libc_syscall_def split: prod.splits if_splits)
  have "r = (if c < int (p_ncaps ?v) then of_bool (nat c \<in> p_bnd ?v) else - 1)"
    using o(4,5) m1 assms(2) by (fastforce simp: cap_post_def prctl_post_def cap_sure_def)
  moreover have "view k = ?v"
    using o(3,4) by (cases "r < 0") (auto simp: cap_post_def prctl_post_def)
  ultimately show ?thesis using that [of k e] o(1,2) rw l by simp
qed

lemma get_ambient:
  assumes "valid (kern w)" "0 \<le> c" "c < 2 ^ 64"
  obtains k e where "cap_get_ambient K c w =
      (if c < int (p_ncaps (view (kern w))) then of_bool (nat c \<in> p_amb (view (kern w))) else - 1, after k e w)"
    "valid k" "view k = view (kern w)"
proof -
  let ?s = "SysPrctl PR_CAP_AMBIENT PR_CAP_AMBIENT_IS_SET c 0 0 0" and ?v = "view (kern w)"
  obtain r w' where rw: "cap_get_ambient K c w = (r, w')" by fastforce
  have "outcome ?s w r w'" using outcome_ambient [OF assms(1), of c] rw assms(2,3) by simp
  then obtain k e where o: "w' = after k e w" "valid k" "r < 0 \<Longrightarrow> view k = ?v"
    "0 \<le> r \<Longrightarrow> cap_post ?s r ?v (view k)" "cap_sure ?s ?v \<Longrightarrow> 0 \<le> r"
    by (elim outcomeE) blast
  have m1: "r < 0 \<Longrightarrow> r = - 1"
    using rw by (auto simp: cap_get_ambient_def split: prod.splits if_splits)
  have "r = (if c < int (p_ncaps ?v) then of_bool (nat c \<in> p_amb ?v) else - 1)"
    using o(4,5) m1 assms(2) by (fastforce simp: cap_post_def prctl_post_def ambient_post_def cap_sure_def)
  moreover have "view k = ?v"
    using o(3,4) by (cases "r < 0") (auto simp: cap_post_def prctl_post_def ambient_post_def)
  ultimately show ?thesis using that [of k e] o(1,2) rw by simp
qed

end

section \<open>Execution rules\<close>

context cred_abi
begin

lemma cap_get_proc_exec:
  assumes "valid (kern w)" "alloc_ok w"
  shows "cap_get_proc K w = Some (next_ptr w,
           new_obj (next_ptr w) sizeof_cap_alloc_s (CapSet (proc_cap (view (kern w)))) (bumped w))"
proof -
  let ?v = "view (kern w)" and ?z = "zero_cap LINUX_CAPABILITY_VERSION_3"
  have get: "capget K True ?z w' = (0, proc_cap ?v, w')" if "kern w' = kern w" for w'
    using that capget_self [OF assms(1)]
    by (simp add: capget_def libc_ret_def proc_cap_def data_of_sets_def zero_cap_def)
  show ?thesis
    by (simp add: cap_get_proc_def cap_init_ok assms(2) get_obj get)
qed

lemma cap_get_proc_fail:
  "\<not> alloc_ok w \<Longrightarrow> cap_get_proc K w = Some (NULL, (bumped w)\<lparr>errno := ENOMEM\<rparr>)"
  by (simp add: cap_get_proc_def cap_init_fail)

text \<open>The object under construction: a ready set in the private block.\<close>

lemma ready_new:
  "wf_world w \<Longrightarrow> wf_cap c \<Longrightarrow> c_mutex c = 0 \<Longrightarrow>
     cap_ready (new_obj (next_ptr w) sz (CapSet c) (bumped w)) (next_ptr w) c"
  by (simp add: cap_ready_def wf_new_bumped)

text \<open>What a call of \<^verbatim>\<open>capset\<close> with the set \<open>c\<close> left behind.\<close>

definition installed :: "cap_struct \<Rightarrow> 'k world \<Rightarrow> int \<Rightarrow> 'k world \<Rightarrow> bool" where
  "installed c w r w' \<longleftrightarrow> (\<exists>k e. w' = after k e w \<and> valid k \<and> r \<le> 0
     \<and> (r \<noteq> 0 \<longrightarrow> view k = view (kern w))
     \<and> (r = 0 \<longrightarrow> e = errno w \<and> view k = capset_post (map data_of_flat (c_u c)) (view (kern w)))
     \<and> (caps_of c CAP_EFFECTIVE \<subseteq> caps_of c CAP_PERMITTED \<longrightarrow> caps_of c CAP_PERMITTED \<subseteq> p_per (view (kern w)) \<longrightarrow>
         caps_of c CAP_INHERITABLE \<subseteq> p_inh (view (kern w)) \<longrightarrow> r = 0))"

lemma cap_set_proc_exec:
  assumes "cap_ready w p c" "c_head c = self_head" "caller_ok K sc w" "valid (kern w)"
  shows "\<exists>r w'. cap_set_proc_sc K sc p w = Some (r, w') \<and> installed c w r w'"
proof -
  note p = cap_readyD [OF assms(1)]
  let ?d = "map data_of_flat (c_u c)" and ?v = "view (kern w)"
  let ?wl = "put_obj p (CapSet (c\<lparr>c_mutex := 1\<rparr>)) w"
  obtain r w' where rw: "libcap_capset K sc self_head ?d ?wl = (r, w')" by fastforce
  have "outcome (SysCapset self_head ?d) ?wl r w'"
    using outcome_capset [of sc ?wl self_head ?d] assms(3,4) rw by simp
  then obtain k e where o: "w' = after k e ?wl" "valid k" "r < 0 \<Longrightarrow> view k = ?v" "0 \<le> r \<Longrightarrow> e = errno w"
    "0 \<le> r \<Longrightarrow> cap_post (SysCapset self_head ?d) r ?v (view k)"
    "cap_sure (SysCapset self_head ?d) ?v \<Longrightarrow> 0 \<le> r"
    by (elim outcomeE) auto
  have run: "cap_set_proc_sc K sc p w = Some (r, after k e w)"
    using p rw o(1) assms(2) by (simp add: cap_set_proc_sc_def libcap_exec put_same)
  have r: "r \<le> 0" and post: "r = 0 \<Longrightarrow> view k = capset_post ?d ?v"
    using o(5) by (cases "0 \<le> r"; simp add: cap_post_def)+
  have sure: "r = 0" if "caps_of c CAP_EFFECTIVE \<subseteq> caps_of c CAP_PERMITTED" "caps_of c CAP_PERMITTED \<subseteq> p_per ?v"
    "caps_of c CAP_INHERITABLE \<subseteq> p_inh ?v"
    using o(6) that p(4) r by (simp add: cap_sure_def set_of_data_cap [OF p(4)])
  have "installed c w r (after k e w)"
    unfolding installed_def using o(2-4) r post sure by (intro exI [of _ k] exI [of _ e]) auto
  with run show ?thesis by blast
qed

lemma capset_post_cap:
  "wf_cap c \<Longrightarrow> capset_post (map data_of_flat (c_u c)) v =
     (let E = caps_of c CAP_EFFECTIVE \<inter> {..<p_ncaps v}; P = caps_of c CAP_PERMITTED \<inter> {..<p_ncaps v};
          I = caps_of c CAP_INHERITABLE \<inter> {..<p_ncaps v}
      in v\<lparr>p_eff := E, p_per := P, p_inh := I, p_amb := p_amb v \<inter> P \<inter> I\<rparr>)"
  by (simp add: capset_post_def set_of_data_cap)

text \<open>
  The end of \<^verbatim>\<open>_cap_setuid\<close>, \<^verbatim>\<open>_cap_setgroups\<close>, \<^verbatim>\<open>_cap_chroot\<close> and
  \<^verbatim>\<open>_cap_set_mode\<close>: clear the effective flag of the working copy, install it, free it.
\<close>

definition lower :: "'k syscaller \<Rightarrow> addr \<Rightarrow> 'k world \<Rightarrow> (int \<times> 'k world) option" where
  "lower sc p w = do {
     (_, w) \<leftarrow> cap_clear_flag p (int CAP_EFFECTIVE) w;
     (r, w) \<leftarrow> cap_set_proc_sc K sc p w;
     (_, w) \<leftarrow> cap_free p w;
     Some (r, w) }"

lemma installed_frame:
  assumes "installed c w r w'"
  shows "valid (kern w')" "heap w' = heap w" "overrode_syscalls w' = overrode_syscalls w"
    "caller_ok K sc w' = caller_ok K sc w" "cap_ready w' p d = cap_ready w p d" "w' = after (kern w') (errno w') w"
  using assms by (auto simp: installed_def)

lemma installed_ids: "installed c w r w' \<Longrightarrow> ids (view (kern w')) = ids (view (kern w))"
  by (cases "r = 0") (auto simp: installed_def)

lemma lower_exec:
  assumes "cap_ready w p c" "c_head c = self_head" "caller_ok K sc w" "valid (kern w)"
  shows "\<exists>r w'. lower sc p w = Some (r, del_obj p w') \<and> installed (clear_flag_loop CAP_EFFECTIVE c) w r w'"
proof -
  note p = cap_readyD [OF assms(1)]
  let ?c = "clear_flag_loop CAP_EFFECTIVE c"
  let ?w = "put_obj p (CapSet ?c) w"
  have ready: "cap_ready ?w p ?c" using assms(1) p by (simp add: cap_ready_put)
  have "\<exists>r w'. cap_set_proc_sc K sc p ?w = Some (r, w') \<and> installed ?c ?w r w'"
    using assms by (intro cap_set_proc_exec [OF ready]) auto
  then obtain r w' where s: "cap_set_proc_sc K sc p ?w = Some (r, w')" "installed ?c ?w r w'" by blast
  obtain k e where w': "w' = after k e ?w" using installed_frame(6) [OF s(2)] by blast
  have "cap_free p w' = Some (0, del_obj p (after k e w))"
    using p w' by (subst cap_free_set [where c = ?c]) auto
  then have "lower sc p w = Some (r, del_obj p (after k e w))"
    using s(1) cap_clear_flag_exec [OF assms(1), of 0] by (simp add: lower_def)
  moreover have "installed ?c w r (after k e w)" using s(2) w' by (simp add: installed_def)
  ultimately show ?thesis by blast
qed

lemma installed_lowered_eff:
  assumes "installed (clear_flag_loop CAP_EFFECTIVE c) w r w'" "wf_cap c"
    "caps_of c CAP_PERMITTED \<subseteq> p_per (view (kern w)) \<and> caps_of c CAP_INHERITABLE \<subseteq> p_inh (view (kern w))
       \<or> p_eff (view (kern w)) = {}"
  shows "p_eff (view (kern w')) = {}"
  using assms by (cases "r = 0") (auto simp: installed_def capset_post_cap caps_of_clear Let_def)

end

section \<open>The reference kernel meets the contract\<close>

definition lk_view :: "linux \<Rightarrow> creds" where
  "lk_view k = \<lparr>p_eff = lk_eff k, p_per = lk_per k, p_inh = lk_inh k, p_amb = lk_amb k, p_bnd = lk_bnd k,
     p_ncaps = lk_ncaps k, p_sbits = of_nat (lk_secbits k), p_uid = lk_uid k, p_gid = lk_gid k,
     p_groups = lk_groups k, p_root = lk_root k\<rparr>"

definition lk_valid :: "linux \<Rightarrow> bool" where
  "lk_valid k \<longleftrightarrow> wf_creds (lk_view k) \<and> lk_secbits k < 256"

definition lk_ok :: "syscall \<Rightarrow> linux \<Rightarrow> int \<times> linux \<Rightarrow> bool" where
  "lk_ok s k rk \<longleftrightarrow> (case rk of (r, k') \<Rightarrow> lk_valid k'
     \<and> (if r < 0 then lk_view k' = lk_view k else cap_post s r (lk_view k) (lk_view k')))"

lemma lk_ok_refused: "lk_valid k \<Longrightarrow> r < 0 \<Longrightarrow> lk_ok s k (r, k)"
  by (simp add: lk_ok_def)

lemma lk_capset_ok: "lk_valid k \<Longrightarrow> lk_ok (SysCapset h d) k (lk_capset h d k)"
  by (auto simp: lk_capset_def lk_ok_def lk_valid_def Let_def cap_post_def capset_post_def wf_creds_def lk_view_def)

lemma lk_ambient_ok:
  assumes "lk_valid k" "r \<ge> 0" "lk_ambient op c a3 a4 k = (r, k')"
  shows "lk_valid k' \<and> ambient_post op c r (lk_view k) (lk_view k')"
  using assms
  by (auto simp: lk_ambient_def ambient_post_def lk_valid_def wf_creds_def lk_view_def split: if_splits)

lemma bit8: "(n :: nat) < 256 \<Longrightarrow> Bit_Operations.set_bit 4 n < 256" "n < 256 \<Longrightarrow> unset_bit 4 n < 256"
proof -
  assume n: "n < 256"
  have "take_bit 8 n = n" using n by (simp add: take_bit_nat_eq_self)
  then have "take_bit 8 (Bit_Operations.set_bit 4 n) = Bit_Operations.set_bit 4 n"
    "take_bit 8 (unset_bit 4 n) = unset_bit 4 n"
    by (simp_all add: take_bit_set_bit_eq take_bit_unset_bit_eq)
  then show "Bit_Operations.set_bit 4 n < 256" "unset_bit 4 n < 256"
    using take_bit_nat_less_exp [of 8 "Bit_Operations.set_bit 4 n"] take_bit_nat_less_exp [of 8 "unset_bit 4 n"] by simp_all
qed

lemma lk_prctl_ok: 
  assumes "lk_valid k"
  shows "lk_ok (SysPrctl cmd a1 a2 a3 a4 a5) k (lk_prctl cmd a1 a2 a3 a4 k)"
proof (cases "cmd = 47")
  case True
  then have eq: "lk_prctl cmd a1 a2 a3 a4 k = lk_ambient a1 a2 a3 a4 k" by (simp add: lk_prctl_def)
  obtain r k' where r: "lk_ambient a1 a2 a3 a4 k = (r, k')" by fastforce
  have "k' = k" if "r < 0" using r that by (auto simp: lk_ambient_def split: if_splits)
  then show ?thesis
    using True assms lk_ambient_ok [OF assms _ r] unfolding eq
    by (auto simp: r lk_ok_def cap_post_def prctl_post_def)
next
  case False
  have sb: "of_nat (Bit_Operations.set_bit 4 n) = (Bit_Operations.set_bit 4 (of_nat n) :: u32)"
    "of_nat (unset_bit 4 n) = (unset_bit 4 (of_nat n) :: u32)" for n
    by (rule bit_word_eqI; simp add: bit_simps)+
  have small: "lk_secbits k < 256" using assms by (simp add: lk_valid_def)
  note defs = lk_prctl_def lk_ok_def cap_post_def prctl_post_def lk_view_def
  consider "cmd = 23" | "cmd = 24" | "cmd = 27" | "cmd = 28" | "cmd = 8" | "cmd = 38"
    | "cmd \<notin> {23, 24, 27, 28, 8, 38, 47}" using False by blast
  then show ?thesis
  proof cases
    case 1
    with assms show ?thesis by (simp add: defs)
  next
    case 2
    with assms show ?thesis by (auto simp: defs lk_valid_def wf_creds_def)
  next
    case 3
    with assms small show ?thesis by (simp add: defs unsigned_of_nat take_bit_nat_eq_self)
  next
    case 4
    with assms show ?thesis by (simp add: defs lk_valid_def wf_creds_def) linarith
  next
    case 5
    with assms small bit8 [of "lk_secbits k"] show ?thesis by (simp add: defs lk_valid_def wf_creds_def sb)
  next
    case 6
    with assms show ?thesis by (simp add: defs lk_valid_def wf_creds_def)
  next
    case 7
    with assms show ?thesis by (cases "cmd = 15") (simp_all add: defs)
  qed
qed

lemma lk_setuid_ok: "lk_valid k \<Longrightarrow> lk_ok (SysSetuid u) k (lk_setuid u k)"
  by (auto simp: lk_setuid_def lk_ok_def lk_valid_def Let_def cap_post_def setuid_post_def wf_creds_def lk_view_def
      bit_simps)

lemma lk_syscall_ok: 
  assumes "lk_valid k"
  shows "lk_ok s k (lk_syscall s k)"
proof (cases s)
  case (SysSetgroups n gs)
  with assms show ?thesis
    by (cases gs) (auto simp: lk_syscall_def lk_ok_def cap_post_def lk_view_def lk_valid_def wf_creds_def)
qed (use assms lk_capset_ok lk_prctl_ok lk_setuid_ok in
    \<open>auto simp: lk_syscall_def lk_ok_def cap_post_def lk_view_def lk_valid_def wf_creds_def\<close>)

lemma lk_syscall_sure:
  assumes "lk_valid k" "cap_sure s (lk_view k)"
  shows "0 \<le> fst (lk_syscall s k)"
proof (cases s)
  case (SysCapset h d)
  have "set_of_data d_effective d \<subseteq> set_of_data d_permitted d" "set_of_data d_permitted d \<subseteq> lk_per k"
    "set_of_data d_inheritable d \<subseteq> lk_inh k" "h = self_head"
    using assms(2) SysCapset by (auto simp: cap_sure_def lk_view_def)
  then have "fst (lk_capset h d k) = 0" by (auto simp: lk_capset_def Let_def)
  then show ?thesis by (simp add: SysCapset lk_syscall_def)
next
  case (SysPrctl cmd a1 a2 a3 a4 a5)
  then have "cmd = 23 \<and> 0 \<le> a1 \<and> a1 < int (lk_ncaps k)
      \<or> cmd = 24 \<and> 0 \<le> a1 \<and> a1 < int (lk_ncaps k) \<and> CAP_SETPCAP \<in> lk_eff k \<or> cmd = 27
      \<or> cmd = 8 \<and> (a1 = 0 \<or> a1 = 1) \<and> \<not> bit (lk_secbits k) 5
      \<or> cmd = 47 \<and> a1 = 1 \<and> 0 \<le> a2 \<and> a2 < int (lk_ncaps k) \<and> a3 = 0 \<and> a4 = 0"
    using assms(2) by (simp add: cap_sure_def lk_view_def bit_simps)
  then have "0 \<le> fst (lk_prctl cmd a1 a2 a3 a4 k)"
    by (elim disjE) (simp_all add: lk_prctl_def lk_ambient_def)
  with SysPrctl show ?thesis by (simp add: lk_syscall_def)
qed (use assms in \<open>simp_all add: cap_sure_def\<close>)

interpretation linux: cred_abi linux_kernel lk_view lk_valid
proof unfold_locales
  fix k s r k'
  assume valid: "lk_valid k"
  show "wf_creds (lk_view k)" using valid by (simp add: lk_valid_def)
  show "k_capget linux_kernel k self_head True =
      (0, LINUX_CAPABILITY_VERSION_3, data_of_sets (p_eff (lk_view k)) (p_per (lk_view k)) (p_inh (lk_view k)))"
    by (simp add: linux_kernel_def lk_capget_def lk_view_def version_defs)
  show "0 \<le> fst (k_syscall linux_kernel s k)" if "cap_sure s (lk_view k)"
    using lk_syscall_sure [OF valid that] by (simp add: linux_kernel_def)
  show "lk_valid k' \<and> lk_view k' = lk_view k" if "k_chdir_root linux_kernel k = (r, k')"
    using that valid by (simp add: linux_kernel_def)
  show "lk_valid k' \<and> (if r < 0 then lk_view k' = lk_view k else cap_post s r (lk_view k) (lk_view k'))"
    if "k_syscall linux_kernel s k = (r, k')"
    using lk_syscall_ok [OF valid, of s] that by (simp add: linux_kernel_def lk_ok_def)
qed

end
