(* ===== verification/Cap_Proc_Spec.thy ===== *)
theory Cap_Proc_Spec
  imports Cap_Cred
begin

text \<open>
  What the operations of \<^verbatim>\<open>cap_proc.c\<close> achieve on a kernel that meets
  \<open>cred_abi\<close>: start-up, the round trip of process capabilities, identity changes,
  modes and the IAB tuple of a process.
\<close>

section \<open>Loops over the capabilities the kernel knows\<close>

context cred_abi
begin

lemma ambient_scan_exec:
  assumes "valid (kern w)" "0 \<le> c" "c \<le> int (p_ncaps (view (kern w)))"
  shows "\<exists>k e. ambient_scan K c w = Some (\<forall>x \<in> p_amb (view (kern w)). int x < c, after k e w)
           \<and> valid k \<and> view k = view (kern w)"
  using assms
proof (induction "nat (int (p_ncaps (view (kern w))) - c)" arbitrary: c w)
  case 0
  let ?v = "view (kern w)"
  obtain k e where g: "cap_get_ambient K c w = (- 1, after k e w)" "valid k" "view k = ?v"
    using 0 valid_wf [OF 0(2)] by (elim get_ambient [where c = c and w = w]) (auto simp: wf_creds_def)
  have "\<forall>x \<in> p_amb ?v. int x < c"
    using valid_wf [OF 0(2)] 0 by (force simp: wf_creds_def)
  then show ?case using g by (subst ambient_scan.simps) auto
next
  case (Suc n)
  let ?v = "view (kern w)"
  have c: "c < int (p_ncaps ?v)" "c < 2 ^ 64" using Suc.hyps(2) valid_wf [OF Suc.prems(1)] by (auto simp: wf_creds_def)
  obtain k e where g: "cap_get_ambient K c w = (of_bool (nat c \<in> p_amb ?v), after k e w)" "valid k" "view k = ?v"
    using c Suc.prems by (elim get_ambient [where c = c and w = w]) auto
  show ?case
  proof (cases "nat c \<in> p_amb ?v")
    case True
    then have "\<not> (\<forall>x \<in> p_amb ?v. int x < c)" using Suc.prems(2) by (metis less_irrefl nat_0_le)
    with True g show ?thesis by (subst ambient_scan.simps) auto
  next
    case False
    have n: "n = nat (int (p_ncaps ?v) - (c + 1))" using Suc.hyps(2) c by linarith
    obtain k' e' where ih: "ambient_scan K (c + 1) (after k e w) =
        Some (\<forall>x \<in> p_amb ?v. int x < c + 1, after k' e' w)" "valid k'" "view k' = ?v"
      using Suc.hyps(1) [of "after k e w" "c + 1"] n Suc.prems c g by auto
    have "(\<forall>x \<in> p_amb ?v. int x < c + 1) \<longleftrightarrow> (\<forall>x \<in> p_amb ?v. int x < c)"
      using False Suc.prems(2) by (metis nat_int zless_add1_eq)
    with False g ih show ?thesis by (subst ambient_scan.simps) auto
  qed
qed

lemma cap_reset_ambient_exec:
  assumes "valid (kern w)" "caller_ok K sc w"
  shows "\<exists>r k e. cap_reset_ambient_sc K sc w = Some (r, after k e w) \<and> valid k \<and> r \<le> 0
     \<and> (p_amb (view (kern w)) = {} \<longrightarrow> r = 0)
     \<and> view k = (if r = 0 then (view (kern w))\<lparr>p_amb := {}\<rparr> else view (kern w))"
proof -
  let ?v = "view (kern w)"
  obtain k e where s: "ambient_scan K 0 w = Some (p_amb ?v = {}, after k e w)" "valid k" "view k = ?v"
    using ambient_scan_exec [OF assms(1), of 0] by (auto simp: ex_in_conv [symmetric] Bex_def)
  show ?thesis
  proof (cases "p_amb ?v = {}")
    case True
    then have "cap_reset_ambient_sc K sc w = Some (0, after k (errno w) w)" "?v = ?v\<lparr>p_amb := {}\<rparr>"
      using s by (simp_all add: cap_reset_ambient_sc_def)
    with s True show ?thesis by auto
  next
    case False
    let ?s = "SysPrctl PR_CAP_AMBIENT PR_CAP_AMBIENT_CLEAR_ALL 0 0 0 0"
    obtain r w' where rw: "libcap_wprctl6 K sc PR_CAP_AMBIENT PR_CAP_AMBIENT_CLEAR_ALL 0 0 0 0 (after k e w) = (r, w')"
      by fastforce
    have "outcome ?s (after k e w) r w'"
      using outcome_wprctl6 [of sc "after k e w" PR_CAP_AMBIENT PR_CAP_AMBIENT_CLEAR_ALL 0 0 0 0] assms(2) s rw by simp
    then obtain k' e' where o: "w' = after k' e' w" "valid k'" "r < 0 \<Longrightarrow> view k' = ?v"
      "0 \<le> r \<Longrightarrow> e' = e" "0 \<le> r \<Longrightarrow> cap_post ?s r ?v (view k')"
      using s(3) by (elim outcomeE) auto
    have "cap_reset_ambient_sc K sc w = Some (r, after k' e' w)"
      using s False rw o(1) by (simp add: cap_reset_ambient_sc_def)
    with o False show ?thesis
      by (cases "r < 0") (auto simp: cap_post_def prctl_post_def ambient_post_def)
  qed
qed

end

section \<open>Raise, act, lower\<close>

context cred_abi
begin

lemma lower_bind:
  "do { (_, w) \<leftarrow> cap_clear_flag p (int CAP_EFFECTIVE) w;
        (r, w) \<leftarrow> cap_set_proc_sc K sc p w;
        (_, w) \<leftarrow> cap_free p w;
        f r w } = do { (r, w) \<leftarrow> lower sc p w; f r w }"
  by (simp add: lower_def split_def)

lemma installed_same:
  assumes "installed c w r w'" "valid (kern w)" "wf_cap c"
    "caps_of c CAP_PERMITTED = p_per (view (kern w))" "caps_of c CAP_INHERITABLE = p_inh (view (kern w))"
  shows "view (kern w') = (view (kern w))\<lparr>p_eff := (if r = 0 then caps_of c CAP_EFFECTIVE \<inter> {..<p_ncaps (view (kern w))}
           else p_eff (view (kern w)))\<rparr>"
proof (cases "r = 0")
  case True
  let ?v = "view (kern w)"
  have "p_per ?v \<inter> {..<p_ncaps ?v} = p_per ?v" "p_inh ?v \<inter> {..<p_ncaps ?v} = p_inh ?v"
    "p_amb ?v \<inter> p_per ?v \<inter> p_inh ?v = p_amb ?v"
    using valid_wf [OF assms(2)] by (auto simp: wf_creds_def)
  with True assms show ?thesis by (auto simp: installed_def capset_post_cap Let_def)
next
  case False
  with assms(1) show ?thesis by (auto simp: installed_def)
qed

text \<open>The private copy with one effective capability raised.\<close>

definition raised :: "nat \<Rightarrow> creds \<Rightarrow> cap_struct" where
  "raised x v = set_flag_loop [int x] CAP_EFFECTIVE CAP_SET (proc_cap v)"

lemma raised_fields [simp]: "wf_cap (raised x v)" "c_mutex (raised x v) = 0" "c_head (raised x v) = self_head"
  by (simp_all add: raised_def)

lemma caps_of_raised:
  assumes "wf_creds v" "x < 64"
  shows "caps_of (raised x v) CAP_EFFECTIVE = insert x (p_eff v)" "caps_of (raised x v) CAP_PERMITTED = p_per v"
    "caps_of (raised x v) CAP_INHERITABLE = p_inh v"
  unfolding raised_def using assms by (subst caps_of_raise; simp add: caps_of_proc_cap)+

definition with_raised :: "nat \<Rightarrow> 'k world \<Rightarrow> 'k world" where
  "with_raised x w = new_obj (next_ptr w) sizeof_cap_alloc_s (CapSet (raised x (view (kern w)))) (bumped w)"

lemma with_raised_simps [simp]:
  "kern (with_raised x w) = kern w" "errno (with_raised x w) = errno w"
  "overrode_syscalls (with_raised x w) = overrode_syscalls w"
  "caller_ok K sc (with_raised x w) = caller_ok K sc w"
  by (simp_all add: with_raised_def)

lemma ready_raised: "wf_world w \<Longrightarrow> cap_ready (with_raised x w) (next_ptr w) (raised x (view (kern w)))"
  by (simp add: with_raised_def ready_new)

lemma del_raised: "wf_world w \<Longrightarrow> del_obj (next_ptr w) (with_raised x w) = bumped w"
  by (simp add: with_raised_def del_new wf_fresh)

lemma raise_exec:
  assumes "wf_world w" "alloc_ok w" "valid (kern w)"
  shows "do { (working, w) \<leftarrow> cap_get_proc K w;
              if working = NULL then g w
              else do { (r, w) \<leftarrow> cap_set_flag working (int CAP_EFFECTIVE) 1 [int x] CAP_SET w;
                        f working r w } } = f (next_ptr w) 0 (with_raised x w)"
proof -
  let ?p = "next_ptr w" and ?c = "proc_cap (view (kern w))"
  let ?w = "new_obj ?p sizeof_cap_alloc_s (CapSet ?c) (bumped w)"
  have "cap_ready ?w ?p ?c" using assms(1) by (simp add: ready_new)
  from cap_set_flag_exec [OF this, of 1 "[int x]" 0 CAP_SET] show ?thesis
    using cap_get_proc_exec [OF assms(3,2)] by (simp add: with_raised_def raised_def)
qed

lemma lower_eff:
  assumes "cap_ready w p c" "c_head c = self_head" "caller_ok K sc w" "valid (kern w)"
    "caps_of c CAP_INHERITABLE = p_inh (view (kern w))"
    "caps_of c CAP_PERMITTED = p_per (view (kern w)) \<or> p_eff (view (kern w)) = {}"
  shows "\<exists>r k e. lower sc p w = Some (r, after k e (del_obj p w)) \<and> valid k \<and> p_eff (view k) = {}
     \<and> (caps_of c CAP_PERMITTED = p_per (view (kern w)) \<longrightarrow> r = 0 \<and> view k = (view (kern w))\<lparr>p_eff := {}\<rparr>)
     \<and> p_inh (view k) = p_inh (view (kern w)) \<and> ids (view k) = ids (view (kern w))"
proof -
  note p = cap_readyD [OF assms(1)]
  let ?c = "clear_flag_loop CAP_EFFECTIVE c" and ?v = "view (kern w)"
  obtain r w' where l: "lower sc p w = Some (r, del_obj p w')" "installed ?c w r w'"
    using lower_exec [OF assms(1-4)] by blast
  obtain k e where w': "w' = after k e w" using installed_frame(6) [OF l(2)] by blast
  have eff: "p_eff (view k) = {}"
    using installed_lowered_eff [OF l(2) p(4)] assms(5,6) w' by auto
  have kept: "r = 0 \<and> view k = ?v\<lparr>p_eff := {}\<rparr>" if "caps_of c CAP_PERMITTED = p_per ?v"
    using installed_same [OF l(2) assms(4)] l(2) that assms(5) p(4) w'
    by (auto simp: caps_of_clear installed_def)
  have "p_inh ?v \<inter> {..<p_ncaps ?v} = p_inh ?v" using valid_wf [OF assms(4)] by (auto simp: wf_creds_def)
  then have "p_inh (view k) = p_inh ?v"
    using l(2) p(4) assms(5) w' by (cases "r = 0"; simp add: installed_def capset_post_cap caps_of_clear Let_def)
  moreover have "ids (view k) = ids ?v" using installed_ids [OF l(2)] w' by simp
  ultimately show ?thesis using l w' eff kept installed_frame(1) [OF l(2)] by auto
qed

end

section \<open>Identities\<close>

context cred_abi
begin

lemma keepcaps_exec:
  assumes "caller_ok K sc w" "valid (kern w)" "b = 0 \<or> b = 1"
  shows "\<exists>r k e. libcap_wprctl3 K sc PR_SET_KEEPCAPS b 0 w = (r, after k e w) \<and> valid k
     \<and> (\<exists>s. view k = (view (kern w))\<lparr>p_sbits := s\<rparr>
          \<and> (\<not> bit (p_sbits (view (kern w))) 5 \<longrightarrow> bit s 4 = (b = 1) \<and> \<not> bit s 5))"
proof -
  let ?s = "SysPrctl PR_SET_KEEPCAPS b 0 0 0 0" and ?v = "view (kern w)"
  obtain r w' where rw: "libcap_wprctl3 K sc PR_SET_KEEPCAPS b 0 w = (r, w')" by fastforce
  have "outcome ?s w r w'" using outcome_wprctl3 [OF assms(1,2), of PR_SET_KEEPCAPS b 0] rw by simp
  then obtain k e where o: "w' = after k e w" "valid k" "r < 0 \<Longrightarrow> view k = ?v" "0 \<le> r \<Longrightarrow> cap_post ?s r ?v (view k)"
    "cap_sure ?s ?v \<Longrightarrow> 0 \<le> r"
    by (elim outcomeE) blast
  have "\<exists>s. view k = ?v\<lparr>p_sbits := s\<rparr> \<and> (\<not> bit (p_sbits ?v) 5 \<longrightarrow> bit s 4 = (b = 1) \<and> \<not> bit s 5)"
  proof (cases "r < 0")
    case True
    then have "\<not> cap_sure ?s ?v" using o(5) by linarith
    then have "bit (p_sbits ?v) 5" using assms(3) by (auto simp: cap_sure_def)
    then show ?thesis using o(3) [OF True] by (intro exI [of _ "p_sbits ?v"]) simp
  next
    case False
    then show ?thesis using o(4) by (auto simp: cap_post_def prctl_post_def bit_simps)
  qed
  with rw o show ?thesis by auto
qed

lemma setuid_call:
  assumes "caller_ok K sc w" "valid (kern w)"
  shows "\<exists>r k e. (if overrode_syscalls w then neg_errno (run_sysfn (three sc) (SysSetuid uid) w)
                  else libc K (SysSetuid uid) w) = (r, after k e w) \<and> valid k \<and> r \<le> 0
     \<and> (r \<noteq> 0 \<longrightarrow> view k = view (kern w)) \<and> (r = 0 \<longrightarrow> setuid_post uid (view (kern w)) (view k))"
proof -
  obtain r w' where rw: "(if overrode_syscalls w then neg_errno (run_sysfn (three sc) (SysSetuid uid) w)
      else libc K (SysSetuid uid) w) = (r, w')" by fastforce
  have "outcome (SysSetuid uid) w r w'"
  proof (cases "overrode_syscalls w")
    case True
    with assms rw outcome_neg [OF outcome_run, of "three sc" w "SysSetuid uid"] show ?thesis
      by (auto simp: caller_ok_def)
  next
    case False
    with assms rw outcome_libc [of w "SysSetuid uid"] show ?thesis by simp
  qed
  then obtain k e where "w' = after k e w" "valid k" "r < 0 \<Longrightarrow> view k = view (kern w)"
    "0 \<le> r \<Longrightarrow> r = 0 \<and> setuid_post uid (view (kern w)) (view k)"
    by (elim outcomeE) (auto simp: cap_post_def)
  then show ?thesis using rw by (cases "r < 0") (auto intro: exI)
qed

lemma ids_uid: "ids v = ids v' \<Longrightarrow> ids (v\<lparr>p_uid := u\<rparr>) = ids (v'\<lparr>p_uid := u\<rparr>)"
  by (simp add: ids_def)

lemma setuid_post_fields:
  "setuid_post u v v' \<Longrightarrow> p_inh v' = p_inh v \<and> ids v' = ids (v\<lparr>p_uid := u\<rparr>)
     \<and> (p_per v' = p_per v \<or> p_eff v' = {} \<and> \<not> bit (p_sbits v) 4)"
  by (auto simp: setuid_post_def Let_def)

lemma cap_setuid_exec:
  assumes "wf_world w" "alloc_ok w" "valid (kern w)" "caller_ok K sc w"
  shows "\<exists>r k e. cap_setuid_sc K sc uid w = Some (r, after k e (bumped w)) \<and> valid k \<and> p_eff (view k) = {}
     \<and> p_inh (view k) = p_inh (view (kern w))
     \<and> ids (view k) = ids (if r = 0 then (view (kern w))\<lparr>p_uid := uid\<rparr> else view (kern w))
     \<and> (\<not> bit (p_sbits (view (kern w))) 5 \<longrightarrow> p_per (view k) = p_per (view (kern w))) \<and> r \<le> 0"
proof -
  let ?p = "next_ptr w" and ?v = "view (kern w)" and ?c = "raised CAP_SETUID (view (kern w))"
  let ?w = "with_raised CAP_SETUID w"
  have c: "caps_of ?c CAP_PERMITTED = p_per ?v" "caps_of ?c CAP_INHERITABLE = p_inh ?v"
    using caps_of_raised valid_wf [OF assms(3)] by (auto simp: CAP_SETUID_def)
  obtain r1 k1 e1 s1 where k1: "libcap_wprctl3 K sc PR_SET_KEEPCAPS 1 0 ?w = (r1, after k1 e1 ?w)" "valid k1"
    "view k1 = ?v\<lparr>p_sbits := s1\<rparr>" "\<not> bit (p_sbits ?v) 5 \<Longrightarrow> bit s1 4 \<and> \<not> bit s1 5"
    using keepcaps_exec [of sc ?w 1] assms by auto
  have "\<exists>r2 w2. cap_set_proc_sc K sc ?p (after k1 e1 ?w) = Some (r2, w2) \<and> installed ?c (after k1 e1 ?w) r2 w2"
    using ready_raised [OF assms(1)] assms(4) k1 by (intro cap_set_proc_exec) auto
  then obtain r2 w2 where s2: "cap_set_proc_sc K sc ?p (after k1 e1 ?w) = Some (r2, w2)"
    "installed ?c (after k1 e1 ?w) r2 w2" by blast
  obtain k2 e2 where w2: "w2 = after k2 e2 ?w" using installed_frame(6) [OF s2(2)] by auto
  have "\<exists>E. view k2 = (view k1)\<lparr>p_eff := E\<rparr>"
    using installed_same [OF s2(2)] k1 c w2 by (intro exI) auto
  then have v2: "valid k2" "p_inh (view k2) = p_inh ?v" "p_per (view k2) = p_per ?v" "ids (view k2) = ids ?v"
    "p_sbits (view k2) = s1"
    using installed_frame(1) [OF s2(2)] k1(3) w2 by auto
  let ?call = "\<lambda>w. if overrode_syscalls w then neg_errno (run_sysfn (three sc) (SysSetuid uid) w) else libc K (SysSetuid uid) w"
  obtain r k e where call: "?call w2 = (r, after k e ?w)" "valid k" "r \<noteq> 0 \<longrightarrow> view k = view k2"
    "r = 0 \<longrightarrow> setuid_post uid (view k2) (view k)" "r \<le> 0"
    using setuid_call [of sc w2 uid] assms(4) w2 v2(1) by (simp only: w2 after_simps with_raised_simps) blast
  define r3 k3 e3 where d3: "r3 = (if r2 = 0 then r else r2)" "k3 = (if r2 = 0 then k else k2)"
    "e3 = (if r2 = 0 then e else e2)"
  have s3: "(if r2 = 0 then ?call w2 else (r2, w2)) = (r3, after k3 e3 ?w)" "valid k3"
    "r3 = 0 \<longrightarrow> setuid_post uid (view k2) (view k3)" "r3 \<noteq> 0 \<longrightarrow> view k3 = view k2"
    using call v2(1) unfolding d3 w2 by simp_all
  have "r3 \<le> 0" using call(5) s2(2) by (auto simp: d3 installed_def)
  obtain r4 k4 e4 s4 where k4: "libcap_wprctl3 K sc PR_SET_KEEPCAPS 0 0 (after k3 e3 ?w) = (r4, after k4 e4 ?w)" "valid k4"
    "view k4 = (view k3)\<lparr>p_sbits := s4\<rparr>"
    using keepcaps_exec [of sc "after k3 e3 ?w" 0] assms s3(2) by auto
  have v3: "p_inh (view k3) = p_inh ?v" "p_per (view k3) = p_per ?v \<or> p_eff (view k3) = {} \<and> \<not> bit s1 4"
    "ids (view k3) = ids (if r3 = 0 then ?v\<lparr>p_uid := uid\<rparr> else ?v)"
    using v2(2-) s3(3,4) setuid_post_fields [of uid "view k2" "view k3"] ids_uid [of "view k2" ?v uid]
    by (cases "r3 = 0"; simp)+
  have "\<exists>r k e. lower sc ?p (after k4 e4 ?w) = Some (r, after k e (del_obj ?p (after k4 e4 ?w))) \<and> valid k \<and> p_eff (view k) = {}
     \<and> (caps_of ?c CAP_PERMITTED = p_per (view (kern (after k4 e4 ?w))) \<longrightarrow> r = 0 \<and> view k = (view (kern (after k4 e4 ?w)))\<lparr>p_eff := {}\<rparr>)
     \<and> p_inh (view k) = p_inh (view (kern (after k4 e4 ?w))) \<and> ids (view k) = ids (view (kern (after k4 e4 ?w)))"
    using ready_raised [OF assms(1)] assms(4) k4 c v3 by (intro lower_eff) auto
  then obtain r5 k5 e5 where l: "lower sc ?p (after k4 e4 ?w) = Some (r5, after k5 e5 (bumped w))" "valid k5"
    "p_eff (view k5) = {}" "p_per ?v = p_per (view k3) \<Longrightarrow> view k5 = (view k4)\<lparr>p_eff := {}\<rparr>"
    "p_inh (view k5) = p_inh (view k3)" "ids (view k5) = ids (view k3)"
    using c k4 del_raised [OF assms(1)] by auto
  have "cap_setuid_sc K sc uid w = Some (r3, after k5 e3 (bumped w))"
    unfolding cap_setuid_sc_def lower_bind raise_exec [OF assms(1-3)]
    using k1(1) s2(1) s3(1) k4(1) l(1) by simp
  moreover have "p_per (view k5) = p_per ?v" if "\<not> bit (p_sbits ?v) 5"
    using l(4) v3(2) k1(4) [OF that] k4(3) by auto
  ultimately show ?thesis using l v3 \<open>r3 \<le> 0\<close> by auto
qed

end

text \<open>
  C15: \<^verbatim>\<open>cap_setuid\<close> always returns, and with the effective set of the process cleared,
  whether or not the uid could be changed; it changes the uid exactly when it returns 0, keeps the
  inheritable set, keeps the permitted set unless the keep-caps bit is locked, and gives back the
  memory it used.
\<close>

theorem cap_setuid_spec:
  assumes "cred_abi K view valid" "wf_world w" "alloc_ok w" "valid (kern w)" "caller_ok K (multithread w) w"
  shows "\<exists>r w'. cap_setuid K uid w = Some (r, w') \<and> heap w' = heap w
     \<and> p_eff (view (kern w')) = {} \<and> p_inh (view (kern w')) = p_inh (view (kern w))
     \<and> p_uid (view (kern w')) = (if r = 0 then uid else p_uid (view (kern w)))
     \<and> (\<not> bit (p_sbits (view (kern w))) 5 \<longrightarrow> p_per (view (kern w')) = p_per (view (kern w)))"
proof -
  obtain r k e where "cap_setuid K uid w = Some (r, after k e (bumped w))" "p_eff (view k) = {}"
    "p_inh (view k) = p_inh (view (kern w))" "ids (view k) = ids (if r = 0 then (view (kern w))\<lparr>p_uid := uid\<rparr> else view (kern w))"
    "\<not> bit (p_sbits (view (kern w))) 5 \<longrightarrow> p_per (view k) = p_per (view (kern w))"
    using cred_abi.cap_setuid_exec [OF assms, of uid] by (auto simp: cap_setuid_def)
  then show ?thesis by (intro exI [of _ r] exI [of _ "after k e (bumped w)"]) (simp add: ids_def split: if_splits)
qed

text \<open>A process of the super-user on the reference kernel.\<close>

definition root_linux :: linux where
  "root_linux = plain_linux\<lparr>lk_eff := {..<41}, lk_per := {..<41}, lk_uid := 0, lk_gid := 0\<rparr>"

lemma root_valid: "lk_valid root_linux"
  by (simp add: lk_valid_def wf_creds_def lk_view_def root_linux_def plain_linux_def CAP_SETPCAP_def)

lemma caller_ok_machine: "caller_ok K sc (machine k)" "caller_ok K sc (with_obj ob (machine k))"
  by (simp_all add: caller_ok_def machine_def with_obj_def)

theorem cap_setuid_spec_witness:
  "\<exists>r w'. cap_setuid linux_kernel 1000 (machine root_linux) = Some (r, w') \<and> p_eff (lk_view (kern w')) = {}
     \<and> p_per (lk_view (kern w')) = {..<41}"
  using cap_setuid_spec [OF linux.cred_abi_axioms wf_machine alloc_ok_machine, of root_linux 1000]
    root_valid caller_ok_machine
  by (auto simp: lk_view_def root_linux_def plain_linux_def)

context cred_abi
begin

lemma plain_call:
  assumes "posix_sys K f" "valid (kern w)" "\<And>r v v'. cap_post s r v v' \<Longrightarrow> r = 0 \<and> v' = g v"
  shows "\<exists>r k e. run_sysfn f s w = (r, after k e w) \<and> valid k \<and> r \<le> 0
     \<and> view k = (if r = 0 then g (view (kern w)) else view (kern w))"
proof -
  obtain r w' where rw: "run_sysfn f s w = (r, w')" by fastforce
  have "outcome s w r w'" using outcome_run [OF assms(1,2), of s] rw by simp
  then obtain k e where o: "w' = after k e w" "valid k" "r < 0 \<Longrightarrow> view k = view (kern w)"
    "0 \<le> r \<Longrightarrow> cap_post s r (view (kern w)) (view k)"
    by (elim outcomeE) blast
  show ?thesis
  proof (cases "r < 0")
    case True
    with rw o show ?thesis by auto
  next
    case False
    with o(4) assms(3) [of r "view (kern w)" "view k"] have "r = 0" "view k = g (view (kern w))" by auto
    with rw o show ?thesis by auto
  qed
qed

lemma caller_three: "caller_ok K sc w \<Longrightarrow> posix_sys K (if overrode_syscalls w then three sc else libc_syscall K)"
  by (simp add: caller_ok_def posix_libc_syscall)

lemma change_groups_exec:
  assumes "caller_ok K sc w" "valid (kern w)"
  shows "\<exists>r k e. change_groups K sc gid n gs 0 w = (r, after k e w) \<and> valid k \<and> r \<le> 0
     \<and> (\<exists>g l. view k = (view (kern w))\<lparr>p_gid := g, p_groups := l\<rparr>
          \<and> (r = 0 \<longrightarrow> g = gid \<and> l = take (nat n) (case gs of None \<Rightarrow> [] | Some l \<Rightarrow> l)))"
proof -
  let ?f = "if overrode_syscalls w then three sc else libc_syscall K" and ?v = "view (kern w)"
  note f = caller_three [OF assms(1)]
  obtain r1 k1 e1 where s1: "run_sysfn ?f (SysSetgid gid) w = (r1, after k1 e1 w)" "valid k1" "r1 \<le> 0"
    "view k1 = (if r1 = 0 then ?v\<lparr>p_gid := gid\<rparr> else ?v)"
    using plain_call [OF f assms(2), of "SysSetgid gid" "\<lambda>v. v\<lparr>p_gid := gid\<rparr>"] by (auto simp: cap_post_def)
  let ?l = "take (nat n) (case gs of None \<Rightarrow> [] | Some l \<Rightarrow> l)"
  obtain r2 k2 e2 where s2: "run_sysfn ?f (SysSetgroups n gs) (after k1 e1 w) = (r2, after k2 e2 w)" "valid k2" "r2 \<le> 0"
    "view k2 = (if r2 = 0 then (view k1)\<lparr>p_groups := ?l\<rparr> else view k1)"
    using plain_call [OF f, of "after k1 e1 w" "SysSetgroups n gs" "\<lambda>v. v\<lparr>p_groups := ?l\<rparr>"] s1(2)
    by (auto simp: cap_post_def)
  have "\<exists>r e. change_groups K sc gid n gs 0 w = (r, after (if r1 = 0 then k2 else k1) e w) \<and> r \<le> 0
     \<and> (r = 0 \<longleftrightarrow> r1 = 0 \<and> r2 = 0)"
  proof (cases "overrode_syscalls w")
    case True
    with s1 s2 show ?thesis by (simp add: change_groups_def)
  next
    case False
    with s1 s2 show ?thesis by (simp add: change_groups_def libc_def)
  qed
  then obtain r e where r: "change_groups K sc gid n gs 0 w = (r, after (if r1 = 0 then k2 else k1) e w)" "r \<le> 0"
    "r = 0 \<longleftrightarrow> r1 = 0 \<and> r2 = 0" by blast
  have "\<exists>g l. view (if r1 = 0 then k2 else k1) = ?v\<lparr>p_gid := g, p_groups := l\<rparr> \<and> (r = 0 \<longrightarrow> g = gid \<and> l = ?l)"
  proof (cases "r1 = 0")
    case True
    then show ?thesis using s1(4) s2(4) r(3)
      by (intro exI [of _ gid] exI [of _ "if r2 = 0 then ?l else p_groups ?v"]) simp
  next
    case False
    then show ?thesis using s1(4) r(3) by (intro exI [of _ "p_gid ?v"] exI [of _ "p_groups ?v"]) simp
  qed
  with r s1(2) s2(2) show ?thesis by (cases "r1 = 0") auto
qed

lemma change_groups_skip:
  "ret < 0 \<Longrightarrow> \<exists>e. change_groups K sc gid n gs ret w = (if overrode_syscalls w then - 1 else ret, after (kern w) e w)"
  by (cases "overrode_syscalls w") (auto simp: change_groups_def after_def intro: exI [of _ "errno w"])

lemma cap_setgroups_exec:
  assumes "wf_world w" "alloc_ok w" "valid (kern w)" "caller_ok K sc w"
  shows "\<exists>r k e. cap_setgroups_sc K sc gid n gs w = Some (r, after k e (bumped w)) \<and> valid k
     \<and> (\<exists>g l. view k = (view (kern w))\<lparr>p_gid := g, p_groups := l, p_eff := {}\<rparr>
          \<and> (r = 0 \<longrightarrow> g = gid \<and> l = take (nat n) (case gs of None \<Rightarrow> [] | Some l \<Rightarrow> l)))"
proof -
  let ?p = "next_ptr w" and ?v = "view (kern w)" and ?c = "raised CAP_SETGID (view (kern w))"
  let ?w = "with_raised CAP_SETGID w" and ?l = "take (nat n) (case gs of None \<Rightarrow> [] | Some l \<Rightarrow> l)"
  have c: "caps_of ?c CAP_PERMITTED = p_per ?v" "caps_of ?c CAP_INHERITABLE = p_inh ?v"
    using caps_of_raised valid_wf [OF assms(3)] by (auto simp: CAP_SETGID_def)
  have "\<exists>r w'. cap_set_proc_sc K sc ?p ?w = Some (r, w') \<and> installed ?c ?w r w'"
    using ready_raised [OF assms(1)] assms(3,4) by (intro cap_set_proc_exec) auto
  then obtain r1 w1 where s1: "cap_set_proc_sc K sc ?p ?w = Some (r1, w1)" "installed ?c ?w r1 w1" by blast
  obtain k1 e1 where w1: "w1 = after k1 e1 ?w" using installed_frame(6) [OF s1(2)] by auto
  obtain E where v1: "valid k1" "view k1 = ?v\<lparr>p_eff := E\<rparr>" "r1 \<le> 0"
    using installed_frame(1) [OF s1(2)] installed_same [OF s1(2)] s1(2) assms(3) c w1 by (auto simp: installed_def)
  have "\<exists>r2 k2 e2 g l. change_groups K sc gid n gs r1 w1 = (r2, after k2 e2 ?w) \<and> valid k2
     \<and> view k2 = ?v\<lparr>p_gid := g, p_groups := l, p_eff := E\<rparr> \<and> (r2 = 0 \<longrightarrow> g = gid \<and> l = ?l)"
  proof (cases "r1 = 0")
    case True
    obtain r2 k2 e2 g l where s2: "change_groups K sc gid n gs r1 w1 = (r2, after k2 e2 ?w)" "valid k2"
      "view k2 = (view k1)\<lparr>p_gid := g, p_groups := l\<rparr>" "r2 = 0 \<longrightarrow> g = gid \<and> l = ?l"
      using change_groups_exec [of sc w1 gid n gs] True w1 v1(1) assms(4) by auto
    have "view k2 = ?v\<lparr>p_gid := g, p_groups := l, p_eff := E\<rparr>" using s2(3) v1(2) by simp
    with s2 show ?thesis by blast
  next
    case False
    obtain r2 e2 where s2: "change_groups K sc gid n gs r1 w1 = (r2, after k1 e2 ?w)" "r2 \<noteq> 0"
      using change_groups_skip [of r1 sc gid n gs w1] False v1(3) w1 by auto
    have "view k1 = ?v\<lparr>p_gid := p_gid ?v, p_groups := p_groups ?v, p_eff := E\<rparr>" using v1(2) by simp
    with s2 v1(1) show ?thesis by blast
  qed
  then obtain r2 k2 e2 g l where s2: "change_groups K sc gid n gs r1 w1 = (r2, after k2 e2 ?w)" "valid k2"
    "view k2 = ?v\<lparr>p_gid := g, p_groups := l, p_eff := E\<rparr>" "r2 = 0 \<longrightarrow> g = gid \<and> l = ?l" by blast
  obtain r3 k3 e3 where l3: "lower sc ?p (after k2 e2 ?w) = Some (r3, after k3 e3 (bumped w))" "valid k3"
    "view k3 = (view k2)\<lparr>p_eff := {}\<rparr>"
    using lower_eff [of "after k2 e2 ?w" ?p ?c sc] ready_raised [OF assms(1)] assms(4) c s2 del_raised [OF assms(1)]
    by auto
  have "cap_setgroups_sc K sc gid n gs w = Some (r2, after k3 e2 (bumped w))"
    unfolding cap_setgroups_sc_def lower_bind raise_exec [OF assms(1-3)]
    using s1(1) s2(1) l3(1) by simp
  moreover have "view k3 = ?v\<lparr>p_gid := g, p_groups := l, p_eff := {}\<rparr>" using l3(3) s2(3) by simp
  ultimately show ?thesis using l3(2) s2(4) by blast
qed

end

text \<open>
  C16: \<^verbatim>\<open>cap_setgroups\<close> always returns, with the effective set of the process cleared and
  the permitted, inheritable and ambient sets as they were; when it returns 0 the gid and the
  supplementary groups are those asked for.
\<close>

theorem cap_setgroups_spec:
  assumes "cred_abi K view valid" "wf_world w" "alloc_ok w" "valid (kern w)" "caller_ok K (multithread w) w"
  shows "\<exists>r w' g l. cap_setgroups K gid n gs w = Some (r, w') \<and> heap w' = heap w
     \<and> view (kern w') = (view (kern w))\<lparr>p_gid := g, p_groups := l, p_eff := {}\<rparr>
     \<and> (r = 0 \<longrightarrow> g = gid \<and> l = take (nat n) (case gs of None \<Rightarrow> [] | Some l \<Rightarrow> l))"
proof -
  obtain r k e g l where "cap_setgroups K gid n gs w = Some (r, after k e (bumped w))"
    "view k = (view (kern w))\<lparr>p_gid := g, p_groups := l, p_eff := {}\<rparr>"
    "r = 0 \<longrightarrow> g = gid \<and> l = take (nat n) (case gs of None \<Rightarrow> [] | Some l \<Rightarrow> l)"
    using cred_abi.cap_setgroups_exec [OF assms, of gid n gs] by (auto simp: cap_setgroups_def)
  then show ?thesis by (intro exI [of _ r] exI [of _ "after k e (bumped w)"] exI [of _ g] exI [of _ l]) simp
qed

theorem cap_setgroups_spec_witness:
  "\<exists>r w'. cap_setgroups linux_kernel 7 2 (Some [7, 9]) (machine root_linux) = Some (r, w') \<and> p_eff (lk_view (kern w')) = {}
     \<and> p_per (lk_view (kern w')) = {..<41} \<and> (r = 0 \<longrightarrow> p_groups (lk_view (kern w')) = [7, 9])"
proof -
  obtain r w' g l where "cap_setgroups linux_kernel 7 2 (Some [7, 9]) (machine root_linux) = Some (r, w')"
    "lk_view (kern w') = (lk_view root_linux)\<lparr>p_gid := g, p_groups := l, p_eff := {}\<rparr>" "r = 0 \<longrightarrow> l = [7, 9]"
    using cap_setgroups_spec [OF linux.cred_abi_axioms wf_machine alloc_ok_machine, of root_linux 7 2 "Some [7, 9]"]
      root_valid caller_ok_machine by auto
  then show ?thesis by (auto simp: lk_view_def root_linux_def plain_linux_def)
qed

section \<open>Start-up and the process capabilities\<close>

context cred_abi
begin

lemma max_bits_search:
  assumes "valid (kern w)"
  shows "\<exists>k e. binary_search (cap_get_bound K) 0 64 bits w = (int (p_ncaps (view (kern w))), after k e w)
           \<and> valid k \<and> view k = view (kern w)"
proof -
  let ?v = "view (kern w)"
  define I where "I = (\<lambda>x. \<exists>k e. x = after k e w \<and> valid k \<and> view k = ?v)"
  have n: "0 < p_ncaps ?v" "p_ncaps ?v \<le> 64" using valid_wf [OF assms] by (auto simp: wf_creds_def)
  have probe: "(fst (cap_get_bound K x s) < 0 \<longleftrightarrow> int (p_ncaps ?v) \<le> x) \<and> I (snd (cap_get_bound K x s))"
    if pre: "I s" "0 \<le> x" "x \<le> 64" for x s
  proof -
    obtain k e where s: "s = after k e w" "valid k" "view k = ?v" using pre(1) unfolding I_def by blast
    obtain k' e' where "cap_get_bound K x s =
        (if x < int (p_ncaps ?v) then of_bool (nat x \<in> p_bnd ?v) else - 1, after k' e' w)" "valid k'" "view k' = ?v"
      using s pre(2,3) by - (rule get_bound [of s x], auto cong: if_cong)
    then show ?thesis by (auto simp: I_def)
  qed
  have i: "I w" unfolding I_def using assms after_self [of w] by metis
  from binary_search_correct [of I 64 "cap_get_bound K" "int (p_ncaps ?v)" w bits, OF probe i] n
  have "fst (binary_search (cap_get_bound K) 0 64 bits w) = int (p_ncaps ?v)"
    "I (snd (binary_search (cap_get_bound K) 0 64 bits w))" by simp_all
  then show ?thesis unfolding I_def by (metis prod.collapse)
qed

end

text \<open>
  C19: the constructor \<^verbatim>\<open>_libcap_initialize\<close> finds the number of capabilities of the
  running kernel, whatever \<^verbatim>\<open>__CAP_BITS\<close> the library was built with, keeps
  \<^verbatim>\<open>errno\<close> and releases its mutex; it redirects the system calls only when libpsx is linked.
\<close>

theorem libcap_initialize_spec:
  assumes "cred_abi K view valid" "valid (kern w)" "max_bits w = 0" "libcap_mutex w = 0"
  shows "\<exists>w'. libcap_initialize K link bits w = Some w' \<and> cap_max_bits w' = int (p_ncaps (view (kern w)))
     \<and> errno w' = errno w \<and> libcap_mutex w' = 0 \<and> heap w' = heap w \<and> view (kern w') = view (kern w)
     \<and> (case link of No_psx \<Rightarrow> \<not> overrode_syscalls w' \<and> multithread w' = multithread w
        | Psx f3 f6 \<Rightarrow> overrode_syscalls w' = overrode_syscalls w \<and> multithread w' = \<lparr>three = f3, six = f6\<rparr>)"
proof -
  let ?w = "cap_set_syscall link None (w\<lparr>libcap_mutex := 1\<rparr>)"
  have w: "kern ?w = kern w" "heap ?w = heap w"
    by (cases link; simp add: cap_set_syscall_def psx_load_syscalls_def)+
  obtain k e where "binary_search (cap_get_bound K) 0 64 bits ?w = (int (p_ncaps (view (kern w))), after k e ?w)"
    "view k = view (kern w)"
    using cred_abi.max_bits_search [OF assms(1), of ?w bits] assms(2) w by auto
  then show ?thesis
    using assms(3,4) w by (cases link; simp add: libcap_initialize_def cap_max_bits_def cap_set_syscall_def
        psx_load_syscalls_def after_def)
qed

theorem libcap_initialize_spec_witness:
  "\<exists>w'. libcap_initialize linux_kernel No_psx 38 ((machine root_linux)\<lparr>max_bits := 0\<rparr>) = Some w' \<and> cap_max_bits w' = 41"
proof -
  have "p_ncaps (lk_view root_linux) = 41" by (simp add: lk_view_def root_linux_def plain_linux_def)
  then show ?thesis
    using libcap_initialize_spec [OF linux.cred_abi_axioms, of "(machine root_linux)\<lparr>max_bits := 0\<rparr>" No_psx 38] root_valid
    by (auto simp: machine_def)
qed

text \<open>
  C20: process capabilities round trip: when \<^verbatim>\<open>cap_set_proc\<close> succeeds,
  \<^verbatim>\<open>cap_get_proc\<close> returns a new set with the same three flags, restricted to the
  capabilities the kernel knows; when it fails, \<^verbatim>\<open>cap_get_proc\<close> returns what it would have
  returned before.
\<close>

theorem cap_proc_roundtrip:
  assumes "cred_abi K view valid" "cap_ready w p c" "c_head c = self_head" "alloc_ok w" "valid (kern w)"
    "caller_ok K (multithread w) w"
  shows "\<exists>r w1 w2 d. cap_set_proc K p w = Some (r, w1) \<and> obj_at w1 = obj_at w
     \<and> cap_get_proc K w1 = Some (next_ptr w, w2) \<and> cap_ready w2 (next_ptr w) d
     \<and> (\<forall>s < 3. caps_of d s = (if r = 0 then caps_of c s \<inter> {..<p_ncaps (view (kern w))}
                              else caps_of (proc_cap (view (kern w))) s))"
proof -
  note p = cap_readyD [OF assms(2)]
  let ?v = "view (kern w)"
  obtain r w1 where s: "cap_set_proc K p w = Some (r, w1)" "cred_abi.installed view valid c w r w1"
    using cred_abi.cap_set_proc_exec [OF assms(1-3,6,5)] by (auto simp: cap_set_proc_def)
  obtain k e where w1: "w1 = after k e w" "valid k"
    using cred_abi.installed_frame(1,6) [OF assms(1) s(2)] by metis
  let ?d = "proc_cap (view k)"
  let ?w2 = "new_obj (next_ptr w) sizeof_cap_alloc_s (CapSet ?d) (bumped w1)"
  have get: "cap_get_proc K w1 = Some (next_ptr w, ?w2)"
    using cred_abi.cap_get_proc_exec [OF assms(1), of w1] w1 assms(4) by simp
  have ready: "cap_ready ?w2 (next_ptr w) ?d"
    using p(3) w1(1) wf_new_bumped [of w "CapSet ?d" sizeof_cap_alloc_s] by (simp add: cap_ready_def)
  have v: "view k = (if r = 0 then capset_post (map data_of_flat (c_u c)) ?v else ?v)"
    using s(2) w1(1) by (auto simp: cred_abi.installed_def [OF assms(1)])
  have "caps_of ?d s = (if r = 0 then caps_of c s \<inter> {..<p_ncaps ?v} else caps_of (proc_cap ?v) s)" if "s < 3" for s
  proof -
    have "s = 0 \<or> s = 1 \<or> s = 2" using that by auto
    then show ?thesis
      using caps_of_proc_cap [OF cred_abi.valid_wf [OF assms(1) w1(2)]] v cred_abi.capset_post_cap [OF assms(1) p(4)]
      by (auto simp: Let_def)
  qed
  then show ?thesis using s(1) get ready w1(1) by (intro exI [of _ r] exI [of _ w1] exI [of _ ?w2] exI [of _ ?d]) auto
qed

theorem cap_proc_roundtrip_witness:
  "\<exists>r w1 w2 d. cap_set_proc linux_kernel 24 (with_obj (CapSet (zero_cap LINUX_CAPABILITY_VERSION_3)) (machine root_linux)) = Some (r, w1)
     \<and> cap_get_proc linux_kernel w1 = Some (40, w2) \<and> cap_ready w2 40 d"
proof -
  let ?c = "zero_cap LINUX_CAPABILITY_VERSION_3" 
  let ?w = "with_obj (CapSet ?c) (machine root_linux)"
  have ready: "cap_ready ?w 24 ?c" by (simp add: cap_ready_def wf_with_obj)
  have k: "lk_valid (kern ?w)" using root_valid by simp
  from cap_proc_roundtrip [OF linux.cred_abi_axioms ready _ _ k caller_ok_machine(2)]
  show ?thesis by auto
qed

end
