(* ===== verification/Cap_Mode.thy ===== *)
theory Cap_Mode
  imports Cap_Proc_Spec
begin

text \<open>
  The capability modes of \<^verbatim>\<open>cap_proc.c\<close>: what \<^verbatim>\<open>cap_get_mode\<close> computes from
  the credentials, what \<^verbatim>\<open>cap_set_mode\<close> makes of them, and that the two agree.
\<close>

section \<open>The mode of a set of credentials\<close>

definition mode_of :: "creds \<Rightarrow> nat" where
  "mode_of v =
     (if p_sbits v = 0 then CAP_MODE_HYBRID
      else if p_sbits v \<noteq> CAP_SECURED_BITS_AMBIENT \<or> p_amb v \<noteq> {} then CAP_MODE_UNCERTAIN
      else if p_inh v \<noteq> {} then CAP_MODE_PURE1E
      else if p_per v \<noteq> {} \<or> p_bnd v \<noteq> {} then CAP_MODE_PURE1E_INIT
      else CAP_MODE_NOPRIV)"

lemma secured_bits:
  "CAP_SECURED_BITS_BASIC = 0x2f" "CAP_SECURED_BITS_AMBIENT = 0xef"
  "CAP_SECURED_BITS_AMBIENT \<noteq> 0" "CAP_SECURED_BITS_AMBIENT AND CAP_SECURED_BITS_BASIC = CAP_SECURED_BITS_BASIC"
  by (simp_all add: CAP_SECURED_BITS_AMBIENT_def CAP_SECURED_BITS_BASIC_def SECBIT_def push_bit_eq_mult)

context cred_abi
begin

lemma get_secbits_exec:
  assumes "valid (kern w)"
  shows "\<exists>k e. cap_get_secbits K w = (p_sbits (view (kern w)), after k e w) \<and> valid k \<and> view k = view (kern w)"
proof -
  let ?s = "SysPrctl PR_GET_SECUREBITS 0 0 0 0 0" and ?v = "view (kern w)"
  obtain r w' where rw: "libc K ?s w = (r, w')" by fastforce
  have "outcome ?s w r w'" using outcome_libc [OF assms, of ?s] rw by simp
  then obtain k e where o: "w' = after k e w" "valid k" "0 \<le> r \<Longrightarrow> cap_post ?s r ?v (view k)" "cap_sure ?s ?v \<Longrightarrow> 0 \<le> r"
    by (elim outcomeE) blast
  have "0 \<le> r" using o(4) by (simp add: cap_sure_def)
  then have "view k = ?v" "r = uint (p_sbits ?v)" using o(3) by (simp_all add: cap_post_def prctl_post_def)
  then show ?thesis using rw o(1,2) by (auto simp: cap_get_secbits_def prctl_def)
qed

lemma get_mode_ambient_exec:
  assumes "valid (kern w)" "0 \<le> c" "c \<le> int (p_ncaps (view (kern w)))" "\<forall>x \<in> p_amb (view (kern w)). c \<le> int x"
  shows "\<exists>k e. get_mode_ambient K s old c w = Some (s = CAP_SECURED_BITS_AMBIENT \<and> p_amb (view (kern w)) = {}, after k e w)
           \<and> valid k \<and> view k = view (kern w)"
  using assms
proof (induction "nat (int (p_ncaps (view (kern w))) - c)" arbitrary: c w)
  case 0
  let ?v = "view (kern w)"
  have c: "c = int (p_ncaps ?v)" "c \<noteq> 0" "c < 2 ^ 64" using 0 valid_wf [OF 0(2)] by (auto simp: wf_creds_def)
  obtain k e where g: "cap_get_ambient K c w = (- 1, after k e w)" "valid k" "view k = ?v"
    using 0 c by (elim get_ambient [where c = c and w = w]) auto
  have "p_amb ?v = {}" using valid_wf [OF 0(2)] 0(5) c(1) by (force simp: wf_creds_def)
  then show ?case using g c by (subst get_mode_ambient.simps) auto
next
  case (Suc n)
  let ?v = "view (kern w)"
  have c: "c < int (p_ncaps ?v)" "c < 2 ^ 64" using Suc.hyps(2) valid_wf [OF Suc.prems(1)] by (auto simp: wf_creds_def)
  have n: "n = nat (int (p_ncaps ?v) - (c + 1))" using Suc.hyps(2) c by linarith
  obtain k e where g: "cap_get_ambient K c w = (of_bool (nat c \<in> p_amb ?v), after k e w)" "valid k" "view k = ?v"
    using c Suc.prems by (elim get_ambient [where c = c and w = w]) auto
  show ?case
  proof (cases "nat c \<in> p_amb ?v")
    case True
    then have "get_mode_ambient K s old c w = Some (False, after k e w)"
      using g by (subst get_mode_ambient.simps) simp
    with True g show ?thesis by auto
  next
    case False
    have "\<forall>x \<in> p_amb ?v. c + 1 \<le> int x"
      using False Suc.prems(2,4) by (metis int_nat_eq nat_int order_le_less zle_add1_eq_le zless_add1_eq add1_zle_eq)
    moreover have "get_mode_ambient K s old c w = get_mode_ambient K s old (c + 1) (after k e w)"
      using False g by (subst get_mode_ambient.simps) simp
    ultimately show ?thesis
      using Suc.hyps(1) [of "after k e w" "c + 1"] n Suc.prems c g by simp
  qed
qed

lemma get_mode_bound_exec:
  assumes "valid (kern w)" "0 \<le> c" "c \<le> int (p_ncaps (view (kern w)))" "\<forall>x \<in> p_bnd (view (kern w)). c \<le> int x"
  shows "\<exists>k e. get_mode_bound K c w =
      Some (if p_bnd (view (kern w)) = {} then CAP_MODE_NOPRIV else CAP_MODE_PURE1E_INIT, after k e w)
    \<and> valid k \<and> view k = view (kern w)"
  using assms
proof (induction "nat (int (p_ncaps (view (kern w))) - c)" arbitrary: c w)
  case 0
  let ?v = "view (kern w)"
  have c: "c = int (p_ncaps ?v)" "c < 2 ^ 64" using 0 valid_wf [OF 0(2)] by (auto simp: wf_creds_def)
  obtain k e where g: "cap_get_bound K c w = (- 1, after k e w)" "valid k" "view k = ?v"
    using 0 c by (elim get_bound [where c = c and w = w]) auto
  have "p_bnd ?v = {}" using valid_wf [OF 0(2)] 0(5) c(1) by (force simp: wf_creds_def)
  then show ?case using g c by (subst get_mode_bound.simps) auto
next
  case (Suc n)
  let ?v = "view (kern w)"
  have c: "c < int (p_ncaps ?v)" "c < 2 ^ 64" using Suc.hyps(2) valid_wf [OF Suc.prems(1)] by (auto simp: wf_creds_def)
  have n: "n = nat (int (p_ncaps ?v) - (c + 1))" using Suc.hyps(2) c by linarith
  obtain k e where g: "cap_get_bound K c w = (of_bool (nat c \<in> p_bnd ?v), after k e w)" "valid k" "view k = ?v"
    using c Suc.prems by (elim get_bound [where c = c and w = w]) auto
  show ?case
  proof (cases "nat c \<in> p_bnd ?v")
    case True
    then have "get_mode_bound K c w = Some (CAP_MODE_PURE1E_INIT, after k e w)"
      using g by (subst get_mode_bound.simps) simp
    with True g show ?thesis by auto
  next
    case False
    have "\<forall>x \<in> p_bnd ?v. c + 1 \<le> int x"
      using False Suc.prems(2,4) by (metis int_nat_eq nat_int order_le_less zle_add1_eq_le zless_add1_eq add1_zle_eq)
    moreover have "get_mode_bound K c w = get_mode_bound K (c + 1) (after k e w)"
      using False g by (subst get_mode_bound.simps) simp
    ultimately show ?thesis
      using Suc.hyps(1) [of "after k e w" "c + 1"] n Suc.prems c g by simp
  qed
qed

end

context cred_abi
begin

lemma bumps_after [simp]: "bumps n (after k e w) = after k e (bumps n w)"
  by (simp add: bumps_def after_def)

text \<open>The comparison of the process capabilities with the empty set.\<close>

lemma compare_proc_exec:
  assumes "wf_world w" "mem_ok w" "valid (kern w)"
  shows "do { (working, w) \<leftarrow> cap_get_proc K w;
              (empty, w) \<leftarrow> cap_init K w;
              (ret, cf, w) \<leftarrow>
                (if working = NULL \<or> empty = NULL then Some (- 1, 0, w)
                 else do { (cf, w) \<leftarrow> cap_compare K empty working w; Some (0 :: int, cf, w) });
              (_, w) \<leftarrow> cap_free empty w;
              (_, w) \<leftarrow> cap_free working w;
              f ret cf w }
         = f 0 (compare_loop (zero_cap LINUX_CAPABILITY_VERSION_3) (proc_cap (view (kern w)))) (bumps 3 w)"
proof -
  let ?c = "proc_cap (view (kern w))" and ?z = "zero_cap LINUX_CAPABILITY_VERSION_3"
  let ?p = "next_ptr w"
  define w1 where "w1 = new_obj ?p sizeof_cap_alloc_s (CapSet ?c) (bumped w)"
  let ?q = "next_ptr w1"
  define w2 where "w2 = new_obj ?q sizeof_cap_alloc_s (CapSet ?z) (bumped w1)"
  have wf: "wf_world w1" "wf_world w2" unfolding w1_def w2_def using assms(1) by (simp_all add: wf_new_bumped)
  have pq: "?p \<noteq> ?q" by (simp add: w1_def next_ptr_def)
  have get: "cap_get_proc K w = Some (?p, w1)" using cap_get_proc_exec [OF assms(3)] assms(2) by (simp add: w1_def)
  have init: "cap_init K w1 = Some (?q, w2)" using cap_init_ok [of w1] assms(2) by (simp add: w2_def w1_def)
  have ready: "cap_ready w2 ?q ?z" "cap_ready w2 ?p ?c" using wf pq by (simp_all add: cap_ready_def w2_def w1_def)
  have cmp: "cap_compare K ?q ?p w2 = Some (compare_loop ?z ?c, bumped w2)"
    using cap_compare_exec [OF ready] assms(2) by (simp add: w2_def w1_def)
  have "cap_free ?q (bumped w2) = Some (0, del_obj ?q (bumped w2))"
    by (rule cap_free_set [where c = ?z]) (simp_all add: w2_def)
  moreover have "del_obj ?q (bumped w2) = bumped (bumped w1)"
    using wf_fresh [OF wf(1)] by (simp add: w2_def bumped_def new_obj_def del_obj_def fun_upd_idem)
  ultimately have fq: "cap_free ?q (bumped w2) = Some (0, bumped (bumped w1))" by simp
  have "cap_free ?p (bumped (bumped w1)) = Some (0, del_obj ?p (bumped (bumped w1)))"
    by (rule cap_free_set [where c = ?c]) (simp_all add: w1_def)
  moreover have "del_obj ?p (bumped (bumped w1)) = bumps 3 w"
    using wf_fresh [OF assms(1)] by (simp add: w1_def bumped_def bumps_def new_obj_def del_obj_def fun_upd_idem)
  ultimately have fp: "cap_free ?p (bumped (bumped w1)) = Some (0, bumps 3 w)" by simp
  show ?thesis using get init cmp fq fp by simp
qed

lemma compare_proc_differs:
  assumes "wf_creds v"
  shows "CAP_DIFFERS (compare_loop (zero_cap LINUX_CAPABILITY_VERSION_3) (proc_cap v)) CAP_INHERITABLE \<longleftrightarrow> p_inh v \<noteq> {}"
    "CAP_DIFFERS (compare_loop (zero_cap LINUX_CAPABILITY_VERSION_3) (proc_cap v)) CAP_PERMITTED \<longleftrightarrow> p_per v \<noteq> {}"
    "CAP_DIFFERS (compare_loop (zero_cap LINUX_CAPABILITY_VERSION_3) (proc_cap v)) CAP_EFFECTIVE \<longleftrightarrow> p_eff v \<noteq> {}"
proof -
  have "CAP_DIFFERS (compare_loop (zero_cap LINUX_CAPABILITY_VERSION_3) (proc_cap v)) s \<longleftrightarrow> caps_of (proc_cap v) s \<noteq> {}"
    if "s < 3" for s
    using that by (auto simp: compare_loop_differs caps_of_def)
  with caps_of_proc_cap [OF assms] show
    "CAP_DIFFERS (compare_loop (zero_cap LINUX_CAPABILITY_VERSION_3) (proc_cap v)) CAP_INHERITABLE \<longleftrightarrow> p_inh v \<noteq> {}"
    "CAP_DIFFERS (compare_loop (zero_cap LINUX_CAPABILITY_VERSION_3) (proc_cap v)) CAP_PERMITTED \<longleftrightarrow> p_per v \<noteq> {}"
    "CAP_DIFFERS (compare_loop (zero_cap LINUX_CAPABILITY_VERSION_3) (proc_cap v)) CAP_EFFECTIVE \<longleftrightarrow> p_eff v \<noteq> {}"
    by simp_all
qed

lemma cap_get_mode_exec:
  assumes "wf_world w" "mem_ok w" "valid (kern w)"
  shows "\<exists>n k e. cap_get_mode K w = Some (mode_of (view (kern w)), after k e (bumps n w)) \<and> valid k
           \<and> view k = view (kern w)"
proof -
  let ?v = "view (kern w)"
  note wf = valid_wf [OF assms(3)]
  obtain k1 e1 where s: "cap_get_secbits K w = (p_sbits ?v, after k1 e1 w)" "valid k1" "view k1 = ?v"
    using get_secbits_exec [OF assms(3)] by blast
  have basic: "p_sbits ?v \<noteq> CAP_SECURED_BITS_AMBIENT" if "p_sbits ?v AND CAP_SECURED_BITS_BASIC \<noteq> CAP_SECURED_BITS_BASIC"
    using that secured_bits(4) by auto
  consider "p_sbits ?v = 0 \<or> p_sbits ?v AND CAP_SECURED_BITS_BASIC \<noteq> CAP_SECURED_BITS_BASIC"
    | "p_sbits ?v \<noteq> 0" "p_sbits ?v AND CAP_SECURED_BITS_BASIC = CAP_SECURED_BITS_BASIC" by blast
  then show ?thesis
  proof cases
    case 1
    then have "cap_get_mode K w = Some (mode_of ?v, after k1 e1 (bumps 0 w))"
      using s basic by (auto simp: cap_get_mode_def mode_of_def)
    with s show ?thesis by blast
  next
    case 2
    obtain k2 e2 where a: "get_mode_ambient K (p_sbits ?v) e1 0 (after k1 e1 w) =
        Some (p_sbits ?v = CAP_SECURED_BITS_AMBIENT \<and> p_amb ?v = {}, after k2 e2 w)" "valid k2" "view k2 = ?v"
      using get_mode_ambient_exec [of "after k1 e1 w" 0 "p_sbits ?v" e1] s by auto
    show ?thesis
    proof (cases "p_sbits ?v = CAP_SECURED_BITS_AMBIENT \<and> p_amb ?v = {}")
      case False
      then have "cap_get_mode K w = Some (mode_of ?v, after k2 e2 (bumps 0 w))"
        using 2 s(1) a(1) by (auto simp: cap_get_mode_def mode_of_def)
      with a show ?thesis by blast
    next
      case True
      let ?w = "after k2 e2 w"
      let ?cf = "compare_loop (zero_cap LINUX_CAPABILITY_VERSION_3) (proc_cap ?v)"
      have w: "wf_world ?w" "mem_ok ?w" "valid (kern ?w)" using assms a by simp_all
      obtain k3 e3 where b: "get_mode_bound K 0 (bumps 3 ?w) =
          Some (if p_bnd ?v = {} then CAP_MODE_NOPRIV else CAP_MODE_PURE1E_INIT, after k3 e3 (bumps 3 w))" "valid k3" "view k3 = ?v"
        using get_mode_bound_exec [of "bumps 3 ?w" 0] a by auto
      have "cap_get_mode K w =
          (if p_inh ?v \<noteq> {} then Some (CAP_MODE_PURE1E, bumps 3 ?w)
           else if p_per ?v \<noteq> {} then Some (CAP_MODE_PURE1E_INIT, bumps 3 ?w) else get_mode_bound K 0 (bumps 3 ?w))"
        unfolding cap_get_mode_def using s(1) a(1,3) 2 True wf
        by (simp add: compare_proc_exec [OF w] compare_proc_differs [OF wf] wf_creds_def) auto
      then have "cap_get_mode K w = Some (mode_of ?v, after (if p_inh ?v = {} \<and> p_per ?v = {} then k3 else k2)
          (if p_inh ?v = {} \<and> p_per ?v = {} then e3 else e2) (bumps 3 w))"
        using True 2 b(1) by (auto simp: mode_of_def)
      moreover have "valid (if p_inh ?v = {} \<and> p_per ?v = {} then k3 else k2)"
        "view (if p_inh ?v = {} \<and> p_per ?v = {} then k3 else k2) = ?v" using a b by simp_all
      ultimately show ?thesis by blast
    qed
  qed
qed

end

text \<open>
  C17: \<^verbatim>\<open>cap_get_mode\<close> always returns, with the mode that the definition \<open>mode_of\<close>
  assigns to the credentials of the process, and leaves the credentials and the heap as they were.
\<close>

theorem cap_get_mode_spec:
  assumes "cred_abi K view valid" "wf_world w" "mem_ok w" "valid (kern w)"
  shows "\<exists>w'. cap_get_mode K w = Some (mode_of (view (kern w)), w') \<and> heap w' = heap w \<and> view (kern w') = view (kern w)"
  using cred_abi.cap_get_mode_exec [OF assms] by fastforce

theorem cap_get_mode_spec_witness:
  "\<exists>w'. cap_get_mode linux_kernel (machine root_linux) = Some (CAP_MODE_HYBRID, w') \<and> heap w' = Map.empty"
proof -
  have "mode_of (lk_view root_linux) = CAP_MODE_HYBRID" "heap (machine root_linux) = Map.empty"
    by (simp_all add: mode_of_def lk_view_def root_linux_def plain_linux_def machine_def)
  then show ?thesis
    using cap_get_mode_spec [OF linux.cred_abi_axioms wf_machine mem_ok_machine(1), of root_linux] root_valid by auto
qed

section \<open>Changing the mode\<close>

context cred_abi
begin

lemma wprctl_exec:
  assumes "caller_ok K sc w" "valid (kern w)"
    "\<And>r v v'. cap_post (SysPrctl cmd a b 0 0 0) r v v' \<Longrightarrow> r = 0 \<and> v' = g v"
  shows "\<exists>r k e. libcap_wprctl3 K sc cmd a b w = (r, after k e w) \<and> valid k \<and> r \<le> 0
     \<and> view k = (if r = 0 then g (view (kern w)) else view (kern w))
     \<and> (cap_sure (SysPrctl cmd a b 0 0 0) (view (kern w)) \<longrightarrow> r = 0)"
    "\<exists>r k e. libcap_wprctl6 K sc cmd a b 0 0 0 w = (r, after k e w) \<and> valid k \<and> r \<le> 0
     \<and> view k = (if r = 0 then g (view (kern w)) else view (kern w))
     \<and> (cap_sure (SysPrctl cmd a b 0 0 0) (view (kern w)) \<longrightarrow> r = 0)"
proof -
  have *: "\<exists>k e. w' = after k e w \<and> valid k \<and> r \<le> 0
     \<and> view k = (if r = 0 then g (view (kern w)) else view (kern w))
     \<and> (cap_sure (SysPrctl cmd a b 0 0 0) (view (kern w)) \<longrightarrow> r = 0)"
    if out: "outcome (SysPrctl cmd a b 0 0 0) w r w'" for r w'
  proof -
    from out obtain k e where o: "w' = after k e w" "valid k" "r < 0 \<Longrightarrow> view k = view (kern w)"
      "0 \<le> r \<Longrightarrow> cap_post (SysPrctl cmd a b 0 0 0) r (view (kern w)) (view k)"
      "cap_sure (SysPrctl cmd a b 0 0 0) (view (kern w)) \<Longrightarrow> 0 \<le> r"
      by (elim outcomeE) blast
    show ?thesis
    proof (cases "r < 0")
      case True
      with o show ?thesis by auto
    next
      case False
      with o(4) assms(3) [of r "view (kern w)" "view k"] o(1,2) show ?thesis by auto
    qed
  qed
  show "\<exists>r k e. libcap_wprctl3 K sc cmd a b w = (r, after k e w) \<and> valid k \<and> r \<le> 0
     \<and> view k = (if r = 0 then g (view (kern w)) else view (kern w))
     \<and> (cap_sure (SysPrctl cmd a b 0 0 0) (view (kern w)) \<longrightarrow> r = 0)"
    using * [OF outcome_wprctl3 [OF assms(1,2)]] by (metis prod.collapse)
  show "\<exists>r k e. libcap_wprctl6 K sc cmd a b 0 0 0 w = (r, after k e w) \<and> valid k \<and> r \<le> 0
     \<and> view k = (if r = 0 then g (view (kern w)) else view (kern w))
     \<and> (cap_sure (SysPrctl cmd a b 0 0 0) (view (kern w)) \<longrightarrow> r = 0)"
    using * [OF outcome_wprctl6 [OF assms(1,2)]] by (metis prod.collapse)
qed

lemma set_secbits_exec:
  assumes "caller_ok K sc w" "valid (kern w)"
  shows "\<exists>r k e. cap_set_secbits_sc K sc b w = (r, after k e w) \<and> valid k \<and> r \<le> 0
     \<and> view k = (if r = 0 then (view (kern w))\<lparr>p_sbits := b\<rparr> else view (kern w))"
  using wprctl_exec(1) [OF assms, of PR_SET_SECUREBITS "uint b" 0 "\<lambda>v. v\<lparr>p_sbits := b\<rparr>"]
  by (auto simp: cap_set_secbits_sc_def cap_post_def prctl_post_def)

lemma no_new_privs_exec:
  assumes "caller_ok K sc w" "valid (kern w)"
  shows "\<exists>k e. cap_set_no_new_privs_sc K sc w = after k e w \<and> valid k \<and> view k = view (kern w)"
  using wprctl_exec(2) [OF assms, of PR_SET_NO_NEW_PRIVS 1 0 id]
  by (auto simp: cap_set_no_new_privs_sc_def cap_post_def prctl_post_def)

lemma drop_bound_exec:
  assumes "caller_ok K sc w" "valid (kern w)" "0 \<le> c" "c < 2 ^ 64"
  shows "\<exists>r k e. cap_drop_bound_sc K sc c w = (r, after k e w) \<and> valid k \<and> r \<le> 0
     \<and> view k = (if r = 0 then (view (kern w))\<lparr>p_bnd := p_bnd (view (kern w)) - {nat c}\<rparr> else view (kern w))
     \<and> (CAP_SETPCAP \<in> p_eff (view (kern w)) \<longrightarrow> c < int (p_ncaps (view (kern w))) \<longrightarrow> r = 0)"
  using wprctl_exec(1) [OF assms(1,2), of PR_CAPBSET_DROP c 0 "\<lambda>v. v\<lparr>p_bnd := p_bnd v - {nat c}\<rparr>"] assms(3,4)
  by (auto simp: cap_drop_bound_sc_def cap_post_def prctl_post_def cap_sure_def)

lemma drop_all_bounds_exec:
  assumes "caller_ok K sc w" "valid (kern w)" "0 \<le> c" "c \<le> int (p_ncaps (view (kern w)))"
  shows "\<exists>k e B. drop_all_bounds K sc c w = Some (after k e w) \<and> valid k \<and> view k = (view (kern w))\<lparr>p_bnd := B\<rparr>
     \<and> B \<subseteq> p_bnd (view (kern w)) \<and> (CAP_SETPCAP \<in> p_eff (view (kern w)) \<longrightarrow> (\<forall>x \<in> B. int x < c))"
  using assms
proof (induction "nat (int (p_ncaps (view (kern w))) - c)" arbitrary: c w)
  case 0
  let ?v = "view (kern w)"
  have c: "c = int (p_ncaps ?v)" "c < 2 ^ 64" using 0 valid_wf [OF 0(3)] by (auto simp: wf_creds_def)
  obtain k e where g: "cap_get_bound K c w = (- 1, after k e w)" "valid k" "view k = ?v"
    using 0 c by (elim get_bound [where c = c and w = w]) auto
  have "drop_all_bounds K sc c w = Some (after k e w)" using g by (subst drop_all_bounds.simps) simp
  moreover have "view k = ?v\<lparr>p_bnd := p_bnd ?v\<rparr>" "\<forall>x \<in> p_bnd ?v. int x < c"
    using g valid_wf [OF 0(3)] c(1) by (auto simp: wf_creds_def)
  ultimately show ?case using g(2) by blast
next
  case (Suc n)
  let ?v = "view (kern w)"
  have c: "c < int (p_ncaps ?v)" "c < 2 ^ 64" using Suc.hyps(2) valid_wf [OF Suc.prems(2)] by (auto simp: wf_creds_def)
  obtain k e where g: "cap_get_bound K c w = (of_bool (nat c \<in> p_bnd ?v), after k e w)" "valid k" "view k = ?v"
    using c Suc.prems by (elim get_bound [where c = c and w = w]) auto
  obtain r k' e' where d: "cap_drop_bound_sc K sc c (after k e w) = (r, after k' e' w)" "valid k'"
    "view k' = (if r = 0 then ?v\<lparr>p_bnd := p_bnd ?v - {nat c}\<rparr> else ?v)" "CAP_SETPCAP \<in> p_eff ?v \<Longrightarrow> r = 0"
    using drop_bound_exec [of sc "after k e w" c] Suc.prems c g by auto
  have n: "n = nat (int (p_ncaps (view k')) - (c + 1))" using Suc.hyps(2) c d(3) by auto
  have n2: "c + 1 \<le> int (p_ncaps (view k'))" using c d(3) by auto
  obtain k2 e2 B where ih: "drop_all_bounds K sc (c + 1) (after k' e' w) = Some (after k2 e2 w)" "valid k2"
    "view k2 = (view k')\<lparr>p_bnd := B\<rparr>" "B \<subseteq> p_bnd (view k')" "CAP_SETPCAP \<in> p_eff (view k') \<longrightarrow> (\<forall>x \<in> B. int x < c + 1)"
    using Suc.hyps(1) [of "after k' e' w" "c + 1"] n n2 Suc.prems d(2) by auto
  have "drop_all_bounds K sc c w = Some (after k2 e2 w)"
    using g d(1) ih(1) by (subst drop_all_bounds.simps) simp
  moreover have "view k2 = ?v\<lparr>p_bnd := B\<rparr>" "B \<subseteq> p_bnd ?v" using ih d(3) by (auto split: if_splits)
  moreover have "\<forall>x \<in> B. int x < c" if "CAP_SETPCAP \<in> p_eff ?v"
    using ih(4,5) d(3,4) that Suc.prems(3) by (force split: if_splits)
  ultimately show ?case using ih(2) by blast
qed

lemma ambient_supported_exec:
  assumes "valid (kern w)"
  shows "\<exists>k e. CAP_AMBIENT_SUPPORTED K w = (True, after k e w) \<and> valid k \<and> view k = view (kern w)"
proof -
  obtain k e where "cap_get_ambient K 0 w = (of_bool (0 \<in> p_amb (view (kern w))), after k e w)" "valid k"
    "view k = view (kern w)"
    using valid_wf [OF assms] by - (rule get_ambient [OF assms, of 0], auto simp: wf_creds_def)
  then show ?thesis by (auto simp: CAP_AMBIENT_SUPPORTED_def)
qed

end

context cred_abi
begin

text \<open>The credentials a successful \<^verbatim>\<open>lock_down\<close> leaves.\<close>

definition locked_down :: "nat \<Rightarrow> creds \<Rightarrow> creds" where
  "locked_down flavor v = v\<lparr>p_amb := {}, p_sbits := CAP_SECURED_BITS_AMBIENT,
     p_bnd := (if flavor = CAP_MODE_NOPRIV then {} else p_bnd v)\<rparr>"

lemma lock_down_exec:
  assumes "cap_ready w p c" "caller_ok K sc w" "valid (kern w)" "CAP_SETPCAP \<in> p_eff (view (kern w))"
  shows "\<exists>r k e c'. lock_down K sc flavor p w = Some (r, after k e (put_obj p (CapSet c') w)) \<and> valid k \<and> r \<le> 0
     \<and> p_per (view k) = p_per (view (kern w)) \<and> p_inh (view k) = p_inh (view (kern w)) \<and> ids (view k) = ids (view (kern w))
     \<and> (c' = c \<or> c' = clear_flag_loop CAP_PERMITTED c)
     \<and> (r = 0 \<longrightarrow> view k = locked_down flavor (view (kern w))
          \<and> c' = (if flavor = CAP_MODE_NOPRIV then clear_flag_loop CAP_PERMITTED c else c))"
proof -
  let ?v = "view (kern w)"
  note p = cap_readyD [OF assms(1)]
  obtain k1 e1 where a: "CAP_AMBIENT_SUPPORTED K w = (True, after k1 e1 w)" "valid k1" "view k1 = ?v"
    using ambient_supported_exec [OF assms(3)] by blast
  obtain r2 k2 e2 where b: "cap_reset_ambient_sc K sc (after k1 e1 w) = Some (r2, after k2 e2 w)" "valid k2" "r2 \<le> 0"
    "view k2 = (if r2 = 0 then ?v\<lparr>p_amb := {}\<rparr> else ?v)"
    using cap_reset_ambient_exec [of "after k1 e1 w" sc] assms(2) a by (auto cong: if_cong)
  have same: "put_obj p (CapSet c) w = w" using p by (simp add: put_same)
  show ?thesis
  proof (cases "r2 = 0")
    case False
    then have "lock_down K sc flavor p w = Some (r2, after k2 e2 (put_obj p (CapSet c) w))"
      using a b same by (simp add: lock_down_def)
    then show ?thesis using False b by (intro exI [of _ r2] exI [of _ k2] exI [of _ e2] exI [of _ c]) simp
  next
    case True
    obtain r3 k3 e3 where s: "cap_set_secbits_sc K sc CAP_SECURED_BITS_AMBIENT (after k2 e2 w) = (r3, after k3 e3 w)"
      "valid k3" "r3 \<le> 0" "view k3 = (if r3 = 0 then (view k2)\<lparr>p_sbits := CAP_SECURED_BITS_AMBIENT\<rparr> else view k2)"
      using set_secbits_exec [of sc "after k2 e2 w" CAP_SECURED_BITS_AMBIENT] assms(2) b by (auto cong: if_cong)
    have v3: "view k3 = ?v\<lparr>p_amb := {}, p_sbits := (if r3 = 0 then CAP_SECURED_BITS_AMBIENT else p_sbits ?v)\<rparr>"
      using s(4) b(4) True by simp
    show ?thesis
    proof (cases "flavor = CAP_MODE_NOPRIV")
      case False
      have "lock_down K sc flavor p w = Some (r3, after k3 e3 (put_obj p (CapSet c) w))"
        using a b s(1) same True False by (simp add: lock_down_def)
      moreover have "r3 = 0 \<longrightarrow> view k3 = locked_down flavor ?v" using v3 False by (simp add: locked_down_def)
      ultimately show ?thesis using False v3 s
        by (intro exI [of _ r3] exI [of _ k3] exI [of _ e3] exI [of _ c]) simp
    next
      case True
      have "CAP_SETPCAP \<in> p_eff (view k3)" using v3 assms(4) by simp
      then obtain k4 e4 B where d0: "drop_all_bounds K sc 0 (after k3 e3 w) = Some (after k4 e4 w)" "valid k4"
        "view k4 = (view k3)\<lparr>p_bnd := B\<rparr>" "\<forall>x \<in> B. int x < 0"
        using drop_all_bounds_exec [of sc "after k3 e3 w" 0] assms(2) s(2) by (simp only: after_simps) auto
      then have "B = {}" by auto
      with d0 have d: "drop_all_bounds K sc 0 (after k3 e3 w) = Some (after k4 e4 w)" "valid k4"
        "view k4 = (view k3)\<lparr>p_bnd := {}\<rparr>" by simp_all
      let ?c = "clear_flag_loop CAP_PERMITTED c"
      have clr: "cap_clear_flag p (int CAP_PERMITTED) (after k4 e4 w) = Some (0, after k4 e4 (put_obj p (CapSet ?c) w))"
        using cap_clear_flag_exec [of "after k4 e4 w" p c 1] assms(1) by simp
      obtain k5 e5 where n: "cap_set_no_new_privs_sc K sc (after k4 e4 (put_obj p (CapSet ?c) w)) =
          after k5 e5 (put_obj p (CapSet ?c) w)" "valid k5" "view k5 = view k4"
        using no_new_privs_exec [of sc "after k4 e4 (put_obj p (CapSet ?c) w)"] assms(2) d by auto
      have "lock_down K sc flavor p w = Some (r3, after k5 e5 (put_obj p (CapSet ?c) w))"
        using a b s(1) d(1) clr n(1) True \<open>r2 = 0\<close> by (simp add: lock_down_def)
      moreover have "r3 = 0 \<longrightarrow> view k5 = locked_down flavor ?v" using v3 True n d by (simp add: locked_down_def)
      ultimately show ?thesis using True v3 s d n
        by (intro exI [of _ r3] exI [of _ k5] exI [of _ e5] exI [of _ ?c]) simp
    qed
  qed
qed

text \<open>The working copy and the credentials after a successful switch, for each flavour.\<close>

definition flavor_cap :: "nat \<Rightarrow> cap_struct \<Rightarrow> cap_struct" where
  "flavor_cap flavor c =
     (let c = (if flavor = CAP_MODE_NOPRIV \<or> flavor = CAP_MODE_PURE1E_INIT then clear_flag_loop CAP_INHERITABLE c else c)
      in if flavor = CAP_MODE_NOPRIV then clear_flag_loop CAP_PERMITTED c else c)"

definition flavor_view :: "nat \<Rightarrow> creds \<Rightarrow> creds" where
  "flavor_view flavor v = (if flavor = CAP_MODE_HYBRID then v\<lparr>p_sbits := 0\<rparr> else locked_down flavor v)"

lemma set_mode_flavor_exec:
  assumes "cap_ready w p c" "caller_ok K sc w" "valid (kern w)" "CAP_SETPCAP \<in> p_eff (view (kern w))"
  shows "\<exists>r k e c'. set_mode_flavor K sc flavor p w = Some (r, after k e (put_obj p (CapSet c') w)) \<and> valid k \<and> r \<le> 0
     \<and> p_per (view k) = p_per (view (kern w)) \<and> p_inh (view k) = p_inh (view (kern w)) \<and> ids (view k) = ids (view (kern w))
     \<and> wf_cap c' \<and> c_mutex c' = 0 \<and> c_head c' = c_head c
     \<and> caps_of c' CAP_PERMITTED \<subseteq> caps_of c CAP_PERMITTED \<and> caps_of c' CAP_INHERITABLE \<subseteq> caps_of c CAP_INHERITABLE
     \<and> (r = 0 \<longrightarrow> flavor \<in> {1, 2, 3, 4} \<and> view k = flavor_view flavor (view (kern w)) \<and> c' = flavor_cap flavor c)"
proof -
  let ?v = "view (kern w)"
  note p = cap_readyD [OF assms(1)]
  have same: "put_obj p (CapSet c) w = w" using p by (simp add: put_same)
  consider "flavor = 1 \<or> flavor = 2" | "flavor = 3" | "flavor = 4" | "flavor \<notin> {1, 2, 3, 4}" by blast
  then show ?thesis
  proof cases
    case 1
    let ?c = "clear_flag_loop CAP_INHERITABLE c"
    let ?w = "put_obj p (CapSet ?c) w"
    have ready: "cap_ready ?w p ?c" using assms(1) p by (simp add: cap_ready_put)
    have clr: "cap_clear_flag p (int CAP_INHERITABLE) w = Some (0, ?w)"
      using cap_clear_flag_exec [OF assms(1), of 2] by simp
    obtain r k e c' where l: "lock_down K sc flavor p ?w = Some (r, after k e (put_obj p (CapSet c') w))" "valid k" "r \<le> 0"
      "p_per (view k) = p_per ?v" "p_inh (view k) = p_inh ?v" "ids (view k) = ids ?v" "c' = ?c \<or> c' = clear_flag_loop CAP_PERMITTED ?c"
      "r = 0 \<longrightarrow> view k = locked_down flavor ?v \<and> c' = (if flavor = 1 then clear_flag_loop CAP_PERMITTED ?c else ?c)"
      using lock_down_exec [OF ready, of sc flavor] assms by auto
    have "set_mode_flavor K sc flavor p w = Some (r, after k e (put_obj p (CapSet c') w))"
      using 1 clr l(1) by (auto simp: set_mode_flavor_def)
    moreover have "wf_cap c'" "c_mutex c' = 0" "c_head c' = c_head c"
      "caps_of c' CAP_PERMITTED \<subseteq> caps_of c CAP_PERMITTED" "caps_of c' CAP_INHERITABLE \<subseteq> caps_of c CAP_INHERITABLE"
      using l(7) p by (auto simp: caps_of_clear)
    moreover have "r = 0 \<longrightarrow> flavor \<in> {1, 2, 3, 4} \<and> view k = flavor_view flavor ?v \<and> c' = flavor_cap flavor c"
      using l(8) 1 by (auto simp: flavor_view_def flavor_cap_def)
    ultimately show ?thesis using l(2-6) by blast
  next
    case 2
    obtain r k e c' where l: "lock_down K sc flavor p w = Some (r, after k e (put_obj p (CapSet c') w))" "valid k" "r \<le> 0"
      "p_per (view k) = p_per ?v" "p_inh (view k) = p_inh ?v" "ids (view k) = ids ?v" "c' = c \<or> c' = clear_flag_loop CAP_PERMITTED c"
      "r = 0 \<longrightarrow> view k = locked_down flavor ?v \<and> c' = (if flavor = 1 then clear_flag_loop CAP_PERMITTED c else c)"
      using lock_down_exec [OF assms(1), of sc flavor] assms by blast
    have "set_mode_flavor K sc flavor p w = Some (r, after k e (put_obj p (CapSet c') w))"
      using 2 l(1) by (simp add: set_mode_flavor_def)
    moreover have "wf_cap c'" "c_mutex c' = 0" "c_head c' = c_head c"
      "caps_of c' CAP_PERMITTED \<subseteq> caps_of c CAP_PERMITTED" "caps_of c' CAP_INHERITABLE \<subseteq> caps_of c CAP_INHERITABLE"
      using l(7) p by (auto simp: caps_of_clear)
    moreover have "r = 0 \<longrightarrow> flavor \<in> {1, 2, 3, 4} \<and> view k = flavor_view flavor ?v \<and> c' = flavor_cap flavor c"
      using l(8) 2 by (auto simp: flavor_view_def flavor_cap_def)
    ultimately show ?thesis using l(2-6) by blast
  next
    case 3
    obtain r k e where s: "cap_set_secbits_sc K sc 0 w = (r, after k e w)" "valid k" "r \<le> 0"
      "view k = (if r = 0 then ?v\<lparr>p_sbits := 0\<rparr> else ?v)"
      using set_secbits_exec [OF assms(2,3)] by blast
    show ?thesis using 3 s p same
      by (intro exI [of _ r] exI [of _ k] exI [of _ e] exI [of _ c])
        (simp add: set_mode_flavor_def flavor_view_def flavor_cap_def)
  next
    case 4
    have "set_mode_flavor K sc flavor p w = Some (- 1, after (kern w) EINVAL w)"
      using 4 by (simp add: set_mode_flavor_def after_def)
    with same p assms(3) show ?thesis
      by (intro exI [of _ "- 1"] exI [of _ "kern w"] exI [of _ EINVAL] exI [of _ c]) simp
  qed
qed

end

context cred_abi
begin

lemma flavor_mode:
  assumes "wf_creds v" "CAP_SETPCAP \<in> p_eff v" "flavor \<in> {1, 2, 3, 4}" "wf_cap c"
    "caps_of c CAP_PERMITTED = p_per v" "caps_of c CAP_INHERITABLE = p_inh v"
  shows "mode_of (capset_post (map data_of_flat (c_u (clear_flag_loop CAP_EFFECTIVE (flavor_cap flavor c))))
             (flavor_view flavor v)) = (if flavor = CAP_MODE_PURE1E \<and> p_inh v = {} then CAP_MODE_PURE1E_INIT else flavor)"
proof -
  have "p_per v \<inter> {..<p_ncaps v} = p_per v" "p_inh v \<inter> {..<p_ncaps v} = p_inh v" "p_per v \<noteq> {}"
    using assms(1,2) by (auto simp: wf_creds_def)
  with assms(3-) show ?thesis
    by (auto simp: capset_post_cap caps_of_clear flavor_cap_def flavor_view_def locked_down_def mode_of_def
        Let_def secured_bits(3))
qed

lemma cap_set_mode_exec:
  assumes "wf_world w" "alloc_ok w" "valid (kern w)" "caller_ok K sc w"
  shows "\<exists>r k e. cap_set_mode_sc K sc flavor w = Some (r, after k e (bumped w)) \<and> valid k \<and> p_eff (view k) = {}
     \<and> ids (view k) = ids (view (kern w))
     \<and> (r = 0 \<longrightarrow> mode_of (view k) =
          (if flavor = CAP_MODE_PURE1E \<and> p_inh (view (kern w)) = {} then CAP_MODE_PURE1E_INIT else flavor))"
proof -
  let ?p = "next_ptr w" and ?v = "view (kern w)" and ?c = "raised CAP_SETPCAP (view (kern w))"
  let ?w = "with_raised CAP_SETPCAP w"
  note wf = valid_wf [OF assms(3)]
  have c: "caps_of ?c CAP_EFFECTIVE = insert CAP_SETPCAP (p_eff ?v)" "caps_of ?c CAP_PERMITTED = p_per ?v"
    "caps_of ?c CAP_INHERITABLE = p_inh ?v"
    using caps_of_raised [OF wf] by (auto simp: CAP_SETPCAP_def)
  have "\<exists>r w'. cap_set_proc_sc K sc ?p ?w = Some (r, w') \<and> installed ?c ?w r w'"
    using ready_raised [OF assms(1)] assms(3,4) by (intro cap_set_proc_exec) auto
  then obtain r1 w1 where s1: "cap_set_proc_sc K sc ?p ?w = Some (r1, w1)" "installed ?c ?w r1 w1" by blast
  obtain k1 e1 where w1: "w1 = after k1 e1 ?w" using installed_frame(6) [OF s1(2)] by auto
  have v1: "valid k1" "view k1 = ?v\<lparr>p_eff := (if r1 = 0 then insert CAP_SETPCAP (p_eff ?v) \<inter> {..<p_ncaps ?v} else p_eff ?v)\<rparr>"
    using installed_frame(1) [OF s1(2)] installed_same [OF s1(2)] assms(3) c w1 by auto
  have ready1: "cap_ready w1 ?p ?c" using ready_raised [OF assms(1)] w1 by simp
  have "\<exists>r2 k2 e2 c2. (if r1 = 0 then set_mode_flavor K sc flavor ?p w1 else Some (r1, w1)) =
        Some (r2, after k2 e2 (put_obj ?p (CapSet c2) ?w)) \<and> valid k2
     \<and> p_per (view k2) = p_per ?v \<and> p_inh (view k2) = p_inh ?v \<and> ids (view k2) = ids ?v \<and> wf_cap c2 \<and> c_mutex c2 = 0 \<and> c_head c2 = self_head
     \<and> caps_of c2 CAP_PERMITTED \<subseteq> p_per ?v \<and> caps_of c2 CAP_INHERITABLE \<subseteq> p_inh ?v
     \<and> (r2 = 0 \<longrightarrow> r1 = 0 \<and> flavor \<in> {1, 2, 3, 4} \<and> view k2 = flavor_view flavor (view k1) \<and> c2 = flavor_cap flavor ?c)"
  proof (cases "r1 = 0")
    case True
    have "CAP_SETPCAP \<in> p_eff (view k1)" using v1(2) True wf by (auto simp: wf_creds_def)
    then obtain r2 k2 e2 c2 where f: "set_mode_flavor K sc flavor ?p w1 = Some (r2, after k2 e2 (put_obj ?p (CapSet c2) w1))"
      "valid k2" "p_per (view k2) = p_per (view k1)" "p_inh (view k2) = p_inh (view k1)" "ids (view k2) = ids (view k1)" "wf_cap c2" "c_mutex c2 = 0"
      "c_head c2 = self_head" "caps_of c2 CAP_PERMITTED \<subseteq> p_per ?v" "caps_of c2 CAP_INHERITABLE \<subseteq> p_inh ?v"
      "r2 = 0 \<longrightarrow> flavor \<in> {1, 2, 3, 4} \<and> view k2 = flavor_view flavor (view k1) \<and> c2 = flavor_cap flavor ?c"
      using set_mode_flavor_exec [OF ready1, of sc flavor] assms(4) v1(1) w1 c
      by (simp only: after_simps with_raised_simps raised_fields) blast
    have "p_per (view k1) = p_per ?v" "p_inh (view k1) = p_inh ?v" "ids (view k1) = ids ?v" using v1(2) by simp_all
    with f True w1 show ?thesis
      by (intro exI [of _ r2] exI [of _ k2] exI [of _ e2] exI [of _ c2]) simp
  next
    case False
    have "put_obj ?p (CapSet ?c) ?w = ?w" using ready_raised [OF assms(1)] by (simp add: put_same cap_ready_def)
    with False v1 w1 c show ?thesis
      by (intro exI [of _ r1] exI [of _ k1] exI [of _ e1] exI [of _ ?c]) simp
  qed
  then obtain r2 k2 e2 c2 where s2: "(if r1 = 0 then set_mode_flavor K sc flavor ?p w1 else Some (r1, w1)) =
        Some (r2, after k2 e2 (put_obj ?p (CapSet c2) ?w))" "valid k2"
    "p_per (view k2) = p_per ?v" "p_inh (view k2) = p_inh ?v" "wf_cap c2" "c_mutex c2 = 0" "c_head c2 = self_head"
    "caps_of c2 CAP_PERMITTED \<subseteq> p_per ?v" "caps_of c2 CAP_INHERITABLE \<subseteq> p_inh ?v"
    "r2 = 0 \<longrightarrow> r1 = 0 \<and> flavor \<in> {1, 2, 3, 4} \<and> view k2 = flavor_view flavor (view k1) \<and> c2 = flavor_cap flavor ?c"
    "ids (view k2) = ids ?v"
    by blast
  let ?w2 = "after k2 e2 (put_obj ?p (CapSet c2) ?w)"
  have ready2: "cap_ready ?w2 ?p c2" using cap_ready_put [OF ready_raised [OF assms(1)] s2(5,6)] by simp
  obtain r3 w3 where l: "lower sc ?p ?w2 = Some (r3, del_obj ?p w3)"
    "installed (clear_flag_loop CAP_EFFECTIVE c2) ?w2 r3 w3"
    using lower_exec [OF ready2, of sc] s2(2,7) assms(4) by auto
  obtain k3 e3 where w3: "w3 = after k3 e3 ?w2" using installed_frame(6) [OF l(2)] by blast
  have "p_eff (view k3) = {}"
    using installed_lowered_eff [OF l(2) s2(5)] s2(3,4,8,9) w3 by simp
  moreover have "ids (view k3) = ids ?v" using installed_ids [OF l(2)] w3 s2(11) by simp
  moreover have "cap_set_mode_sc K sc flavor w = Some (r3 OR r2, after k3 e3 (bumped w))"
    unfolding cap_set_mode_sc_def lower_bind raise_exec [OF assms(1-3)]
    using s1(1) s2(1) l(1) w3 del_raised [OF assms(1)] by (cases "r1 = 0") simp_all
  moreover have "mode_of (view k3) = (if flavor = CAP_MODE_PURE1E \<and> p_inh ?v = {} then CAP_MODE_PURE1E_INIT else flavor)"
    if "r3 OR r2 = 0"
  proof -
    have z: "r3 = 0" "r2 = 0" using that by (simp_all add: or_eq_0_iff)
    have "view k3 = capset_post (map data_of_flat (c_u (clear_flag_loop CAP_EFFECTIVE (flavor_cap flavor ?c))))
        (flavor_view flavor (view k1))"
      using l(2) w3 z s2(10) by (auto simp: installed_def)
    moreover have "CAP_SETPCAP \<in> p_eff (view k1)" using v1(2) z s2(10) wf by (auto simp: wf_creds_def)
    ultimately show ?thesis
      using flavor_mode [of "view k1" flavor ?c] valid_wf [OF v1(1)] z s2(10) c v1(2) by simp
  qed
  ultimately show ?thesis using installed_frame(1) [OF l(2)] w3 by auto
qed

end

text \<open>
  C18: \<^verbatim>\<open>cap_set_mode\<close>, for any flavour and whether it succeeds or fails, returns with the
  effective set of the process cleared and gives back the memory it used; when it returns 0,
  \<^verbatim>\<open>cap_get_mode\<close> reports the flavour that was asked for, except that a process without
  inheritable capabilities that asked for \<^verbatim>\<open>PURE1E\<close> is reported as
  \<^verbatim>\<open>PURE1E_INIT\<close>.
\<close>

theorem cap_set_mode_spec:
  assumes "cred_abi K view valid" "wf_world w" "mem_ok w" "valid (kern w)" "caller_ok K (multithread w) w"
  shows "\<exists>r w1. cap_set_mode K flavor w = Some (r, w1) \<and> heap w1 = heap w \<and> p_eff (view (kern w1)) = {}
     \<and> (r = 0 \<longrightarrow> (\<exists>w2. cap_get_mode K w1 =
          Some (if flavor = CAP_MODE_PURE1E \<and> p_inh (view (kern w)) = {} then CAP_MODE_PURE1E_INIT else flavor, w2)))"
proof -
  obtain r k e where s: "cap_set_mode K flavor w = Some (r, after k e (bumped w))" "valid k" "p_eff (view k) = {}"
    "r = 0 \<longrightarrow> mode_of (view k) = (if flavor = CAP_MODE_PURE1E \<and> p_inh (view (kern w)) = {} then CAP_MODE_PURE1E_INIT else flavor)"
    using cred_abi.cap_set_mode_exec [OF assms(1,2) _ assms(4,5), of flavor] assms(3) by (auto simp: cap_set_mode_def)
  obtain n k' e' where "cap_get_mode K (after k e (bumped w)) = Some (mode_of (view k), after k' e' (bumps n (after k e (bumped w))))"
    using cred_abi.cap_get_mode_exec [OF assms(1), of "after k e (bumped w)"] assms(2,3) s(2) wf_bumped by auto
  with s show ?thesis by auto
qed

theorem cap_set_mode_spec_witness:
  "\<exists>r w1. cap_set_mode linux_kernel CAP_MODE_NOPRIV (machine root_linux) = Some (r, w1) \<and> p_eff (lk_view (kern w1)) = {}"
  using cap_set_mode_spec [OF linux.cred_abi_axioms wf_machine mem_ok_machine(1), of root_linux CAP_MODE_NOPRIV]
    root_valid caller_ok_machine by auto

end
