(* ===== verification/Cap_Iab_Proc.thy ===== *)
theory Cap_Iab_Proc
  imports Cap_Mode
begin

text \<open>
  Reading and installing the IAB tuple of the calling process
  (\<^verbatim>\<open>cap_iab_get_proc\<close>, \<^verbatim>\<open>cap_iab_set_proc\<close>).
\<close>

section \<open>Vectors as sets of numbers\<close>

definition vec_set :: "u32 list \<Rightarrow> nat set" where
  "vec_set v = {x. x < 64 \<and> vec_isset v x}"

lemma vec_set_iff: "x \<in> vec_set v \<longleftrightarrow> x < 64 \<and> vec_isset v x"
  by (simp add: vec_set_def)

lemma vec_set_raise: "length v = 2 \<Longrightarrow> x < 64 \<Longrightarrow> vec_set (vec_raise x v) = insert x (vec_set v)"
  by (auto simp: vec_set_def)

lemma vec_set_zero: "vec_set [0, 0] = {}"
proof -
  have "\<not> vec_isset [0, 0] x" if "x < 64" for x
  proof -
    have "x div 32 = 0 \<or> x div 32 = 1" using that by auto
    then show ?thesis by (auto simp: vec_isset_def)
  qed
  then show ?thesis by (auto simp: vec_set_def)
qed

lemma vec_set_empty: "length v = 2 \<Longrightarrow> vec_set v \<noteq> {} \<Longrightarrow> \<exists>i \<in> {..<2}. v ! i \<noteq> 0"
proof -
  assume "length v = 2" "vec_set v \<noteq> {}"
  then obtain x where x: "x < 64" "vec_isset v x" by (auto simp: vec_set_def)
  then have "v ! (x div 32) \<noteq> 0" by (auto simp: vec_isset_def)
  with x(1) show ?thesis by (intro bexI [of _ "x div 32"]) auto
qed

section \<open>Reading\<close>

context cred_abi
begin

lemma iab_get_loop_exec:
  assumes "valid (kern w)" "c \<le> p_ncaps (view (kern w))" "wf_iab t"
  shows "\<exists>u k e. iab_get_loop K c t w = (u, after k e w) \<and> valid k \<and> view k = view (kern w) \<and> wf_iab u
     \<and> i_mutex u = i_mutex t \<and> iab_i u = iab_i t
     \<and> vec_set (iab_a u) = vec_set (iab_a t) \<union> (p_amb (view (kern w)) \<inter> {..<c})
     \<and> vec_set (iab_nb u) = vec_set (iab_nb t) \<union> ({..<c} - p_bnd (view (kern w)))"
  using assms
proof (induction c arbitrary: t w)
  case 0
  have "iab_get_loop K 0 t w = (t, after (kern w) (errno w) w)" by (simp add: after_self)
  with 0 show ?case by auto
next
  case (Suc c)
  let ?v = "view (kern w)"
  have c: "c < p_ncaps ?v" "c < 64" using Suc.prems valid_wf [OF Suc.prems(1)] by (auto simp: wf_creds_def)
  obtain k1 e1 where b: "cap_get_bound K (int c) w = (of_bool (c \<in> p_bnd ?v), after k1 e1 w)" "valid k1" "view k1 = ?v"
    using c Suc.prems by - (rule get_bound [of w "int c"], auto)
  let ?t1 = "if c \<in> p_bnd ?v then t else t\<lparr>iab_nb := vec_raise c (iab_nb t)\<rparr>"
  obtain k2 e2 where a: "cap_get_ambient K (int c) (after k1 e1 w) = (of_bool (c \<in> p_amb ?v), after k2 e2 w)" "valid k2" "view k2 = ?v"
    using c b by - (rule get_ambient [of "after k1 e1 w" "int c"], auto)
  let ?t2 = "if c \<in> p_amb ?v then ?t1\<lparr>iab_a := vec_raise c (iab_a ?t1)\<rparr> else ?t1"
  have len: "length (iab_a t) = 2" "length (iab_nb t) = 2" "length (iab_i t) = 2"
    using Suc.prems(3) by simp_all
  have wf2: "wf_iab ?t2" using Suc.prems(3) len by simp
  obtain u k e where ih: "iab_get_loop K c ?t2 (after k2 e2 w) = (u, after k e w)" "valid k" "view k = ?v" "wf_iab u"
    "i_mutex u = i_mutex ?t2" "iab_i u = iab_i ?t2" "vec_set (iab_a u) = vec_set (iab_a ?t2) \<union> (p_amb ?v \<inter> {..<c})"
    "vec_set (iab_nb u) = vec_set (iab_nb ?t2) \<union> ({..<c} - p_bnd ?v)"
    using Suc.IH [of "after k2 e2 w" ?t2] wf2 a(2,3) c by (simp only: after_simps) auto
  have "iab_get_loop K (Suc c) t w = (u, after k e w)" using a b ih(1)
    by (cases "c \<in> p_bnd ?v"; cases "c \<in> p_amb ?v"; simp add: Let_def)
  moreover have "vec_set (iab_a u) = vec_set (iab_a t) \<union> (p_amb ?v \<inter> {..<Suc c})"
    using ih(7) len c by (auto simp: vec_set_raise less_Suc_eq)
  moreover have "vec_set (iab_nb u) = vec_set (iab_nb t) \<union> ({..<Suc c} - p_bnd ?v)"
    using ih(8) len c by (auto simp: vec_set_raise less_Suc_eq)
  ultimately show ?case using ih(2-6) by auto
qed

end

lemma vec_set_flat: "wf_cap c \<Longrightarrow> s < 3 \<Longrightarrow> vec_set [flat c 0 s, flat c 1 s] = caps_of c s"
proof -
  have "vec_isset [flat c 0 s, flat c 1 s] x = isset_cap c x s" if "x < 64" for x
  proof -
    have "x div 32 = 0 \<or> x div 32 = 1" using that by auto
    then show ?thesis by (auto simp: vec_isset_def isset_cap_def)
  qed
  then show ?thesis by (auto simp: vec_set_def caps_of_def)
qed

context cred_abi
begin

lemma cap_iab_get_proc_exec:
  assumes "wf_world w" "mem_ok w" "valid (kern w)" "max_bits w = int (p_ncaps (view (kern w)))"
  shows "\<exists>u k e. cap_iab_get_proc K w =
        Some (next_ptr w, after k e (new_obj (next_ptr w) sizeof_cap_alloc_s (CapIab u) (bumps 3 w)))
     \<and> valid k \<and> view k = view (kern w) \<and> wf_iab u \<and> i_mutex u = 0
     \<and> vec_set (iab_i u) = p_inh (view (kern w)) \<and> vec_set (iab_a u) = p_amb (view (kern w))
     \<and> vec_set (iab_nb u) = {..<p_ncaps (view (kern w))} - p_bnd (view (kern w))"
proof -
  let ?v = "view (kern w)" and ?p = "next_ptr w" and ?sz = sizeof_cap_alloc_s
  let ?c = "proc_cap ?v"
  note wf = valid_wf [OF assms(3)]
  define w1 where "w1 = new_obj ?p ?sz (CapIab zero_iab) (bumped w)"
  have wf1: "wf_world w1" unfolding w1_def using assms(1) by (simp add: wf_new_bumped)
  let ?q = "next_ptr w1"
  define w2 where "w2 = new_obj ?q ?sz (CapSet ?c) (bumped w1)"
  have wf2: "wf_world w2" unfolding w2_def using wf1 by (simp add: wf_new_bumped)
  have pq: "?p \<noteq> ?q" by (simp add: w1_def next_ptr_def)
  have init: "cap_iab_init w = (?p, w1)" using assms(2) by (simp add: cap_iab_init_ok w1_def)
  have get: "cap_get_proc K w1 = Some (?q, w2)"
    using cap_get_proc_exec [of w1] assms(2,3) by (simp add: w1_def w2_def)
  have r: "iab_ready w2 ?p zero_iab" "cap_ready w2 ?q ?c"
    using wf2 pq by (simp_all add: iab_ready_def cap_ready_def w2_def w1_def zero_iab_def)
  define t where "t = zero_iab\<lparr>iab_i := [flat ?c 0 2, flat ?c 1 2]\<rparr>"
  have st: "iab_fill_step CAP_IAB_INH ?c 2 0 zero_iab = Some (zero_iab\<lparr>iab_i := [flat ?c 0 2, 0]\<rparr>)"
    "iab_fill_step CAP_IAB_INH ?c 2 1 (zero_iab\<lparr>iab_i := [flat ?c 0 2, 0]\<rparr>) = Some t"
    by (simp_all add: iab_fill_step_def zero_iab_def t_def)
  have fill: "cap_iab_fill K ?p CAP_IAB_INH ?q (int CAP_INHERITABLE) w2 = Some (0, put_obj ?p (CapIab t) (bumped w2))"
    using cap_iab_fill_exec [OF r, of 2 CAP_IAB_INH] st assms(2) by (simp add: w1_def w2_def t_def zero_iab_def)
  let ?w3 = "new_obj ?p ?sz (CapIab t) (bumps 3 w)"
  have fresh: "heap w ?p = None" "heap w1 ?q = None" using wf_fresh assms(1) wf1 by auto
  have "cap_free ?q (put_obj ?p (CapIab t) (bumped w2)) = Some (0, del_obj ?q (put_obj ?p (CapIab t) (bumped w2)))"
    using pq by (intro cap_free_set [where c = ?c]) (simp_all add: w2_def)
  moreover have "del_obj ?q (put_obj ?p (CapIab t) (bumped w2)) = ?w3"
    using fresh pq unfolding w2_def w1_def
    by (simp add: bumped_def bumps_def new_obj_def del_obj_def put_obj_def fun_upd_twist fun_upd_idem)
  ultimately have free: "cap_free ?q (put_obj ?p (CapIab t) (bumped w2)) = Some (0, ?w3)" by simp
  have wft: "wf_iab t" by (simp add: t_def wf_iab_def zero_iab_def)
  obtain u k e where l: "iab_get_loop K (p_ncaps ?v) t ?w3 = (u, after k e ?w3)" "valid k" "view k = ?v" "wf_iab u"
    "i_mutex u = i_mutex t" "iab_i u = iab_i t" "vec_set (iab_a u) = vec_set (iab_a t) \<union> (p_amb ?v \<inter> {..<p_ncaps ?v})"
    "vec_set (iab_nb u) = vec_set (iab_nb t) \<union> ({..<p_ncaps ?v} - p_bnd ?v)"
    using iab_get_loop_exec [of ?w3 "p_ncaps ?v" t] assms(3) wft by auto
  have "cap_iab_get_proc K w = Some (?p, after k e (new_obj ?p ?sz (CapIab u) (bumps 3 w)))"
    using init get fill free l(1) assms(4) wf by (simp add: cap_iab_get_proc_def get_obj cap_max_bits_def wf_creds_def)
  moreover have "p_amb ?v \<inter> {..<p_ncaps ?v} = p_amb ?v" using wf by (auto simp: wf_creds_def)
  then have "vec_set (iab_a u) = p_amb ?v" "vec_set (iab_nb u) = {..<p_ncaps ?v} - p_bnd ?v"
    using l(7,8) by (simp_all add: t_def zero_iab_def vec_set_zero)
  moreover have "vec_set (iab_i u) = p_inh ?v"
    using l(6) vec_set_flat [of ?c 2] caps_of_proc_cap(3) [OF wf] by (simp add: t_def)
  moreover have "i_mutex u = 0" using l(5) by (simp add: t_def zero_iab_def)
  ultimately show ?thesis using l(2-4) by blast
qed

end

text \<open>
  \<^verbatim>\<open>cap_iab_get_proc\<close> returns a new, unlocked tuple whose vectors are the
  inheritable set, the ambient set and the complement of the bounding set of the process; it
  changes no other object and no credential.
\<close>

theorem cap_iab_get_proc_spec:
  assumes "cred_abi K view valid" "wf_world w" "mem_ok w" "valid (kern w)"
    "cap_max_bits w = int (p_ncaps (view (kern w)))"
  shows "\<exists>u w'. cap_iab_get_proc K w = Some (next_ptr w, w') \<and> iab_ready w' (next_ptr w) u
     \<and> (\<forall>q. q \<noteq> next_ptr w \<longrightarrow> obj_at w' q = obj_at w q) \<and> view (kern w') = view (kern w)
     \<and> vec_set (iab_i u) = p_inh (view (kern w)) \<and> vec_set (iab_a u) = p_amb (view (kern w))
     \<and> vec_set (iab_nb u) = {..<p_ncaps (view (kern w))} - p_bnd (view (kern w))"
proof -
  obtain u k e where g: "cap_iab_get_proc K w =
        Some (next_ptr w, after k e (new_obj (next_ptr w) sizeof_cap_alloc_s (CapIab u) (bumps 3 w)))"
    "view k = view (kern w)" "wf_iab u" "i_mutex u = 0"
    "vec_set (iab_i u) = p_inh (view (kern w))" "vec_set (iab_a u) = p_amb (view (kern w))"
    "vec_set (iab_nb u) = {..<p_ncaps (view (kern w))} - p_bnd (view (kern w))"
    using cred_abi.cap_iab_get_proc_exec [OF assms(1-4)] assms(5) by (auto simp: cap_max_bits_def)
  have "new_obj (next_ptr w) sizeof_cap_alloc_s (CapIab u) (bumps 3 w) =
      bumps 2 (new_obj (next_ptr w) sizeof_cap_alloc_s (CapIab u) (bumped w))"
    by (simp add: new_obj_def bumps_def bumped_def)
  then have "wf_world (new_obj (next_ptr w) sizeof_cap_alloc_s (CapIab u) (bumps 3 w))"
    using wf_new_bumped [OF assms(2), of "CapIab u" sizeof_cap_alloc_s] g(3) by simp
  with g show ?thesis
    by (intro exI [of _ u] exI [of _ "after k e (new_obj (next_ptr w) sizeof_cap_alloc_s (CapIab u) (bumps 3 w))"])
      (simp add: iab_ready_def)
qed

theorem cap_iab_get_proc_spec_witness:
  "\<exists>u w'. cap_iab_get_proc linux_kernel (machine root_linux) = Some (24, w') \<and> iab_ready w' 24 u
     \<and> vec_set (iab_i u) = {} \<and> vec_set (iab_nb u) = {}"
proof -
  have v: "p_inh (lk_view root_linux) = {}" "p_bnd (lk_view root_linux) = {..<41}" "p_ncaps (lk_view root_linux) = 41"
    by (simp_all add: lk_view_def root_linux_def plain_linux_def)
  have m: "cap_max_bits (machine root_linux) = int (p_ncaps (lk_view (kern (machine root_linux))))"
    using v by (simp add: cap_max_bits_def)
  show ?thesis
    using cap_iab_get_proc_spec [OF linux.cred_abi_axioms wf_machine mem_ok_machine(1) _ m] root_valid v by auto
qed

section \<open>Installing\<close>

context cred_abi
begin

lemma set_ambient_exec:
  assumes "caller_ok K sc w" "valid (kern w)" "0 \<le> c" "c < 2 ^ 64"
  shows "\<exists>r k e. cap_set_ambient_sc K sc c CAP_SET w = (r, after k e w) \<and> valid k \<and> r \<le> 0
     \<and> view k = (if r = 0 then (view (kern w))\<lparr>p_amb := insert (nat c) (p_amb (view (kern w)))\<rparr> else view (kern w))"
  using wprctl_exec(2) [OF assms(1,2), of PR_CAP_AMBIENT PR_CAP_AMBIENT_RAISE c "\<lambda>v. v\<lparr>p_amb := insert (nat c) (p_amb v)\<rparr>"]
    assms(3,4)
  by (auto simp: cap_set_ambient_sc_def cap_post_def prctl_post_def ambient_post_def)

lemma iab_check_bound_exec:
  assumes "valid (kern w)" "c \<le> p_ncaps (view (kern w))"
  shows "\<exists>k e. iab_check_bound K t c w =
      (\<exists>x \<in> vec_set (iab_nb t) \<inter> p_bnd (view (kern w)). x < c, after k e w) \<and> valid k \<and> view k = view (kern w)"
  using assms
proof (induction c arbitrary: w)
  case 0
  have "iab_check_bound K t 0 w = (False, after (kern w) (errno w) w)" by (simp add: after_self)
  with 0 show ?case by auto
next
  case (Suc c)
  let ?v = "view (kern w)" and ?S = "vec_set (iab_nb t) \<inter> p_bnd (view (kern w))"
  have c: "c < p_ncaps ?v" "c < 64" using Suc.prems valid_wf [OF Suc.prems(1)] by (auto simp: wf_creds_def)
  have step: "(\<exists>x \<in> ?S. x < Suc c) \<longleftrightarrow> c \<in> ?S \<or> (\<exists>x \<in> ?S. x < c)" by (auto simp: less_Suc_eq)
  show ?case
  proof (cases "vec_isset (iab_nb t) c")
    case False
    then have "c \<notin> ?S" by (simp add: vec_set_iff)
    then show ?thesis using Suc.IH [OF Suc.prems(1)] c False step by auto
  next
    case True
    obtain k1 e1 where b: "cap_get_bound K (int c) w = (of_bool (c \<in> p_bnd ?v), after k1 e1 w)" "valid k1" "view k1 = ?v"
      using c Suc.prems by - (rule get_bound [of w "int c"], auto)
    obtain k e where ih: "iab_check_bound K t c (after k1 e1 w) = (\<exists>x \<in> ?S. x < c, after k e w)" "valid k" "view k = ?v"
      using Suc.IH [of "after k1 e1 w"] b c by (simp only: after_simps) auto
    have S: "c \<in> ?S \<longleftrightarrow> c \<in> p_bnd ?v" using True c by (simp add: vec_set_iff)
    show ?thesis
    proof (cases "c \<in> p_bnd ?v")
      case True
      with b \<open>vec_isset (iab_nb t) c\<close> step S show ?thesis by auto
    next
      case False
      with b ih \<open>vec_isset (iab_nb t) c\<close> step S show ?thesis by auto
    qed
  qed
qed

text \<open>The effect of a complete third loop.\<close>

definition applied :: "cap_iab_s \<Rightarrow> bool \<Rightarrow> nat \<Rightarrow> creds \<Rightarrow> creds" where
  "applied t chk c v = v\<lparr>p_amb := p_amb v \<union> (vec_set (iab_a t) \<inter> {..<c}),
     p_bnd := p_bnd v - (if chk then vec_set (iab_nb t) \<inter> {..<c} else {})\<rparr>"

lemma applied_Suc:
  "c < 64 \<Longrightarrow> applied t chk (Suc c) v =
     applied t chk c ((if vec_isset (iab_a t) c then v\<lparr>p_amb := insert c (p_amb v)\<rparr> else v)
        \<lparr>p_bnd := (if chk \<and> vec_isset (iab_nb t) c then p_bnd v - {c} else p_bnd v)\<rparr>)"
proof -
  assume "c < 64"
  then have "vec_set a \<inter> {..<Suc c} = (if vec_isset a c then insert c (vec_set a \<inter> {..<c}) else vec_set a \<inter> {..<c})" for a
    by (auto simp: vec_set_iff less_Suc_eq)
  moreover have "p_bnd v - {c} - S = p_bnd v - insert c S" for S by auto
  ultimately show ?thesis by (simp add: applied_def)
qed

lemma iab_apply_loop_exec:
  assumes "caller_ok K sc w" "valid (kern w)" "c \<le> p_ncaps (view (kern w))"
  shows "\<exists>r k e A B. iab_apply_loop K sc t chk c w = (r, after k e w) \<and> valid k \<and> r \<le> 0
     \<and> view k = (view (kern w))\<lparr>p_amb := A, p_bnd := B\<rparr> \<and> (r = 0 \<longrightarrow> view k = applied t chk c (view (kern w)))"
  using assms
proof (induction c arbitrary: w)
  case 0
  have "iab_apply_loop K sc t chk 0 w = (0, after (kern w) (errno w) w)" by (simp add: after_self)
  moreover have "view (kern w) = (view (kern w))\<lparr>p_amb := p_amb (view (kern w)), p_bnd := p_bnd (view (kern w))\<rparr>" by simp
  moreover have "view (kern w) = applied t chk 0 (view (kern w))" by (simp add: applied_def)
  ultimately show ?case using 0(2) by blast
next
  case (Suc c)
  let ?v = "view (kern w)"
  have c: "c < p_ncaps ?v" "c < 64" using Suc.prems valid_wf [OF Suc.prems(2)] by (auto simp: wf_creds_def)
  let ?v1 = "if vec_isset (iab_a t) c then ?v\<lparr>p_amb := insert c (p_amb ?v)\<rparr> else ?v"
  obtain r1 k1 e1 where a: "(if vec_isset (iab_a t) c then cap_set_ambient_sc K sc (int c) CAP_SET w else (0, w)) = (r1, after k1 e1 w)"
    "valid k1" "r1 \<le> 0" "view k1 = (if r1 = 0 then ?v1 else ?v)"
  proof (cases "vec_isset (iab_a t) c")
    case True
    then show ?thesis using set_ambient_exec [OF Suc.prems(1,2), of "int c"] c that by (auto cong: if_cong)
  next
    case False
    then show ?thesis using that [of 0 "kern w" "errno w"] Suc.prems(2) by (simp add: after_self)
  qed
  show ?case
  proof (cases "r1 = 0")
    case False
    have "iab_apply_loop K sc t chk (Suc c) w = (r1, after k1 e1 w)" using a(1) False by simp
    moreover have "view k1 = ?v\<lparr>p_amb := p_amb ?v, p_bnd := p_bnd ?v\<rparr>" using a(4) False by simp
    ultimately show ?thesis using a(2,3) False by blast
  next
    case True
    then have v1: "view k1 = ?v1" "p_bnd (view k1) = p_bnd ?v" "p_ncaps (view k1) = p_ncaps ?v" using a(4) by auto
    let ?v2 = "?v1\<lparr>p_bnd := (if chk \<and> vec_isset (iab_nb t) c then p_bnd ?v - {c} else p_bnd ?v)\<rparr>"
    obtain r2 k2 e2 where b: "(if chk \<and> vec_isset (iab_nb t) c then cap_drop_bound_sc K sc (int c) (after k1 e1 w)
        else (0, after k1 e1 w)) = (r2, after k2 e2 w)" "valid k2" "r2 \<le> 0" "view k2 = (if r2 = 0 then ?v2 else ?v1)"
    proof (cases "chk \<and> vec_isset (iab_nb t) c")
      case True
      then show ?thesis using drop_bound_exec [of sc "after k1 e1 w" "int c"] c Suc.prems(1) a(2) v1 that
        by (auto cong: if_cong)
    next
      case False
      then show ?thesis using that [of 0 k1 e1] a(2) v1 by auto
    qed
    show ?thesis
    proof (cases "r2 = 0")
      case False
      have "iab_apply_loop K sc t chk (Suc c) w = (r2, after k2 e2 w)" using a(1) b(1) True False by simp
      moreover have "\<exists>A B. view k2 = ?v\<lparr>p_amb := A, p_bnd := B\<rparr>"
        using b(4) False by (intro exI [of _ "p_amb ?v1"] exI [of _ "p_bnd ?v"]) simp
      ultimately show ?thesis using b(2,3) False by blast
    next
      case r2: True
      then have v2: "view k2 = ?v2" using b(4) by simp
      have nc: "c \<le> p_ncaps (view k2)" using v2 c by auto
      obtain r k e A B where ih: "iab_apply_loop K sc t chk c (after k2 e2 w) = (r, after k e w)" "valid k" "r \<le> 0"
        "view k = (view k2)\<lparr>p_amb := A, p_bnd := B\<rparr>" "r = 0 \<longrightarrow> view k = applied t chk c (view k2)"
        using Suc.IH [of "after k2 e2 w", unfolded after_simps, OF Suc.prems(1) b(2) nc] by blast
      have "iab_apply_loop K sc t chk (Suc c) w = (r, after k e w)" using a(1) b(1) ih(1) True r2 by simp
      moreover have "view k = ?v\<lparr>p_amb := A, p_bnd := B\<rparr>" using ih(4) v2 by auto
      moreover have "r = 0 \<longrightarrow> view k = applied t chk (Suc c) ?v" using ih(5) v2 applied_Suc [OF c(2), of t chk ?v] by simp
      ultimately show ?thesis using ih(2,3) by blast
    qed
  qed
qed

end

text \<open>The two private copies of \<^verbatim>\<open>_cap_iab_set_proc\<close>: \<^verbatim>\<open>temp\<close> and \<^verbatim>\<open>working\<close>.\<close>

definition staged :: "cap_struct \<Rightarrow> cap_struct \<Rightarrow> 'k world \<Rightarrow> 'k world" where
  "staged c1 c2 w = new_obj (next_ptr w + 16) sizeof_cap_alloc_s (CapSet c2)
     (bumped (new_obj (next_ptr w) sizeof_cap_alloc_s (CapSet c1) (bumped w)))"

lemma next_ptr_new_bumped [simp]: "next_ptr (new_obj p sz ob (bumped w)) = next_ptr w + 16"
  by (simp add: next_ptr_def)

lemma staged_simps [simp]:
  "kern (staged c1 c2 w) = kern w" "errno (staged c1 c2 w) = errno w" "max_bits (staged c1 c2 w) = max_bits w"
  "caller_ok K sc (staged c1 c2 w) = caller_ok K sc w" "multithread (staged c1 c2 w) = multithread w"
  by (simp_all add: staged_def)

lemma staged_ready:
  assumes "wf_world w" "wf_cap c1" "wf_cap c2" "c_mutex c1 = 0" "c_mutex c2 = 0"
  shows "cap_ready (staged c1 c2 w) (next_ptr w) c1" "cap_ready (staged c1 c2 w) (next_ptr w + 16) c2"
proof -
  let ?w1 = "new_obj (next_ptr w) sizeof_cap_alloc_s (CapSet c1) (bumped w)"
  have "wf_world ?w1" using assms by (simp add: wf_new_bumped)
  then have "wf_world (staged c1 c2 w)"
    using wf_new_bumped [of ?w1 "CapSet c2" sizeof_cap_alloc_s] assms by (simp add: staged_def)
  with assms show "cap_ready (staged c1 c2 w) (next_ptr w) c1" "cap_ready (staged c1 c2 w) (next_ptr w + 16) c2"
    by (simp_all add: cap_ready_def staged_def)
qed

lemma iab_set_defer_exec:
  assumes "wf_world w" "wf_cap c1" "wf_cap c2" "c_mutex c1 = 0" "c_mutex c2 = 0"
  shows "iab_set_defer (next_ptr w + 16) (next_ptr w) r (after k e (staged c1 c2 w)) = Some (r, after k e (bumps 2 w))"
proof -
  let ?q = "next_ptr w"
  let ?w1 = "new_obj ?q sizeof_cap_alloc_s (CapSet c1) (bumped w)"
  note r = staged_ready [OF assms]
  have wf1: "wf_world ?w1" using assms by (simp add: wf_new_bumped)
  have "del_obj (?q + 16) (staged c1 c2 w) = bumped ?w1"
    using wf_fresh [OF wf1] by (simp add: staged_def del_new)
  then have f1: "cap_free (?q + 16) (after k e (staged c1 c2 w)) = Some (0, after k e (bumped ?w1))"
    using cap_readyD [OF r(2)] assms by (subst cap_free_set [where c = c2]) auto
  have "del_obj ?q (bumped ?w1) = bumps 2 w"
    using wf_fresh [OF assms(1)] by (simp add: bumped_def bumps_def new_obj_def del_obj_def fun_upd_idem)
  then have "cap_free ?q (after k e (bumped ?w1)) = Some (0, after k e (bumps 2 w))"
    using assms by (subst cap_free_set [where c = c1]) auto
  with f1 show ?thesis by (simp add: iab_set_defer_def)
qed

lemma iab_new_inh_fields [simp]:
  "c_mutex (iab_new_inh t c) = c_mutex c" "c_head (iab_new_inh t c) = c_head c" "wf_cap c \<Longrightarrow> wf_cap (iab_new_inh t c)"
  by (simp_all add: iab_new_inh_def)

lemma caps_of_new_inh:
  assumes "wf_cap c" "wf_iab t" "s < 3"
  shows "caps_of (iab_new_inh t c) s = (if s = CAP_INHERITABLE then vec_set (iab_i t) else caps_of c s)"
proof -
  have f: "flat (iab_new_inh t c) b s = (if s = 2 then iab_i t ! b else flat c b s)" if "b < 2" for b
    using that assms by (auto simp: iab_new_inh_def less_2_cases_iff)
  have "isset_cap (iab_new_inh t c) x s = (if s = 2 then vec_isset (iab_i t) x else isset_cap c x s)" if "x < 64" for x
    using that f [of "x div 32"] by (simp add: isset_cap_def vec_isset_def)
  then show ?thesis by (auto simp: caps_of_def vec_set_def)
qed

context cred_abi
begin

text \<open>The new inheritable set is in force, the ambient set still has to be rebuilt.\<close>

lemma staged_installed:
  assumes "installed c w 0 w'" "valid (kern w)" "wf_cap c" "caps_of c CAP_PERMITTED = p_per (view (kern w))"
    "caps_of c CAP_INHERITABLE \<subseteq> {..<p_ncaps (view (kern w))}"
  shows "\<exists>E A. view (kern w') = (view (kern w))\<lparr>p_eff := E, p_inh := caps_of c CAP_INHERITABLE, p_amb := A\<rparr>"
proof -
  let ?v = "view (kern w)"
  have "p_per ?v \<inter> {..<p_ncaps ?v} = p_per ?v" "caps_of c CAP_INHERITABLE \<inter> {..<p_ncaps ?v} = caps_of c CAP_INHERITABLE"
    using valid_wf [OF assms(2)] assms(5) by (auto simp: wf_creds_def)
  then have "view (kern w') = ?v\<lparr>p_eff := caps_of c CAP_EFFECTIVE \<inter> {..<p_ncaps ?v}, p_inh := caps_of c CAP_INHERITABLE,
      p_amb := p_amb ?v \<inter> p_per ?v \<inter> caps_of c CAP_INHERITABLE\<rparr>"
    using assms by (auto simp: installed_def capset_post_cap Let_def)
  then show ?thesis by blast
qed

text \<open>
  From the moment the new inheritable set is in force: rebuild the ambient set, drop the bounding
  bits, put the effective set back.
\<close>

lemma iab_finish_exec:
  assumes "wf_world w" "wf_cap c1" "c_mutex c1 = 0" "c_head c1 = self_head" "wf_cap c2" "c_mutex c2 = 0"
    "caller_ok K sc w" "caller_ok K (multithread w) w" "max_bits w = int (p_ncaps (view k))" "valid k"
    "caps_of c1 CAP_EFFECTIVE \<subseteq> caps_of c1 CAP_PERMITTED" "caps_of c1 CAP_PERMITTED = p_per (view k)"
    "caps_of c1 CAP_INHERITABLE = p_inh (view k)" "p = next_ptr w"
  shows "\<exists>r k' e'. do { (ret, w) \<leftarrow> cap_reset_ambient_sc K sc (after k e (staged c1 c2 w));
            (ret, w) \<leftarrow> Some (if ret \<noteq> 0 then (ret, w) else iab_apply_loop K sc t chk (nat (cap_max_bits w)) w);
            (_, w) \<leftarrow> cap_set_proc K p w;
            iab_set_defer (p + 16) p ret w } = Some (r, after k' e' (bumps 2 w)) \<and> valid k' \<and> r \<le> 0
     \<and> (\<exists>A B. view k' = (view k)\<lparr>p_amb := A, p_bnd := B, p_eff := caps_of c1 CAP_EFFECTIVE\<rparr>)
     \<and> (r = 0 \<longrightarrow> view k' = (applied t chk (p_ncaps (view k)) ((view k)\<lparr>p_amb := {}\<rparr>))\<lparr>p_eff := caps_of c1 CAP_EFFECTIVE\<rparr>)"
proof -
  let ?W = "staged c1 c2 w" and ?v = "view k" and ?q = "next_ptr w"
  note ready = staged_ready [OF assms(1,2,5,3,6)]
  obtain r1 k1 e1 where a: "cap_reset_ambient_sc K sc (after k e ?W) = Some (r1, after k1 e1 ?W)" "valid k1" "r1 \<le> 0"
    "view k1 = (if r1 = 0 then ?v\<lparr>p_amb := {}\<rparr> else ?v)"
    using cap_reset_ambient_exec [of "after k e ?W" sc] assms(7,10) by (auto cong: if_cong)
  have n1: "p_ncaps (view k1) = p_ncaps ?v" using a(4) by auto
  obtain r2 k2 e2 A B where b: "iab_apply_loop K sc t chk (p_ncaps ?v) (after k1 e1 ?W) = (r2, after k2 e2 ?W)" "valid k2"
    "r2 \<le> 0" "view k2 = (view k1)\<lparr>p_amb := A, p_bnd := B\<rparr>" "r2 = 0 \<longrightarrow> view k2 = applied t chk (p_ncaps ?v) (view k1)"
    using iab_apply_loop_exec [of sc "after k1 e1 ?W" "p_ncaps ?v" t chk, unfolded after_simps staged_simps] assms(7) a(2) n1
    by auto
  define r3 k3 e3 where d: "r3 = (if r1 \<noteq> 0 then r1 else r2)" "k3 = (if r1 \<noteq> 0 then k1 else k2)"
    "e3 = (if r1 \<noteq> 0 then e1 else e2)"
  have s3: "(if r1 \<noteq> 0 then (r1, after k1 e1 ?W) else iab_apply_loop K sc t chk (nat (cap_max_bits (after k1 e1 ?W))) (after k1 e1 ?W))
      = (r3, after k3 e3 ?W)" "valid k3" "r3 \<le> 0"
    using a b assms(9) unfolding d by (simp_all add: cap_max_bits_def)
  have v3: "\<exists>A B. view k3 = ?v\<lparr>p_amb := A, p_bnd := B\<rparr>"
  proof (cases "r1 = 0")
    case True
    with a(4) b(4) show ?thesis unfolding d by auto
  next
    case False
    with a(4) show ?thesis unfolding d by (intro exI [of _ "p_amb ?v"] exI [of _ "p_bnd ?v"]) simp
  qed
  then have v3': "p_per (view k3) = p_per ?v" "p_inh (view k3) = p_inh ?v" by auto
  have z3: "r3 = 0 \<longrightarrow> view k3 = applied t chk (p_ncaps ?v) (?v\<lparr>p_amb := {}\<rparr>)"
    using a(4) b(5) unfolding d by auto
  obtain r4 w4 where s4: "cap_set_proc K ?q (after k3 e3 ?W) = Some (r4, w4)" "installed c1 (after k3 e3 ?W) r4 w4"
    using cap_set_proc_exec [of "after k3 e3 ?W" ?q c1 "multithread w"] ready(1) assms(4,8) s3(2) by (auto simp: cap_set_proc_def)
  obtain k4 e4 where w4: "w4 = after k4 e4 ?W" using installed_frame(6) [OF s4(2)] by auto
  have "r4 = 0" using s4(2) v3' assms(11-13) by (auto simp: installed_def)
  moreover have "caps_of c1 CAP_EFFECTIVE \<inter> {..<p_ncaps (view k3)} = caps_of c1 CAP_EFFECTIVE"
    using assms(11,12) v3' valid_wf [OF s3(2)] by (auto simp: wf_creds_def)
  ultimately have v4: "view k4 = (view k3)\<lparr>p_eff := caps_of c1 CAP_EFFECTIVE\<rparr>" "valid k4"
    using installed_same [OF s4(2)] installed_frame(1) [OF s4(2)] s3(2) assms(2,12,13) v3' w4 by simp_all
  have run: "do { (ret, w) \<leftarrow> cap_reset_ambient_sc K sc (after k e ?W);
            (ret, w) \<leftarrow> Some (if ret \<noteq> 0 then (ret, w) else iab_apply_loop K sc t chk (nat (cap_max_bits w)) w);
            (_, w) \<leftarrow> cap_set_proc K p w;
            iab_set_defer (p + 16) p ret w } = Some (r3, after k4 e4 (bumps 2 w))"
    using a(1) s3(1) s4(1) w4 iab_set_defer_exec [OF assms(1,2,5,3,6), of r3 k4 e4] assms(14) by simp
  moreover have "\<exists>A B. view k4 = ?v\<lparr>p_amb := A, p_bnd := B, p_eff := caps_of c1 CAP_EFFECTIVE\<rparr>" using v3 v4(1) by metis
  moreover have "r3 = 0 \<longrightarrow> view k4 = (applied t chk (p_ncaps ?v) (?v\<lparr>p_amb := {}\<rparr>))\<lparr>p_eff := caps_of c1 CAP_EFFECTIVE\<rparr>"
    using z3 v4(1) by simp
  ultimately show ?thesis using v4(2) s3(3) by blast
qed

end

context cred_abi
begin

lemma cap_iab_set_proc_exec:
  assumes "wf_world w" "obj_at w p = Some (CapIab t)" "mem_ok w" "valid (kern w)" "caller_ok K sc w"
    "caller_ok K (multithread w) w" "max_bits w = int (p_ncaps (view (kern w)))"
    "vec_set (iab_i t) \<subseteq> {..<p_ncaps (view (kern w))}"
  shows "\<exists>r k e. cap_iab_set_proc_sc K sc p w = Some (r, after k e (bumps 2 w)) \<and> valid k
     \<and> p_eff (view k) = p_eff (view (kern w)) \<and> p_per (view k) = p_per (view (kern w)) \<and> ids (view k) = ids (view (kern w))
     \<and> (r = 0 \<longrightarrow> view k = (view (kern w))\<lparr>p_inh := vec_set (iab_i t),
            p_amb := vec_set (iab_a t) \<inter> {..<p_ncaps (view (kern w))}, p_bnd := p_bnd (view (kern w)) - vec_set (iab_nb t)\<rparr>)"
proof -
  let ?v = "view (kern w)" and ?q = "next_ptr w" and ?sz = sizeof_cap_alloc_s
  note wf = valid_wf [OF assms(4)]
  have wft: "wf_iab t" using wf_obj_at [OF assms(1,2)] by simp
  have pq: "p \<noteq> ?q" using fresh_neq [OF assms(1,2)] by simp
  define c1 where "c1 = iab_new_inh t (proc_cap ?v)"
  have c1: "wf_cap c1" "c_mutex c1 = 0" "c_head c1 = self_head" by (simp_all add: c1_def)
  have caps1: "caps_of c1 CAP_EFFECTIVE = p_eff ?v" "caps_of c1 CAP_PERMITTED = p_per ?v"
    "caps_of c1 CAP_INHERITABLE = vec_set (iab_i t)"
    unfolding c1_def using caps_of_new_inh [OF _ wft, of "proc_cap ?v"] caps_of_proc_cap [OF wf] by simp_all
  have eff: "p_eff ?v \<subseteq> p_per ?v" "p_bnd ?v \<subseteq> {..<p_ncaps ?v}" using wf by (auto simp: wf_creds_def)
  define w1 where "w1 = new_obj ?q ?sz (CapSet c1) (bumped w)"
  have wf1: "wf_world w1" unfolding w1_def using assms(1) c1 by (simp add: wf_new_bumped)
  let ?any = "\<exists>i \<in> {..<2}. iab_nb t ! i \<noteq> 0"
  let ?hit = "\<exists>x \<in> vec_set (iab_nb t) \<inter> p_bnd ?v. x < p_ncaps ?v"
  obtain k1 e1 where chk: "(if ?any then iab_check_bound K t (nat (cap_max_bits w1)) w1 else (False, w1)) = (?hit, after k1 e1 w1)"
    "valid k1" "view k1 = ?v"
  proof (cases ?any)
    case True
    obtain k e where "iab_check_bound K t (p_ncaps ?v) w1 = (?hit, after k e w1)" "valid k" "view k = ?v"
      using iab_check_bound_exec [of w1 "p_ncaps ?v" t] assms(4) by (auto simp: w1_def)
    moreover have "nat (cap_max_bits w1) = p_ncaps ?v" using assms(7) by (simp add: cap_max_bits_def w1_def)
    ultimately show ?thesis using that True by simp
  next
    case False
    then have "vec_set (iab_nb t) = {}" using vec_set_empty [of "iab_nb t"] wft by auto
    then show ?thesis using that [of "kern w" "errno w1"] False assms(4) after_self [of w1] by (simp add: w1_def)
  qed
  let ?raise = "iab_raising t (proc_cap ?v) \<or> ?hit"
  define c2 where "c2 = (if ?raise then set_flag_loop [int CAP_SETPCAP] CAP_EFFECTIVE CAP_SET c1 else c1)"
  have c2: "wf_cap c2" "c_mutex c2 = 0" "c_head c2 = self_head" unfolding c2_def using c1 by simp_all
  have caps2: "caps_of c2 CAP_PERMITTED = p_per ?v" "caps_of c2 CAP_INHERITABLE = vec_set (iab_i t)"
    unfolding c2_def using caps_of_raise [OF c1(1), of CAP_SETPCAP 0] caps1 by (simp_all add: CAP_SETPCAP_def)
  have get: "cap_get_proc K w = Some (?q, new_obj ?q ?sz (CapSet (proc_cap ?v)) (bumped w))"
    using cap_get_proc_exec [OF assms(4)] assms(3) by simp
  have dup: "cap_dup K ?q (after k1 e1 w1) = Some (?q + 16, after k1 e1 (staged c1 c1 w))"
    using cap_dup_ok [of "after k1 e1 w1" ?q c1] wf1 c1 assms(3) by (simp add: w1_def staged_def)
  note st = staged_ready [OF assms(1) c1(1) c1(1) c1(2) c1(2)]
  have flag: "(if ?raise then cap_set_flag (?q + 16) (int CAP_EFFECTIVE) 1 [int CAP_SETPCAP] CAP_SET (after k1 e1 (staged c1 c1 w))
      else Some (0, after k1 e1 (staged c1 c1 w))) = Some (0, after k1 e1 (staged c1 c2 w))"
    using cap_set_flag_exec [of "after k1 e1 (staged c1 c1 w)" "?q + 16" c1 1 "[int CAP_SETPCAP]" 0 CAP_SET] st(2)
    by (cases ?raise) (simp_all add: c2_def staged_def)
  let ?W = "staged c1 c2 w"
  note st2 = staged_ready [OF assms(1) c1(1) c2(1) c1(2) c2(2)]
  have "\<exists>r w'. cap_set_proc_sc K sc (?q + 16) (after k1 e1 ?W) = Some (r, w') \<and> installed c2 (after k1 e1 ?W) r w'"
    using st2(2) c2(3) assms(5) chk(2) by (intro cap_set_proc_exec) auto
  then obtain r2 w2 where s2: "cap_set_proc_sc K sc (?q + 16) (after k1 e1 ?W) = Some (r2, w2)"
    "installed c2 (after k1 e1 ?W) r2 w2" by blast
  obtain k2 e2 where w2: "w2 = after k2 e2 ?W" using installed_frame(6) [OF s2(2)] by auto
  have v2: "valid k2" using installed_frame(1) [OF s2(2)] w2 by simp
  let ?rest = "\<lambda>w. do { (ret, w) \<leftarrow> cap_reset_ambient_sc K sc w;
            (ret, w) \<leftarrow> Some (if ret \<noteq> 0 then (ret, w) else iab_apply_loop K sc t ?hit (nat (cap_max_bits w)) w);
            (_, w) \<leftarrow> cap_set_proc K ?q w;
            iab_set_defer (?q + 16) ?q ret w }"
  have small: "\<not> cap_max_bits (new_obj ?q ?sz (CapSet (proc_cap ?v)) (bumped w)) > 64"
    using assms(7) wf by (simp add: cap_max_bits_def wf_creds_def)
  have run: "cap_iab_set_proc_sc K sc p w =
      (if r2 \<noteq> 0 then iab_set_defer (?q + 16) ?q r2 w2 else ?rest w2)"
    unfolding cap_iab_set_proc_sc_def using get pq assms(2) chk(1) dup flag s2(1) small
    by (simp add: get_obj c1_def [symmetric] w1_def [symmetric] cong: if_cong split del: if_split)
  show ?thesis
  proof (cases "r2 = 0")
    case False
    have "view k2 = ?v" using s2(2) False w2 chk(3) by (auto simp: installed_def)
    then show ?thesis
      using run False w2 iab_set_defer_exec [OF assms(1) c1(1) c2(1) c1(2) c2(2), of r2 k2 e2] v2 by simp
  next
    case True
    obtain E A where k2: "view k2 = ?v\<lparr>p_eff := E, p_inh := vec_set (iab_i t), p_amb := A\<rparr>"
      using staged_installed [OF s2(2) [unfolded True]] chk(2,3) c2(1) caps2 assms(8) w2 by auto
    obtain r k e A' B' where f: "?rest (after k2 e2 ?W) = Some (r, after k e (bumps 2 w))" "valid k"
      "view k = (view k2)\<lparr>p_amb := A', p_bnd := B', p_eff := p_eff ?v\<rparr>"
      "r = 0 \<longrightarrow> view k = (applied t ?hit (p_ncaps ?v) ((view k2)\<lparr>p_amb := {}\<rparr>))\<lparr>p_eff := p_eff ?v\<rparr>"
      using iab_finish_exec [OF assms(1) c1 c2(1,2) assms(5,6) _ v2, of ?q e2 t ?hit] assms(7) caps1 k2 eff(1) by auto
    have bnd: "p_bnd ?v - (if ?hit then vec_set (iab_nb t) \<inter> {..<p_ncaps ?v} else {}) = p_bnd ?v - vec_set (iab_nb t)"
      using eff(2) by auto
    have "cap_iab_set_proc_sc K sc p w = Some (r, after k e (bumps 2 w))" using run True w2 f(1) by simp
    moreover have "p_eff (view k) = p_eff ?v" "p_per (view k) = p_per ?v" "ids (view k) = ids ?v" using f(3) k2 by simp_all
    moreover have "r = 0 \<longrightarrow> view k = ?v\<lparr>p_inh := vec_set (iab_i t), p_amb := vec_set (iab_a t) \<inter> {..<p_ncaps ?v},
        p_bnd := p_bnd ?v - vec_set (iab_nb t)\<rparr>"
      using f(4) k2 bnd by (simp add: applied_def)
    ultimately show ?thesis using f(2) by blast
  qed
qed

end

context cred_abi
begin

text \<open>The same through the entry point, which takes the lock of the tuple.\<close>

lemma cap_iab_set_proc_ready:
  assumes "iab_ready w p t" "mem_ok w" "valid (kern w)" "caller_ok K (multithread w) w"
    "max_bits w = int (p_ncaps (view (kern w)))" "vec_set (iab_i t) \<subseteq> {..<p_ncaps (view (kern w))}"
  shows "\<exists>r k e. cap_iab_set_proc K p w = Some (r, after k e (bumps 2 w)) \<and> valid k
     \<and> p_eff (view k) = p_eff (view (kern w)) \<and> p_per (view k) = p_per (view (kern w)) \<and> ids (view k) = ids (view (kern w))
     \<and> (r = 0 \<longrightarrow> view k = (view (kern w))\<lparr>p_inh := vec_set (iab_i t),
            p_amb := vec_set (iab_a t) \<inter> {..<p_ncaps (view (kern w))}, p_bnd := p_bnd (view (kern w)) - vec_set (iab_nb t)\<rparr>)"
proof -
  note p = iab_readyD [OF assms(1)]
  let ?t = "t\<lparr>i_mutex := 1\<rparr>"
  let ?w = "put_obj p (CapIab ?t) w"
  have wf: "wf_world ?w" using p by (simp add: wf_world_put)
  obtain r k e where s: "cap_iab_set_proc_sc K (multithread w) p ?w = Some (r, after k e (bumps 2 ?w))" "valid k"
    "p_eff (view k) = p_eff (view (kern w))" "p_per (view k) = p_per (view (kern w))" "ids (view k) = ids (view (kern w))"
    "r = 0 \<longrightarrow> view k = (view (kern w))\<lparr>p_inh := vec_set (iab_i t),
            p_amb := vec_set (iab_a t) \<inter> {..<p_ncaps (view (kern w))}, p_bnd := p_bnd (view (kern w)) - vec_set (iab_nb t)\<rparr>"
    using cap_iab_set_proc_exec [OF wf, of p ?t "multithread w"] assms(2-6) p(1) by auto
  have "put_obj p (CapIab t) (after k e (bumps 2 ?w)) = after k e (bumps 2 w)"
    using put_same [OF p(1)] by (simp add: bumps_def)
  then have "cap_iab_set_proc K p w = Some (r, after k e (bumps 2 w))"
    using p s(1) by (simp add: cap_iab_set_proc_def libcap_exec)
  with s(2-6) show ?thesis by blast
qed

end

text \<open>
  C21: \<^verbatim>\<open>cap_iab_set_proc\<close> on a tuple whose inheritable bits are known to the kernel
  always returns, with the tuple unlocked and unchanged, no memory kept, and the effective and
  permitted sets of the process exactly as before, although it raises \<^verbatim>\<open>CAP_SETPCAP\<close> on
  the way; when it returns 0 the inheritable and ambient sets of the process are the two vectors
  and the bounding set has lost exactly the third.
\<close>

theorem cap_iab_set_proc_spec:
  assumes "cred_abi K view valid" "iab_ready w p t" "mem_ok w" "valid (kern w)" "caller_ok K (multithread w) w"
    "cap_max_bits w = int (p_ncaps (view (kern w)))" "vec_set (iab_i t) \<subseteq> {..<p_ncaps (view (kern w))}"
  shows "\<exists>r w'. cap_iab_set_proc K p w = Some (r, w') \<and> heap w' = heap w
     \<and> p_eff (view (kern w')) = p_eff (view (kern w)) \<and> p_per (view (kern w')) = p_per (view (kern w))
     \<and> (r = 0 \<longrightarrow> view (kern w') = (view (kern w))\<lparr>p_inh := vec_set (iab_i t),
            p_amb := vec_set (iab_a t) \<inter> {..<p_ncaps (view (kern w))}, p_bnd := p_bnd (view (kern w)) - vec_set (iab_nb t)\<rparr>)"
proof -
  obtain r k e where s: "cap_iab_set_proc K p w = Some (r, after k e (bumps 2 w))"
    "p_eff (view k) = p_eff (view (kern w))" "p_per (view k) = p_per (view (kern w))"
    "r = 0 \<longrightarrow> view k = (view (kern w))\<lparr>p_inh := vec_set (iab_i t),
            p_amb := vec_set (iab_a t) \<inter> {..<p_ncaps (view (kern w))}, p_bnd := p_bnd (view (kern w)) - vec_set (iab_nb t)\<rparr>"
    using cred_abi.cap_iab_set_proc_ready [OF assms(1-5)] assms(6,7) by (auto simp: cap_max_bits_def)
  then show ?thesis by (intro exI [of _ r] exI [of _ "after k e (bumps 2 w)"]) simp
qed

theorem cap_iab_set_proc_spec_witness:
  "\<exists>r w'. cap_iab_set_proc linux_kernel 24 (with_obj (CapIab zero_iab) (machine root_linux)) = Some (r, w')
     \<and> p_eff (lk_view (kern w')) = {..<41}"
proof -
  let ?w = "with_obj (CapIab zero_iab) (machine root_linux)"
  have v: "p_ncaps (lk_view root_linux) = 41" "p_eff (lk_view root_linux) = {..<41}"
    by (simp_all add: lk_view_def root_linux_def plain_linux_def)
  have "i_mutex zero_iab = 0" by (simp add: zero_iab_def)
  then have ready: "iab_ready ?w 24 zero_iab" by (simp add: iab_ready_def wf_with_obj)
  have m: "mem_ok ?w" "lk_valid (kern ?w)" "cap_max_bits ?w = int (p_ncaps (lk_view (kern ?w)))"
    using root_valid v by (simp_all add: cap_max_bits_def)
  have i: "vec_set (iab_i zero_iab) \<subseteq> {..<p_ncaps (lk_view (kern ?w))}" by (simp add: zero_iab_def vec_set_zero)
  from cap_iab_set_proc_spec [OF linux.cred_abi_axioms ready m(1,2) caller_ok_machine(2) m(3) i] v
  show ?thesis by auto
qed

end
