(* ===== verification/Cap_Launch.thy ===== *)
theory Cap_Launch
  imports Cap_Iab_Proc
begin

text \<open>
  The launcher of \<^verbatim>\<open>cap_proc.c\<close>: priming it, the work of the forked child, and
  \<^verbatim>\<open>cap_launch\<close> as the parent sees it.

  \<^item> \<^verbatim>\<open>fork\<close> gives the child a copy of the world with its own kernel state; the two never
    share anything again but the pipe.
  \<^item> The process-level system calls and the client's callback are parameters, the fields of
    \<open>'k procs\<close>.  A raw call returns a negative error number.
  \<^item> The child ends by a successful \<^verbatim>\<open>execve\<close>, by \<^verbatim>\<open>exit(0)\<close>, or by
    \<^verbatim>\<open>exit(1)\<close> after it tried to write its \<^verbatim>\<open>errno\<close> to the pipe.
\<close>

section \<open>Priming a launcher\<close>

text \<open>The shape shared by the setters: check the object, change it under its mutex.\<close>

definition launcher_update :: "(cap_launch_s \<Rightarrow> cap_launch_s) \<Rightarrow> addr \<Rightarrow> 'k world \<Rightarrow> (int \<times> 'k world) option" where
  "launcher_update f attr w = do {
     good \<leftarrow> good_cap_launch_t attr w;
     if \<not> good then Some (- 1, w\<lparr>errno := EINVAL\<rparr>)
     else do {
       w \<leftarrow> cap_mu_lock attr w;
       l \<leftarrow> get_launch attr w;
       w \<leftarrow> cap_mu_unlock attr (put_obj attr (CapLaunch (f l)) w);
       Some (0, w) } }"

definition cap_launcher_callback :: "addr \<Rightarrow> nat \<Rightarrow> 'k world \<Rightarrow> (int \<times> 'k world) option" where
  "cap_launcher_callback attr callback_fn = launcher_update (\<lambda>l. l\<lparr>l_custom_setup_fn := callback_fn\<rparr>) attr"

definition cap_launcher_setuid :: "addr \<Rightarrow> u32 \<Rightarrow> 'k world \<Rightarrow> (int \<times> 'k world) option" where
  "cap_launcher_setuid attr uid = launcher_update (\<lambda>l. l\<lparr>l_uid := uid, l_change_uids := 1\<rparr>) attr"

definition cap_launcher_setgroups :: "addr \<Rightarrow> u32 \<Rightarrow> int \<Rightarrow> u32 list option \<Rightarrow> 'k world \<Rightarrow> (int \<times> 'k world) option" where
  "cap_launcher_setgroups attr gid ngroups groups =
     launcher_update (\<lambda>l. l\<lparr>l_gid := gid, l_ngroups := ngroups, l_groups := groups, l_change_gids := 1\<rparr>) attr"

definition cap_launcher_set_mode :: "addr \<Rightarrow> nat \<Rightarrow> 'k world \<Rightarrow> (int \<times> 'k world) option" where
  "cap_launcher_set_mode attr flavor = launcher_update (\<lambda>l. l\<lparr>l_mode := flavor, l_change_mode := 1\<rparr>) attr"

definition cap_launcher_set_iab :: "addr \<Rightarrow> addr \<Rightarrow> 'k world \<Rightarrow> (addr \<times> 'k world) option" where
  "cap_launcher_set_iab attr iab w = do {
     good \<leftarrow> good_cap_launch_t attr w;
     if \<not> good then Some (NULL, w\<lparr>errno := EINVAL\<rparr>)
     else do {
       w \<leftarrow> cap_mu_lock attr w;
       l \<leftarrow> get_launch attr w;
       old \<leftarrow> Some (l_iab l);
       w \<leftarrow> Some (put_obj attr (CapLaunch (l\<lparr>l_iab := iab\<rparr>)) w);
       w \<leftarrow> (if old \<noteq> NULL then cap_mu_unlock old w else Some w);
       w \<leftarrow> (if iab \<noteq> NULL then cap_mu_lock iab w else Some w);
       w \<leftarrow> cap_mu_unlock attr w;
       Some (old, w) } }"

definition cap_launcher_set_chroot :: "addr \<Rightarrow> string option \<Rightarrow> 'k world \<Rightarrow> (int \<times> 'k world) option" where
  "cap_launcher_set_chroot attr chroot w = do {
     good \<leftarrow> good_cap_launch_t attr w;
     if \<not> good then Some (- 1, w\<lparr>errno := EINVAL\<rparr>)
     else do {
       w \<leftarrow> cap_mu_lock attr w;
       (s, w) \<leftarrow> Some (libcap_strdup chroot w);
       l \<leftarrow> get_launch attr w;
       w \<leftarrow> cap_mu_unlock attr (put_obj attr (CapLaunch (l\<lparr>l_chroot := s\<rparr>)) w);
       Some (0, w) } }"

section \<open>The child\<close>

definition cap_chroot :: "'k kernel \<Rightarrow> 'k syscaller \<Rightarrow> string \<Rightarrow> 'k world \<Rightarrow> (int \<times> 'k world) option" where
  "cap_chroot K sc root w = do {
     (working, w) \<leftarrow> cap_get_proc K w;
     if working = NULL then Some (- 1, w)
     else do {
       (_, w) \<leftarrow> cap_set_flag working (int CAP_EFFECTIVE) 1 [int CAP_SYS_CHROOT] CAP_SET w;
       (ret, w) \<leftarrow> cap_set_proc_sc K sc working w;
       (ret, w) \<leftarrow> Some (if ret = 0 then
                          (let (ret, w) = (if overrode_syscalls w then neg_errno (run_sysfn (three sc) (SysChroot root) w)
                                           else libc K (SysChroot root) w)
                           in if ret = 0 then
                                (let (r, k) = k_chdir_root K (kern w) in libc_ret r (w\<lparr>kern := k\<rparr>))
                              else (ret, w))
                        else (ret, w));
       olderrno \<leftarrow> Some (errno w);
       (_, w) \<leftarrow> cap_clear_flag working (int CAP_EFFECTIVE) w;
       (_, w) \<leftarrow> cap_set_proc_sc K sc working w;
       (_, w) \<leftarrow> cap_free working w;
       Some (ret, w\<lparr>errno := olderrno\<rparr>) } }"

datatype child_end = Execed | Exit_ok | Exit_fail

record 'k procs =
  e_callback :: "nat \<Rightarrow> 'k world \<Rightarrow> int \<times> 'k world"
  e_pipe2 :: "'k \<Rightarrow> int \<times> 'k"
  e_fork :: "'k \<Rightarrow> int \<times> 'k \<times> 'k"
  e_execve :: "string \<Rightarrow> string list option \<Rightarrow> string list option \<Rightarrow> 'k \<Rightarrow> int option \<times> 'k"
  e_write :: "int \<Rightarrow> 'k \<Rightarrow> int \<times> 'k"
  e_read :: "child_end \<Rightarrow> 'k \<Rightarrow> int \<times> 'k"
  e_close :: "'k \<Rightarrow> 'k"
  e_waitpid :: "int \<Rightarrow> 'k \<Rightarrow> 'k"

text \<open>The chain of \<^verbatim>\<open>if (wanted && step) goto defer\<close>: whether \<^verbatim>\<open>defer\<close> is reached.\<close>

definition step_if ::
  "bool \<Rightarrow> ('k world \<Rightarrow> (int \<times> 'k world) option) \<Rightarrow> ('k world \<Rightarrow> (bool \<times> 'k world) option) \<Rightarrow>
     'k world \<Rightarrow> (bool \<times> 'k world) option" where
  "step_if wanted act rest w =
     (if wanted then do { (r, w) \<leftarrow> act w; if r \<noteq> 0 then Some (True, w) else rest w } else rest w)"

definition launch_changes :: "'k kernel \<Rightarrow> 'k syscaller \<Rightarrow> cap_launch_s \<Rightarrow> 'k world \<Rightarrow> (bool \<times> 'k world) option" where
  "launch_changes K sc l =
     step_if (l_change_uids l \<noteq> 0) (cap_setuid_sc K sc (l_uid l))
    (step_if (l_change_gids l \<noteq> 0) (cap_setgroups_sc K sc (l_gid l) (l_ngroups l) (l_groups l))
    (step_if (l_change_mode l \<noteq> 0) (cap_set_mode_sc K sc (l_mode l))
    (step_if (l_iab l \<noteq> NULL) (cap_iab_set_proc_sc K sc (l_iab l))
    (step_if (l_chroot l \<noteq> NULL) (\<lambda>w. do { root \<leftarrow> get_str (l_chroot l) w; cap_chroot K sc root w })
    (\<lambda>w. Some (False, w))))))"

text \<open>The loop that writes \<^verbatim>\<open>my_errno\<close>, again while the call says \<^verbatim>\<open>EAGAIN\<close>.\<close>

partial_function (option) write_errno :: "'k procs \<Rightarrow> int \<Rightarrow> 'k world \<Rightarrow> 'k world option" where
  "write_errno E my_errno w =
     (let (r, k) = e_write E my_errno (kern w);
          (n, w) = libc_ret r (w\<lparr>kern := k\<rparr>)
      in if n < 0 \<and> errno w = EAGAIN then write_errno E my_errno w else Some w)"

definition launch_defer :: "'k procs \<Rightarrow> 'k world \<Rightarrow> (child_end \<times> 'k world) option" where
  "launch_defer E w = do {
     w \<leftarrow> write_errno E (errno w) w;
     Some (Exit_fail, w\<lparr>kern := e_close E (kern w)\<rparr>) }"

definition cap_launch_child :: "'k kernel \<Rightarrow> 'k procs \<Rightarrow> addr \<Rightarrow> 'k world \<Rightarrow> (child_end \<times> 'k world) option" where
  "cap_launch_child K E attr w = do {
     l \<leftarrow> get_launch attr w;
     (failed, w) \<leftarrow> Some (if l_custom_setup_fn l \<noteq> 0 then
                           (let (r, w) = e_callback E (l_custom_setup_fn l) w in (r \<noteq> 0, w))
                         else (False, w));
     if failed then launch_defer E w
     else do {
       l \<leftarrow> get_launch attr w;
       (case l_arg0 l of
          None \<Rightarrow> Some (Exit_ok, w)
        | Some arg0 \<Rightarrow> do {
            (failed, w) \<leftarrow> launch_changes K (singlethread w) l w;
            if failed then launch_defer E w
            else
              (case e_execve E arg0 (l_argv l) (l_envp l) (kern w) of
                 (None, k) \<Rightarrow> Some (Execed, w\<lparr>kern := k\<rparr>)
               | (Some e, k) \<Rightarrow> launch_defer E (w\<lparr>kern := k, errno := e\<rparr>)) }) } }"

section \<open>The parent\<close>

text \<open>
  The loop that reads the pipe: the pid on end of file, else the child is reaped and the launch
  has failed with \<^verbatim>\<open>ECHILD\<close>.
\<close>

partial_function (option) read_errno ::
  "'k procs \<Rightarrow> child_end \<Rightarrow> int \<Rightarrow> int \<Rightarrow> 'k world \<Rightarrow> ((int \<times> int) \<times> 'k world) option" where
  "read_errno E ce child my_errno w =
     (let (r, k) = e_read E ce (kern w);
          (n, w) = libc_ret r (w\<lparr>kern := k\<rparr>)
      in if n = 0 then Some ((child, my_errno), w)
         else if n < 0 \<and> errno w = EAGAIN then read_errno E ce child my_errno w
         else Some ((- 1, ECHILD), w\<lparr>kern := e_waitpid E child (kern w)\<rparr>))"

definition cap_launch :: "'k kernel \<Rightarrow> 'k procs \<Rightarrow> addr \<Rightarrow> 'k world \<Rightarrow> (int \<times> 'k world) option" where
  "cap_launch K E attr w = do {
     good \<leftarrow> good_cap_launch_t attr w;
     if \<not> good then Some (- 1, w\<lparr>errno := EINVAL\<rparr>)
     else do {
       w \<leftarrow> cap_mu_lock attr w;
       l \<leftarrow> get_launch attr w;
       if l_custom_setup_fn l = 0 \<and> (l_arg0 l = None \<or> l_argv l = None) then do {
         w \<leftarrow> cap_mu_unlock attr (w\<lparr>errno := EINVAL\<rparr>);
         Some (- 1, w) }
       else
         (let (r, k) = e_pipe2 E (kern w);
              (r, w) = libc_ret r (w\<lparr>kern := k\<rparr>)
          in if r \<noteq> 0 then do {
               w \<leftarrow> cap_mu_unlock attr w;
               Some (- 1, w) }
             else
               (let (r, kp, kc) = e_fork E (kern w);
                    (child, w) = libc_ret r (w\<lparr>kern := kp\<rparr>);
                    my_errno = errno w
                in do {
                  ce \<leftarrow> (if child < 0 then Some Exit_fail
                        else do {
                          (ce, _) \<leftarrow> cap_launch_child K E attr
                             (snd (prctl K PR_SET_NAME 0 0 0 0 0 (w\<lparr>kern := e_close E kc\<rparr>)));
                          Some ce });
                  w \<leftarrow> cap_mu_unlock attr w;
                  w \<leftarrow> Some (w\<lparr>kern := e_close E (kern w)\<rparr>);
                  ((child, my_errno), w) \<leftarrow>
                    (if child < 0 then Some ((child, my_errno), w) else read_errno E ce child my_errno w);
                  Some (child, w\<lparr>kern := e_close E (kern w), errno := my_errno\<rparr>) })) } }"

section \<open>The identity and capability changes of the child\<close>

context cred_abi
begin

lemma chroot_call:
  assumes "caller_ok K sc w" "valid (kern w)"
  shows "\<exists>r k e. (let (ret, w) = (if overrode_syscalls w then neg_errno (run_sysfn (three sc) (SysChroot d) w)
                                  else libc K (SysChroot d) w)
                 in if ret = 0 then (let (r, k) = k_chdir_root K (kern w) in libc_ret r (w\<lparr>kern := k\<rparr>)) else (ret, w))
               = (r, after k e w) \<and> valid k
     \<and> (\<exists>x. view k = (view (kern w))\<lparr>p_root := x\<rparr> \<and> (r = 0 \<longrightarrow> x = d))"
proof -
  let ?call = "if overrode_syscalls w then neg_errno (run_sysfn (three sc) (SysChroot d) w) else libc K (SysChroot d) w"
  obtain r w' where rw: "?call = (r, w')" by fastforce
  have "outcome (SysChroot d) w r w'"
  proof (cases "overrode_syscalls w")
    case True
    with assms rw outcome_neg [OF outcome_run, of "three sc" w "SysChroot d"] show ?thesis by (auto simp: caller_ok_def)
  next
    case False
    with assms rw outcome_libc [of w "SysChroot d"] show ?thesis by simp
  qed
  then obtain k e where o: "w' = after k e w" "valid k" "r < 0 \<Longrightarrow> view k = view (kern w)"
    "0 \<le> r \<Longrightarrow> r = 0 \<and> view k = (view (kern w))\<lparr>p_root := d\<rparr>"
    by (elim outcomeE) (auto simp: cap_post_def)
  show ?thesis
  proof (cases "r = 0")
    case True
    obtain r2 k2 where c: "k_chdir_root K k = (r2, k2)" by fastforce
    have k2: "valid k2" "view k2 = (view (kern w))\<lparr>p_root := d\<rparr>" using chdir_root [OF o(2) c] o(4) True by auto
    have "\<exists>r3 e3. libc_ret r2 (w'\<lparr>kern := k2\<rparr>) = (r3, after k2 e3 w)"
      using o(1) by (simp add: libc_ret_after)
    then obtain r3 e3 where "libc_ret r2 (w'\<lparr>kern := k2\<rparr>) = (r3, after k2 e3 w)" by blast
    with True rw c o(1) have "(let (ret, w) = ?call
                 in if ret = 0 then (let (r, k) = k_chdir_root K (kern w) in libc_ret r (w\<lparr>kern := k\<rparr>)) else (ret, w)) = (r3, after k2 e3 w)"
      by (simp add: Let_def)
    with k2 show ?thesis by blast
  next
    case False
    have "(let (ret, w) = ?call
                 in if ret = 0 then (let (r, k) = k_chdir_root K (kern w) in libc_ret r (w\<lparr>kern := k\<rparr>)) else (ret, w)) = (r, after k e w)"
      using False rw o(1) by (simp add: Let_def)
    moreover have "view k = (view (kern w))\<lparr>p_root := p_root (view (kern w))\<rparr>" using o(3,4) False by (cases "r < 0") auto
    ultimately show ?thesis using o(2) False by blast
  qed
qed

lemma cap_chroot_exec:
  assumes "wf_world w" "alloc_ok w" "valid (kern w)" "caller_ok K sc w"
  shows "\<exists>r k e. cap_chroot K sc d w = Some (r, after k e (bumped w)) \<and> valid k
     \<and> (\<exists>x. view k = (view (kern w))\<lparr>p_root := x, p_eff := {}\<rparr> \<and> (r = 0 \<longrightarrow> x = d))"
proof -
  let ?p = "next_ptr w" and ?v = "view (kern w)" and ?c = "raised CAP_SYS_CHROOT (view (kern w))"
  let ?w = "with_raised CAP_SYS_CHROOT w"
  have c: "caps_of ?c CAP_PERMITTED = p_per ?v" "caps_of ?c CAP_INHERITABLE = p_inh ?v"
    using caps_of_raised valid_wf [OF assms(3)] by (auto simp: CAP_SYS_CHROOT_def)
  have "\<exists>r w'. cap_set_proc_sc K sc ?p ?w = Some (r, w') \<and> installed ?c ?w r w'"
    using ready_raised [OF assms(1)] assms(3,4) by (intro cap_set_proc_exec) auto
  then obtain r1 w1 where s1: "cap_set_proc_sc K sc ?p ?w = Some (r1, w1)" "installed ?c ?w r1 w1" by blast
  obtain k1 e1 where w1: "w1 = after k1 e1 ?w" using installed_frame(6) [OF s1(2)] by auto
  obtain E where v1: "valid k1" "view k1 = ?v\<lparr>p_eff := E\<rparr>"
    using installed_frame(1) [OF s1(2)] installed_same [OF s1(2)] assms(3) c w1 by auto
  let ?call = "\<lambda>w. let (ret, w) = (if overrode_syscalls w then neg_errno (run_sysfn (three sc) (SysChroot d) w) else libc K (SysChroot d) w)
                 in if ret = 0 then (let (r, k) = k_chdir_root K (kern w) in libc_ret r (w\<lparr>kern := k\<rparr>)) else (ret, w)"
  have "\<exists>r2 k2 e2 x. (if r1 = 0 then ?call w1 else (r1, w1)) = (r2, after k2 e2 ?w) \<and> valid k2
     \<and> view k2 = ?v\<lparr>p_eff := E, p_root := x\<rparr> \<and> (r2 = 0 \<longrightarrow> x = d)"
  proof (cases "r1 = 0")
    case True
    obtain r2 k2 e2 x where "?call w1 = (r2, after k2 e2 w1)" "valid k2" "view k2 = (view k1)\<lparr>p_root := x\<rparr>" "r2 = 0 \<longrightarrow> x = d"
      using chroot_call [of sc w1 d] assms(4) w1 v1(1) by (simp only: w1 after_simps with_raised_simps) blast
    then show ?thesis using True v1(2) w1 by auto
  next
    case False
    have "view k1 = ?v\<lparr>p_eff := E, p_root := p_root ?v\<rparr>" using v1(2) by simp
    with False w1 v1(1) show ?thesis
      by (intro exI [of _ r1] exI [of _ k1] exI [of _ e1] exI [of _ "p_root ?v"]) simp
  qed
  then obtain r2 k2 e2 x where s2: "(if r1 = 0 then ?call w1 else (r1, w1)) = (r2, after k2 e2 ?w)" "valid k2"
    "view k2 = ?v\<lparr>p_eff := E, p_root := x\<rparr>" "r2 = 0 \<longrightarrow> x = d" by blast
  obtain r3 k3 e3 where l3: "lower sc ?p (after k2 e2 ?w) = Some (r3, after k3 e3 (bumped w))" "valid k3"
    "view k3 = (view k2)\<lparr>p_eff := {}\<rparr>"
    using lower_eff [of "after k2 e2 ?w" ?p ?c sc] ready_raised [OF assms(1)] assms(4) c s2 del_raised [OF assms(1)]
    by auto
  have "cap_chroot K sc d w = Some (r2, after k3 e2 (bumped w))"
    unfolding cap_chroot_def lower_bind raise_exec [OF assms(1-3)]
    using s1(1) s2(1) l3(1) by (simp del: Let_def split del: if_split)
  moreover have "view k3 = ?v\<lparr>p_root := x, p_eff := {}\<rparr>" using l3(3) s2(3) by simp
  ultimately show ?thesis using l3(2) s2(4) by blast
qed

end

lemma step_if_rule:
  assumes "wanted \<Longrightarrow> \<exists>r w1. act w = Some (r, w1) \<and> (r = 0 \<longrightarrow> Q w1)" "\<not> wanted \<Longrightarrow> Q w"
    "\<And>w1. Q w1 \<Longrightarrow> \<exists>b w2. rest w1 = Some (b, w2) \<and> (\<not> b \<longrightarrow> R w2)"
  shows "\<exists>b w2. step_if wanted act rest w = Some (b, w2) \<and> (\<not> b \<longrightarrow> R w2)"
proof (cases wanted)
  case True
  with assms(1) obtain r w1 where "act w = Some (r, w1)" "r = 0 \<longrightarrow> Q w1" by blast
  with True assms(3) show ?thesis by (cases "r = 0") (auto simp: step_if_def)
next
  case False
  with assms(2,3) show ?thesis by (simp add: step_if_def)
qed

lemma bumps_Suc_after: "bumped (after k e (bumps n w)) = after k e (bumps (Suc n) w)"
  by (simp add: bumps_def bumped_def after_def)

text \<open>The worlds the child goes through: another kernel state and errno, memory taken and given back.\<close>

definition child_frame :: "('k \<Rightarrow> bool) \<Rightarrow> 'k world \<Rightarrow> 'k world \<Rightarrow> bool" where
  "child_frame valid w0 w \<longleftrightarrow> (\<exists>k e n. w = after k e (bumps n w0) \<and> valid k)"

lemma bumps_after_simps [simp]:
  "caller_ok K sc (bumps n w) = caller_ok K sc w" "multithread (bumps n w) = multithread w"
  "bumps n (after k e w) = after k e (bumps n w)"
  by (simp_all add: caller_ok_def bumps_def after_def)

lemma child_frame_facts:
  assumes "child_frame valid w0 w" "wf_world w0" "mem_ok w0" "caller_ok K sc w0" "caller_ok K (multithread w0) w0"
  shows "wf_world w" "mem_ok w" "alloc_ok w" "valid (kern w)" "caller_ok K sc w" "caller_ok K (multithread w) w"
    "obj_at w = obj_at w0" "max_bits w = max_bits w0"
  using assms by (auto simp: child_frame_def fun_eq_iff)

lemma child_frame_step:
  assumes "child_frame valid w0 w" "valid k"
  shows "child_frame valid w0 (after k e (bumped w))" "child_frame valid w0 (after k e (bumps n w))"
proof -
  from assms(1) obtain k0 e0 m where w: "w = after k0 e0 (bumps m w0)" by (auto simp: child_frame_def)
  have "after k e (bumped w) = after k e (bumps (Suc m) w0)" "after k e (bumps n w) = after k e (bumps (m + n) w0)"
    using w by (simp_all add: bumps_def bumped_def after_def)
  with assms(2) show "child_frame valid w0 (after k e (bumped w))" "child_frame valid w0 (after k e (bumps n w))"
    unfolding child_frame_def by blast+
qed

text \<open>What the launcher \<open>l\<close> asked for is in force in the credentials \<open>v\<close>.\<close>

definition groups_of :: "cap_launch_s \<Rightarrow> u32 list" where
  "groups_of l = take (nat (l_ngroups l)) (case l_groups l of None \<Rightarrow> [] | Some g \<Rightarrow> g)"

definition ids_in_force :: "cap_launch_s \<Rightarrow> creds \<Rightarrow> bool" where
  "ids_in_force l v \<longleftrightarrow> (l_change_uids l \<noteq> 0 \<longrightarrow> p_uid v = l_uid l)
     \<and> (l_change_gids l \<noteq> 0 \<longrightarrow> p_gid v = l_gid l \<and> p_groups v = groups_of l)"

definition mode_in_force :: "cap_launch_s \<Rightarrow> creds \<Rightarrow> creds \<Rightarrow> bool" where
  "mode_in_force l v0 v \<longleftrightarrow> (l_change_mode l \<noteq> 0 \<longrightarrow> mode_of v =
     (if l_mode l = CAP_MODE_PURE1E \<and> p_inh v0 = {} then CAP_MODE_PURE1E_INIT else l_mode l))"

text \<open>
  A tuple goes on top of the mode: it replaces the inheritable and ambient vectors of \<open>v1\<close> and takes
  its bounding bits away, and leaves the securebits and the permitted set the mode has fixed.
\<close>

definition iab_over :: "cap_iab_s \<Rightarrow> creds \<Rightarrow> creds \<Rightarrow> bool" where
  "iab_over t v1 v \<longleftrightarrow> p_sbits v = p_sbits v1 \<and> p_per v = p_per v1 \<and> p_inh v = vec_set (iab_i t)
     \<and> p_amb v = vec_set (iab_a t) \<inter> {..<p_ncaps v} \<and> p_bnd v = p_bnd v1 - vec_set (iab_nb t)"

definition launched :: "cap_launch_s \<Rightarrow> cap_iab_s \<Rightarrow> string \<Rightarrow> creds \<Rightarrow> creds \<Rightarrow> bool" where
  "launched l t root v0 v \<longleftrightarrow> ids_in_force l v
     \<and> (if l_iab l = NULL then mode_in_force l v0 v else \<exists>v1. mode_in_force l v0 v1 \<and> iab_over t v1 v)
     \<and> (l_chroot l \<noteq> NULL \<longrightarrow> p_root v = root)
     \<and> (l_change_uids l \<noteq> 0 \<or> l_change_gids l \<noteq> 0 \<or> l_change_mode l \<noteq> 0 \<or> l_chroot l \<noteq> NULL \<longrightarrow> p_eff v = {})"

context cred_abi
begin

lemma launch_changes_exec:
  assumes "wf_world w" "mem_ok w" "valid (kern w)" "caller_ok K sc w" "caller_ok K (multithread w) w"
    "max_bits w = int (p_ncaps (view (kern w)))"
    "l_iab l \<noteq> NULL \<Longrightarrow> obj_at w (l_iab l) = Some (CapIab t) \<and> vec_set (iab_i t) \<subseteq> {..<p_ncaps (view (kern w))}"
    "l_chroot l \<noteq> NULL \<Longrightarrow> obj_at w (l_chroot l) = Some (CapStr root)"
  shows "\<exists>b w'. launch_changes K sc l w = Some (b, w')
     \<and> (\<not> b \<longrightarrow> child_frame valid w w' \<and> launched l t root (view (kern w)) (view (kern w')))"
proof -
  let ?v = "view (kern w)"
  define Q1 where "Q1 = (\<lambda>w'. child_frame valid w w' \<and> p_inh (view (kern w')) = p_inh ?v \<and> p_ncaps (view (kern w')) = p_ncaps ?v
     \<and> (l_change_uids l \<noteq> 0 \<longrightarrow> p_uid (view (kern w')) = l_uid l \<and> p_eff (view (kern w')) = {}))"
  define Q2 where "Q2 = (\<lambda>w'. child_frame valid w w' \<and> p_inh (view (kern w')) = p_inh ?v \<and> p_ncaps (view (kern w')) = p_ncaps ?v
     \<and> ids_in_force l (view (kern w'))
     \<and> (l_change_uids l \<noteq> 0 \<or> l_change_gids l \<noteq> 0 \<longrightarrow> p_eff (view (kern w')) = {}))"
  define Q3 where "Q3 = (\<lambda>w'. child_frame valid w w' \<and> p_ncaps (view (kern w')) = p_ncaps ?v
     \<and> ids_in_force l (view (kern w')) \<and> mode_in_force l ?v (view (kern w'))
     \<and> (l_change_uids l \<noteq> 0 \<or> l_change_gids l \<noteq> 0 \<or> l_change_mode l \<noteq> 0 \<longrightarrow> p_eff (view (kern w')) = {}))"
  define Q4 where "Q4 = (\<lambda>w'. child_frame valid w w' \<and> p_ncaps (view (kern w')) = p_ncaps ?v
     \<and> ids_in_force l (view (kern w'))
     \<and> (if l_iab l = NULL then mode_in_force l ?v (view (kern w')) else \<exists>v1. mode_in_force l ?v v1 \<and> iab_over t v1 (view (kern w')))
     \<and> (l_change_uids l \<noteq> 0 \<or> l_change_gids l \<noteq> 0 \<or> l_change_mode l \<noteq> 0 \<longrightarrow> p_eff (view (kern w')) = {}))"
  have fr: "wf_world w'" "mem_ok w'" "alloc_ok w'" "valid (kern w')" "caller_ok K sc w'" "caller_ok K (multithread w') w'"
    "obj_at w' = obj_at w" "max_bits w' = max_bits w" if "child_frame valid w w'" for w'
    using child_frame_facts [OF that assms(1,2,4,5)] by blast+
  have start: "child_frame valid w w"
    unfolding child_frame_def using assms(3) after_self [of w] bumps_simps(1) by metis
  have s1: "\<exists>r w1. cap_setuid_sc K sc (l_uid l) w = Some (r, w1) \<and> (r = 0 \<longrightarrow> Q1 w1)"
  proof -
    obtain r k e where "cap_setuid_sc K sc (l_uid l) w = Some (r, after k e (bumped w))" "valid k" "p_eff (view k) = {}"
      "p_inh (view k) = p_inh ?v" "ids (view k) = ids (if r = 0 then ?v\<lparr>p_uid := l_uid l\<rparr> else ?v)"
      using cap_setuid_exec [of w sc "l_uid l"] fr [OF start] by blast
    then show ?thesis unfolding Q1_def using child_frame_step(1) [OF start] by (auto simp: ids_def)
  qed
  have s2: "\<exists>r w2. cap_setgroups_sc K sc (l_gid l) (l_ngroups l) (l_groups l) w1 = Some (r, w2) \<and> (r = 0 \<longrightarrow> Q2 w2)"
    if "Q1 w1" for w1
  proof -
    have f: "child_frame valid w w1" using that by (simp add: Q1_def)
    obtain r k e g gl where "cap_setgroups_sc K sc (l_gid l) (l_ngroups l) (l_groups l) w1 = Some (r, after k e (bumped w1))" "valid k"
      "view k = (view (kern w1))\<lparr>p_gid := g, p_groups := gl, p_eff := {}\<rparr>" "r = 0 \<longrightarrow> g = l_gid l \<and> gl = groups_of l"
      using cap_setgroups_exec [of w1 sc "l_gid l" "l_ngroups l" "l_groups l"] fr [OF f] unfolding groups_of_def by blast
    then show ?thesis using child_frame_step(1) [OF f] that by (auto simp: Q1_def Q2_def ids_in_force_def)
  qed
  have s3: "\<exists>r w2. cap_set_mode_sc K sc (l_mode l) w1 = Some (r, w2) \<and> (r = 0 \<longrightarrow> Q3 w2)" if "Q2 w1" for w1
  proof -
    have f: "child_frame valid w w1" using that by (simp add: Q2_def)
    obtain r k e where "cap_set_mode_sc K sc (l_mode l) w1 = Some (r, after k e (bumped w1))" "valid k" "p_eff (view k) = {}"
      "ids (view k) = ids (view (kern w1))" "r = 0 \<longrightarrow> mode_of (view k) =
          (if l_mode l = CAP_MODE_PURE1E \<and> p_inh (view (kern w1)) = {} then CAP_MODE_PURE1E_INIT else l_mode l)"
      using cap_set_mode_exec [of w1 sc "l_mode l"] fr [OF f] by blast
    then show ?thesis
      using child_frame_step(1) [OF f] that by (auto simp: Q2_def Q3_def ids_in_force_def mode_in_force_def ids_def)
  qed
  have s4: "\<exists>r w2. cap_iab_set_proc_sc K sc (l_iab l) w1 = Some (r, w2) \<and> (r = 0 \<longrightarrow> Q4 w2)"
    if q: "Q3 w1" "l_iab l \<noteq> NULL" for w1
  proof -
    have f: "child_frame valid w w1" and n: "p_ncaps (view (kern w1)) = p_ncaps ?v" using that by (simp_all add: Q3_def)
    obtain r k e where "cap_iab_set_proc_sc K sc (l_iab l) w1 = Some (r, after k e (bumps 2 w1))" "valid k"
      "p_eff (view k) = p_eff (view (kern w1))" "ids (view k) = ids (view (kern w1))"
      "r = 0 \<longrightarrow> view k = (view (kern w1))\<lparr>p_inh := vec_set (iab_i t), p_amb := vec_set (iab_a t) \<inter> {..<p_ncaps (view (kern w1))},
          p_bnd := p_bnd (view (kern w1)) - vec_set (iab_nb t)\<rparr>"
      using cap_iab_set_proc_exec [of w1 "l_iab l" t sc] fr [OF f] assms(6,7) q(2) n by auto
    then show ?thesis
      using child_frame_step(2) [OF f] that by (auto simp: Q3_def Q4_def ids_in_force_def iab_over_def ids_def)
  qed
  have s5: "\<exists>r w2. do { root \<leftarrow> get_str (l_chroot l) w1; cap_chroot K sc root w1 } = Some (r, w2)
      \<and> (r = 0 \<longrightarrow> child_frame valid w w2 \<and> launched l t root ?v (view (kern w2)))"
    if q: "Q4 w1" "l_chroot l \<noteq> NULL" for w1
  proof -
    have f: "child_frame valid w w1" using that by (simp add: Q4_def)
    have str: "get_str (l_chroot l) w1 = Some root" using assms(8) q(2) fr(7) [OF f] by (simp add: get_obj)
    obtain r k e x where c: "cap_chroot K sc root w1 = Some (r, after k e (bumped w1))" "valid k"
      "view k = (view (kern w1))\<lparr>p_root := x, p_eff := {}\<rparr>" "r = 0 \<longrightarrow> x = root"
      using cap_chroot_exec [of w1 sc root] fr [OF f] by blast
    have "mode_of (view k) = mode_of (view (kern w1))" using c(3) by (simp add: mode_of_def)
    then have "mode_in_force l ?v (view k) = mode_in_force l ?v (view (kern w1))" by (simp add: mode_in_force_def)
    moreover have "ids_in_force l (view k) = ids_in_force l (view (kern w1))" "iab_over t v1 (view k) = iab_over t v1 (view (kern w1))" for v1
      using c(3) by (simp_all add: ids_in_force_def iab_over_def)
    moreover have "p_root (view k) = x" "p_eff (view k) = {}" using c(3) by simp_all
    ultimately have "r = 0 \<longrightarrow> launched l t root ?v (view k)"
      using q c(4) by (simp add: launched_def Q4_def)
    then show ?thesis using str c(1,2) child_frame_step(1) [OF f] by simp
  qed
  have end5: "child_frame valid w w1 \<and> launched l t root ?v (view (kern w1))" if "Q4 w1" "\<not> l_chroot l \<noteq> NULL" for w1
    using that by (auto simp: Q4_def launched_def)
  define F where "F = (\<lambda>w'. child_frame valid w w' \<and> launched l t root ?v (view (kern w')))"
  let ?r5 = "step_if (l_chroot l \<noteq> NULL) (\<lambda>w. do { root \<leftarrow> get_str (l_chroot l) w; cap_chroot K sc root w }) (\<lambda>w. Some (False, w))"
  let ?r4 = "step_if (l_iab l \<noteq> NULL) (cap_iab_set_proc_sc K sc (l_iab l)) ?r5"
  let ?r3 = "step_if (l_change_mode l \<noteq> 0) (cap_set_mode_sc K sc (l_mode l)) ?r4"
  let ?r2 = "step_if (l_change_gids l \<noteq> 0) (cap_setgroups_sc K sc (l_gid l) (l_ngroups l) (l_groups l)) ?r3"
  have r5: "\<exists>b w2. ?r5 w1 = Some (b, w2) \<and> (\<not> b \<longrightarrow> F w2)" if "Q4 w1" for w1
    by (rule step_if_rule [where Q = F]) (use s5 [OF that] end5 [OF that] in \<open>auto simp: F_def\<close>)
  have r4: "\<exists>b w2. ?r4 w1 = Some (b, w2) \<and> (\<not> b \<longrightarrow> F w2)" if "Q3 w1" for w1
    by (rule step_if_rule [where Q = Q4], erule s4 [OF that], use that in \<open>simp add: Q3_def Q4_def\<close>, erule r5)
  have r3: "\<exists>b w2. ?r3 w1 = Some (b, w2) \<and> (\<not> b \<longrightarrow> F w2)" if "Q2 w1" for w1
    by (rule step_if_rule [where Q = Q3], rule s3 [OF that], use that in \<open>simp add: Q2_def Q3_def mode_in_force_def\<close>,
        erule r4)
  have r2: "\<exists>b w2. ?r2 w1 = Some (b, w2) \<and> (\<not> b \<longrightarrow> F w2)" if "Q1 w1" for w1
    by (rule step_if_rule [where Q = Q2], rule s2 [OF that], use that in \<open>simp add: Q1_def Q2_def ids_in_force_def\<close>,
        erule r3)
  have "\<exists>b w2. launch_changes K sc l w = Some (b, w2) \<and> (\<not> b \<longrightarrow> F w2)"
    unfolding launch_changes_def
    by (rule step_if_rule [where Q = Q1], rule s1, use start in \<open>simp add: Q1_def\<close>, erule r2)
  then show ?thesis by (simp add: F_def)
qed

end

text \<open>
  The client's callback runs in the child before anything else.  It may change the credentials of
  the child, allocate and free, but it leaves the objects of the library alone; \<open>v0\<close> are the
  credentials the launch starts from: those of the parent, or what a callback that returned 0 made of them.
\<close>

definition callback_ok :: "('k \<Rightarrow> creds) \<Rightarrow> ('k \<Rightarrow> bool) \<Rightarrow> 'k procs \<Rightarrow> cap_launch_s \<Rightarrow> bool" where
  "callback_ok view valid E l \<longleftrightarrow> (l_custom_setup_fn l \<noteq> 0 \<longrightarrow>
     (\<forall>u. valid (kern u) \<longrightarrow> child_frame valid u (snd (e_callback E (l_custom_setup_fn l) u))
        \<and> p_ncaps (view (kern (snd (e_callback E (l_custom_setup_fn l) u)))) = p_ncaps (view (kern u))))"

definition set_up :: "('k \<Rightarrow> creds) \<Rightarrow> 'k procs \<Rightarrow> cap_launch_s \<Rightarrow> creds \<Rightarrow> creds \<Rightarrow> bool" where
  "set_up view E l v v0 \<longleftrightarrow>
     (if l_custom_setup_fn l = 0 then v0 = v
      else \<exists>u. view (kern u) = v \<and> fst (e_callback E (l_custom_setup_fn l) u) = 0
             \<and> v0 = view (kern (snd (e_callback E (l_custom_setup_fn l) u))))"

lemma child_frame_threads:
  "child_frame valid w0 w \<Longrightarrow> singlethread w = singlethread w0 \<and> multithread w = multithread w0"
  by (auto simp: child_frame_def after_def bumps_def)

lemma callback_mutex [simp]:
  "callback_ok view valid E (l\<lparr>l_mutex := m\<rparr>) = callback_ok view valid E l"
  "set_up view E (l\<lparr>l_mutex := m\<rparr>) = set_up view E l"
  by (simp_all add: callback_ok_def set_up_def fun_eq_iff)

section \<open>The contract of the process calls\<close>

text \<open>
  fork(2), pipe(7) and waitpid(2): the child starts with the credentials of its parent; a blocking
  pipe with a reader takes the four bytes of an \<^verbatim>\<open>int\<close> at once; the reader gets them, or end
  of file when the close-on-exec writer went away without writing.
\<close>

locale procs_abi = cred_abi K view valid for K :: "'k kernel" and view and valid +
  fixes E :: "'k procs"
  assumes pipe_keeps: "valid k \<Longrightarrow> e_pipe2 E k = (r, k') \<Longrightarrow> r \<le> 0 \<and> valid k' \<and> view k' = view k"
    and fork_keeps: "valid k \<Longrightarrow> e_fork E k = (r, kp, kc) \<Longrightarrow>
       r \<noteq> 0 \<and> valid kp \<and> view kp = view k \<and> valid kc \<and> view kc = view k"
    and close_keeps: "valid k \<Longrightarrow> valid (e_close E k) \<and> view (e_close E k) = view k"
    and wait_keeps: "valid k \<Longrightarrow> valid (e_waitpid E c k) \<and> view (e_waitpid E c k) = view k"
    and write_all: "fst (e_write E n k) = 4"
    and read_all: "valid k \<Longrightarrow> e_read E ce k = (r, k') \<Longrightarrow>
       valid k' \<and> view k' = view k \<and> r = (if ce = Exit_fail then 4 else 0)"
begin

lemma launch_defer_exec: "\<exists>w'. launch_defer E w = Some (Exit_fail, w')"
proof -
  obtain k where "e_write E (errno w) (kern w) = (4, k)"
    using write_all [of "errno w" "kern w"] by (metis prod.collapse)
  then have "write_errno E (errno w) w = Some (w\<lparr>kern := k\<rparr>)"
    by (subst write_errno.simps) (simp add: libc_ret_def)
  then show ?thesis by (simp add: launch_defer_def)
qed

lemma callback_frame:
  assumes "callback_ok view valid E l" "valid (kern w)"
    "(if l_custom_setup_fn l = 0 then (0, w) else e_callback E (l_custom_setup_fn l) w) = (r0, w0)"
  shows "child_frame valid w w0" "p_ncaps (view (kern w0)) = p_ncaps (view (kern w))"
    "r0 = 0 \<longrightarrow> set_up view E l (view (kern w)) (view (kern w0))"
proof -
  have "child_frame valid w w"
    unfolding child_frame_def using assms(2) after_self [of w] bumps_simps(1) by metis
  moreover have "child_frame valid w w0 \<and> p_ncaps (view (kern w0)) = p_ncaps (view (kern w))" if "l_custom_setup_fn l \<noteq> 0"
    using that assms unfolding callback_ok_def by (metis snd_conv)
  moreover have "r0 = 0 \<longrightarrow> set_up view E l (view (kern w)) (view (kern w0))" if "l_custom_setup_fn l \<noteq> 0"
    using that assms(3) unfolding set_up_def by (metis fst_conv snd_conv)
  ultimately show "child_frame valid w w0" "p_ncaps (view (kern w0)) = p_ncaps (view (kern w))"
    "r0 = 0 \<longrightarrow> set_up view E l (view (kern w)) (view (kern w0))"
    using assms(3) by (cases "l_custom_setup_fn l = 0"; simp add: set_up_def)+
qed

lemma cap_launch_child_exec:
  assumes "obj_at w p = Some (CapLaunch l)" "callback_ok view valid E l" "l_arg0 l = Some a"
    "wf_world w" "mem_ok w" "valid (kern w)" "caller_ok K (singlethread w) w" "caller_ok K (multithread w) w"
    "max_bits w = int (p_ncaps (view (kern w)))"
    "l_iab l \<noteq> NULL \<Longrightarrow> obj_at w (l_iab l) = Some (CapIab t) \<and> vec_set (iab_i t) \<subseteq> {..<p_ncaps (view (kern w))}"
    "l_chroot l \<noteq> NULL \<Longrightarrow> obj_at w (l_chroot l) = Some (CapStr root)"
  shows "\<exists>ce w'. cap_launch_child K E p w = Some (ce, w') \<and> ce \<noteq> Exit_ok
     \<and> (ce = Execed \<longrightarrow> (\<exists>v0 k k'. set_up view E l (view (kern w)) v0 \<and> e_execve E a (l_argv l) (l_envp l) k = (None, k')
          \<and> launched l t root v0 (view k)))"
proof -
  obtain r0 w0 where cb: "(if l_custom_setup_fn l = 0 then (0, w) else e_callback E (l_custom_setup_fn l) w) = (r0, w0)" by fastforce
  have f0: "child_frame valid w w0" "p_ncaps (view (kern w0)) = p_ncaps (view (kern w))" "r0 = 0 \<longrightarrow> set_up view E l (view (kern w)) (view (kern w0))"
    using callback_frame [OF assms(2,6) cb] by simp_all
  note w0 = child_frame_facts [OF f0(1) assms(4,5,7,8)]
  have st: "singlethread w0 = singlethread w" "multithread w0 = multithread w" using child_frame_threads [OF f0(1)] by simp_all
  have fail: "\<exists>wd. cap_launch_child K E p w = Some (Exit_fail, wd)" if "r0 \<noteq> 0"
    using that assms(1) cb launch_defer_exec [of w0] by (auto simp: cap_launch_child_def get_obj split: if_splits prod.splits)
  obtain b w1 where c: "launch_changes K (singlethread w0) l w0 = Some (b, w1)"
    "\<not> b \<longrightarrow> launched l t root (view (kern w0)) (view (kern w1))"
    using launch_changes_exec [of w0 "singlethread w0" l t root] w0 st assms(9-11) f0(2) by auto
  have start: "cap_launch_child K E p w =
      (if b then launch_defer E w1 else
        (case e_execve E a (l_argv l) (l_envp l) (kern w1) of
           (None, k) \<Rightarrow> Some (Execed, w1\<lparr>kern := k\<rparr>)
         | (Some e, k) \<Rightarrow> launch_defer E (w1\<lparr>kern := k, errno := e\<rparr>)))" if "r0 = 0"
    using that assms(1,3) cb c(1) w0(7)
    by (cases "l_custom_setup_fn l = 0") (simp_all add: cap_launch_child_def get_obj split del: if_split)
  obtain r k where x: "e_execve E a (l_argv l) (l_envp l) (kern w1) = (r, k)" by fastforce
  obtain wd where d: "launch_defer E w1 = Some (Exit_fail, wd)" using launch_defer_exec by blast
  consider "r0 \<noteq> 0" | "r0 = 0" "b" | "r0 = 0" "\<not> b" "r = None" | e where "r0 = 0" "\<not> b" "r = Some e" by (cases r) auto
  then show ?thesis
  proof cases
    case 1
    with fail show ?thesis by auto
  next
    case 2
    with start d show ?thesis by auto
  next
    case 3
    with start x c(2) f0(3) show ?thesis by auto
  next
    case (4 e)
    obtain wd' where "launch_defer E (w1\<lparr>kern := k, errno := e\<rparr>) = Some (Exit_fail, wd')" using launch_defer_exec by blast
    with 4 start x show ?thesis by auto
  qed
qed

lemma read_errno_exec:
  assumes "valid (kern w)"
  shows "\<exists>k. read_errno E ce child me w = Some (if ce = Exit_fail then (- 1, ECHILD) else (child, me), after k (errno w) w)
     \<and> valid k \<and> view k = view (kern w)"
proof -
  obtain r k where r: "e_read E ce (kern w) = (r, k)" by fastforce
  note keep = read_all [OF assms r]
  have "read_errno E ce child me w = Some (if ce = Exit_fail then (- 1, ECHILD) else (child, me),
      after (if ce = Exit_fail then e_waitpid E child k else k) (errno w) w)"
    using r keep by (subst read_errno.simps) (simp add: libc_ret_def after_def)
  then show ?thesis using keep wait_keeps [of k child] by (cases "ce = Exit_fail") auto
qed

end

lemma launched_mutex [simp]: "launched (l\<lparr>l_mutex := m\<rparr>) t root v0 v = launched l t root v0 v"
  by (simp add: launched_def ids_in_force_def mode_in_force_def groups_of_def)

lemma singlethread_heap [simp]:
  "singlethread (put_obj p ob w) = singlethread w" "singlethread (bumped w) = singlethread w"
  by (simp_all add: put_obj_def bumped_def)

context procs_abi
begin

lemma set_name_exec:
  assumes "valid (kern w)"
  shows "\<exists>k e. snd (prctl K PR_SET_NAME 0 0 0 0 0 w) = after k e w \<and> valid k \<and> view k = view (kern w)"
proof -
  let ?s = "SysPrctl PR_SET_NAME 0 0 0 0 0"
  have "outcome ?s w (fst (libc K ?s w)) (snd (libc K ?s w))" by (rule outcome_libc [OF assms])
  then obtain k e where "snd (libc K ?s w) = after k e w" "valid k"
    "fst (libc K ?s w) < 0 \<Longrightarrow> view k = view (kern w)"
    "0 \<le> fst (libc K ?s w) \<Longrightarrow> cap_post ?s (fst (libc K ?s w)) (view (kern w)) (view k)"
    by (elim outcomeE) blast
  then show ?thesis
    by (cases "fst (libc K ?s w) < 0") (auto simp: prctl_def cap_post_def prctl_post_def)
qed

lemma cap_launch_exec:
  assumes "launch_ready w p l" "callback_ok view valid E l" "l_arg0 l = Some a" "l_argv l \<noteq> None"
    "mem_ok w" "valid (kern w)" "caller_ok K (singlethread w) w" "caller_ok K (multithread w) w"
    "max_bits w = int (p_ncaps (view (kern w)))"
    "l_iab l \<noteq> NULL \<Longrightarrow> obj_at w (l_iab l) = Some (CapIab t) \<and> vec_set (iab_i t) \<subseteq> {..<p_ncaps (view (kern w))}"
    "l_chroot l \<noteq> NULL \<Longrightarrow> obj_at w (l_chroot l) = Some (CapStr root)"
  shows "\<exists>pid k e. cap_launch K E p w = Some (pid, after k e w) \<and> view k = view (kern w) \<and> (pid = - 1 \<or> 0 < pid)
     \<and> (0 < pid \<longrightarrow> (\<exists>v0 k k'. set_up view E l (view (kern w)) v0 \<and> e_execve E a (l_argv l) (l_envp l) k = (None, k')
          \<and> launched l t root v0 (view k)))
     \<and> ((\<forall>k. fst (e_pipe2 E k) = 0 \<and> 0 < fst (e_fork E k)) \<longrightarrow> pid = - 1 \<longrightarrow> e = ECHILD)"
proof -
  note p = launch_readyD [OF assms(1)]
  let ?v = "view (kern w)" and ?l = "l\<lparr>l_mutex := 1\<rparr>"
  let ?w = "put_obj p (CapLaunch ?l) w"
  have wf: "wf_world ?w" using p by (simp add: wf_world_put)
  have unlock: "cap_mu_unlock p (after k e ?w) = Some (after k e w)" for k e
    using p put_same [OF p(1)] by (simp add: libcap_exec)
  obtain r1 k1 where pipe: "e_pipe2 E (kern w) = (r1, k1)" by fastforce
  have k1: "r1 \<le> 0" "valid k1" "view k1 = ?v" using pipe_keeps [OF assms(6) pipe] by auto
  obtain r2 kp kc where fork: "e_fork E k1 = (r2, kp, kc)" by (cases "e_fork E k1") auto
  have k2: "r2 \<noteq> 0" "valid kp" "view kp = ?v" "valid kc" "view kc = ?v" using fork_keeps [OF k1(2) fork] k1(3) by auto
  have start: "cap_launch K E p w = (let (r, w) = libc_ret r1 (after k1 (errno w) ?w) in
       if r \<noteq> 0 then do { w \<leftarrow> cap_mu_unlock p w; Some (- 1, w) }
       else (let (r, kp, kc) = e_fork E (kern w);
                 (child, w) = libc_ret r (w\<lparr>kern := kp\<rparr>);
                 my_errno = errno w
             in do {
               ce \<leftarrow> (if child < 0 then Some Exit_fail
                     else do { (ce, _) \<leftarrow> cap_launch_child K E p
                          (snd (prctl K PR_SET_NAME 0 0 0 0 0 (w\<lparr>kern := e_close E kc\<rparr>))); Some ce });
               w \<leftarrow> cap_mu_unlock p w;
               w \<leftarrow> Some (w\<lparr>kern := e_close E (kern w)\<rparr>);
               ((child, my_errno), w) \<leftarrow>
                 (if child < 0 then Some ((child, my_errno), w) else read_errno E ce child my_errno w);
               Some (child, w\<lparr>kern := e_close E (kern w), errno := my_errno\<rparr>) }))"
  proof -
    have "?w\<lparr>kern := k1\<rparr> = after k1 (errno w) ?w" by (simp add: after_def)
    moreover from assms(4) obtain av where "l_argv l = Some av" by blast
    ultimately show ?thesis
      using p assms(2,3) pipe by (simp add: cap_launch_def libcap_exec split del: if_split)
  qed
  consider "r1 < 0" | "r1 = 0" "r2 < 0" | "r1 = 0" "0 < r2" using k1(1) k2(1) by linarith
  then show ?thesis
  proof cases
    case 1
    then have "cap_launch K E p w = Some (- 1, after k1 (- r1) w)"
      using unlock unfolding start by (simp add: libc_ret_after)
    moreover have "\<not> (\<forall>k. fst (e_pipe2 E k) = 0 \<and> 0 < fst (e_fork E k))" using 1 pipe by (metis fst_conv less_irrefl)
    ultimately show ?thesis using k1(3) by auto
  next
    case 2
    then have "cap_launch K E p w = Some (- 1, after (e_close E (e_close E kp)) (- r2) w)"
      using unlock fork unfolding start by (simp add: libc_ret_after)
    moreover have "\<not> (\<forall>k. fst (e_pipe2 E k) = 0 \<and> 0 < fst (e_fork E k))" using 2 fork by (metis fst_conv less_asym)
    ultimately show ?thesis using close_keeps k2(2,3) by auto
  next
    case 3
    let ?wc = "after (e_close E kc) (errno w) ?w"
    have kc: "valid (e_close E kc)" "view (e_close E kc) = ?v" using close_keeps k2(4,5) by auto
    obtain k3 e3 where name: "snd (prctl K PR_SET_NAME 0 0 0 0 0 ?wc) = after k3 e3 ?w" "valid k3" "view k3 = ?v"
      using set_name_exec [of ?wc] kc by auto
    have iab: "l_iab ?l \<noteq> NULL \<Longrightarrow> obj_at (after k3 e3 ?w) (l_iab ?l) = Some (CapIab t) \<and> vec_set (iab_i t) \<subseteq> {..<p_ncaps (view k3)}"
      "l_chroot ?l \<noteq> NULL \<Longrightarrow> obj_at (after k3 e3 ?w) (l_chroot ?l) = Some (CapStr root)"
      using assms(10,11) p(1) name(3) by auto
    have "\<exists>ce w'. cap_launch_child K E p (after k3 e3 ?w) = Some (ce, w') \<and> ce \<noteq> Exit_ok
       \<and> (ce = Execed \<longrightarrow> (\<exists>v0 k k'. set_up view E ?l (view (kern (after k3 e3 ?w))) v0 \<and> e_execve E a (l_argv ?l) (l_envp ?l) k = (None, k')
          \<and> launched ?l t root v0 (view k)))"
      by (rule cap_launch_child_exec) (use p assms iab name wf in simp_all)
    then obtain ce w' where ch: "cap_launch_child K E p (after k3 e3 ?w) = Some (ce, w')" "ce \<noteq> Exit_ok"
      "ce = Execed \<longrightarrow> (\<exists>v0 k k'. set_up view E l ?v v0 \<and> e_execve E a (l_argv l) (l_envp l) k = (None, k') \<and> launched l t root v0 (view k))"
      using name(3) by simp metis
    have kp': "valid (e_close E kp)" "view (e_close E kp) = ?v" using close_keeps k2(2,3) by auto
    obtain k4 where rd: "read_errno E ce r2 (errno w) (after (e_close E kp) (errno w) w) =
        Some (if ce = Exit_fail then (- 1, ECHILD) else (r2, errno w), after k4 (errno w) w)" "valid k4" "view k4 = ?v"
      using read_errno_exec [of "after (e_close E kp) (errno w) w" ce r2 "errno w"] kp' by auto
    have "cap_launch K E p w = Some (if ce = Exit_fail then - 1 else r2,
        after (e_close E k4) (if ce = Exit_fail then ECHILD else errno w) w)"
      using 3 unlock fork name(1) ch(1) rd(1) unfolding start by (cases "ce = Exit_fail") (simp_all add: libc_ret_after)
    moreover have "ce = Execed" if "ce \<noteq> Exit_fail" using that ch(2) by (cases ce) auto
    ultimately show ?thesis using 3 close_keeps [OF rd(2)] rd(3) ch(3) by (cases "ce = Exit_fail") auto
  qed
qed

end

section \<open>Processes for the Linux instance\<close>

definition lk_procs :: "linux procs" where
  "lk_procs = \<lparr>e_callback = (\<lambda>_ w. (0, w)), e_pipe2 = (\<lambda>k. (0, k)), e_fork = (\<lambda>k. (4321, k, k)),
     e_execve = (\<lambda>_ _ _ k. (None, k)), e_write = (\<lambda>_ k. (4, k)),
     e_read = (\<lambda>ce k. (if ce = Exit_fail then 4 else 0, k)), e_close = (\<lambda>k. k), e_waitpid = (\<lambda>_ k. k)\<rparr>"

interpretation linux_procs: procs_abi linux_kernel lk_view lk_valid lk_procs
  by unfold_locales (auto simp: lk_procs_def)

section \<open>What the launcher promises\<close>

text \<open>
  C22: \<^verbatim>\<open>cap_launch\<close> of a program, with or without a callback, always returns; the
  parent keeps its credentials, its objects are unlocked and unchanged and it gets -1 or a positive
  pid.  It gets a pid only if the child reached its \<^verbatim>\<open>execve\<close> and that call succeeded, in
  credentials where what the launcher was primed with is in force: the ids and groups; the mode
  (except that \<^verbatim>\<open>PURE1E\<close> without inheritable capabilities is
  \<^verbatim>\<open>PURE1E_INIT\<close>), also under a tuple, which then replaces the inheritable and ambient
  vectors and takes its bounding bits away; and the root.  Nothing is effective any more after any
  change but that of the tuple.  The launch starts from the credentials of the parent, or from
  those a successful callback left.  Once the fork has worked, every failure of the child is
  reported as \<^verbatim>\<open>ECHILD\<close>.
\<close>

theorem cap_launch_spec:
  assumes "procs_abi K view valid E" "launch_ready w p l" "callback_ok view valid E l" "l_arg0 l = Some a" "l_argv l \<noteq> None"
    "mem_ok w" "valid (kern w)" "caller_ok K (singlethread w) w" "caller_ok K (multithread w) w"
    "max_bits w = int (p_ncaps (view (kern w)))"
    "l_iab l \<noteq> NULL \<Longrightarrow> obj_at w (l_iab l) = Some (CapIab t) \<and> vec_set (iab_i t) \<subseteq> {..<p_ncaps (view (kern w))}"
    "l_chroot l \<noteq> NULL \<Longrightarrow> obj_at w (l_chroot l) = Some (CapStr root)"
  shows "\<exists>pid w'. cap_launch K E p w = Some (pid, w') \<and> heap w' = heap w \<and> view (kern w') = view (kern w)
     \<and> (pid = - 1 \<or> 0 < pid)
     \<and> (0 < pid \<longrightarrow> (\<exists>v0 k k'. set_up view E l (view (kern w)) v0 \<and> e_execve E a (l_argv l) (l_envp l) k = (None, k')
          \<and> launched l t root v0 (view k)))
     \<and> ((\<forall>k. fst (e_pipe2 E k) = 0 \<and> 0 < fst (e_fork E k)) \<longrightarrow> pid = - 1 \<longrightarrow> errno w' = ECHILD)"
proof -
  obtain pid k e where "cap_launch K E p w = Some (pid, after k e w)" "view k = view (kern w)" "pid = - 1 \<or> 0 < pid"
    "0 < pid \<longrightarrow> (\<exists>v0 k k'. set_up view E l (view (kern w)) v0 \<and> e_execve E a (l_argv l) (l_envp l) k = (None, k') \<and> launched l t root v0 (view k))"
    "(\<forall>k. fst (e_pipe2 E k) = 0 \<and> 0 < fst (e_fork E k)) \<longrightarrow> pid = - 1 \<longrightarrow> e = ECHILD"
    using procs_abi.cap_launch_exec [OF assms(1-10), of t root] assms(11,12) by blast
  then show ?thesis by (intro exI [of _ pid] exI [of _ "after k e w"]) simp
qed

definition demo_launch :: cap_launch_s where
  "demo_launch = \<lparr>l_mutex = 0, l_custom_setup_fn = 0, l_change_uids = 1, l_uid = 1000, l_change_gids = 0, l_gid = 0,
     l_ngroups = 0, l_groups = None, l_change_mode = 0, l_mode = 0, l_iab = NULL, l_chroot = NULL,
     l_arg0 = Some ''/bin/sh'', l_argv = Some [''sh''], l_envp = None\<rparr>"

definition demo_launch_world :: "linux world" where
  "demo_launch_world = with_obj (CapLaunch demo_launch) (machine root_linux)"

lemma demo_launch_ready: "launch_ready demo_launch_world 24 demo_launch"
  by (simp add: launch_ready_def demo_launch_world_def wf_with_obj) (simp add: demo_launch_def)

theorem cap_launch_spec_witness:
  "\<exists>pid w'. cap_launch linux_kernel lk_procs 24 demo_launch_world = Some (pid, w')
     \<and> p_uid (lk_view (kern w')) = 0 \<and> (pid = - 1 \<or> 0 < pid)"
proof -
  let ?w = demo_launch_world
  have l: "callback_ok lk_view lk_valid lk_procs demo_launch" "l_arg0 demo_launch = Some ''/bin/sh''" "l_argv demo_launch \<noteq> None"
    "l_iab demo_launch = NULL" "l_chroot demo_launch = NULL" by (simp_all add: demo_launch_def callback_ok_def)
  have v: "p_ncaps (lk_view root_linux) = 41" "p_uid (lk_view root_linux) = 0"
    by (simp_all add: lk_view_def root_linux_def plain_linux_def)
  have m: "mem_ok ?w" "lk_valid (kern ?w)" "max_bits ?w = int (p_ncaps (lk_view (kern ?w)))" "kern ?w = root_linux"
    using root_valid v by (simp_all add: demo_launch_world_def)
  have c: "caller_ok linux_kernel sc ?w" for sc unfolding demo_launch_world_def by (rule caller_ok_machine)
  from cap_launch_spec [OF linux_procs.procs_abi_axioms demo_launch_ready l(1-3) m(1,2) c c m(3), of zero_iab "[]"] l(4,5) v m(4)
  show ?thesis by auto
qed

lemma put_swap:
  assumes "p \<noteq> q"
  shows "put_obj p a (put_obj q b (put_obj p c w)) = put_obj q b (put_obj p a w)"
  using assms by (cases "heap w p") (simp_all add: put_obj_def fun_upd_twist)

text \<open>
  C23: A tuple given to a launcher is locked for as long as the launcher owns it: a client that
  tries to change it blocks, and taking it back with another \<^verbatim>\<open>cap_launcher_set_iab\<close>
  returns the very tuple, unlocked and with its value untouched.
\<close>

theorem cap_launcher_set_iab_spec:
  assumes "launch_ready w p l" "l_iab l = NULL" "iab_ready w q t" "r \<le> 1" "0 \<le> b" "b < max_bits w"
  shows "\<exists>w'. cap_launcher_set_iab p q w = Some (NULL, w')
     \<and> obj_at w' p = Some (CapLaunch (l\<lparr>l_iab := q\<rparr>)) \<and> obj_at w' q = Some (CapIab (t\<lparr>i_mutex := 1\<rparr>))
     \<and> cap_iab_set_vector q v b r w' = None
     \<and> cap_launcher_set_iab p NULL w' = Some (q, w)"
proof -
  note p = launch_readyD [OF assms(1)]
  note q = iab_readyD [OF assms(3)]
  have l: "l\<lparr>l_iab := NULL\<rparr> = l" using assms(2) by (cases l) simp
  have ne: "p \<noteq> q" using p(1) q(1) by auto
  let ?w = "put_obj q (CapIab (t\<lparr>i_mutex := 1\<rparr>)) (put_obj p (CapLaunch (l\<lparr>l_iab := q\<rparr>)) w)"
  have "cap_launcher_set_iab p q w = Some (NULL, ?w)"
    using assms(2) p q ne by (simp add: cap_launcher_set_iab_def libcap_exec put_swap)
  moreover have "cap_iab_set_vector q v b r ?w = None"
    using p q ne assms(4-6) by (cases "r = 0 \<or> r = 1") (auto simp: cap_iab_set_vector_def libcap_exec cap_mu_lock_def cap_mu_blocked_def)
  moreover have "cap_launcher_set_iab p NULL ?w = Some (q, w)"
    using l p q ne put_same [OF p(1)] put_same [OF q(1)] by (simp add: cap_launcher_set_iab_def libcap_exec put_swap)
  ultimately show ?thesis using p q ne by (intro exI [of _ ?w]) simp
qed

theorem cap_launcher_set_iab_spec_witness:
  "\<exists>w'. cap_launcher_set_iab 24 40 (with_obj (CapIab zero_iab) demo_launch_world) = Some (NULL, w')
     \<and> cap_launcher_set_iab 24 NULL w' = Some (40, with_obj (CapIab zero_iab) demo_launch_world)"
proof -
  let ?w = "with_obj (CapIab zero_iab) demo_launch_world"
  have "wf_world ?w" "obj_at ?w 24 = Some (CapLaunch demo_launch)" "obj_at ?w 40 = Some (CapIab zero_iab)"
    using launch_readyD [OF demo_launch_ready] by (simp_all add: demo_launch_world_def wf_with_obj)
  moreover have "l_mutex demo_launch = 0" "l_iab demo_launch = NULL" "i_mutex zero_iab = 0" "max_bits ?w = 41"
    by (simp_all add: demo_launch_def zero_iab_def demo_launch_world_def)
  ultimately show ?thesis
    using cap_launcher_set_iab_spec [of ?w 24 demo_launch 40 zero_iab 1 0 CAP_IAB_INH]
    by (auto simp: launch_ready_def iab_ready_def)
qed

end
