(* ===== verification/Pam_Cap.thy ===== *)
theory Pam_Cap
  imports Cap_Iab_Proc Cap_Iab_Text
begin

text \<open>
  \<^verbatim>\<open>pam_cap/pam_cap.c\<close>: the PAM module that gives a user the IAB tuple of the first
  matching line of \<^verbatim>\<open>capability.conf\<close>.

  The user and group databases, the file system and the PAM library are parameters: the fields of
  \<open>'h pam_env\<close>, where \<open>'h\<close> is the state behind a PAM handle.  \<^verbatim>\<open>pam_set_data\<close> may call the
  clean-up function of an item it replaces; the parameter returns that call, as the pointer and the
  status it passes, and the model makes it.  The values of the PAM constants are those of its public
  headers.  The blocks of \<^verbatim>\<open>strdup\<close> and \<^verbatim>\<open>calloc\<close> that never leave the module are kept as
  values; an allocation that fails is modelled.
\<close>

section \<open>Parameters\<close>

record conf_file =
  f_mode :: "u32 option"
  f_text :: string

record 'h pam_env =
  getpwnam :: "string \<Rightarrow> u32 option"
  group_list :: "string \<Rightarrow> u32 \<Rightarrow> u32 list"
  getgrgid :: "u32 \<Rightarrow> string option"
  fopen :: "string \<Rightarrow> conf_file option"
  pam_get_user :: "'h \<Rightarrow> int \<times> string option \<times> 'h"
  pam_get_item :: "'h \<Rightarrow> int \<times> string option"
  pam_set_data :: "addr \<Rightarrow> 'h \<Rightarrow> int \<times> (addr \<times> u32) option \<times> 'h"

abbreviation (input) PAM_SUCCESS :: int where "PAM_SUCCESS \<equiv> 0"
abbreviation (input) PAM_AUTH_ERR :: int where "PAM_AUTH_ERR \<equiv> 7"
abbreviation (input) PAM_IGNORE :: int where "PAM_IGNORE \<equiv> 25"
abbreviation (input) PAM_CONV_AGAIN :: int where "PAM_CONV_AGAIN \<equiv> 30"
abbreviation (input) PAM_INCOMPLETE :: int where "PAM_INCOMPLETE \<equiv> 31"
abbreviation (input) PAM_ESTABLISH_CRED :: u32 where "PAM_ESTABLISH_CRED \<equiv> 0x2"
abbreviation (input) PAM_REINITIALIZE_CRED :: u32 where "PAM_REINITIALIZE_CRED \<equiv> 0x8"
abbreviation (input) PAM_DATA_REPLACE :: u32 where "PAM_DATA_REPLACE \<equiv> 0x20000000"
abbreviation (input) PAM_DATA_SILENT :: u32 where "PAM_DATA_SILENT \<equiv> 0x40000000"
abbreviation (input) S_IWOTH :: u32 where "S_IWOTH \<equiv> 2"
abbreviation (input) NGROUPS_MAX :: nat where "NGROUPS_MAX \<equiv> 65536"

definition USER_CAP_FILE :: string where "USER_CAP_FILE = ''/etc/security/capability.conf''"
definition CAP_FILE_BUFFER_SIZE :: nat where "CAP_FILE_BUFFER_SIZE = 4096"

definition CAP_FILE_DELIMITERS :: string where
  "CAP_FILE_DELIMITERS = [CHR '' '', CHR 0x09, CHR 0x0A]"

record pam_cap_s =
  pc_debug :: int
  pc_keepcaps :: int
  pc_autoauth :: int
  pc_defer :: int
  pc_user :: "string option"
  pc_conf_filename :: "string option"
  pc_fallback :: "string option"

section \<open>The C library\<close>

definition c_strdup :: "string \<Rightarrow> 'k world \<Rightarrow> string option \<times> 'k world" where
  "c_strdup s w = (let (p, w) = calloc w in (if p = NULL then None else Some s, w))"

text \<open>
  \<^verbatim>\<open>getgrouplist\<close>: the number of groups, or -1 when they do not fit.
\<close>

definition getgrouplist :: "'h pam_env \<Rightarrow> string \<Rightarrow> u32 \<Rightarrow> nat \<Rightarrow> int \<times> u32 list" where
  "getgrouplist E user gid n =
     (let gs = group_list E user gid in if length gs \<le> n then (int (length gs), gs) else (- 1, take n gs))"

section \<open>Reading the configuration\<close>

text \<open>The loop of \<^verbatim>\<open>load_groups\<close>: the names of the groups that exist, \<^const>\<open>None\<close> for a failed \<^verbatim>\<open>strdup\<close>.\<close>

primrec name_groups :: "'h pam_env \<Rightarrow> u32 list \<Rightarrow> 'k world \<Rightarrow> string option list \<times> 'k world" where
  "name_groups E [] w = ([], w)"
| "name_groups E (g # gs) w =
     (case getgrgid E g of
        None \<Rightarrow> name_groups E gs w
      | Some nm \<Rightarrow>
          (let (s, w) = c_strdup nm w;
               (ss, w) = name_groups E gs w
           in (s # ss, w)))"

definition load_groups :: "'h pam_env \<Rightarrow> string \<Rightarrow> 'k world \<Rightarrow> string option list option \<times> 'k world" where
  "load_groups E user w =
     (case getpwnam E user of
        None \<Rightarrow> (None, w)
      | Some gid \<Rightarrow>
          (let (n, grps) = getgrouplist E user gid NGROUPS_MAX in
           if n < 1 then (None, w)
           else
             (let (groups, w) = calloc w in
              if groups = NULL then (None, w)
              else
                (let (ss, w) = name_groups E grps w in (Some ss, w)))))"

text \<open>The loop over the groups of the user, and the loop over the names of a line.\<close>

primrec in_groups :: "string \<Rightarrow> string option list \<Rightarrow> bool" where
  "in_groups nm [] = False"
| "in_groups nm (g # gs) = (if g = Some nm then True else in_groups nm gs)"

function match_line :: "string \<Rightarrow> string option list \<Rightarrow> string \<Rightarrow> bool" where
  "match_line user groups nx =
     (case strtok_r nx CAP_FILE_DELIMITERS of
        (None, _) \<Rightarrow> False
      | (Some line, nx) \<Rightarrow>
          if line = ''*'' then True
          else if line = user then True
          else if deref line \<noteq> CHR ''@'' then match_line user groups nx
          else if in_groups (tl line) groups then True
          else match_line user groups nx)"
  by pat_completeness auto
termination
  by (relation "measure (\<lambda>(user, groups, nx). length nx)") (auto dest: strtok_r_shorter [OF sym])

declare match_line.simps [simp del]

lemma fgets_shorter: "1 < n \<Longrightarrow> fgets n s = Some (l, r) \<Longrightarrow> length r < length s"
  by (cases s) (auto simp: fgets_def Let_def split: if_splits)

text \<open>The loop over the lines of the file: the token to be copied, if a line matches.\<close>

function scan_conf :: "string \<Rightarrow> string option list \<Rightarrow> string \<Rightarrow> string option" where
  "scan_conf user groups s =
     (case fgets CAP_FILE_BUFFER_SIZE s of
        None \<Rightarrow> None
      | Some (buffer, s) \<Rightarrow>
          (case strtok_r (c_str buffer) CAP_FILE_DELIMITERS of
             (None, _) \<Rightarrow> scan_conf user groups s
           | (Some cap_text, nx) \<Rightarrow>
               if deref cap_text = CHR ''#'' then scan_conf user groups s
               else if match_line user groups nx then Some cap_text
               else scan_conf user groups s))"
  by pat_completeness auto
termination
  by (relation "measure (\<lambda>(user, groups, s). length s)")
    (auto dest!: fgets_shorter [rotated] simp: CAP_FILE_BUFFER_SIZE_def)

declare scan_conf.simps [simp del]

text \<open>
  The end of \<^verbatim>\<open>read_capabilities_for_user\<close> calls \<^verbatim>\<open>strlen\<close> on the name of every group, which is
  undefined for one that could not be copied.
\<close>

definition read_capabilities_for_user ::
  "'h pam_env \<Rightarrow> string \<Rightarrow> string \<Rightarrow> 'k world \<Rightarrow> (string option \<times> 'k world) option" where
  "read_capabilities_for_user E user source w =
     (let (lg, w) = load_groups E user w in
      case lg of
        None \<Rightarrow> Some (None, w)
      | Some groups \<Rightarrow>
          (let (cap_string, w) =
             (case fopen E source of
                None \<Rightarrow> (None, w)
              | Some f \<Rightarrow>
                  if source \<noteq> ''/dev/null'' \<and> (case f_mode f of None \<Rightarrow> True | Some m \<Rightarrow> m AND S_IWOTH \<noteq> 0)
                  then (None, w)
                  else
                    (case scan_conf user groups (f_text f) of
                       None \<Rightarrow> (None, w)
                     | Some cap_text \<Rightarrow> c_strdup cap_text w))
           in if None \<in> set groups then None else Some (cap_string, w)))"

section \<open>Applying it\<close>

definition iab_apply :: "'k kernel \<Rightarrow> addr \<Rightarrow> u32 \<Rightarrow> 'k world \<Rightarrow> 'k world option" where
  "iab_apply K iab error_status w =
     (let retval = error_status AND NOT (PAM_DATA_REPLACE OR PAM_DATA_SILENT) in
      do {
        w \<leftarrow> (if error_status AND PAM_DATA_REPLACE \<noteq> 0 then Some w
              else if retval \<noteq> 0 \<or> error_status AND PAM_DATA_SILENT = 0 then Some w
              else do {
                (_, w) \<leftarrow> cap_iab_set_proc K iab w;
                Some w });
        (_, w) \<leftarrow> cap_free iab w;
        Some w })"

text \<open>The deferred branch of \<^verbatim>\<open>set_capabilities\<close>, with the clean-up call PAM may make.\<close>

definition defer_iab ::
  "'k kernel \<Rightarrow> 'h pam_env \<Rightarrow> addr \<Rightarrow> 'k world \<Rightarrow> 'h \<Rightarrow> ('k world \<times> 'h) option" where
  "defer_iab K E iab w h =
     (let (ret, cb, h) = pam_set_data E iab h in
      do {
        w \<leftarrow> (case cb of None \<Rightarrow> Some w | Some (old, status) \<Rightarrow> iab_apply K old status w);
        w \<leftarrow> (if ret \<noteq> PAM_SUCCESS then do { (_, w) \<leftarrow> cap_free iab w; Some w } else Some w);
        Some (w, h) })"

definition set_conf_caps ::
  "'k kernel \<Rightarrow> names_h \<Rightarrow> 'h pam_env \<Rightarrow> pam_cap_s \<Rightarrow> addr \<Rightarrow> string \<Rightarrow> 'k world \<Rightarrow> 'h
     \<Rightarrow> (int \<times> 'k world \<times> 'h) option" where
  "set_conf_caps K N E cs cap_s conf_caps w h =
     (if conf_caps = ''all'' then Some (1, w, h)
      else if conf_caps = ''none'' then do {
        (_, w) \<leftarrow> cap_clear_flag cap_s (int CAP_INHERITABLE) w;
        (r, w) \<leftarrow> cap_set_proc K cap_s w;
        Some (if r = 0 then 1 else 0, w, h) }
      else do {
        (iab, w) \<leftarrow> cap_iab_from_text N (Some conf_caps) w;
        if iab = NULL then Some (0, w, h)
        else do {
          (ok, iab, w, h) \<leftarrow>
            (if pc_defer cs \<noteq> 0 then do {
               (w, h) \<leftarrow> defer_iab K E iab w h;
               Some (0, NULL, w, h) }
             else do {
               (r, w) \<leftarrow> cap_iab_set_proc K iab w;
               Some (if r = 0 then 1 else 0, iab, w, h) });
          (_, w) \<leftarrow> cap_free iab w;
          w \<leftarrow> Some (if pc_keepcaps cs \<noteq> 0 then snd (cap_prctlw K PR_SET_KEEPCAPS 1 0 0 0 0 w) else w);
          Some (ok, w, h) } })"

text \<open>The file that is read: the argument of \<^verbatim>\<open>config=\<close>, or the default.\<close>

definition conf_source :: "pam_cap_s \<Rightarrow> string" where
  "conf_source cs = (case pc_conf_filename cs of Some f \<Rightarrow> f | None \<Rightarrow> USER_CAP_FILE)"

definition set_capabilities ::
  "'k kernel \<Rightarrow> names_h \<Rightarrow> 'h pam_env \<Rightarrow> pam_cap_s \<Rightarrow> 'k world \<Rightarrow> 'h \<Rightarrow> (int \<times> 'k world \<times> 'h) option" where
  "set_capabilities K N E cs w h = do {
     (cap_s, w) \<leftarrow> cap_get_proc K w;
     if cap_s = NULL then Some (0, w, h)
     else do {
       user \<leftarrow> pc_user cs;
       (conf_caps, w) \<leftarrow> read_capabilities_for_user E user (conf_source cs) w;
       (conf_caps, w) \<leftarrow> Some (case (conf_caps, pc_fallback cs) of
            (None, Some s) \<Rightarrow> c_strdup s w
          | _ \<Rightarrow> (conf_caps, w));
       (ok, w, h) \<leftarrow> (case conf_caps of
            None \<Rightarrow> Some (0, w, h)
          | Some conf_caps \<Rightarrow> set_conf_caps K N E cs cap_s conf_caps w h);
       (_, w) \<leftarrow> cap_free cap_s w;
       Some (ok, w, h) } }"

section \<open>The module\<close>

definition zero_pcs :: pam_cap_s where
  "zero_pcs = \<lparr>pc_debug = 0, pc_keepcaps = 0, pc_autoauth = 0, pc_defer = 0, pc_user = None,
     pc_conf_filename = None, pc_fallback = None\<rparr>"

definition parse_arg :: "string \<Rightarrow> pam_cap_s \<Rightarrow> pam_cap_s" where
  "parse_arg arg pcs =
     (if arg = ''debug'' then pcs\<lparr>pc_debug := 1\<rparr>
      else if take 7 arg = ''config='' then pcs\<lparr>pc_conf_filename := Some (drop 7 arg)\<rparr>
      else if arg = ''keepcaps'' then pcs\<lparr>pc_keepcaps := 1\<rparr>
      else if arg = ''autoauth'' then pcs\<lparr>pc_autoauth := 1\<rparr>
      else if take 8 arg = ''default='' then pcs\<lparr>pc_fallback := Some (drop 8 arg)\<rparr>
      else if arg = ''defer'' then pcs\<lparr>pc_defer := 1\<rparr>
      else pcs)"

definition parse_args :: "string list \<Rightarrow> pam_cap_s" where
  "parse_args argv = fold parse_arg argv zero_pcs"

definition pam_sm_authenticate ::
  "'h pam_env \<Rightarrow> string list \<Rightarrow> 'k world \<Rightarrow> 'h \<Rightarrow> (int \<times> 'k world \<times> 'h) option" where
  "pam_sm_authenticate E argv w h =
     (let pcs = parse_args argv;
          (retval, user, h) = pam_get_user E h
      in if retval = PAM_CONV_AGAIN then Some (PAM_INCOMPLETE, w, h)
         else if pc_autoauth pcs \<noteq> 0 then Some (PAM_SUCCESS, w, h)
         else if retval \<noteq> PAM_SUCCESS then Some (PAM_AUTH_ERR, w, h)
         else do {
           user \<leftarrow> user;
           (conf_caps, w) \<leftarrow> read_capabilities_for_user E user (conf_source pcs) w;
           Some (if conf_caps \<noteq> None then PAM_SUCCESS else PAM_IGNORE, w, h) })"

definition pam_sm_setcred ::
  "'k kernel \<Rightarrow> names_h \<Rightarrow> 'h pam_env \<Rightarrow> u32 \<Rightarrow> string list \<Rightarrow> 'k world \<Rightarrow> 'h \<Rightarrow> (int \<times> 'k world \<times> 'h) option" where
  "pam_sm_setcred K N E flags argv w h =
     (if flags AND (PAM_ESTABLISH_CRED OR PAM_REINITIALIZE_CRED) = 0 then Some (PAM_IGNORE, w, h)
      else
        (let pcs = parse_args argv;
             (retval, user) = pam_get_item E h
         in if retval \<noteq> PAM_SUCCESS \<or> user = None \<or> user = Some [] then Some (PAM_AUTH_ERR, w, h)
            else do {
              (retval, w, h) \<leftarrow> set_capabilities K N E (pcs\<lparr>pc_user := user\<rparr>) w h;
              Some (if retval \<noteq> 0 then PAM_SUCCESS else PAM_IGNORE, w, h) }))"

section \<open>Lines and words\<close>

text \<open>A text cut at the characters that satisfy \<open>P\<close>; its non-empty pieces are its words.\<close>

primrec split_at :: "(char \<Rightarrow> bool) \<Rightarrow> string \<Rightarrow> string list" where
  "split_at P [] = [[]]"
| "split_at P (c # s) =
     (if P c then [] # split_at P s
      else (case split_at P s of [] \<Rightarrow> [[c]] | l # ls \<Rightarrow> (c # l) # ls))"

definition conf_words :: "string \<Rightarrow> string list" where
  "conf_words s = filter (\<lambda>x. x \<noteq> []) (split_at (\<lambda>c. c \<in> {CHR '' '', CHR 0x09, CHR 0x0A}) s)"

definition conf_lines :: "string \<Rightarrow> string list" where
  "conf_lines s = split_at (\<lambda>c. c = CHR 0x0A) s"

lemma split_at_not_Nil [simp]: "split_at P s \<noteq> []"
  by (cases s) (simp_all split: list.split)

lemma split_at_while:
  "split_at P s = takeWhile (\<lambda>c. \<not> P c) s
     # (case dropWhile (\<lambda>c. \<not> P c) s of [] \<Rightarrow> [] | _ # r \<Rightarrow> split_at P r)"
  by (induction s) (auto split: list.splits)

lemma split_at_none: "(\<forall>c \<in> set s. \<not> P c) \<Longrightarrow> split_at P s = [s]"
  by (subst split_at_while) (simp add: takeWhile_eq_all_conv [THEN iffD2] dropWhile_eq_Nil_conv [THEN iffD2])

lemma conf_words_Nil [simp]: "conf_words [] = []"
  by (simp add: conf_words_def)

lemma conf_words_skip: "c \<in> set CAP_FILE_DELIMITERS \<Longrightarrow> conf_words (c # s) = conf_words s"
  by (auto simp: conf_words_def CAP_FILE_DELIMITERS_def)

lemma conf_words_drop: "conf_words (dropWhile (\<lambda>c. c \<in> set CAP_FILE_DELIMITERS) s) = conf_words s"
  by (induction s) (simp_all add: conf_words_skip)

lemma conf_words_newline: "conf_words (s @ [CHR 0x0A]) = conf_words s"
proof -
  have "split_at P (s @ [c]) = split_at P s @ [[]]" if "P c" for P c
    using that by (induction s) (auto split: list.split)
  then show ?thesis by (simp add: conf_words_def)
qed

lemma conf_words_alt: "conf_words s = filter (\<lambda>x. x \<noteq> []) (split_at (\<lambda>c. c \<in> set CAP_FILE_DELIMITERS) s)"
  by (simp add: conf_words_def CAP_FILE_DELIMITERS_def)

lemma pieces_while:
  "takeWhile (\<lambda>c. \<not> P c) s \<noteq> [] \<Longrightarrow> filter (\<lambda>x. x \<noteq> []) (split_at P s) =
     takeWhile (\<lambda>c. \<not> P c) s # filter (\<lambda>x. x \<noteq> []) (split_at P (tl (dropWhile (\<lambda>c. \<not> P c) s)))"
  by (subst split_at_while) (cases "dropWhile (\<lambda>c. \<not> P c) s"; simp del: dropWhile_eq_Nil_conv)

lemma strtok_r_words:
  "strtok_r s CAP_FILE_DELIMITERS =
     (case conf_words s of [] \<Rightarrow> (None, []) | t # _ \<Rightarrow> (Some t, snd (strtok_r s CAP_FILE_DELIMITERS)))"
  "conf_words (snd (strtok_r s CAP_FILE_DELIMITERS)) = tl (conf_words s)"
proof -
  let ?D = "\<lambda>c. c \<in> set CAP_FILE_DELIMITERS"
  define u where "u = dropWhile ?D s"
  have w: "conf_words s = conf_words u" by (simp add: u_def conf_words_drop)
  have "(strtok_r s CAP_FILE_DELIMITERS =
     (case conf_words s of [] \<Rightarrow> (None, []) | t # _ \<Rightarrow> (Some t, snd (strtok_r s CAP_FILE_DELIMITERS))))
     \<and> conf_words (snd (strtok_r s CAP_FILE_DELIMITERS)) = tl (conf_words s)"
  proof (cases u)
    case Nil
    then show ?thesis using w by (simp add: strtok_r_def u_def [symmetric])
  next
    case (Cons c r)
    then have c: "\<not> ?D c" using hd_dropWhile [of ?D s] by (simp add: u_def)
    have "takeWhile (\<lambda>c. \<not> ?D c) u \<noteq> []" using c Cons by simp
    then have "conf_words u = takeWhile (\<lambda>c. \<not> ?D c) u # conf_words (tl (dropWhile (\<lambda>c. \<not> ?D c) u))"
      unfolding conf_words_alt by (rule pieces_while)
    then show ?thesis using w Cons by (simp add: strtok_r_def u_def [symmetric] Let_def)
  qed
  then show "strtok_r s CAP_FILE_DELIMITERS =
     (case conf_words s of [] \<Rightarrow> (None, []) | t # _ \<Rightarrow> (Some t, snd (strtok_r s CAP_FILE_DELIMITERS)))"
    "conf_words (snd (strtok_r s CAP_FILE_DELIMITERS)) = tl (conf_words s)" by simp_all
qed

section \<open>The first line that names the user\<close>

text \<open>The specification of the configuration file, as capability.conf(5) puts it.\<close>

definition conf_names :: "string \<Rightarrow> string set \<Rightarrow> string \<Rightarrow> bool" where
  "conf_names user G who \<longleftrightarrow> who = ''*'' \<or> who = user \<or> (\<exists>g \<in> G. who = CHR ''@'' # g)"

definition conf_applies :: "string \<Rightarrow> string set \<Rightarrow> string list \<Rightarrow> bool" where
  "conf_applies user G ws \<longleftrightarrow> ws \<noteq> [] \<and> hd (hd ws) \<noteq> CHR ''#'' \<and> (\<exists>who \<in> set (tl ws). conf_names user G who)"

definition conf_first :: "string \<Rightarrow> string set \<Rightarrow> string list \<Rightarrow> string option" where
  "conf_first user G ls = map_option hd (List.find (conf_applies user G) (map conf_words ls))"

definition user_groups :: "'h pam_env \<Rightarrow> string \<Rightarrow> u32 \<Rightarrow> string set" where
  "user_groups E user gid = set (List.map_filter (getgrgid E) (group_list E user gid))"

definition trusted_conf :: "string \<Rightarrow> conf_file \<Rightarrow> bool" where
  "trusted_conf source f \<longleftrightarrow> source = ''/dev/null'' \<or> (case f_mode f of None \<Rightarrow> False | Some m \<Rightarrow> \<not> bit m 1)"

definition conf_spec :: "'h pam_env \<Rightarrow> string \<Rightarrow> string \<Rightarrow> string option" where
  "conf_spec E user source =
     (case getpwnam E user of
        None \<Rightarrow> None
      | Some gid \<Rightarrow>
          if group_list E user gid = [] \<or> length (group_list E user gid) > NGROUPS_MAX then None
          else (case fopen E source of
                  None \<Rightarrow> None
                | Some f \<Rightarrow> if trusted_conf source f
                            then conf_first user (user_groups E user gid) (conf_lines (f_text f)) else None))"

text \<open>What the reader's buffer and C strings ask of the file.\<close>

definition plain_conf :: "string \<Rightarrow> bool" where
  "plain_conf s \<longleftrightarrow> NUL \<notin> set s \<and> (\<forall>l \<in> set (conf_lines s). length l < 4095)"

lemma in_groups_iff: "in_groups nm gs \<longleftrightarrow> Some nm \<in> set gs"
  by (induction gs) auto

lemma conf_words_ne: "x \<in> set (conf_words s) \<Longrightarrow> x \<noteq> []"
  by (simp add: conf_words_def)

lemma match_line_words:
  "match_line user groups s \<longleftrightarrow> (\<exists>who \<in> set (conf_words s). conf_names user {g. Some g \<in> set groups} who)"
proof (induction "length s" arbitrary: s rule: less_induct)
  case less
  obtain t r where tr: "strtok_r s CAP_FILE_DELIMITERS = (t, r)" by fastforce
  show ?case
  proof (cases "conf_words s")
    case Nil
    then show ?thesis using strtok_r_words(1) [of s] by (subst match_line.simps) simp
  next
    case (Cons who whos)
    then have st: "strtok_r s CAP_FILE_DELIMITERS = (Some who, r)" "conf_words r = whos"
      using strtok_r_words [of s] tr by auto
    have ih: "match_line user groups r \<longleftrightarrow> (\<exists>who \<in> set whos. conf_names user {g. Some g \<in> set groups} who)"
      using less [OF strtok_r_shorter [OF st(1)]] st(2) by simp
    obtain c u where who: "who = c # u" using conf_words_ne [of who s] Cons by (cases who) auto
    show ?thesis
      using Cons ih who st(1)
      by (subst match_line.simps) (auto simp: conf_names_def in_groups_iff)
  qed
qed

lemma fgets_conf:
  assumes "s \<noteq> []" "plain_conf s"
  obtains l b r where "fgets CAP_FILE_BUFFER_SIZE s = Some (b, r)" "conf_words (c_str b) = conf_words l"
    "conf_lines s = [l] \<and> r = [] \<or> conf_lines s = l # conf_lines r" "plain_conf r"
proof -
  let ?n = "\<lambda>c. c \<noteq> CHR 0x0A"
  let ?l = "takeWhile ?n s"
  have nul: "c_str u = u" if "set u \<subseteq> set s" for u
    using that assms(2) by (auto simp: c_str_def plain_conf_def takeWhile_eq_all_conv)
  have lines: "conf_lines s = ?l # (case dropWhile ?n s of [] \<Rightarrow> [] | _ # r \<Rightarrow> conf_lines r)"
    unfolding conf_lines_def by (subst split_at_while) simp
  then have "length ?l < 4095" using assms(2) by (auto simp: plain_conf_def)
  then have k: "fgets CAP_FILE_BUFFER_SIZE s = Some (take (Suc (length ?l)) s, drop (Suc (length ?l)) s)"
    using assms(1) by (cases "length ?l < length s") (simp_all add: fgets_def CAP_FILE_BUFFER_SIZE_def Let_def)
  have s: "s = ?l @ dropWhile ?n s" by simp
  show ?thesis
  proof (cases "dropWhile ?n s")
    case Nil
    then have "s = ?l" using s unfolding Nil by (simp only: append_Nil2)
    then have "take (Suc (length ?l)) s = ?l" "drop (Suc (length ?l)) s = []"
      by (metis le_SucI order_refl take_all, metis drop_all le_SucI order_refl)
    with k have "fgets CAP_FILE_BUFFER_SIZE s = Some (?l, [])" by simp
    moreover have "plain_conf []" by (simp add: plain_conf_def conf_lines_def)
    moreover have "c_str ?l = ?l" by (rule nul) (auto dest: set_takeWhileD)
    moreover have "conf_lines s = [?l]" using lines unfolding Nil by simp
    ultimately show ?thesis by (intro that [of ?l "[]" ?l]) simp_all
  next
    case (Cons c r)
    then have c: "c = CHR 0x0A" using hd_dropWhile [of ?n s] by simp
    have s': "s = (?l @ [CHR 0x0A]) @ r" using s Cons c by simp
    have "take (Suc (length ?l)) s = ?l @ [CHR 0x0A]" "drop (Suc (length ?l)) s = r"
      by (subst (2) s', simp)+
    with k have f: "fgets CAP_FILE_BUFFER_SIZE s = Some (?l @ [CHR 0x0A], r)" by simp
    have "set s = set (?l @ [CHR 0x0A]) \<union> set r" using arg_cong [OF s', of set] unfolding set_append .
    then have sub: "set (?l @ [CHR 0x0A]) \<subseteq> set s" "set r \<subseteq> set s" by blast+
    have "plain_conf r" using assms(2) sub lines Cons by (auto simp: plain_conf_def)
    moreover have "conf_lines s = ?l # conf_lines r" using lines unfolding Cons by simp
    ultimately show ?thesis using nul [OF sub(1)] by (intro that [OF f, of ?l]) (simp_all add: conf_words_newline)
  qed
qed

lemma scan_conf_first:
  "plain_conf s \<Longrightarrow> scan_conf user groups s = conf_first user {g. Some g \<in> set groups} (conf_lines s)"
proof (induction "length s" arbitrary: s rule: less_induct)
  case less
  let ?G = "{g. Some g \<in> set groups}"
  show ?case
  proof (cases "s = []")
    case True
    then show ?thesis
      by (subst scan_conf.simps) (simp add: fgets_def conf_lines_def conf_first_def conf_applies_def)
  next
    case False
    then obtain l b r where f: "fgets CAP_FILE_BUFFER_SIZE s = Some (b, r)" "conf_words (c_str b) = conf_words l"
      "conf_lines s = [l] \<and> r = [] \<or> conf_lines s = l # conf_lines r" "plain_conf r"
      using fgets_conf less.prems by metis
    have "length r < length s" by (rule fgets_shorter [OF _ f(1)]) (simp add: CAP_FILE_BUFFER_SIZE_def)
    then have ih: "scan_conf user groups r = conf_first user ?G (conf_lines r)" using less.hyps f(4) by blast
    have rest: "conf_first user ?G (conf_lines s) =
        (if conf_applies user ?G (conf_words l) then Some (hd (conf_words l)) else conf_first user ?G (conf_lines r))"
      using f(3) by (auto simp: conf_first_def conf_lines_def conf_applies_def)
    have "scan_conf user groups s =
        (if conf_applies user ?G (conf_words l) then Some (hd (conf_words l)) else scan_conf user groups r)"
    proof (cases "conf_words l")
      case Nil
      then show ?thesis using f(1,2) strtok_r_words(1) [of "c_str b"]
        by (subst scan_conf.simps) (simp add: conf_applies_def)
    next
      case (Cons t ts)
      then have "strtok_r (c_str b) CAP_FILE_DELIMITERS = (Some t, snd (strtok_r (c_str b) CAP_FILE_DELIMITERS))"
        "conf_words (snd (strtok_r (c_str b) CAP_FILE_DELIMITERS)) = ts"
        using strtok_r_words [of "c_str b"] f(2) by simp_all
      moreover obtain c u where "t = c # u" using conf_words_ne [of t l] Cons by (cases t) auto
      ultimately show ?thesis using Cons f(1)
        by (subst scan_conf.simps) (auto simp: conf_applies_def match_line_words split: prod.splits)
    qed
    with rest ih show ?thesis by simp
  qed
qed

lemma c_strdup_ok: "mem_ok w \<Longrightarrow> c_strdup s w = (Some s, bumped w)"
  by (simp add: c_strdup_def calloc_ok)

lemma name_groups_exec:
  "mem_ok w \<Longrightarrow> \<exists>n. name_groups E gs w = (map Some (List.map_filter (getgrgid E) gs), bumps n w)"
proof (induction gs arbitrary: w)
  case Nil
  show ?case by (intro exI [of _ 0]) (simp add: map_filter_simps)
next
  case (Cons g gs)
  show ?case
  proof (cases "getgrgid E g")
    case None
    then show ?thesis using Cons by (simp add: map_filter_simps)
  next
    case (Some nm)
    obtain n where "name_groups E gs (bumped w) = (map Some (List.map_filter (getgrgid E) gs), bumps n (bumped w))"
      using Cons.IH [of "bumped w"] Cons.prems by auto
    then show ?thesis using Some Cons.prems
      by (intro exI [of _ "Suc n"]) (simp add: map_filter_simps c_strdup_ok)
  qed
qed

lemma load_groups_exec:
  assumes "mem_ok w"
  obtains n gs where "load_groups E user w = (map_option (map Some) gs, bumps n w)"
    "gs = None \<longleftrightarrow> (\<forall>gid. getpwnam E user = Some gid \<longrightarrow> group_list E user gid = [] \<or> length (group_list E user gid) > NGROUPS_MAX)"
    "\<And>gid g. getpwnam E user = Some gid \<Longrightarrow> gs = Some g \<Longrightarrow> set g = user_groups E user gid"
proof (cases "getpwnam E user")
  case None
  then show ?thesis using that [of None 0] by (simp add: load_groups_def)
next
  case (Some gid)
  let ?gl = "group_list E user gid"
  show ?thesis
  proof (cases "?gl = [] \<or> length ?gl > NGROUPS_MAX")
    case True
    then show ?thesis using Some by (intro that [of None 0]) (auto simp: load_groups_def getgrouplist_def Let_def)
  next
    case False
    then have "\<not> int (length ?gl) < 1" by (cases ?gl) auto
    obtain n where "name_groups E ?gl (bumped w) = (map Some (List.map_filter (getgrgid E) ?gl), bumps n (bumped w))"
      using name_groups_exec [of "bumped w" E ?gl] assms by auto
    then show ?thesis using Some False \<open>\<not> int (length ?gl) < 1\<close> assms
      by (intro that [of "Some (List.map_filter (getgrgid E) ?gl)" "Suc n"])
        (auto simp: load_groups_def getgrouplist_def Let_def calloc_ok user_groups_def)
  qed
qed

lemma other_write: "m AND S_IWOTH = 0 \<longleftrightarrow> \<not> bit m 1"
proof -
  have "(2 :: u32) = mask32 1" by (simp add: mask32_def)
  then show ?thesis using and_mask32_eq_0 [of m 1] by simp
qed

lemma read_capabilities_exec:
  assumes "mem_ok w" "\<And>f. fopen E source = Some f \<Longrightarrow> plain_conf (f_text f)"
  shows "\<exists>n. read_capabilities_for_user E user source w = Some (conf_spec E user source, bumps n w)"
proof -
  obtain n gs where lg: "load_groups E user w = (map_option (map Some) gs, bumps n w)"
    "gs = None \<longleftrightarrow> (\<forall>gid. getpwnam E user = Some gid \<longrightarrow> group_list E user gid = [] \<or> length (group_list E user gid) > NGROUPS_MAX)"
    "\<And>gid g. getpwnam E user = Some gid \<Longrightarrow> gs = Some g \<Longrightarrow> set g = user_groups E user gid"
    by (rule load_groups_exec [OF assms(1), of E user]) blast
  show ?thesis
  proof (cases gs)
    case None
    then have "conf_spec E user source = None" using lg(2) by (auto simp: conf_spec_def split: option.splits)
    then show ?thesis using lg(1) None by (intro exI [of _ n]) (simp add: read_capabilities_for_user_def)
  next
    case (Some g)
    then obtain gid where gid: "getpwnam E user = Some gid" "\<not> (group_list E user gid = [] \<or> length (group_list E user gid) > NGROUPS_MAX)"
      using lg(2) by auto
    have G: "{x. Some x \<in> set (map Some g)} = user_groups E user gid" using lg(3) [OF gid(1) Some] by auto
    have un: "read_capabilities_for_user E user source w =
        Some (case fopen E source of
                None \<Rightarrow> (None, bumps n w)
              | Some f \<Rightarrow> if \<not> trusted_conf source f then (None, bumps n w)
                  else (case scan_conf user (map Some g) (f_text f) of
                       None \<Rightarrow> (None, bumps n w) | Some t \<Rightarrow> c_strdup t (bumps n w)))"
      using lg(1) Some
      by (auto simp: read_capabilities_for_user_def trusted_conf_def other_write split: option.splits)
    show ?thesis
    proof (cases "fopen E source")
      case None
      then show ?thesis using un gid by (auto simp: conf_spec_def)
    next
      case (Some f)
      have sc: "scan_conf user (map Some g) (f_text f) = conf_first user (user_groups E user gid) (conf_lines (f_text f))"
        using scan_conf_first [OF assms(2) [OF Some]] G by simp
      show ?thesis
      proof (cases "trusted_conf source f \<and> scan_conf user (map Some g) (f_text f) \<noteq> None")
        case True
        then show ?thesis using un gid Some sc assms(1)
          by (intro exI [of _ "Suc n"]) (auto simp: conf_spec_def c_strdup_ok)
      next
        case False
        then show ?thesis using un gid Some sc by (intro exI [of _ n]) (auto simp: conf_spec_def)
      qed
    qed
  qed
qed

section \<open>What a configuration entry does to the process\<close>

text \<open>
  The specification of \<^verbatim>\<open>set_capabilities\<close> for the entry \<open>conf\<close>: the credentials before and after,
  and whether the module reports success.  \<open>keep\<close> is the module argument \<^verbatim>\<open>keepcaps\<close>.
\<close>

definition conf_outcome :: "names_h \<Rightarrow> int \<Rightarrow> bool \<Rightarrow> string \<Rightarrow> int \<Rightarrow> creds \<Rightarrow> creds \<Rightarrow> bool" where
  "conf_outcome N cmb keep conf ok v v' \<longleftrightarrow>
     (if conf = ''all'' then ok = 1 \<and> v' = v
      else if conf = ''none'' then ok = 1 \<and> v' = v\<lparr>p_inh := {}, p_amb := {}\<rparr>
      else (case iab_parse N cmb 0 conf zero_iab of
              None \<Rightarrow> ok = 0 \<and> v' = v
            | Some t \<Rightarrow> p_eff v' = p_eff v \<and> p_per v' = p_per v \<and> ids v' = ids v
                \<and> (ok \<noteq> 0 \<longrightarrow> (\<exists>b. v' = v\<lparr>p_inh := vec_set (iab_i t), p_amb := vec_set (iab_a t) \<inter> {..<p_ncaps v},
                      p_bnd := p_bnd v - vec_set (iab_nb t), p_sbits := b\<rparr> \<and> (keep \<or> b = p_sbits v)))))"

context cred_abi
begin

lemma keepcaps_wprctl6:
  assumes "caller_ok K (multithread w) w" "valid (kern w)"
  shows "\<exists>k e b. snd (cap_prctlw K PR_SET_KEEPCAPS 1 0 0 0 0 w) = after k e w \<and> valid k
     \<and> view k = (view (kern w))\<lparr>p_sbits := b\<rparr>"
proof -
  let ?s = "SysPrctl PR_SET_KEEPCAPS 1 0 0 0 0" and ?v = "view (kern w)"
  obtain r w' where rw: "cap_prctlw K PR_SET_KEEPCAPS 1 0 0 0 0 w = (r, w')" by fastforce
  have "outcome ?s w r w'"
    using outcome_wprctl6 [OF assms, of PR_SET_KEEPCAPS 1 0 0 0 0] rw by (simp add: cap_prctlw_def)
  then obtain k e where o: "w' = after k e w" "valid k" "r < 0 \<Longrightarrow> view k = ?v" "0 \<le> r \<Longrightarrow> cap_post ?s r ?v (view k)"
    by (elim outcomeE) blast
  have "\<exists>b. view k = ?v\<lparr>p_sbits := b\<rparr>"
  proof (cases "r < 0")
    case True
    then show ?thesis using o(3) by (intro exI [of _ "p_sbits ?v"]) simp
  next
    case False
    then show ?thesis using o(4) by (auto simp: cap_post_def prctl_post_def)
  qed
  with rw o(1,2) show ?thesis by auto
qed

lemma clear_inh_exec:
  assumes "cap_ready w q (proc_cap (view (kern w)))" "valid (kern w)" "caller_ok K (multithread w) w"
  shows "\<exists>k e c. do { (_, w) \<leftarrow> cap_clear_flag q (int CAP_INHERITABLE) w; cap_set_proc K q w } =
        Some (0, after k e (put_obj q (CapSet c) w)) \<and> c_mutex c = 0 \<and> valid k
     \<and> view k = (view (kern w))\<lparr>p_inh := {}, p_amb := {}\<rparr>"
proof -
  let ?v = "view (kern w)"
  let ?c = "clear_flag_loop CAP_INHERITABLE (proc_cap ?v)"
  let ?w = "put_obj q (CapSet ?c) w"
  note wf = valid_wf [OF assms(2)] and q = cap_readyD [OF assms(1)]
  have ready: "cap_ready ?w q ?c" using assms(1) q by (simp add: cap_ready_put)
  have "\<exists>r w'. cap_set_proc_sc K (multithread w) q ?w = Some (r, w') \<and> installed ?c ?w r w'"
    using assms by (intro cap_set_proc_exec [OF ready]) auto
  then obtain r w' where s: "cap_set_proc_sc K (multithread w) q ?w = Some (r, w')" "installed ?c ?w r w'" by blast
  have c: "caps_of ?c CAP_EFFECTIVE = p_eff ?v" "caps_of ?c CAP_PERMITTED = p_per ?v" "caps_of ?c CAP_INHERITABLE = {}"
    using caps_of_clear [of "proc_cap ?v"] caps_of_proc_cap [OF wf] by auto
  have sub: "p_eff ?v \<subseteq> p_per ?v" "p_per ?v \<subseteq> {..<p_ncaps ?v}" using wf by (auto simp: wf_creds_def)
  then have cut: "p_eff ?v \<inter> {..<p_ncaps ?v} = p_eff ?v" "p_per ?v \<inter> {..<p_ncaps ?v} = p_per ?v" by auto
  have r: "r = 0" using s(2) c sub by (auto simp: installed_def)
  obtain k e where k: "w' = after k e ?w" "valid k" "view k = capset_post (map data_of_flat (c_u ?c)) ?v"
    using s(2) r by (auto simp: installed_def)
  have "view k = ?v\<lparr>p_inh := {}, p_amb := {}\<rparr>"
    using k(3) c cut by (simp add: capset_post_cap Let_def)
  moreover have "c_mutex ?c = 0" by simp
  ultimately show ?thesis
    using s(1) r k(1,2) cap_clear_flag_exec [OF assms(1), of 2]
    by (intro exI [of _ k] exI [of _ e] exI [of _ ?c]) (simp add: cap_set_proc_def)
qed

lemma set_iab_exec:
  assumes "wf_world w" "mem_ok w" "valid (kern w)" "caller_ok K (multithread w) w"
    "max_bits w = int (p_ncaps (view (kern w)))" "wf_iab t" "i_mutex t = 0" "vec_set (iab_i t) \<subseteq> {..<p_ncaps (view (kern w))}"
  shows "\<exists>r k e. do { (r, u) \<leftarrow> cap_iab_set_proc K (next_ptr w) (new_obj (next_ptr w) sizeof_cap_alloc_s (CapIab t) (bumped w));
        (_, u) \<leftarrow> cap_free (next_ptr w) u; Some (r, u) } = Some (r, after k e (bumps 3 w)) \<and> valid k
     \<and> p_eff (view k) = p_eff (view (kern w)) \<and> p_per (view k) = p_per (view (kern w)) \<and> ids (view k) = ids (view (kern w))
     \<and> (r = 0 \<longrightarrow> view k = (view (kern w))\<lparr>p_inh := vec_set (iab_i t),
            p_amb := vec_set (iab_a t) \<inter> {..<p_ncaps (view (kern w))}, p_bnd := p_bnd (view (kern w)) - vec_set (iab_nb t)\<rparr>)"
proof -
  let ?p = "next_ptr w"
  let ?w = "new_obj ?p sizeof_cap_alloc_s (CapIab t) (bumped w)"
  have ready: "iab_ready ?w ?p t" using assms by (simp add: iab_ready_def wf_new_bumped)
  obtain r k e where s: "cap_iab_set_proc K ?p ?w = Some (r, after k e (bumps 2 ?w))" "valid k"
     "p_eff (view k) = p_eff (view (kern w))" "p_per (view k) = p_per (view (kern w))" "ids (view k) = ids (view (kern w))"
     "r = 0 \<longrightarrow> view k = (view (kern w))\<lparr>p_inh := vec_set (iab_i t),
            p_amb := vec_set (iab_a t) \<inter> {..<p_ncaps (view (kern w))}, p_bnd := p_bnd (view (kern w)) - vec_set (iab_nb t)\<rparr>"
    using cap_iab_set_proc_ready [OF ready] assms by auto
  have "del_obj ?p (after k e (bumps 2 ?w)) = after k e (bumps 3 w)"
    using wf_fresh [OF assms(1)] by (simp add: after_def bumped_def bumps_def new_obj_def del_obj_def fun_upd_idem)
  then have "cap_free ?p (after k e (bumps 2 ?w)) = Some (0, after k e (bumps 3 w))"
    by (subst cap_free_iab [where t = t]) simp_all
  with s show ?thesis by auto
qed

end

lemma caller_bumps [simp]:
  "multithread (bumps n w) = multithread w" "caller_ok K sc (bumps n w) = caller_ok K sc w"
  by (simp_all add: bumps_def caller_ok_def)

lemma iab_parse_zero:
  assumes "names_abi N" "iab_parse N cmb 0 s zero_iab = Some t"
  shows "wf_iab t" "i_mutex t = 0"
proof -
  have "amb_with_inh 0" by (simp add: amb_with_inh_def)
  from names_abi.iab_parse_keeps [OF assms _ iab_inv_zero this] show "wf_iab t" "i_mutex t = 0"
    by (simp_all add: zero_iab_def [THEN arg_cong [of _ _ i_mutex]])
qed

context cred_abi
begin

lemma set_conf_caps_exec:
  assumes "cap_ready w q (proc_cap (view (kern w)))" "mem_ok w" "valid (kern w)" "caller_ok K (multithread w) w"
    "max_bits w = int (p_ncaps (view (kern w)))" "names_abi N" "pc_defer cs = 0"
    "\<And>t. iab_parse N (max_bits w) 0 s zero_iab = Some t \<Longrightarrow> vec_set (iab_i t) \<subseteq> {..<p_ncaps (view (kern w))}"
  shows "\<exists>ok k e n c. set_conf_caps K N E cs q s w h = Some (ok, after k e (bumps n (put_obj q (CapSet c) w)), h)
     \<and> c_mutex c = 0 \<and> valid k \<and> conf_outcome N (max_bits w) (pc_keepcaps cs \<noteq> 0) s ok (view (kern w)) (view k)"
proof -
  let ?v = "view (kern w)" and ?c = "proc_cap (view (kern w))"
  note q = cap_readyD [OF assms(1)]
  have same: "after (kern w) e (bumps n (put_obj q (CapSet ?c) w)) = (bumps n w)\<lparr>errno := e\<rparr>" for e n
    using put_same [OF q(1)] by (simp add: after_def bumps_def)
  consider "s = ''all''" | "s = ''none''" | "s \<noteq> ''all''" "s \<noteq> ''none''" "iab_parse N (max_bits w) 0 s zero_iab = None"
    | t where "s \<noteq> ''all''" "s \<noteq> ''none''" "iab_parse N (max_bits w) 0 s zero_iab = Some t" by fastforce
  then show ?thesis
  proof cases
    case 1
    then have "set_conf_caps K N E cs q s w h = Some (1, after (kern w) (errno w) (bumps 0 (put_obj q (CapSet ?c) w)), h)"
      unfolding same by (simp add: set_conf_caps_def)
    moreover have "c_mutex ?c = 0" "conf_outcome N (max_bits w) (pc_keepcaps cs \<noteq> 0) s 1 ?v ?v"
      using 1 by (simp_all add: conf_outcome_def)
    ultimately show ?thesis using assms(3) by blast
  next
    case 2
    obtain k e c where s: "do { (_, w) \<leftarrow> cap_clear_flag q (int CAP_INHERITABLE) w; cap_set_proc K q w } =
        Some (0, after k e (put_obj q (CapSet c) w))" "c_mutex c = 0" "valid k" "view k = ?v\<lparr>p_inh := {}, p_amb := {}\<rparr>"
      using clear_inh_exec [OF assms(1,3,4)] by blast
    then have "set_conf_caps K N E cs q s w h = Some (1, after k e (bumps 0 (put_obj q (CapSet c) w)), h)"
      using 2 by (auto simp: set_conf_caps_def bind_Some_iff)
    moreover have "conf_outcome N (max_bits w) (pc_keepcaps cs \<noteq> 0) s 1 ?v (view k)"
      using 2 s(4) by (simp add: conf_outcome_def)
    ultimately show ?thesis using s(2,3) by blast
  next
    case 3
    then have "set_conf_caps K N E cs q s w h = Some (0, after (kern w) EINVAL (bumps 1 (put_obj q (CapSet ?c) w)), h)"
      unfolding same using names_abi.cap_iab_from_text_exec [OF assms(6), of w s] assms(2) q(3)
      by (simp add: set_conf_caps_def bumped_def bumps_def)
    moreover have "c_mutex ?c = 0" "conf_outcome N (max_bits w) (pc_keepcaps cs \<noteq> 0) s 0 ?v ?v"
      using 3 by (simp_all add: conf_outcome_def)
    ultimately show ?thesis using assms(3) by blast
  next
    case (4 t)
    note t = iab_parse_zero [OF assms(6) 4(3)]
    obtain r k e where i: "do { (r, u) \<leftarrow> cap_iab_set_proc K (next_ptr w) (new_obj (next_ptr w) sizeof_cap_alloc_s (CapIab t) (bumped w));
        (_, u) \<leftarrow> cap_free (next_ptr w) u; Some (r, u) } = Some (r, after k e (bumps 3 w))" "valid k"
      "p_eff (view k) = p_eff ?v" "p_per (view k) = p_per ?v" "ids (view k) = ids ?v"
      "r = 0 \<longrightarrow> view k = ?v\<lparr>p_inh := vec_set (iab_i t), p_amb := vec_set (iab_a t) \<inter> {..<p_ncaps ?v}, p_bnd := p_bnd ?v - vec_set (iab_nb t)\<rparr>"
      using set_iab_exec [OF q(3) assms(2-5) t assms(8) [OF 4(3)]] by blast
    obtain u a where iu: "cap_iab_set_proc K (next_ptr w) (new_obj (next_ptr w) sizeof_cap_alloc_s (CapIab t) (bumped w)) = Some (r, u)"
      "cap_free (next_ptr w) u = Some (a, after k e (bumps 3 w))"
      using i(1) by (auto simp: bind_Some_iff)
    let ?w = "after k e (bumps 3 w)"
    obtain k' e' b where kc: "(if pc_keepcaps cs \<noteq> 0 then snd (cap_prctlw K PR_SET_KEEPCAPS 1 0 0 0 0 ?w) else ?w) = after k' e' (bumps 3 w)"
      "valid k'" "view k' = (view k)\<lparr>p_sbits := b\<rparr>" "pc_keepcaps cs \<noteq> 0 \<or> b = p_sbits (view k)"
    proof (cases "pc_keepcaps cs = 0")
      case True
      then show ?thesis using that [of k e "p_sbits (view k)"] i(2) by simp
    next
      case False
      obtain k' e' b where "snd (cap_prctlw K PR_SET_KEEPCAPS 1 0 0 0 0 ?w) = after k' e' ?w" "valid k'"
        "view k' = (view k)\<lparr>p_sbits := b\<rparr>" using keepcaps_wprctl6 [of ?w] i(2) assms(4) by auto
      then show ?thesis using that [of k' e' b] False by simp
    qed
    let ?ok = "if r = 0 then 1 else 0 :: int"
    have run: "set_conf_caps K N E cs q s w h = Some (?ok, after k' e' (bumps 3 w), h)"
      using iu kc(1) 4 assms(7) names_abi.cap_iab_from_text_exec [OF assms(6), of w s] assms(2) q(3)
      by (simp add: set_conf_caps_def cong: if_cong split del: if_split)
    have "put_obj q (CapSet ?c) w = w" using q(1) by (simp add: put_same)
    with run have "set_conf_caps K N E cs q s w h = Some (?ok, after k' e' (bumps 3 (put_obj q (CapSet ?c) w)), h)" by simp
    moreover have "conf_outcome N (max_bits w) (pc_keepcaps cs \<noteq> 0) s ?ok ?v (view k')"
      using 4 i(3-6) kc(3,4) by (auto simp: conf_outcome_def)
    moreover have "c_mutex ?c = 0" by simp
    ultimately show ?thesis using kc(2) by blast
  qed
qed

end

text \<open>The entry that counts: the first matching line, else the fallback.\<close>

definition granted :: "'h pam_env \<Rightarrow> pam_cap_s \<Rightarrow> string \<Rightarrow> string option" where
  "granted E cs user = (case conf_spec E user (conf_source cs) of Some s \<Rightarrow> Some s | None \<Rightarrow> pc_fallback cs)"

context cred_abi
begin

text \<open>The world in which the entry is applied: one more capability set, that of the process.\<close>

definition conf_world :: "nat \<Rightarrow> 'k world \<Rightarrow> 'k world" where
  "conf_world n w = bumps n (new_obj (next_ptr w) sizeof_cap_alloc_s (CapSet (proc_cap (view (kern w)))) (bumped w))"

lemma conf_world_simps [simp]:
  "kern (conf_world n w) = kern w" "errno (conf_world n w) = errno w" "max_bits (conf_world n w) = max_bits w"
  "mem_ok (conf_world n w) = mem_ok w" "multithread (conf_world n w) = multithread w"
  "caller_ok K sc (conf_world n w) = caller_ok K sc w" "bumps m (conf_world n w) = conf_world (n + m) w"
  by (simp_all add: conf_world_def)

lemma conf_world_ready:
  "wf_world w \<Longrightarrow> cap_ready (conf_world n w) (next_ptr w) (proc_cap (view (kern w)))"
  by (simp add: cap_ready_def wf_new_bumped conf_world_def)

lemma conf_world_del: "wf_world w \<Longrightarrow> del_obj (next_ptr w) (conf_world n w) = bumps (Suc n) w"
  by (drule wf_fresh) (simp add: conf_world_def bumped_def bumps_def new_obj_def del_obj_def fun_upd_idem)

lemma set_capabilities_run:
  assumes "mem_ok w" "valid (kern w)" "pc_user cs = Some user"
    "\<forall>f. fopen E (conf_source cs) = Some f \<longrightarrow> plain_conf (f_text f)"
  shows "\<exists>m. set_capabilities K N E cs w h = do {
      (ok, u, h) \<leftarrow> (case granted E cs user of None \<Rightarrow> Some (0, conf_world m w, h)
          | Some conf_caps \<Rightarrow> set_conf_caps K N E cs (next_ptr w) conf_caps (conf_world m w) h);
      (_, u) \<leftarrow> cap_free (next_ptr w) u;
      Some (ok, u, h) }"
proof -
  have get: "cap_get_proc K w = Some (next_ptr w, conf_world 0 w)"
    using cap_get_proc_exec [OF assms(2)] assms(1) by (simp add: conf_world_def)
  obtain n where rd: "read_capabilities_for_user E user (conf_source cs) (conf_world 0 w) =
      Some (conf_spec E user (conf_source cs), conf_world n w)"
    using read_capabilities_exec [of "conf_world 0 w" E "conf_source cs" user] assms(1,4) by auto
  obtain m where gr: "(case (conf_spec E user (conf_source cs), pc_fallback cs) of (None, Some s) \<Rightarrow> c_strdup s (conf_world n w)
      | _ \<Rightarrow> (conf_spec E user (conf_source cs), conf_world n w)) = (granted E cs user, conf_world m w)"
  proof (cases "conf_spec E user (conf_source cs) = None \<and> pc_fallback cs \<noteq> None")
    case True
    then show ?thesis using that [of "Suc n"] assms(1) by (auto simp: granted_def c_strdup_ok conf_world_def)
  next
    case False
    then show ?thesis using that [of n] by (auto simp: granted_def split: option.splits)
  qed
  show ?thesis using get rd gr assms(3) by (intro exI [of _ m]) (simp add: set_capabilities_def)
qed

lemma set_capabilities_exec:
  assumes "wf_world w" "mem_ok w" "valid (kern w)" "caller_ok K (multithread w) w"
    "max_bits w = int (p_ncaps (view (kern w)))" "names_abi N" "pc_defer cs = 0" "pc_user cs = Some user"
    "\<forall>f. fopen E (conf_source cs) = Some f \<longrightarrow> plain_conf (f_text f)"
    "\<forall>s t. granted E cs user = Some s \<longrightarrow> iab_parse N (max_bits w) 0 s zero_iab = Some t \<longrightarrow>
       vec_set (iab_i t) \<subseteq> {..<p_ncaps (view (kern w))}"
  shows "\<exists>ok k e n. set_capabilities K N E cs w h = Some (ok, after k e (bumps n w), h) \<and> valid k
     \<and> (case granted E cs user of None \<Rightarrow> ok = 0 \<and> view k = view (kern w)
        | Some s \<Rightarrow> conf_outcome N (max_bits w) (pc_keepcaps cs \<noteq> 0) s ok (view (kern w)) (view k))"
proof -
  let ?v = "view (kern w)" and ?q = "next_ptr w"
  from set_capabilities_run [OF assms(2,3,8,9), where N = N and h = h]
  obtain m where run: "set_capabilities K N E cs w h = do {
      (ok, u, h) \<leftarrow> (case granted E cs user of None \<Rightarrow> Some (0, conf_world m w, h)
          | Some conf_caps \<Rightarrow> set_conf_caps K N E cs ?q conf_caps (conf_world m w) h);
      (_, u) \<leftarrow> cap_free ?q u;
      Some (ok, u, h) }" ..
  note ready = conf_world_ready [OF assms(1), of m]
  note q = cap_readyD [OF ready]
  have free: "cap_free ?q (after k e (bumps j (put_obj ?q (CapSet c) (conf_world m w)))) = Some (0, after k e (bumps (Suc m + j) w))"
    if "c_mutex c = 0" for k e j c
  proof -
    have "del_obj ?q (after k e (bumps j (put_obj ?q (CapSet c) (conf_world m w)))) = after k e (bumps j (del_obj ?q (conf_world m w)))"
      by (simp add: after_def bumps_def del_obj_def put_obj_def)
    then show ?thesis using that q(1) conf_world_del [OF assms(1)] by (subst cap_free_set [where c = c]) simp_all
  qed
  show ?thesis
  proof (cases "granted E cs user")
    case None
    have "put_obj ?q (CapSet (proc_cap ?v)) (conf_world m w) = conf_world m w" using q(1) by (simp add: put_same)
    then have "cap_free ?q (conf_world m w) = Some (0, after (kern w) (errno w) (bumps (Suc m) w))"
      using free [of "proc_cap ?v" "kern w" "errno w" 0] after_self [of "conf_world m w"] by simp
    then have "set_capabilities K N E cs w h = Some (0, after (kern w) (errno w) (bumps (Suc m) w), h)"
      using run None by simp
    then show ?thesis using assms(3) None by (intro exI) auto
  next
    case (Some s)
    obtain ok k e j c where x: "set_conf_caps K N E cs ?q s (conf_world m w) h =
        Some (ok, after k e (bumps j (put_obj ?q (CapSet c) (conf_world m w))), h)"
      "c_mutex c = 0" "valid k" "conf_outcome N (max_bits w) (pc_keepcaps cs \<noteq> 0) s ok ?v (view k)"
      using set_conf_caps_exec [of "conf_world m w" ?q N cs s E h] ready assms(2-7,10) Some by auto
    then have "set_capabilities K N E cs w h = Some (ok, after k e (bumps (Suc m + j) w), h)"
      using run Some free [OF x(2)] by simp
    with x(3,4) Some show ?thesis by (intro exI [of _ ok] exI [of _ k] exI [of _ e] exI [of _ "Suc m + j"]) simp
  qed
qed

end

section \<open>The deferred tuple\<close>

text \<open>Only the status of a successful \<^verbatim>\<open>pam_end\<close> in silent mode makes the clean-up function act.\<close>

lemma apply_status:
  "st AND PAM_DATA_REPLACE = 0 \<and> st AND NOT (PAM_DATA_REPLACE OR PAM_DATA_SILENT) = 0 \<and> st AND PAM_DATA_SILENT \<noteq> 0
     \<longleftrightarrow> st = PAM_DATA_SILENT"
proof
  have m: "PAM_DATA_REPLACE = mask32 29" "PAM_DATA_SILENT = mask32 30"
    by (simp_all add: mask32_def push_bit_eq_mult)
  assume a: "st AND PAM_DATA_REPLACE = 0 \<and> st AND NOT (PAM_DATA_REPLACE OR PAM_DATA_SILENT) = 0 \<and> st AND PAM_DATA_SILENT \<noteq> 0"
  then have b: "\<not> bit st 29" "bit st 30" unfolding m by (simp_all add: and_mask32_eq_0)
  show "st = PAM_DATA_SILENT"
  proof (rule word32_eqI)
    fix n :: nat
    assume n: "n < 32"
    have "\<not> bit (st AND NOT (mask32 29 OR mask32 30)) n" using a unfolding m by simp
    then have "bit st n \<longrightarrow> n = 29 \<or> n = 30" using n by (auto simp: bit_and_iff bit_not_iff bit_or_iff bit_mask32)
    with b show "bit st n = bit PAM_DATA_SILENT n" unfolding m by (auto simp: bit_mask32)
  qed
qed simp

lemma iab_apply_idle:
  assumes "iab_ready w p t" "st \<noteq> PAM_DATA_SILENT"
  shows "iab_apply K p st w = Some (del_obj p w)"
proof -
  note p = iab_readyD [OF assms(1)]
  have "cap_free p w = Some (0, del_obj p w)" using p by (simp add: cap_free_iab)
  moreover have "\<not> (st AND PAM_DATA_REPLACE = 0 \<and> st AND NOT (PAM_DATA_REPLACE OR PAM_DATA_SILENT) = 0 \<and> st AND PAM_DATA_SILENT \<noteq> 0)"
    using apply_status [of st] assms(2) by blast
  ultimately show ?thesis by (auto simp: iab_apply_def Let_def)
qed

context cred_abi
begin

lemma iab_apply_exec:
  assumes "iab_ready w p t" "mem_ok w" "valid (kern w)" "caller_ok K (multithread w) w"
    "max_bits w = int (p_ncaps (view (kern w)))" "vec_set (iab_i t) \<subseteq> {..<p_ncaps (view (kern w))}"
  shows "\<exists>r k e. cap_iab_set_proc K p w = Some (r, after k e (bumps 2 w))
     \<and> iab_apply K p PAM_DATA_SILENT w = Some (after k e (bumps 2 (del_obj p w)))
     \<and> p_eff (view k) = p_eff (view (kern w)) \<and> p_per (view k) = p_per (view (kern w))
     \<and> (r = 0 \<longrightarrow> view k = (view (kern w))\<lparr>p_inh := vec_set (iab_i t),
            p_amb := vec_set (iab_a t) \<inter> {..<p_ncaps (view (kern w))}, p_bnd := p_bnd (view (kern w)) - vec_set (iab_nb t)\<rparr>)"
proof -
  note p = iab_readyD [OF assms(1)]
  obtain r k e where s: "cap_iab_set_proc K p w = Some (r, after k e (bumps 2 w))"
    "p_eff (view k) = p_eff (view (kern w))" "p_per (view k) = p_per (view (kern w))"
    "r = 0 \<longrightarrow> view k = (view (kern w))\<lparr>p_inh := vec_set (iab_i t),
            p_amb := vec_set (iab_a t) \<inter> {..<p_ncaps (view (kern w))}, p_bnd := p_bnd (view (kern w)) - vec_set (iab_nb t)\<rparr>"
    using cap_iab_set_proc_ready [OF assms] by blast
  have "del_obj p (after k e (bumps 2 w)) = after k e (bumps 2 (del_obj p w))"
    by (simp add: after_def bumps_def del_obj_def)
  then have "cap_free p (after k e (bumps 2 w)) = Some (0, after k e (bumps 2 (del_obj p w)))"
    using p by (simp add: cap_free_iab)
  then have "iab_apply K p PAM_DATA_SILENT w = Some (after k e (bumps 2 (del_obj p w)))"
    using s(1) by (simp add: iab_apply_def)
  with s show ?thesis by blast
qed

lemma set_capabilities_deferred:
  assumes "wf_world w" "mem_ok w" "valid (kern w)" "caller_ok K (multithread w) w"
    "names_abi N" "pc_defer cs \<noteq> 0" "pc_user cs = Some user"
    "\<forall>f. fopen E (conf_source cs) = Some f \<longrightarrow> plain_conf (f_text f)"
    "granted E cs user = Some s" "s \<noteq> ''all''" "s \<noteq> ''none''" "iab_parse N (max_bits w) 0 s zero_iab = Some t"
    "\<And>p. \<exists>h'. pam_set_data E p h = (PAM_SUCCESS, None, h')"
  shows "\<exists>p k e b n h'. set_capabilities K N E cs w h =
        Some (0, after k e (new_obj p sizeof_cap_alloc_s (CapIab t) (bumped (bumps n w))), h')
     \<and> p = next_ptr (bumps n w) \<and> pam_set_data E p h = (PAM_SUCCESS, None, h')
     \<and> valid k \<and> view k = (view (kern w))\<lparr>p_sbits := b\<rparr>"
proof -
  let ?v = "view (kern w)" and ?q = "next_ptr w" and ?sz = sizeof_cap_alloc_s
  from set_capabilities_run [OF assms(2,3,7,8), where N = N and h = h]
  obtain m where run: "set_capabilities K N E cs w h = do {
      (ok, u, h) \<leftarrow> (case granted E cs user of None \<Rightarrow> Some (0, conf_world m w, h)
          | Some conf_caps \<Rightarrow> set_conf_caps K N E cs ?q conf_caps (conf_world m w) h);
      (_, u) \<leftarrow> cap_free ?q u;
      Some (ok, u, h) }" ..
  define p where "p = next_ptr (conf_world m w)"
  have p: "p = next_ptr (bumps (Suc m) w)" "p \<noteq> ?q"
    by (simp_all add: p_def conf_world_def next_ptr_def bumps_def bumped_def new_obj_def)
  obtain h' where h': "pam_set_data E p h = (PAM_SUCCESS, None, h')" using assms(13) by blast
  let ?w = "new_obj p ?sz (CapIab t) (bumped (conf_world m w))"
  have q: "obj_at (conf_world m w) ?q = Some (CapSet (proc_cap ?v))" "?q \<noteq> 0" "?q mod 8 = 0"
    using cap_readyD [OF conf_world_ready [OF assms(1), of m]] by simp_all
  have pt: "cap_iab_from_text N (Some s) (conf_world m w) = Some (p, ?w)" "p \<noteq> 0"
    using names_abi.cap_iab_from_text_exec [OF assms(5), of "conf_world m w" s] cap_readyD(3) [OF conf_world_ready [OF assms(1), of m]] assms(2,12)
    by (simp_all add: p_def)
  obtain k e b where kc: "(if pc_keepcaps cs \<noteq> 0 then snd (cap_prctlw K PR_SET_KEEPCAPS 1 0 0 0 0 ?w) else ?w) = after k e ?w"
    "valid k" "view k = ?v\<lparr>p_sbits := b\<rparr>"
  proof (cases "pc_keepcaps cs = 0")
    case True
    then show ?thesis using that [of "kern w" "errno w" "p_sbits ?v"] assms(3) after_self [of ?w] by simp
  next
    case False
    obtain k e b where "snd (cap_prctlw K PR_SET_KEEPCAPS 1 0 0 0 0 ?w) = after k e ?w" "valid k" "view k = ?v\<lparr>p_sbits := b\<rparr>"
      using keepcaps_wprctl6 [of ?w] assms(3,4) by auto
    then show ?thesis using that [of k e b] False by simp
  qed
  have "set_conf_caps K N E cs ?q s (conf_world m w) h = Some (0, after k e ?w, h')"
    using pt h' kc(1) assms(6,10,11)
    by (simp add: set_conf_caps_def defer_iab_def cap_free_NULL cong: if_cong split del: if_split)
  moreover have "del_obj ?q (after k e ?w) = after k e (new_obj p ?sz (CapIab t) (bumped (bumps (Suc m) w)))"
    using p(2) conf_world_del [OF assms(1), of m, symmetric]
    by (simp add: after_def del_obj_def new_obj_def bumped_def fun_upd_twist)
  then have "cap_free ?q (after k e ?w) = Some (0, after k e (new_obj p ?sz (CapIab t) (bumped (bumps (Suc m) w))))"
    using q p(2) by (subst cap_free_set [where c = "proc_cap ?v"]) simp_all
  ultimately have "set_capabilities K N E cs w h = Some (0, after k e (new_obj p ?sz (CapIab t) (bumped (bumps (Suc m) w))), h')"
    using run assms(9) by simp
  with p(1) h' kc(2,3) show ?thesis by blast
qed

end

text \<open>
  \<^verbatim>\<open>pam_sm_authenticate\<close>: with \<^verbatim>\<open>autoauth\<close> it succeeds also when PAM could not tell the user;
  without it the answer is whether a line of the file names the user, and the fallback of
  \<^verbatim>\<open>default=\<close> does not count.
\<close>

lemma authenticate_autoauth:
  "pc_autoauth (parse_args argv) \<noteq> 0 \<Longrightarrow> fst (pam_get_user E h) \<noteq> PAM_CONV_AGAIN \<Longrightarrow>
     \<exists>h'. pam_sm_authenticate E argv w h = Some (PAM_SUCCESS, w, h')"
  by (cases "pam_get_user E h") (simp add: pam_sm_authenticate_def Let_def)

lemma authenticate_listed:
  assumes "pc_autoauth (parse_args argv) = 0" "pam_get_user E h = (PAM_SUCCESS, Some user, h')" "mem_ok w"
    "\<And>f. fopen E (conf_source (parse_args argv)) = Some f \<Longrightarrow> plain_conf (f_text f)"
  shows "\<exists>n. pam_sm_authenticate E argv w h =
     Some (if conf_spec E user (conf_source (parse_args argv)) \<noteq> None then PAM_SUCCESS else PAM_IGNORE, bumps n w, h')"
proof -
  obtain n where "read_capabilities_for_user E user (conf_source (parse_args argv)) w =
      Some (conf_spec E user (conf_source (parse_args argv)), bumps n w)"
    using read_capabilities_exec [OF assms(3), of E "conf_source (parse_args argv)" user] assms(4) by auto
  then show ?thesis using assms(1,2) by (intro exI [of _ n]) (simp add: pam_sm_authenticate_def)
qed

text \<open>A name of a group that cannot be copied ends in \<^verbatim>\<open>strlen(NULL)\<close>.\<close>

lemma read_capabilities_no_memory:
  "load_groups E user w = (Some groups, w') \<Longrightarrow> None \<in> set groups \<Longrightarrow> read_capabilities_for_user E user source w = None"
  by (simp add: read_capabilities_for_user_def split: prod.splits)

section \<open>Properties\<close>

text \<open>
  C29: On a configuration file whose lines fit the buffer, \<^verbatim>\<open>read_capabilities_for_user\<close> is
  equivalent to the description of capability.conf(5): it returns the first word of the first line
  that is no comment and names the user, a group of the user or \<^verbatim>\<open>*\<close>, and nothing for an unknown
  user, without a file or when anyone may write to the file.  It leaves the library's objects and
  the process alone.
\<close>

theorem read_capabilities_spec:
  assumes "mem_ok w" "\<forall>f. fopen E source = Some f \<longrightarrow> plain_conf (f_text f)"
  shows "\<exists>w'. read_capabilities_for_user E user source w = Some (conf_spec E user source, w')
     \<and> heap w' = heap w \<and> kern w' = kern w"
proof -
  obtain n where "read_capabilities_for_user E user source w = Some (conf_spec E user source, bumps n w)"
    using read_capabilities_exec [OF assms(1), of E source user] assms(2) by auto
  then show ?thesis by simp
qed

text \<open>A configuration in the style of the manual page, and a PAM library that keeps its items in a list.\<close>

definition demo_conf :: string where
  "demo_conf = ''# who gets what'' @ [CHR 0x0A] @ ''all  root'' @ [CHR 0x0A, CHR 0x0A] @ ''^cap_setuid alpha beta''
     @ [CHR 0x0A] @ ''!cap_chown,cap_setuid'' @ [CHR 0x09] @ ''@one'' @ [CHR 0x0A] @ ''none *''"

definition demo_env :: "string \<Rightarrow> addr list pam_env" where
  "demo_env user = \<lparr>getpwnam = (\<lambda>u. Some 100), group_list = (\<lambda>u g. if u = ''gamma'' then [g, 7] else [g]),
     getgrgid = (\<lambda>g. if g = 7 then Some ''one'' else None),
     fopen = (\<lambda>f. if f = USER_CAP_FILE then Some \<lparr>f_mode = Some 0x1A4, f_text = demo_conf\<rparr> else None),
     pam_get_user = (\<lambda>h. (0, Some user, h)), pam_get_item = (\<lambda>h. (0, Some user)),
     pam_set_data = (\<lambda>p h. (0, None, p # h))\<rparr>"

lemma demo_env_fields [simp]:
  "pam_get_item (demo_env user) h = (0, Some user)" "pam_set_data (demo_env user) p hs = (0, None, p # hs)"
  by (simp_all add: demo_env_def)

lemma demo_conf_plain: "fopen (demo_env user) source = Some f \<Longrightarrow> plain_conf (f_text f)"
proof -
  have "plain_conf demo_conf" by code_simp
  then show "fopen (demo_env user) source = Some f \<Longrightarrow> plain_conf (f_text f)"
    by (auto simp: demo_env_def split: if_splits)
qed

lemma demo_conf_spec:
  "conf_spec (demo_env ''gamma'') ''gamma'' USER_CAP_FILE = Some ''!cap_chown,cap_setuid''"
  "conf_spec (demo_env ''delta'') ''delta'' USER_CAP_FILE = Some ''none''"
proof -
  have w: "map conf_words (conf_lines demo_conf) = [[''#'', ''who'', ''gets'', ''what''], [''all'', ''root''], [],
      [''^cap_setuid'', ''alpha'', ''beta''], [''!cap_chown,cap_setuid'', ''@one''], [''none'', ''*'']]"
    by code_simp
  have t: "trusted_conf USER_CAP_FILE \<lparr>f_mode = Some 0x1A4, f_text = demo_conf\<rparr>"
    by (simp add: trusted_conf_def bit_iff_odd)
  show "conf_spec (demo_env ''gamma'') ''gamma'' USER_CAP_FILE = Some ''!cap_chown,cap_setuid''"
    "conf_spec (demo_env ''delta'') ''delta'' USER_CAP_FILE = Some ''none''"
    unfolding conf_spec_def conf_first_def using w t
    by (simp_all add: demo_env_def user_groups_def map_filter_simps conf_applies_def conf_names_def)
qed

theorem read_capabilities_spec_witness:
  "\<exists>w'. read_capabilities_for_user (demo_env ''gamma'') ''gamma'' USER_CAP_FILE (machine root_linux) =
     Some (Some ''!cap_chown,cap_setuid'', w')"
  using read_capabilities_spec [OF mem_ok_machine(1) [of root_linux], of "demo_env ''gamma''" USER_CAP_FILE "''gamma''"]
    demo_conf_plain demo_conf_spec(1) by auto

text \<open>
  C30: \<^verbatim>\<open>pam_sm_setcred\<close> without \<^verbatim>\<open>defer\<close> returns without a leak.  It applies the entry the
  configuration grants the user, or the fallback, and nothing else: without an entry, or with one
  that is no IAB text, it reports \<^verbatim>\<open>PAM_IGNORE\<close> and the credentials are as before; \<^verbatim>\<open>all\<close> changes
  nothing, \<^verbatim>\<open>none\<close> always succeeds in clearing the inheritable and ambient sets; on success with an IAB text
  exactly its three vectors are in force.  The effective and permitted sets and the identity of the
  process never change.
\<close>

theorem pam_sm_setcred_spec:
  assumes "cred_abi K view valid" "names_abi N" "wf_world w" "mem_ok w" "valid (kern w)" "caller_ok K (multithread w) w"
    "cap_max_bits w = int (p_ncaps (view (kern w)))" "flags AND 0xA \<noteq> 0" "pam_get_item E h = (PAM_SUCCESS, Some user)" "user \<noteq> []"
    "pc_defer (parse_args argv) = 0" "\<forall>f. fopen E (conf_source (parse_args argv)) = Some f \<longrightarrow> plain_conf (f_text f)"
    "\<forall>s t. granted E (parse_args argv) user = Some s \<longrightarrow> iab_parse N (max_bits w) 0 s zero_iab = Some t \<longrightarrow>
       vec_set (iab_i t) \<subseteq> {..<p_ncaps (view (kern w))}"
  shows "\<exists>ok w'. pam_sm_setcred K N E flags argv w h = Some (if ok \<noteq> 0 then PAM_SUCCESS else PAM_IGNORE, w', h) \<and> heap w' = heap w
     \<and> (case granted E (parse_args argv) user of
          None \<Rightarrow> ok = 0 \<and> view (kern w') = view (kern w)
        | Some s \<Rightarrow> conf_outcome N (max_bits w) (pc_keepcaps (parse_args argv) \<noteq> 0) s ok (view (kern w)) (view (kern w')))
     \<and> p_eff (view (kern w')) = p_eff (view (kern w)) \<and> p_per (view (kern w')) = p_per (view (kern w))
     \<and> ids (view (kern w')) = ids (view (kern w))"
proof -
  let ?cs = "(parse_args argv)\<lparr>pc_user := Some user\<rparr>"
  have cs: "conf_source ?cs = conf_source (parse_args argv)" "granted E ?cs user = granted E (parse_args argv) user"
    "pc_keepcaps ?cs = pc_keepcaps (parse_args argv)"
    by (simp_all add: conf_source_def granted_def split: option.split)
  have m: "max_bits w = int (p_ncaps (view (kern w)))" "pc_defer ?cs = 0" "pc_user ?cs = Some user"
    using assms(7,11) by (simp_all add: cap_max_bits_def)
  obtain ok k e n where s: "set_capabilities K N E ?cs w h = Some (ok, after k e (bumps n w), h)"
    "case granted E (parse_args argv) user of None \<Rightarrow> ok = 0 \<and> view k = view (kern w)
      | Some s \<Rightarrow> conf_outcome N (max_bits w) (pc_keepcaps (parse_args argv) \<noteq> 0) s ok (view (kern w)) (view k)"
    using cred_abi.set_capabilities_exec [OF assms(1,3-6) m(1) assms(2) m(2,3), of E h] assms(12,13) unfolding cs by blast
  have "p_eff (view k) = p_eff (view (kern w)) \<and> p_per (view k) = p_per (view (kern w)) \<and> ids (view k) = ids (view (kern w))"
    using s(2) by (auto simp: conf_outcome_def split: option.splits if_splits)
  moreover have "pam_sm_setcred K N E flags argv w h = Some (if ok \<noteq> 0 then PAM_SUCCESS else PAM_IGNORE, after k e (bumps n w), h)"
    using s(1) assms(8-10) by (simp add: pam_sm_setcred_def)
  ultimately show ?thesis
    using s(2) by (intro exI [of _ ok] exI [of _ "after k e (bumps n w)"]) (simp cong: option.case_cong)
qed

theorem pam_sm_setcred_spec_witness:
  "\<exists>w'. pam_sm_setcred linux_kernel linux_names (demo_env ''delta'') 2 [] (machine root_linux) [] = Some (PAM_SUCCESS, w', [])
     \<and> p_inh (lk_view (kern w')) = {} \<and> p_per (lk_view (kern w')) = {..<41}"
proof -
  let ?w = "machine root_linux" and ?E = "demo_env ''delta''"
  have g: "parse_args [] = zero_pcs" "conf_source zero_pcs = USER_CAP_FILE" "granted ?E zero_pcs ''delta'' = Some ''none''"
    using demo_conf_spec(2) by (simp_all add: parse_args_def conf_source_def zero_pcs_def granted_def)
  have v: "p_ncaps (lk_view root_linux) = 41" "p_per (lk_view root_linux) = {..<41}"
    by (simp_all add: lk_view_def root_linux_def plain_linux_def)
  have m: "cap_max_bits ?w = int (p_ncaps (lk_view (kern ?w)))" using v by (simp add: cap_max_bits_def)
  have "lookupname linux_names 41 ''none'' = (- 1, ''none'')" by code_simp
  then have p: "iab_parse linux_names 41 0 ''none'' zero_iab = None" by (simp add: iab_parse.simps)
  have "pc_defer (parse_args []) = 0" "(2 :: u32) AND 0xA \<noteq> 0" by (simp_all add: g zero_pcs_def)
  from pam_sm_setcred_spec [OF linux.cred_abi_axioms linux_names.names_abi_axioms wf_machine mem_ok_machine(1) _ caller_ok_machine(1) m
      this(2) demo_env_fields(1) [of "''delta''" "[]"] _ this(1)]
  show ?thesis using root_valid demo_conf_plain p g v by (auto simp: conf_outcome_def)
qed

text \<open>
  C31: With \<^verbatim>\<open>defer\<close>, \<^verbatim>\<open>pam_sm_setcred\<close> hands PAM a new unlocked tuple with the configured
  vectors and changes no capability set; it reports \<^verbatim>\<open>PAM_IGNORE\<close>.  When PAM ends successfully in
  silent mode \<^verbatim>\<open>iab_apply\<close> has the effect of \<^verbatim>\<open>cap_iab_set_proc\<close>, so that on success exactly these
  vectors are in force; with any other status it does not touch the process.  In every case it
  releases the tuple and nothing else.
\<close>

theorem pam_deferred_spec:
  assumes "cred_abi K view valid" "names_abi N" "wf_world w" "mem_ok w" "valid (kern w)" "caller_ok K (multithread w) w"
    "cap_max_bits w = int (p_ncaps (view (kern w)))" "flags AND 0xA \<noteq> 0" "pam_get_item E h = (PAM_SUCCESS, Some user)" "user \<noteq> []"
    "pc_defer (parse_args argv) \<noteq> 0" "\<forall>f. fopen E (conf_source (parse_args argv)) = Some f \<longrightarrow> plain_conf (f_text f)"
    "granted E (parse_args argv) user = Some s" "s \<noteq> ''all''" "s \<noteq> ''none''"
    "iab_parse N (max_bits w) 0 s zero_iab = Some t" "vec_set (iab_i t) \<subseteq> {..<p_ncaps (view (kern w))}"
    "\<forall>p. \<exists>h'. pam_set_data E p h = (PAM_SUCCESS, None, h')"
  shows "\<exists>p w1 h'. pam_sm_setcred K N E flags argv w h = Some (PAM_IGNORE, w1, h') \<and> pam_set_data E p h = (PAM_SUCCESS, None, h')
     \<and> iab_ready w1 p t \<and> heap w p = None \<and> (\<exists>b. view (kern w1) = (view (kern w))\<lparr>p_sbits := b\<rparr>)
     \<and> (\<exists>r w2 w3. cap_iab_set_proc K p w1 = Some (r, w2) \<and> iab_apply K p PAM_DATA_SILENT w1 = Some w3 \<and> heap w3 = heap w
          \<and> kern w3 = kern w2 \<and> p_eff (view (kern w3)) = p_eff (view (kern w)) \<and> p_per (view (kern w3)) = p_per (view (kern w))
          \<and> (r = 0 \<longrightarrow> view (kern w3) = (view (kern w1))\<lparr>p_inh := vec_set (iab_i t),
               p_amb := vec_set (iab_a t) \<inter> {..<p_ncaps (view (kern w))}, p_bnd := p_bnd (view (kern w)) - vec_set (iab_nb t)\<rparr>))
     \<and> (\<forall>st. st \<noteq> PAM_DATA_SILENT \<longrightarrow> (\<exists>w3. iab_apply K p st w1 = Some w3 \<and> heap w3 = heap w \<and> kern w3 = kern w1))"
proof -
  let ?cs = "(parse_args argv)\<lparr>pc_user := Some user\<rparr>" and ?sz = sizeof_cap_alloc_s
  have cs: "conf_source ?cs = conf_source (parse_args argv)" "granted E ?cs user = granted E (parse_args argv) user"
    by (simp_all add: conf_source_def granted_def split: option.split)
  have m: "pc_defer ?cs \<noteq> 0" "pc_user ?cs = Some user" using assms(11) by simp_all
  obtain p k e b n h' where s: "set_capabilities K N E ?cs w h = Some (0, after k e (new_obj p ?sz (CapIab t) (bumped (bumps n w))), h')"
    "p = next_ptr (bumps n w)" "pam_set_data E p h = (PAM_SUCCESS, None, h')" "valid k" "view k = (view (kern w))\<lparr>p_sbits := b\<rparr>"
    using cred_abi.set_capabilities_deferred [OF assms(1,3-6,2) m, of E s t h] assms(12-16,18) unfolding cs by blast
  note t = iab_parse_zero [OF assms(2,16)]
  define w1 where "w1 = after k e (new_obj p ?sz (CapIab t) (bumped (bumps n w)))"
  have ready: "iab_ready w1 p t"
    using wf_new_bumped [of "bumps n w" "CapIab t" ?sz] assms(3) t s(2) by (simp add: iab_ready_def w1_def)
  have fresh: "heap w p = None" using wf_fresh [of "bumps n w"] assms(3) s(2) by simp
  have del: "heap (del_obj p w1) = heap w" "kern (del_obj p w1) = kern w1" using fresh
    by (simp_all add: w1_def after_def del_obj_def new_obj_def bumped_def bumps_def fun_upd_idem)
  have w1: "mem_ok w1" "kern w1 = k" "caller_ok K (multithread w1) w1" "max_bits w1 = int (p_ncaps (view (kern w1)))"
    using assms(4,6,7) s(5) by (simp_all add: w1_def cap_max_bits_def)
  have v: "valid (kern w1)" "vec_set (iab_i t) \<subseteq> {..<p_ncaps (view (kern w1))}" using w1(2) s(4,5) assms(17) by simp_all
  obtain r k3 e3 where a: "cap_iab_set_proc K p w1 = Some (r, after k3 e3 (bumps 2 w1))"
     "iab_apply K p PAM_DATA_SILENT w1 = Some (after k3 e3 (bumps 2 (del_obj p w1)))"
     "p_eff (view k3) = p_eff (view (kern w1))" "p_per (view k3) = p_per (view (kern w1))"
     "r = 0 \<longrightarrow> view k3 = (view (kern w1))\<lparr>p_inh := vec_set (iab_i t),
            p_amb := vec_set (iab_a t) \<inter> {..<p_ncaps (view (kern w1))}, p_bnd := p_bnd (view (kern w1)) - vec_set (iab_nb t)\<rparr>"
    using cred_abi.iab_apply_exec [OF assms(1) ready w1(1) v(1) w1(3,4) v(2)] by blast
  have "pam_sm_setcred K N E flags argv w h = Some (PAM_IGNORE, w1, h')"
    using s(1) assms(8-10) by (simp add: pam_sm_setcred_def w1_def)
  moreover have "iab_apply K p st w1 = Some (del_obj p w1)" if "st \<noteq> PAM_DATA_SILENT" for st
    using iab_apply_idle [OF ready that] .
  ultimately show ?thesis
    using s(3,5) ready fresh a del w1(2)
    by (intro exI [of _ p] exI [of _ w1] exI [of _ h'] conjI exI [of _ r] exI [of _ "after k3 e3 (bumps 2 w1)"]
        exI [of _ "after k3 e3 (bumps 2 (del_obj p w1))"]) auto
qed

lemma demo_parse:
  "iab_parse linux_names 41 0 ''!cap_chown,cap_setuid'' zero_iab = Some (zero_iab\<lparr>iab_i := [0x80, 0], iab_nb := [1, 0]\<rparr>)"
proof -
  have l: "lookupname linux_names 41 ''cap_chown,cap_setuid'' = (0, '',cap_setuid'')" "lookupname linux_names 41 ''cap_setuid'' = (7, [])"
    by code_simp+
  have r: "iab_raise_flags 16 0 zero_iab = zero_iab\<lparr>iab_nb := [1, 0]\<rparr>"
    "iab_raise_flags 4 7 (zero_iab\<lparr>iab_nb := [1, 0]\<rparr>) = zero_iab\<lparr>iab_i := [0x80, 0], iab_nb := [1, 0]\<rparr>"
    by code_simp+
  show ?thesis using l r by (simp add: iab_parse.simps)
qed

theorem pam_deferred_spec_witness:
  "\<exists>p w1. pam_sm_setcred linux_kernel linux_names (demo_env ''gamma'') 2 [''defer''] (machine root_linux) [] = Some (PAM_IGNORE, w1, [p])
     \<and> (\<exists>w3. iab_apply linux_kernel p PAM_DATA_SILENT w1 = Some w3 \<and> p_per (lk_view (kern w3)) = {..<41})"
proof -
  let ?w = "machine root_linux" and ?E = "demo_env ''gamma''" and ?t = "zero_iab\<lparr>iab_i := [0x80, 0], iab_nb := [1, 0]\<rparr>"
  have g: "parse_args [''defer''] = zero_pcs\<lparr>pc_defer := 1\<rparr>" "conf_source (zero_pcs\<lparr>pc_defer := 1\<rparr>) = USER_CAP_FILE"
    by (simp_all add: parse_args_def parse_arg_def conf_source_def zero_pcs_def)
  have gr: "granted ?E (parse_args [''defer'']) ''gamma'' = Some ''!cap_chown,cap_setuid''"
    using demo_conf_spec(1) g by (simp add: granted_def)
  have v: "p_ncaps (lk_view root_linux) = 41" "p_per (lk_view root_linux) = {..<41}"
    by (simp_all add: lk_view_def root_linux_def plain_linux_def)
  have m: "cap_max_bits ?w = int (p_ncaps (lk_view (kern ?w)))" using v by (simp add: cap_max_bits_def)
  have "list_all (\<lambda>x. vec_isset [0x80, 0] x \<longrightarrow> x < 41) [0..<64]" by code_simp
  then have i: "vec_set (iab_i ?t) \<subseteq> {..<p_ncaps (lk_view (kern ?w))}"
    using v by (auto simp: vec_set_def list_all_iff)
  have c: "pc_defer (parse_args [''defer'']) \<noteq> 0" "(2 :: u32) AND 0xA \<noteq> 0" using g by simp_all
  have p: "iab_parse linux_names (max_bits ?w) 0 ''!cap_chown,cap_setuid'' zero_iab = Some ?t" using demo_parse by simp
  from pam_deferred_spec [OF linux.cred_abi_axioms linux_names.names_abi_axioms wf_machine mem_ok_machine(1) _ caller_ok_machine(1) m
      c(2) demo_env_fields(1) [of "''gamma''" "[]"] _ c(1) _ gr _ _ p i]
  show ?thesis using root_valid demo_conf_plain v by auto
qed

end
