(* ===== verification/Prog_Setcap.thy ===== *)
theory Prog_Setcap
  imports Cap_File Cap_Text_Spec Cap_Proc_Spec
begin

text \<open>
  \<^verbatim>\<open>progs/setcap.c\<close>: the program that sets, removes and verifies the capabilities of files.

  A run is a function of the command line, of what \<^verbatim>\<open>read\<close> returns on standard input (a list of
  chunks, \<^const>\<open>None\<close> for an error, the end of the list for the end of the file) and of the world.
  \<open>Inl s\<close> is \<^verbatim>\<open>exit(s)\<close>; the messages are left out.  The locale \<open>path_abi\<close> is what the
  program relies on of the file system: the attribute written through a descriptor is that of the
  path the descriptor was opened with.
\<close>

section \<open>Arguments\<close>

definition pos_uint :: "string \<Rightarrow> nat option" where
  "pos_uint text =
     (if length text = 0 \<or> deref text = CHR ''-'' then None
      else
        (let (v, remains, _) = strtoul text 0 in
         if deref remains \<noteq> NUL \<or> v = 0 \<or> v \<noteq> v mod 2 ^ 32 then None else Some v))"

definition MAXCAP :: nat where "MAXCAP = 2048"

text \<open>The loop of \<^verbatim>\<open>read_caps\<close>: the space left, the text, and the rest of the input.\<close>

function read_caps_loop :: "nat \<Rightarrow> string \<Rightarrow> string option list \<Rightarrow> int + nat \<times> string \<times> string option list" where
  "read_caps_loop i acc sin =
     (if i = 0 then Inr (i, acc, sin)
      else
        (case sin of
           [] \<Rightarrow> Inr (i, acc, [])
         | None # _ \<Rightarrow> Inl 1
         | Some chunk # sin \<Rightarrow>
             (let got = take i chunk;
                  sin = (if length chunk > i then Some (drop i chunk) # sin else sin)
              in if got = [] \<or> deref got = CHR 0x0A then Inr (i, acc, sin)
                 else read_caps_loop (i - length got) (acc @ got) sin)))"
  by pat_completeness auto
termination by (relation "measure (\<lambda>(i, acc, sin). i)") auto

declare read_caps_loop.simps [simp del]

definition read_caps :: "string option list \<Rightarrow> int + (int \<times> string \<times> string option list)" where
  "read_caps sin =
     (case read_caps_loop MAXCAP [] sin of
        Inl s \<Rightarrow> Inl s
      | Inr (i, buffer, sin) \<Rightarrow> Inr (if i < MAXCAP then 0 else - 1, c_str buffer, sin))"

section \<open>One file\<close>

record setcap_state =
  tried_to_cap_setfcap :: bool
  quiet :: bool
  verify :: bool
  forced :: bool
  want_rootid :: u32
  sc_cap_d :: addr
  sc_stdin :: "string option list"

text \<open>The set an argument stands for: NULL for \<^verbatim>\<open>-r\<close>.\<close>

definition arg_caps ::
  "'k kernel \<Rightarrow> names_h \<Rightarrow> string \<Rightarrow> setcap_state \<Rightarrow> 'k world \<Rightarrow> ((int + setcap_state) \<times> 'k world) option" where
  "arg_caps K N arg st w =
     (if arg = ''-r'' then do {
        (_, w) \<leftarrow> cap_free (sc_cap_d st) w;
        Some (Inr (st\<lparr>sc_cap_d := NULL\<rparr>), w) }
      else
        (case (if arg = ''-'' then
                 (case read_caps (sc_stdin st) of
                    Inl s \<Rightarrow> Inl s
                  | Inr (retval, buffer, sin) \<Rightarrow> if retval \<noteq> 0 then Inl 1 else Inr (buffer, sin))
               else Inr (arg, sc_stdin st)) of
           Inl s \<Rightarrow> Some (Inl s, w)
         | Inr (txt, sin) \<Rightarrow>
             if list_all isspace txt then Some (Inl 1, w)
             else do {
               (cap_d, w) \<leftarrow> cap_from_text N K (Some txt) w;
               if cap_d = NULL then Some (Inl 1, w)
               else do {
                 (r, w) \<leftarrow> cap_set_nsowner cap_d (want_rootid st) w;
                 if r \<noteq> 0 then Some (Inl 1, w)
                 else Some (Inr (st\<lparr>sc_cap_d := cap_d, sc_stdin := sin\<rparr>), w) } }))"

text \<open>A file whose capabilities cannot be read counts as one with the empty set.\<close>

definition get_or_empty :: "'k kernel \<Rightarrow> 'k vfs \<Rightarrow> u8 list \<Rightarrow> string \<Rightarrow> 'k world \<Rightarrow> (addr \<times> 'k world) option" where
  "get_or_empty K V junk file w = do {
     (cap_on_file, w) \<leftarrow> cap_get_file K V junk file w;
     if cap_on_file = NULL then cap_init K w else Some (cap_on_file, w) }"

definition verify_file ::
  "'k kernel \<Rightarrow> 'k vfs \<Rightarrow> u8 list \<Rightarrow> string \<Rightarrow> setcap_state \<Rightarrow> 'k world \<Rightarrow> ((int + setcap_state) \<times> 'k world) option" where
  "verify_file K V junk file st w = do {
     (cap_d, w) \<leftarrow> (if sc_cap_d st = NULL then cap_init K w else Some (sc_cap_d st, w));
     if cap_d = NULL then Some (Inl 1, w)
     else do {
       (cap_on_file, w) \<leftarrow> get_or_empty K V junk file w;
       if cap_on_file = NULL then Some (Inl 1, w)
       else do {
         (cmp, w) \<leftarrow> cap_compare K cap_on_file cap_d w;
         (f_rootid, w) \<leftarrow> cap_get_nsowner cap_on_file w;
         (_, w) \<leftarrow> cap_free cap_on_file w;
         if cmp \<noteq> 0 \<or> want_rootid st \<noteq> f_rootid then Some (Inl 1, w)
         else Some (Inr (st\<lparr>sc_cap_d := cap_d\<rparr>), w) } } }"

text \<open>
  The loop that compares the effective flag with the union of the other two: \<^verbatim>\<open>somebits\<close> and
  \<^verbatim>\<open>explained\<close> at its end.
\<close>

partial_function (option) eff_check :: "addr \<Rightarrow> int \<Rightarrow> int \<Rightarrow> 'k world \<Rightarrow> ((int \<times> bool) \<times> 'k world) option" where
  "eff_check cap_d cap somebits w = do {
     ((r, per_state), w) \<leftarrow> cap_get_flag cap_d cap (int CAP_PERMITTED) True w;
     if r = - 1 then Some ((somebits, False), w)
     else do {
       ((_, inh_state), w) \<leftarrow> cap_get_flag cap_d cap (int CAP_INHERITABLE) True w;
       ((_, eff_state), w) \<leftarrow> cap_get_flag cap_d cap (int CAP_EFFECTIVE) True w;
       per \<leftarrow> per_state;
       inh \<leftarrow> inh_state;
       eff \<leftarrow> eff_state;
       somebits \<leftarrow> Some (somebits OR (if eff \<noteq> 0 then 1 else 0));
       if inh OR per \<noteq> eff then Some ((somebits, True), w)
       else eff_check cap_d (cap + 1) somebits w } }"

definition raise_setfcap ::
  "'k kernel \<Rightarrow> addr \<Rightarrow> setcap_state \<Rightarrow> 'k world \<Rightarrow> ((int + setcap_state) \<times> 'k world) option" where
  "raise_setfcap K mycaps st w =
     (if tried_to_cap_setfcap st then Some (Inr st, w)
      else do {
        (r, w) \<leftarrow> cap_set_flag mycaps (int CAP_EFFECTIVE) 1 [int CAP_SETFCAP] CAP_SET w;
        if r \<noteq> 0 then Some (Inl 1, w)
        else do {
          (r, w) \<leftarrow> cap_set_proc K mycaps w;
          if r \<noteq> 0 then Some (Inl 1, w)
          else Some (Inr (st\<lparr>tried_to_cap_setfcap := True\<rparr>), w) } })"

definition set_file ::
  "'k kernel \<Rightarrow> 'k vfs \<Rightarrow> vfs_ns_cap_data \<Rightarrow> addr \<Rightarrow> string \<Rightarrow> setcap_state \<Rightarrow> 'k world
     \<Rightarrow> ((int + setcap_state) \<times> 'k world) option" where
  "set_file K V raw mycaps file st w = do {
     (r, w) \<leftarrow> raise_setfcap K mycaps st w;
     (case r of
        Inl s \<Rightarrow> Some (Inl s, w)
      | Inr st \<Rightarrow> do {
          ((somebits, explained), w) \<leftarrow> eff_check (sc_cap_d st) 0 0 w;
          if somebits \<noteq> 0 \<and> explained \<and> \<not> forced st then Some (Inl 1, w)
          else do {
            (retval, w) \<leftarrow> cap_set_file V raw file (sc_cap_d st) (w\<lparr>errno := 0\<rparr>);
            if retval = 0 then Some (Inr st, w)
            else if errno w = ENODATA \<and> sc_cap_d st = NULL \<and> forced st then Some (Inr st, w)
            else Some (Inl 1, w) } }) }"

section \<open>The program\<close>

fun setcap_loop ::
  "'k kernel \<Rightarrow> 'k vfs \<Rightarrow> names_h \<Rightarrow> vfs_ns_cap_data \<Rightarrow> u8 list \<Rightarrow> addr \<Rightarrow> string list \<Rightarrow> setcap_state \<Rightarrow> 'k world
     \<Rightarrow> (int \<times> 'k world) option" where
  "setcap_loop K V N raw junk mycaps [] st w = do {
     (_, w) \<leftarrow> cap_free (sc_cap_d st) w;
     Some (0, w) }"
| "setcap_loop K V N raw junk mycaps (arg # args) st w = do {
     (_, w) \<leftarrow> cap_free (sc_cap_d st) w;
     st \<leftarrow> Some (st\<lparr>sc_cap_d := NULL\<rparr>);
     if arg = ''--license'' then Some (0, w)
     else if arg = ''-f'' then setcap_loop K V N raw junk mycaps args (st\<lparr>forced := True\<rparr>) w
     else if arg = ''-h'' then Some (0, w)
     else if arg = ''-n'' then
       (case args of
          [] \<Rightarrow> Some (1, w)
        | n # args \<Rightarrow>
            (case pos_uint n of
               None \<Rightarrow> Some (1, w)
             | Some v \<Rightarrow> setcap_loop K V N raw junk mycaps args (st\<lparr>want_rootid := of_nat v\<rparr>) w))
     else if arg = ''-q'' then setcap_loop K V N raw junk mycaps args (st\<lparr>quiet := True\<rparr>) w
     else if arg = ''-v'' then setcap_loop K V N raw junk mycaps args (st\<lparr>verify := True\<rparr>) w
     else do {
       (r, w) \<leftarrow> arg_caps K N arg st w;
       (case r of
          Inl s \<Rightarrow> Some (s, w)
        | Inr st \<Rightarrow>
            (case args of
               [] \<Rightarrow> Some (1, w)
             | file # args \<Rightarrow> do {
                 (r, w) \<leftarrow> (if verify st then verify_file K V junk file st w else set_file K V raw mycaps file st w);
                 (case r of
                    Inl s \<Rightarrow> Some (s, w)
                  | Inr st \<Rightarrow> setcap_loop K V N raw junk mycaps args st w) })) } }"

definition setcap_init :: "string option list \<Rightarrow> setcap_state" where
  "setcap_init sin = \<lparr>tried_to_cap_setfcap = False, quiet = False, verify = False, forced = False, want_rootid = 0,
     sc_cap_d = NULL, sc_stdin = sin\<rparr>"

definition setcap_main ::
  "'k kernel \<Rightarrow> 'k vfs \<Rightarrow> names_h \<Rightarrow> vfs_ns_cap_data \<Rightarrow> u8 list \<Rightarrow> string list \<Rightarrow> string option list \<Rightarrow> 'k world
     \<Rightarrow> (int \<times> 'k world) option" where
  "setcap_main K V N raw junk args sin w =
     (if args = [] then Some (1, w)
      else do {
        (mycaps, w) \<leftarrow> cap_get_proc K w;
        setcap_loop K V N raw junk mycaps args (setcap_init sin) w })"

section \<open>The effective flag\<close>

text \<open>What the loop has found when it ends, having started at \<open>n\<close>.\<close>

definition eff_found :: "cap_struct \<Rightarrow> nat \<Rightarrow> int \<Rightarrow> bool \<Rightarrow> bool" where
  "eff_found c n sb ex \<longleftrightarrow>
     (\<not> ex \<longrightarrow> (\<forall>x. n \<le> x \<longrightarrow> x < 64 \<longrightarrow> isset_cap c x 0 = (isset_cap c x 1 \<or> isset_cap c x 2)))
   \<and> (ex \<longrightarrow> sb = 0 \<longrightarrow> (\<exists>x < 64. (isset_cap c x 1 \<or> isset_cap c x 2) \<and> \<not> isset_cap c x 0))
   \<and> (ex \<longrightarrow> (\<exists>x < 64. isset_cap c x 0 \<noteq> (isset_cap c x 1 \<or> isset_cap c x 2)))"

lemma eff_check_exec:
  assumes "cap_ready w p c" "n \<le> 64"
  shows "\<exists>sb' ex e. eff_check p (int n) sb w = Some ((sb', ex), w\<lparr>errno := e\<rparr>)
     \<and> eff_found c n sb' ex"
  using assms(2)
proof (induction "64 - n" arbitrary: n sb)
  case 0
  then have "n = 64" by simp
  then have "eff_check p (int n) sb w = Some ((sb, False), w\<lparr>errno := EINVAL\<rparr>)"
    using cap_get_flag_bad [OF assms(1), of 64 1] by (subst eff_check.simps) simp
  with \<open>n = 64\<close> show ?case by (intro exI [of _ sb] exI [of _ False] exI [of _ EINVAL]) (simp add: eff_found_def)
next
  case (Suc m)
  then have n: "n < 64" "m = 64 - Suc n" "Suc n \<le> 64" by simp_all
  have g: "cap_get_flag p (int n) s True w = Some ((0, Some (if isset_cap c n (nat s) then CAP_SET else CAP_CLEAR)), w)"
    if "0 \<le> s" "s < 3" for s
    using cap_get_flag_exec [OF assms(1), of "int n" s] that n(1) by simp
  let ?sb = "sb OR (if isset_cap c n 0 then 1 else 0)"
  have nz: "isset_cap c n 0 \<Longrightarrow> ?sb \<noteq> 0" by (simp add: or_eq_0_iff)
  have step: "eff_check p (int n) sb w =
      (if isset_cap c n 0 = (isset_cap c n 1 \<or> isset_cap c n 2) then eff_check p (int (Suc n)) ?sb w
       else Some ((?sb, True), w))"
    using g [of 0] g [of 1] g [of 2] by (subst eff_check.simps) (auto simp: add.commute)
  show ?case
  proof (cases "isset_cap c n 0 = (isset_cap c n 1 \<or> isset_cap c n 2)")
    case False
    then have "eff_check p (int n) sb w = Some ((?sb, True), w\<lparr>errno := errno w\<rparr>)" using step by simp
    moreover have "eff_found c n ?sb True" unfolding eff_found_def using nz False n(1) by blast
    ultimately show ?thesis by blast
  next
    case True
    obtain sb' ex e where ih: "eff_check p (int (Suc n)) ?sb w = Some ((sb', ex), w\<lparr>errno := e\<rparr>)" "eff_found c (Suc n) sb' ex"
      using Suc.hyps(1) [OF n(2,3), of ?sb] by blast
    have "eff_found c n sb' ex" unfolding eff_found_def
    proof (intro conjI impI allI)
      fix x assume "\<not> ex" "n \<le> x" "x < 64"
      then show "isset_cap c x 0 = (isset_cap c x 1 \<or> isset_cap c x 2)"
        using ih(2) True by (cases "x = n") (simp_all add: eff_found_def)
    qed (use ih(2) in \<open>simp_all add: eff_found_def\<close>)
    moreover have "eff_check p (int n) sb w = Some ((sb', ex), w\<lparr>errno := e\<rparr>)" using step True ih(1) by simp
    ultimately show ?thesis by blast
  qed
qed

text \<open>The sets that both the program and the library accept: no effective bit, or exactly the union.\<close>

definition eff_exact :: "cap_struct \<Rightarrow> bool" where
  "eff_exact c \<longleftrightarrow> (\<forall>x < 64. \<not> isset_cap c x 0) \<or> (\<forall>x < 64. isset_cap c x 0 = (isset_cap c x 1 \<or> isset_cap c x 2))"

lemma eff_check_accepts:
  assumes "cap_ready w p c"
  obtains sb ex e where "eff_check p 0 0 w = Some ((sb, ex), w\<lparr>errno := e\<rparr>)"
    "\<not> (sb \<noteq> 0 \<and> ex) \<Longrightarrow> eff_legal c \<Longrightarrow> eff_exact c"
proof -
  obtain sb ex e where x: "eff_check p (int 0) 0 w = Some ((sb, ex), w\<lparr>errno := e\<rparr>)" "eff_found c 0 sb ex"
    using eff_check_exec [OF assms, of 0 0] by blast
  have "eff_exact c" if "\<not> (sb \<noteq> 0 \<and> ex)" "eff_legal c"
    using that x(2) unfolding eff_exact_def eff_legal_def eff_found_def by auto
  with x(1) show ?thesis using that [of sb ex e] by simp
qed

lemma exact_image:
  assumes "eff_exact c" "file_image c d" "wf_cap c" "wf_cap d"
  shows "c_u d = c_u c"
proof (rule cap_u_eqI [OF assms(4,3)])
  show "isset_cap d x s = isset_cap c x s" if "x < 64" "s < 3" for x s
  proof -
    have "s = 0 \<or> s = 1 \<or> s = 2" using that(2) by auto
    then show ?thesis using assms(1,2) that(1) by (auto simp: file_image_def eff_exact_def eff_any_def)
  qed
qed

section \<open>Runs\<close>

text \<open>An argument that is neither an option nor \<^verbatim>\<open>-\<close>.\<close>

definition plain_arg :: "string \<Rightarrow> bool" where
  "plain_arg arg \<longleftrightarrow> arg \<notin> {''--license'', ''-f'', ''-h'', ''-n'', ''-q'', ''-v'', ''-r'', ''-''}"

text \<open>The set a path carries; a path without a readable attribute carries the empty one.\<close>

definition file_caps :: "'k vfs \<Rightarrow> u8 list \<Rightarrow> string \<Rightarrow> 'k \<Rightarrow> cap_struct" where
  "file_caps V junk f k =
     (case v_getxattr V f 24 k of
        Inl _ \<Rightarrow> zero3
      | Inr b \<Rightarrow> (case attr_caps junk b of None \<Rightarrow> zero3 | Some d \<Rightarrow> d))"

lemma file_caps_wf: "wf_cap (file_caps V junk f k)" "c_mutex (file_caps V junk f k) = 0"
  using attr_caps_wf zero3_props(1,2) by (auto simp: file_caps_def split: sum.split option.split)

lemma cap_set_nsowner_exec: "cap_ready w p c \<Longrightarrow> cap_set_nsowner p r w = Some (0, put_obj p (CapSet (c\<lparr>c_rootid := r\<rparr>)) w)"
  using cap_readyD [of w p c] by (simp add: cap_set_nsowner_def libcap_exec)

lemma cap_get_nsowner_exec: "cap_ready w p c \<Longrightarrow> cap_get_nsowner p w = Some (c_rootid c, w)"
  using cap_readyD [of w p c] by (simp add: cap_get_nsowner_def libcap_exec put_same)

lemma parsed_text:
  assumes "scan_clauses N cmb 2 s zero3 = Some (Some c)"
  shows "wf_cap c" "c_mutex c = 0" "c_rootid c = 0" "h_version (c_head c) = LINUX_CAPABILITY_VERSION_3" "c\<lparr>c_rootid := 0\<rparr> = c"
proof -
  note k = parse_clauses_keeps [OF scan_clauses_parses [OF assms] zero3_props(1)]
  show r: "wf_cap c" "c_mutex c = 0" "c_rootid c = 0" "h_version (c_head c) = LINUX_CAPABILITY_VERSION_3"
    using k by (simp_all add: kept_def zero3_def)
  then show "c\<lparr>c_rootid := 0\<rparr> = c" by (cases c) simp
qed

context capget_abi
begin

lemma arg_caps_exec:
  assumes "wf_world w" "alloc_ok w" "plain_arg arg" "\<not> list_all isspace arg" "want_rootid st = 0"
  shows "arg_caps K N arg st w =
    (case scan_clauses N (max_bits w) 2 arg zero3 of
       None \<Rightarrow> None
     | Some None \<Rightarrow> Some (Inl 1, (bumped w)\<lparr>errno := EINVAL\<rparr>)
     | Some (Some c) \<Rightarrow> Some (Inr (st\<lparr>sc_cap_d := next_ptr w\<rparr>), new_obj (next_ptr w) sizeof_cap_alloc_s (CapSet c) (bumped w)))"
proof (cases "\<exists>c. scan_clauses N (max_bits w) 2 arg zero3 = Some (Some c)")
  case False
  then show ?thesis using assms cap_from_text_run [OF assms(2,1), of N arg]
    by (auto simp: arg_caps_def plain_arg_def split: option.splits)
next
  case True
  then obtain c where Some: "scan_clauses N (max_bits w) 2 arg zero3 = Some (Some c)" by blast
  let ?w = "new_obj (next_ptr w) sizeof_cap_alloc_s (CapSet c) (bumped w)"
  note c = parsed_text [OF Some]
  have "cap_ready ?w (next_ptr w) c" using assms(1) c by (simp add: cap_ready_def wf_new_bumped)
  from cap_set_nsowner_exec [OF this, of 0] c(5)
  have "cap_set_nsowner (next_ptr w) 0 ?w = Some (0, ?w)" by simp
  then show ?thesis
    using Some assms cap_from_text_run [OF assms(2,1), of N arg] by (simp add: arg_caps_def plain_arg_def)
qed

lemma verify_file_exec:
  assumes "cap_ready w p c" "mem_ok w" "sc_cap_d st = p" "d = file_caps V junk f (kern w)"
  shows "\<exists>n e. verify_file K V junk f st w =
     Some (if c_u d = c_u c \<and> want_rootid st = c_rootid d then Inr st else Inl 1, (bumps n w)\<lparr>errno := e\<rparr>)"
proof -
  let ?sz = sizeof_cap_alloc_s
  note p = cap_readyD [OF assms(1)]
  obtain m e where get: "get_or_empty K V junk f w = Some (next_ptr (bumps m w), new_obj (next_ptr (bumps m w)) ?sz (CapSet d) (bumped ((bumps m w)\<lparr>errno := e\<rparr>)))"
  proof (cases "\<exists>b. v_getxattr V f 24 (kern w) = Inr b \<and> attr_caps junk b \<noteq> None")
    case True
    then show ?thesis
      using that [of 0 "errno w"] get_with_exec [OF p(3), of junk "v_getxattr V f"] assms(2)
      by (auto simp: get_or_empty_def cap_get_file_def assms(4) file_caps_def)
  next
    case False
    then have z: "d = zero3" by (auto simp: assms(4) file_caps_def split: sum.split option.split)
    define e where "e = (case v_getxattr V f 24 (kern w) of Inl e \<Rightarrow> e | Inr _ \<Rightarrow> errno w)"
    have "cap_get_file K V junk f w = Some (NULL, (bumps 1 w)\<lparr>errno := e\<rparr>)"
      using False get_with_exec [OF p(3), of junk "v_getxattr V f"] assms(2)
      by (cases "v_getxattr V f 24 (kern w)") (auto simp: cap_get_file_def e_def bumped_def bumps_def)
    then show ?thesis
      using that [of 1 e] cap_init_ok [of "(bumps 1 w)\<lparr>errno := e\<rparr>"] assms(2) z
      by (simp add: get_or_empty_def zero3_def next_ptr_def)
  qed
  let ?u = "(bumps m w)\<lparr>errno := e\<rparr>" and ?q = "next_ptr (bumps m w)"
  let ?w1 = "new_obj ?q ?sz (CapSet d) (bumped ?u)"
  have wfu: "wf_world ?u" "next_ptr ?u = ?q" using p(3) by (simp_all add: next_ptr_def)
  have wd: "wf_cap d" "c_mutex d = 0" using file_caps_wf by (simp_all add: assms(4))
  have ru: "cap_ready ?u p c" using assms(1) by (simp add: cap_ready_def)
  have r1: "cap_ready ?w1 ?q d" "cap_ready ?w1 p c"
    using wf_new_bumped [OF wfu(1), of "CapSet d" ?sz] wfu(2) wd cap_readyD(1,2,7) [OF ru] by (simp_all add: cap_ready_def)
  have cmp: "cap_compare K ?q p ?w1 = Some (compare_loop d c, bumped ?w1)"
    using cap_compare_exec [OF r1] assms(2) by simp
  have own: "cap_get_nsowner ?q (bumped ?w1) = Some (c_rootid d, bumped ?w1)"
    using cap_get_nsowner_exec [of "bumped ?w1" ?q d] r1(1) by (simp add: cap_ready_def wf_bumped)
  have "heap (bumped ?u) ?q = None" using wf_fresh [OF wfu(1)] wfu(2) by simp
  then have "del_obj ?q (bumped ?w1) = (bumps (m + 2) w)\<lparr>errno := e\<rparr>"
    by (simp add: del_obj_def new_obj_def bumped_def bumps_def fun_upd_idem)
  then have "cap_free ?q (bumped ?w1) = Some (0, (bumps (m + 2) w)\<lparr>errno := e\<rparr>)"
    using cap_readyD [OF r1(1)] by (subst cap_free_set [where c = d]) simp_all
  moreover have "compare_loop d c = 0 \<longleftrightarrow> c_u d = c_u c" using compare_loop_eq_0 wd(1) p(4) by blast
  moreover have "st\<lparr>sc_cap_d := p\<rparr> = st" using assms(3) by simp
  ultimately show ?thesis
    using get cmp own cap_readyD(5) [OF r1(1)] assms(3) p(5)
    by (intro exI [of _ "m + 2"] exI [of _ e]) (simp add: verify_file_def)
qed

end

text \<open>Every early exit of the part for one file has the status 1.\<close>

lemma raise_setfcap_exit: "raise_setfcap K q st w = Some (Inl s, u) \<Longrightarrow> s = 1"
  by (auto simp: raise_setfcap_def bind_Some_iff split: if_splits)

lemma set_file_exit: "set_file K V raw q f st w = Some (Inl s, u) \<Longrightarrow> s = 1"
proof -
  assume a: "set_file K V raw q f st w = Some (Inl s, u)"
  then obtain r w1 where r: "raise_setfcap K q st w = Some (r, w1)" by (auto simp: set_file_def bind_Some_iff)
  show ?thesis
  proof (cases r)
    case (Inl t)
    then show ?thesis using a r raise_setfcap_exit [of K q st w t w1] by (simp add: set_file_def)
  next
    case (Inr st1)
    then show ?thesis using a r by (auto simp: set_file_def bind_Some_iff split: if_splits)
  qed
qed

text \<open>The end of a run releases the set of the last file.\<close>

lemma loop_end:
  "cap_ready w p c \<Longrightarrow> sc_cap_d st = p \<Longrightarrow> setcap_loop K V N raw junk q [] st w = Some (0, del_obj p w)"
  using cap_readyD [of w p c] by (simp add: cap_free_set)

context cred_abi
begin


lemma setcap_verify_run:
  assumes "wf_world w" "mem_ok w" "valid (kern w)" "plain_arg arg" "\<not> list_all isspace arg"
    "scan_clauses N (max_bits w) 2 arg zero3 = Some (Some c)" "d = file_caps V junk f (kern w)"
  shows "\<exists>w'. setcap_main K V N raw junk [''-v'', arg, f] sin w =
     Some (if c_u d = c_u c \<and> c_rootid d = 0 then 0 else 1, w') \<and> kern w' = kern w"
proof -
  let ?q = "next_ptr w" and ?sz = sizeof_cap_alloc_s
  let ?w1 = "new_obj ?q ?sz (CapSet (proc_cap (view (kern w)))) (bumped w)"
  let ?p = "next_ptr ?w1"
  let ?w2 = "new_obj ?p ?sz (CapSet c) (bumped ?w1)"
  let ?st = "(setcap_init sin)\<lparr>verify := True, sc_cap_d := ?p\<rparr>"
  note c = parsed_text [OF assms(6)]
  have wf1: "wf_world ?w1" using assms(1) by (simp add: wf_new_bumped)
  have ready: "cap_ready ?w2 ?p c" using wf1 c by (simp add: cap_ready_def wf_new_bumped)
  have get: "cap_get_proc K w = Some (?q, ?w1)" using cap_get_proc_exec [OF assms(3)] assms(2) by simp
  have arg: "arg_caps K N arg ((setcap_init sin)\<lparr>verify := True\<rparr>) ?w1 = Some (Inr ?st, ?w2)"
    using arg_caps_exec [OF wf1 _ assms(4,5), of "(setcap_init sin)\<lparr>verify := True\<rparr>" N] assms(2,6)
    by (simp add: setcap_init_def)
  obtain n e where ver: "verify_file K V junk f ?st ?w2 =
      Some (if c_u d = c_u c \<and> c_rootid d = 0 then Inr ?st else Inl 1, (bumps n ?w2)\<lparr>errno := e\<rparr>)"
    using verify_file_exec [OF ready, of ?st d V junk f] assms(2,7) by (auto simp: setcap_init_def)
  have "cap_ready ((bumps n ?w2)\<lparr>errno := e\<rparr>) ?p c" using ready by (simp add: cap_ready_def)
  note fin = loop_end [OF this, of ?st K V N raw junk ?q]
  have run: "setcap_main K V N raw junk [''-v'', arg, f] sin w = do {
      (r, w) \<leftarrow> verify_file K V junk f ?st ?w2;
      (case r of Inl s \<Rightarrow> Some (s, w) | Inr st \<Rightarrow> setcap_loop K V N raw junk ?q [] st w) }"
    using get arg assms(4)
    by (simp add: setcap_main_def cap_free_NULL plain_arg_def setcap_init_def del: setcap_loop.simps(1))
  show ?thesis
  proof (cases "c_u d = c_u c \<and> c_rootid d = 0")
    case True
    then show ?thesis using run ver fin by (simp del: setcap_loop.simps(1))
  next
    case False
    then show ?thesis using run ver by auto
  qed
qed

end

context cred_abi
begin

lemma raise_setfcap_exec:
  assumes "cap_ready w q (proc_cap (view (kern w)))" "valid (kern w)" "caller_ok K (multithread w) w" "\<not> tried_to_cap_setfcap st"
  shows "\<exists>k e c (r :: int). raise_setfcap K q st w = Some (if r = 0 then Inr (st\<lparr>tried_to_cap_setfcap := True\<rparr>) else Inl 1,
     after k e (put_obj q (CapSet c) w)) \<and> wf_cap c \<and> c_mutex c = 0"
proof -
  let ?c = "set_flag_loop [int CAP_SETFCAP] CAP_EFFECTIVE CAP_SET (proc_cap (view (kern w)))"
  let ?w = "put_obj q (CapSet ?c) w"
  note q = cap_readyD [OF assms(1)]
  have flag: "cap_set_flag q (int CAP_EFFECTIVE) 1 [int CAP_SETFCAP] CAP_SET w = Some (0, ?w)"
    using cap_set_flag_exec [OF assms(1), of 1 "[int CAP_SETFCAP]" 0 CAP_SET] by simp
  have ready: "cap_ready ?w q ?c" using assms(1) q by (simp add: cap_ready_put)
  have "\<exists>r w'. cap_set_proc_sc K (multithread w) q ?w = Some (r, w') \<and> installed ?c ?w r w'"
    using assms by (intro cap_set_proc_exec [OF ready]) auto
  then obtain r w' where s: "cap_set_proc_sc K (multithread w) q ?w = Some (r, w')" "installed ?c ?w r w'" by blast
  obtain k e where "w' = after k e ?w" using installed_frame(6) [OF s(2)] by blast
  then have "raise_setfcap K q st w = Some (if r = 0 then Inr (st\<lparr>tried_to_cap_setfcap := True\<rparr>) else Inl 1, after k e ?w)"
    using flag s(1) assms(4) by (simp add: raise_setfcap_def cap_set_proc_def)
  moreover have "wf_cap ?c" "c_mutex ?c = 0" by simp_all
  ultimately show ?thesis by (intro exI [of _ k] exI [of _ e] exI [of _ ?c] exI [of _ r]) simp
qed

lemma set_file_exec:
  assumes "cap_ready w q (proc_cap (view (kern w)))" "cap_ready w p c" "p \<noteq> q" "valid (kern w)" "caller_ok K (multithread w) w"
    "\<not> tried_to_cap_setfcap st" "\<not> forced st" "sc_cap_d st = p" "path_abi V" "length (vdata raw) = 2" "plain_path f"
    "h_version (c_head c) = LINUX_CAPABILITY_VERSION_3" "set_file K V raw q f st w = Some (Inr st', w')"
  shows "eff_exact c \<and> v_getxattr V f 24 (kern w') = Inr (saved_bytes raw c) \<and> cap_ready w' p c \<and> sc_cap_d st' = p"
proof -
  obtain k e c1 and r :: int where ra: "raise_setfcap K q st w = Some (if r = 0 then Inr (st\<lparr>tried_to_cap_setfcap := True\<rparr>) else Inl 1,
     after k e (put_obj q (CapSet c1) w))" "wf_cap c1" "c_mutex c1 = 0"
    using raise_setfcap_exec [OF assms(1,4-6)] by blast
  let ?w = "after k e (put_obj q (CapSet c1) w)" and ?st = "st\<lparr>tried_to_cap_setfcap := True\<rparr>"
  have r: "r = 0" using assms(13) ra(1) by (auto simp: set_file_def split: if_splits)
  have ready: "cap_ready ?w p c"
    using assms(2,3) ra(2,3) cap_readyD(3) [OF assms(1)] by (simp add: cap_ready_def wf_world_put)
  obtain sb ex e' where chk: "eff_check p 0 0 ?w = Some ((sb, ex), ?w\<lparr>errno := e'\<rparr>)"
    "\<not> (sb \<noteq> 0 \<and> ex) \<Longrightarrow> eff_legal c \<Longrightarrow> eff_exact c"
    using eff_check_accepts [OF ready] by metis
  have ready0: "cap_ready (?w\<lparr>errno := 0\<rparr>) p c" using ready by (rule ready_kern(2))
  have ok: "\<not> (sb \<noteq> 0 \<and> ex)" "cap_set_file V raw f p (?w\<lparr>errno := 0\<rparr>) = Some (0, w')" "st' = ?st"
    using assms(13) ra(1) r chk(1) assms(7,8) cap_readyD(5) [OF assms(2)]
    by (auto simp: set_file_def bind_Some_iff split: if_splits)
  from path_abi.cap_set_file_saved [OF assms(9) ready0 assms(12,10,11) ok(2)]
  obtain e2 where s: "eff_legal c" "v_getxattr V f 24 (kern w') = Inr (saved_bytes raw c)"
    "w' = (?w\<lparr>errno := 0\<rparr>)\<lparr>kern := kern w', errno := e2\<rparr>" by blast
  have "cap_ready w' p c" by (subst s(3)) (intro ready_kern ready0)
  with s ok(1,3) chk(2) assms(8) show ?thesis by simp
qed

text \<open>The worlds after the process's own set, and then that of the text, has been allocated.\<close>

definition with_mine :: "'k world \<Rightarrow> 'k world" where
  "with_mine w = new_obj (next_ptr w) sizeof_cap_alloc_s (CapSet (proc_cap (view (kern w)))) (bumped w)"

definition with_text :: "cap_struct \<Rightarrow> 'k world \<Rightarrow> 'k world" where
  "with_text c w = new_obj (next_ptr (with_mine w)) sizeof_cap_alloc_s (CapSet c) (bumped (with_mine w))"

lemma setcap_set_start:
  assumes "wf_world w" "mem_ok w" "valid (kern w)" "plain_arg arg" "\<not> list_all isspace arg"
  shows "setcap_main K V N raw junk [arg, f] sin w =
    (case scan_clauses N (max_bits w) 2 arg zero3 of
       None \<Rightarrow> None
     | Some None \<Rightarrow> Some (1, (bumped (with_mine w))\<lparr>errno := EINVAL\<rparr>)
     | Some (Some c) \<Rightarrow> do {
         (r, w') \<leftarrow> set_file K V raw (next_ptr w) f ((setcap_init sin)\<lparr>sc_cap_d := next_ptr (with_mine w)\<rparr>) (with_text c w);
         (case r of Inl s \<Rightarrow> Some (s, w') | Inr st \<Rightarrow> setcap_loop K V N raw junk (next_ptr w) [] st w') })"
proof -
  have wf1: "wf_world (with_mine w)" using assms(1) by (simp add: with_mine_def wf_new_bumped)
  have get: "cap_get_proc K w = Some (next_ptr w, with_mine w)"
    using cap_get_proc_exec [OF assms(3)] assms(2) by (simp add: with_mine_def)
  have ok: "alloc_ok (with_mine w)" "max_bits (with_mine w) = max_bits w" using assms(2) by (simp_all add: with_mine_def)
  from arg_caps_exec [OF wf1 ok(1) assms(4,5), of "setcap_init sin" N] get assms(4) ok(2)
  show ?thesis
    by (simp add: setcap_main_def cap_free_NULL plain_arg_def setcap_init_def with_text_def del: setcap_loop.simps(1)
        split: option.split)
qed

lemma with_text_ready:
  assumes "wf_world w" "wf_cap c" "c_mutex c = 0"
  shows "cap_ready (with_text c w) (next_ptr w) (proc_cap (view (kern (with_text c w))))"
    "cap_ready (with_text c w) (next_ptr (with_mine w)) c" "next_ptr (with_mine w) \<noteq> next_ptr w"
    "kern (with_text c w) = kern w" "multithread (with_text c w) = multithread w"
    "caller_ok K sc (with_text c w) = caller_ok K sc w"
proof -
  have wf1: "wf_world (with_mine w)" using assms(1) by (simp add: with_mine_def wf_new_bumped)
  then have wf2: "wf_world (with_text c w)" using assms(2) by (simp add: with_text_def wf_new_bumped)
  show d: "next_ptr (with_mine w) \<noteq> next_ptr w" by (simp add: with_mine_def next_ptr_def)
  then show "cap_ready (with_text c w) (next_ptr w) (proc_cap (view (kern (with_text c w))))"
    "cap_ready (with_text c w) (next_ptr (with_mine w)) c"
    using wf2 assms(2,3) by (simp_all add: cap_ready_def with_text_def with_mine_def)
  show "kern (with_text c w) = kern w" "multithread (with_text c w) = multithread w"
    "caller_ok K sc (with_text c w) = caller_ok K sc w"
    by (simp_all add: with_text_def with_mine_def)
qed

lemma setcap_set_run:
  assumes "wf_world w" "mem_ok w" "valid (kern w)" "caller_ok K (multithread w) w" "plain_arg arg" "\<not> list_all isspace arg"
    "path_abi V" "length (vdata raw) = 2" "plain_path f" "setcap_main K V N raw junk [arg, f] sin w = Some (0, w')"
  shows "\<exists>c. scan_clauses N (max_bits w) 2 arg zero3 = Some (Some c) \<and> eff_exact c \<and> v_getxattr V f 24 (kern w') = Inr (saved_bytes raw c)"
proof -
  let ?q = "next_ptr w" and ?p = "next_ptr (with_mine w)"
  let ?st = "(setcap_init sin)\<lparr>sc_cap_d := ?p\<rparr>"
  note run = assms(10) [unfolded setcap_set_start [OF assms(1-3,5,6)]]
  obtain c where c: "scan_clauses N (max_bits w) 2 arg zero3 = Some (Some c)" using run by (auto split: option.splits)
  let ?w = "with_text c w"
  note pc = parsed_text [OF c] and r = with_text_ready [OF assms(1) parsed_text(1,2) [OF c]]
  obtain r w3 where rw: "set_file K V raw ?q f ?st ?w = Some (r, w3)"
    "(case r of Inl s \<Rightarrow> Some (s, w3) | Inr st \<Rightarrow> setcap_loop K V N raw junk ?q [] st w3) = Some (0, w')"
    using run c by (auto simp: bind_Some_iff simp del: setcap_loop.simps(1))
  then obtain st3 where s: "set_file K V raw ?q f ?st ?w = Some (Inr st3, w3)"
    "setcap_loop K V N raw junk ?q [] st3 w3 = Some (0, w')"
    using set_file_exit [of K V raw ?q f ?st ?w _ w3] by (cases r) auto
  have x: "eff_exact c \<and> v_getxattr V f 24 (kern w3) = Inr (saved_bytes raw c) \<and> cap_ready w3 ?p c \<and> sc_cap_d st3 = ?p"
    using assms(3,4) pc r(4-6) by (intro set_file_exec [OF r(1-3) _ _ _ _ _ assms(7-9) _ s(1)]) (simp_all add: setcap_init_def)
  then have "w' = del_obj ?p w3" using loop_end [of w3 ?p c st3 K V N raw junk ?q] s(2) by simp
  with x c show ?thesis by simp
qed

end

section \<open>Properties\<close>

text \<open>
  When \<^verbatim>\<open>setcap -v\<close> is content with a file, for the set \<open>c\<close> of its text: the attribute can
  be read, is well formed, has no namespace owner and holds the flags of \<open>c\<close>; or there is no such
  attribute, and the text is one of the empty set.
\<close>

definition attr_of :: "'k vfs \<Rightarrow> u8 list \<Rightarrow> string \<Rightarrow> 'k \<Rightarrow> cap_struct option" where
  "attr_of V junk f k = (case v_getxattr V f 24 k of Inl _ \<Rightarrow> None | Inr b \<Rightarrow> attr_caps junk b)"

definition verifies :: "'k vfs \<Rightarrow> u8 list \<Rightarrow> string \<Rightarrow> 'k \<Rightarrow> cap_struct \<Rightarrow> bool" where
  "verifies V junk f k c \<longleftrightarrow>
     (case attr_of V junk f k of
        Some d \<Rightarrow> c_u d = c_u c \<and> c_rootid d = 0
      | None \<Rightarrow> c_u c = [[0, 0, 0], [0, 0, 0]])"

lemma verifies_file_caps:
  "verifies V junk f k c \<longleftrightarrow> c_u (file_caps V junk f k) = c_u c \<and> c_rootid (file_caps V junk f k) = 0"
  by (auto simp: verifies_def attr_of_def file_caps_def zero3_def zero_cap_def split: sum.split option.split)

text \<open>
  C33: \<^verbatim>\<open>setcap -v TEXT FILE\<close> exits with the status 0 in exactly two cases: the file has a
  well-formed capability attribute without a namespace owner whose three flags are those the text
  stands for; or it has no attribute that can be read and understood, and the text stands for the
  empty set.  It exits with the status 1 otherwise, and changes nothing in either case.
\<close>

theorem setcap_verify_spec:
  assumes "cred_abi K view valid" "names_abi N" "wf_world w" "mem_ok w" "valid (kern w)" "plain_arg arg"
    "\<not> list_all isspace arg" "parse_clauses N (max_bits w) 2 arg zero3 = Some c"
  shows "\<exists>w'. setcap_main K V N raw junk [''-v'', arg, f] sin w = Some (if verifies V junk f (kern w) c then 0 else 1, w')
     \<and> kern w' = kern w"
proof -
  have "scan_clauses N (max_bits w) 2 arg zero3 = Some (Some c)" using names_abi.scan_clauses_eq [OF assms(2)] assms(8) by simp
  from cred_abi.setcap_verify_run [OF assms(1,3-7) this refl] show ?thesis unfolding verifies_file_caps .
qed

lemma parse_equal_sign: "parse_clauses linux_names 41 2 ''='' zero3 = Some zero3" by code_simp

lemma scan_equal_sign: "scan_clauses linux_names 41 2 ''='' zero3 = Some (Some zero3)"
  using linux_names.scan_clauses_eq parse_equal_sign by simp

definition setcap_linux :: linux where
  "setcap_linux = plain_linux\<lparr>lk_per := {CAP_SETFCAP}, lk_files := [''prog'' \<mapsto> (0x81A4, None)]\<rparr>"

lemma setcap_valid: "lk_valid setcap_linux"
  by (simp add: setcap_linux_def lk_valid_def wf_creds_def lk_view_def plain_linux_def CAP_SETFCAP_def CAP_SETPCAP_def)

theorem setcap_verify_spec_witness:
  "\<exists>w'. setcap_main linux_kernel linux_vfs linux_names blank_raw [] [''-v'', ''='', ''prog''] [] (machine setcap_linux) = Some (0, w')
     \<and> kern w' = setcap_linux"
proof -
  have "verifies linux_vfs [] ''prog'' setcap_linux zero3"
    by (simp add: verifies_file_caps file_caps_def linux_vfs_def lk_resolve_def lk_getx_def setcap_linux_def zero3_def)
  with setcap_verify_spec [OF linux.cred_abi_axioms linux_names.names_abi_axioms wf_machine mem_ok_machine(1), of setcap_linux "''=''" zero3
      linux_vfs blank_raw "[]" "''prog''" "[]"] setcap_valid parse_equal_sign
  show ?thesis by (simp add: plain_arg_def isspace_def)
qed

text \<open>
  C32: what \<^verbatim>\<open>setcap\<close> sets, \<^verbatim>\<open>setcap -v\<close> confirms: after a run
  \<^verbatim>\<open>setcap TEXT FILE\<close> with the exit status 0, a run \<^verbatim>\<open>setcap -v TEXT FILE\<close> of
  any process exits with the status 0 as long as the attribute of the file has not changed.
\<close>

theorem setcap_roundtrip:
  assumes "cred_abi K view valid" "path_abi V" "wf_world w" "mem_ok w" "valid (kern w)" "caller_ok K (multithread w) w"
    "plain_arg arg" "\<not> list_all isspace arg" "length (vdata raw) = 2" "plain_path f"
    "setcap_main K V N raw junk [arg, f] sin w = Some (0, w')"
    "wf_world u" "mem_ok u" "valid (kern u)" "max_bits u = max_bits w"
    "v_getxattr V f 24 (kern u) = v_getxattr V f 24 (kern w')"
  shows "\<exists>u'. setcap_main K V N raw' junk' [''-v'', arg, f] sin' u = Some (0, u') \<and> kern u' = kern u"
proof -
  obtain c where c: "scan_clauses N (max_bits u) 2 arg zero3 = Some (Some c)" "eff_exact c"
    "v_getxattr V f 24 (kern u) = Inr (saved_bytes raw c)"
    using cred_abi.setcap_set_run [OF assms(1,3-8,2,9-11)] assms(15,16) by auto
  obtain d where d: "attr_caps junk' (saved_bytes raw c) = Some d" "file_image c d" using saved_bytes_load(3) by blast
  then have "file_caps V junk' f (kern u) = d" using c(3) by (simp add: file_caps_def)
  moreover have "c_u d = c_u c" using exact_image [OF c(2) d(2) parsed_text(1) [OF c(1)]] attr_caps_wf [OF d(1)] by simp
  moreover have "c_rootid d = 0" using d(2) parsed_text(3) [OF c(1)] by (simp add: file_image_def)
  ultimately show ?thesis using cred_abi.setcap_verify_run [OF assms(1,12-14,7,8) c(1) refl, of V raw' junk' f sin'] by auto
qed

text \<open>A run that succeeds: a process with \<^verbatim>\<open>CAP_SETFCAP\<close> in its permitted set only.\<close>

lemma lk_set_proc:
  assumes "cap_ready w p c" "c_head c = self_head" "multithread w = libc_caller"
    "lk_capset self_head (map data_of_flat (c_u c)) (kern w) = (0, k)"
  shows "cap_set_proc linux_kernel p w = Some (0, after k (errno w) w)"
  using cap_readyD [OF assms(1)] assms(2-4)
  by (simp add: cap_set_proc_def cap_set_proc_sc_def libcap_exec libcap_capset_def run_sysfn_def libc_caller_def
      libc_def libc_syscall_def linux_kernel_def lk_syscall_def put_same after_def)

lemma lk_capset_raise:
  assumes "lk_valid k" "CAP_SETFCAP \<in> lk_per k" "CAP_SETFCAP < lk_ncaps k"
    "set_of_data d_effective d = insert CAP_SETFCAP (lk_eff k)" "set_of_data d_permitted d = lk_per k"
    "set_of_data d_inheritable d = lk_inh k"
  shows "\<exists>k'. lk_capset self_head d k = (0, k') \<and> CAP_SETFCAP \<in> lk_eff k' \<and> lk_files k' = lk_files k \<and> lk_fds k' = lk_fds k"
proof -
  have "lk_eff k \<subseteq> lk_per k" using assms(1) by (simp add: lk_valid_def wf_creds_def lk_view_def)
  then show ?thesis using assms(2,3) by (auto simp: lk_capset_def Let_def assms(4-6))
qed

lemma lk_raise:
  assumes "lk_valid (kern w)" "CAP_SETFCAP \<in> lk_per (kern w)" "CAP_SETFCAP < lk_ncaps (kern w)"
    "cap_ready w q (proc_cap (lk_view (kern w)))" "multithread w = libc_caller" "\<not> tried_to_cap_setfcap st"
  shows "\<exists>k c. raise_setfcap linux_kernel q st w = Some (Inr (st\<lparr>tried_to_cap_setfcap := True\<rparr>), after k (errno w) (put_obj q (CapSet c) w))
     \<and> CAP_SETFCAP \<in> lk_eff k \<and> lk_files k = lk_files (kern w) \<and> lk_fds k = lk_fds (kern w) \<and> wf_cap c \<and> c_mutex c = 0"
proof -
  let ?c = "set_flag_loop [int CAP_SETFCAP] CAP_EFFECTIVE CAP_SET (proc_cap (lk_view (kern w)))"
  let ?w = "put_obj q (CapSet ?c) w" and ?d = "map data_of_flat (c_u ?c)"
  note q = cap_readyD [OF assms(4)]
  have wf: "wf_creds (lk_view (kern w))" using assms(1) by (simp add: lk_valid_def)
  have sets: "caps_of ?c CAP_EFFECTIVE = insert CAP_SETFCAP (lk_eff (kern w))" "caps_of ?c CAP_PERMITTED = lk_per (kern w)"
    "caps_of ?c CAP_INHERITABLE = lk_inh (kern w)"
    using linux.caps_of_raised [OF wf, of CAP_SETFCAP] unfolding linux.raised_def by (simp_all add: lk_view_def CAP_SETFCAP_def)
  obtain k where k: "lk_capset self_head ?d (kern w) = (0, k)" "CAP_SETFCAP \<in> lk_eff k" "lk_files k = lk_files (kern w)"
    "lk_fds k = lk_fds (kern w)"
    using lk_capset_raise [OF assms(1-3), of ?d] sets set_of_data_cap [of ?c] by auto
  have flag: "cap_set_flag q (int CAP_EFFECTIVE) 1 [int CAP_SETFCAP] CAP_SET w = Some (0, ?w)"
    using cap_set_flag_exec [OF assms(4), of 1 "[int CAP_SETFCAP]" 0 CAP_SET] by simp
  have ready: "cap_ready ?w q ?c" using assms(4) q by (simp add: cap_ready_put)
  have "cap_set_proc linux_kernel q ?w = Some (0, after k (errno w) ?w)"
    using lk_set_proc [OF ready, of k] k(1) assms(5) by simp
  then have "raise_setfcap linux_kernel q st w = Some (Inr (st\<lparr>tried_to_cap_setfcap := True\<rparr>), after k (errno w) ?w)"
    using flag assms(6) by (simp add: raise_setfcap_def)
  moreover have "wf_cap ?c" "c_mutex ?c = 0" by simp_all
  ultimately show ?thesis using k(2-4) by blast
qed

lemma lk_set_file:
  assumes "lk_files (kern w) f = Some (0x81A4, a)" "lk_fds (kern w) = Map.empty" "CAP_SETFCAP \<in> lk_eff (kern w)"
    "cap_ready w p c" "h_version (c_head c) = LINUX_CAPABILITY_VERSION_3" "eff_legal c"
  shows "\<exists>k. cap_set_file linux_vfs blank_raw f p w = Some (0, w\<lparr>kern := k\<rparr>)"
proof -
  let ?k = "(kern w)\<lparr>lk_fds := [3 \<mapsto> f]\<rparr>"
  have o: "v_open linux_vfs f False (kern w) = (3, ?k)"
    using assms(1,2) by (simp add: linux_vfs_def lk_open_def S_ISLNK_def bit_iff_odd)
  have st: "v_fstat linux_vfs 3 (kern (w\<lparr>kern := ?k\<rparr>)) = Inr 0x81A4" using assms(1) by (simp add: linux_vfs_def)
  have "\<exists>k2. cap_set_fd linux_vfs blank_raw 3 p (w\<lparr>kern := ?k\<rparr>) = Some (0, w\<lparr>kern := k2\<rparr>)"
    using cap_set_fd_exec [OF ready_kern(1) [OF assms(4)] assms(5) _ st file_stat(2), of blank_raw] assms(1,3,6)
    by (auto simp: blank_raw_def kcall_def libc_ret_def linux_vfs_def lk_setx_def)
  then show ?thesis using o by (auto simp: cap_set_file_def kcall_def libc_ret_def v_close_w_def)
qed

lemma setcap_demo_run:
  "\<exists>w'. setcap_main linux_kernel linux_vfs linux_names blank_raw [] [''='', ''prog''] [] (machine setcap_linux) = Some (0, w')"
proof -
  let ?w = "linux.with_text zero3 (machine setcap_linux)" and ?p = "next_ptr (linux.with_mine (machine setcap_linux))"
  let ?st = "(setcap_init [])\<lparr>sc_cap_d := ?p\<rparr>"
  have z: "\<not> isset_cap zero3 x s" if "x < 64" "s < 3" for x s using that by (simp add: zero3_def)
  note r = linux.with_text_ready [OF wf_machine [of setcap_linux] zero3_props(1,2)]
  have wk: "kern ?w = setcap_linux" "multithread ?w = libc_caller" using r(4,5) by (simp_all add: machine_def)
  have per: "CAP_SETFCAP \<in> lk_per (kern ?w)" "CAP_SETFCAP < lk_ncaps (kern ?w)"
    using wk(1) by (simp_all add: setcap_linux_def plain_linux_def CAP_SETFCAP_def)
  obtain k c where k: "raise_setfcap linux_kernel (next_ptr (machine setcap_linux)) ?st ?w =
      Some (Inr (?st\<lparr>tried_to_cap_setfcap := True\<rparr>), after k (errno ?w) (put_obj (next_ptr (machine setcap_linux)) (CapSet c) ?w))"
    "CAP_SETFCAP \<in> lk_eff k" "lk_files k = lk_files setcap_linux" "lk_fds k = lk_fds setcap_linux" "wf_cap c" "c_mutex c = 0"
    using lk_raise [OF _ per r(1) wk(2), of ?st] setcap_valid wk by (auto simp: setcap_init_def)
  let ?w1 = "after k (errno ?w) (put_obj (next_ptr (machine setcap_linux)) (CapSet c) ?w)"
  have ready: "cap_ready ?w1 ?p zero3"
    using r(2,3) k(5,6) cap_readyD(3) [OF r(1)] by (simp add: cap_ready_def wf_world_put)
  obtain sb ex e where chk: "eff_check ?p (int 0) 0 ?w1 = Some ((sb, ex), ?w1\<lparr>errno := e\<rparr>)" "eff_found zero3 0 sb ex"
    using eff_check_exec [OF ready, of 0 0] by blast
  have "\<not> ex" using chk(2) z by (auto simp: eff_found_def)
  have ready0: "cap_ready (?w1\<lparr>errno := 0\<rparr>) ?p zero3" using ready by (rule ready_kern(2))
  have "eff_legal zero3" using z by (auto simp: eff_legal_def)
  then obtain k2 where "cap_set_file linux_vfs blank_raw ''prog'' ?p (?w1\<lparr>errno := 0\<rparr>) = Some (0, ?w1\<lparr>errno := 0, kern := k2\<rparr>)"
    using lk_set_file [OF _ _ _ ready0, of "''prog''" None] k(2-4) by (auto simp: setcap_linux_def plain_linux_def zero3_def)
  then have "set_file linux_kernel linux_vfs blank_raw (next_ptr (machine setcap_linux)) ''prog'' ?st ?w =
      Some (Inr (?st\<lparr>tried_to_cap_setfcap := True\<rparr>), ?w1\<lparr>errno := 0, kern := k2\<rparr>)"
    using k(1) chk(1) \<open>\<not> ex\<close> by (simp add: set_file_def)
  moreover have "cap_ready (?w1\<lparr>errno := 0, kern := k2\<rparr>) ?p zero3" using ready0 by (rule ready_kern(1))
  ultimately show ?thesis
    using linux.setcap_set_start [OF wf_machine mem_ok_machine(1), of setcap_linux "''=''" linux_vfs linux_names blank_raw "[]" "''prog''" "[]"]
      setcap_valid scan_equal_sign loop_end [of "?w1\<lparr>errno := 0, kern := k2\<rparr>" ?p zero3 "?st\<lparr>tried_to_cap_setfcap := True\<rparr>"]
    by (simp add: plain_arg_def isspace_def del: setcap_loop.simps(1))
qed

theorem setcap_roundtrip_witness:
  "\<exists>w' u'. setcap_main linux_kernel linux_vfs linux_names blank_raw [] [''='', ''prog''] [] (machine setcap_linux) = Some (0, w')
     \<and> setcap_main linux_kernel linux_vfs linux_names blank_raw [] [''-v'', ''='', ''prog''] []
         (machine (setcap_linux\<lparr>lk_files := lk_files (kern w')\<rparr>)) = Some (0, u')"
proof -
  obtain w' where w': "setcap_main linux_kernel linux_vfs linux_names blank_raw [] [''='', ''prog''] [] (machine setcap_linux) = Some (0, w')"
    using setcap_demo_run by blast
  let ?u = "setcap_linux\<lparr>lk_files := lk_files (kern w')\<rparr>"
  have v: "lk_valid ?u" using setcap_valid by (simp add: lk_valid_def lk_view_def)
  have g: "v_getxattr linux_vfs ''prog'' 24 ?u = v_getxattr linux_vfs ''prog'' 24 (kern w')"
    by (simp add: linux_vfs_def lk_getx_def lk_resolve_def)
  from setcap_roundtrip [OF linux.cred_abi_axioms linux_paths.path_abi_axioms wf_machine mem_ok_machine(1) _ caller_ok_machine(1) _ _ _ _ w'
      wf_machine mem_ok_machine(1), of ?u blank_raw "[]" "[]"] g v setcap_valid
  show ?thesis using w' by (auto simp: plain_arg_def isspace_def blank_raw_def plain_path_def)
qed

end
