(* ===== verification/Capsh_Doc.thy ===== *)
theory Capsh_Doc
  imports Libcap_Prelude
begin

text \<open>
  \<^verbatim>\<open>progs/capshdoc.c\<close>: the table of explanations that \<^verbatim>\<open>capsh --explain\<close> and
  \<^verbatim>\<open>capsh --suggest\<close> read.  The NULL at the end of an array is the end of the list.
\<close>

section \<open>Explanations\<close>

definition explanation0 :: "string list" where
  \<open>explanation0 =
  [''Allows a process to arbitrarily change the user and'',
   ''group ownership of a file.'']\<close>

definition explanation1 :: "string list" where
  \<open>explanation1 =
  [''Allows a process to override of all Discretionary'',
   ''Access Control (DAC) access, including ACL execute'',
   ''access. That is read, write or execute files that the'',
   ''process would otherwise not have access to. This'',
   ''excludes DAC access covered by CAP_LINUX_IMMUTABLE.'']\<close>

definition explanation2 :: "string list" where
  \<open>explanation2 =
  [''Allows a process to override all DAC restrictions'',
   ''limiting the read and search of files and'',
   ''directories. This excludes DAC access covered by'',
   ''CAP_LINUX_IMMUTABLE.'']\<close>

definition explanation3 :: "string list" where
  \<open>explanation3 =
  [''Allows a process to perform operations on files, even'',
   ''where file owner ID should otherwise need be equal to'',
   ''the UID, except where CAP_FSETID is applicable. It'',
   ''doesn't override MAC and DAC restrictions.'',
   '''',
   ''This capability permits the deletion of a file owned'',
   ''by another UID in a directory protected by the sticky'',
   ''(t) bit.'']\<close>

definition explanation4 :: "string list" where
  \<open>explanation4 =
  [''Allows a process to set the S_ISUID and S_ISUID bits of'',
   ''the file permissions, even when the process' effective'',
   ''UID or GID/supplementary GIDs do not match that of the'',
   ''file.'']\<close>

definition explanation5 :: "string list" where
  \<open>explanation5 =
  [''Allows a process to send a kill(2) signal to any other'',
   ''process - overriding the limitation that there be a'',
   ''[E]UID match between source and target process.'']\<close>

definition explanation6 :: "string list" where
  \<open>explanation6 =
  [''Allows a process to freely manipulate its own GIDs:'',
   ''  - arbitrarily set the GID, EGID, REGID, RESGID values'',
   ''  - arbitrarily set the supplementary GIDs'',
   ''  - allows the forging of GID credentials passed over a'',
   ''    socket'']\<close>

definition explanation7 :: "string list" where
  \<open>explanation7 =
  [''Allows a process to freely manipulate its own UIDs:'',
   ''  - arbitrarily set the UID, EUID, REUID and RESUID'',
   ''    values'',
   ''  - allows the forging of UID credentials passed over a'',
   ''    socket'']\<close>

definition explanation8 :: "string list" where
  \<open>explanation8 =
  [''Allows a process to freely manipulate its inheritable'',
   ''capabilities.'',
   '''',
   ''Linux supports the POSIX.1e Inheritable set, the POXIX.1e (X'',
   ''vector) known in Linux as the Bounding vector, as well as'',
   ''the Linux extension Ambient vector.'',
   '''',
   ''This capability permits dropping bits from the Bounding'',
   ''vector (ie. raising B bits in the libcap IAB'',
   ''representation). It also permits the process to raise'',
   ''Ambient vector bits that are both raised in the Permitted'',
   ''and Inheritable sets of the process. This capability cannot'',
   ''be used to raise Permitted bits, Effective bits beyond those'',
   ''already present in the process' permitted set, or'',
   ''Inheritable bits beyond those present in the Bounding'',
   ''vector.'',
   '''',
   ''[Historical note: prior to the advent of file capabilities'',
   ''(2008), this capability was suppressed by default, as its'',
   ''unsuppressed behavior was not auditable: it could'',
   ''asynchronously grant its own Permitted capabilities to and'',
   ''remove capabilities from other processes arbitrarily. The'',
   ''former leads to undefined behavior, and the latter is better'',
   ''served by the kill system call.]'']\<close>

definition explanation9 :: "string list" where
  \<open>explanation9 =
  [''Allows a process to modify the S_IMMUTABLE and'',
   ''S_APPEND file attributes.'']\<close>

definition explanation10 :: "string list" where
  \<open>explanation10 =
  [''Allows a process to bind to privileged ports:'',
   ''  - TCP/UDP sockets below 1024'',
   ''  - ATM VCIs below 32'']\<close>

definition explanation11 :: "string list" where
  \<open>explanation11 =
  [''Allows a process to broadcast to the network and to'',
   ''listen to multicast.'']\<close>

definition explanation12 :: "string list" where
  \<open>explanation12 =
  [''Allows a process to perform network configuration'',
   ''operations:'',
   ''  - interface configuration'',
   ''  - administration of IP firewall, masquerading and'',
   ''    accounting'',
   ''  - setting debug options on sockets'',
   ''  - modification of routing tables'',
   ''  - setting arbitrary process, and process group'',
   ''    ownership on sockets'',
   ''  - binding to any address for transparent proxying'',
   ''    (this is also allowed via CAP_NET_RAW)'',
   ''  - setting TOS (Type of service)'',
   ''  - setting promiscuous mode'',
   ''  - clearing driver statistics'',
   ''  - multicasing'',
   ''  - read/write of device-specific registers'',
   ''  - activation of ATM control sockets'']\<close>

definition explanation13 :: "string list" where
  \<open>explanation13 =
  [''Allows a process to use raw networking:'',
   ''  - RAW sockets'',
   ''  - PACKET sockets'',
   ''  - binding to any address for transparent proxying'',
   ''    (also permitted via CAP_NET_ADMIN)'']\<close>

definition explanation14 :: "string list" where
  \<open>explanation14 =
  [''Allows a process to lock shared memory segments for IPC'',
   ''purposes.  Also enables mlock and mlockall system'',
   ''calls.'']\<close>

definition explanation15 :: "string list" where
  \<open>explanation15 =
  [''Allows a process to override IPC ownership checks.'']\<close>

definition explanation16 :: "string list" where
  \<open>explanation16 =
  [''Allows a process to initiate the loading and unloading'',
   ''of kernel modules. This capability can effectively'',
   ''modify kernel without limit.'']\<close>

definition explanation17 :: "string list" where
  \<open>explanation17 =
  [''Allows a process to perform raw IO:'',
   ''  - permit ioper/iopl access'',
   ''  - permit sending USB messages to any device via'',
   ''    /dev/bus/usb'']\<close>

definition explanation18 :: "string list" where
  \<open>explanation18 =
  [''Allows a process to perform a chroot syscall to change'',
   ''the effective root of the process' file system:'',
   ''redirect to directory "/" to some other location.'']\<close>

definition explanation19 :: "string list" where
  \<open>explanation19 =
  [''Allows a process to perform a ptrace() of any other'',
   ''process.'']\<close>

definition explanation20 :: "string list" where
  \<open>explanation20 =
  [''Allows a process to configure process accounting.'']\<close>

definition explanation21 :: "string list" where
  \<open>explanation21 =
  [''Allows a process to perform a somewhat arbitrary'',
   ''grab-bag of privileged operations. Over time, this'',
   ''capability should weaken as specific capabilities are'',
   ''created for subsets of CAP_SYS_ADMINs functionality:'',
   ''  - configuration of the secure attention key'',
   ''  - administration of the random device'',
   ''  - examination and configuration of disk quotas'',
   ''  - setting the domainname'',
   ''  - setting the hostname'',
   ''  - calling bdflush()'',
   ''  - mount() and umount(), setting up new SMB connection'',
   ''  - some autofs root ioctls'',
   ''  - nfsservctl'',
   ''  - VM86_REQUEST_IRQ'',
   ''  - to read/write pci config on alpha'',
   ''  - irix_prctl on mips (setstacksize)'',
   ''  - flushing all cache on m68k (sys_cacheflush)'',
   ''  - removing semaphores'',
   ''  - Used instead of CAP_CHOWN to "chown" IPC message'',
   ''    queues, semaphores and shared memory'',
   ''  - locking/unlocking of shared memory segment'',
   ''  - turning swap on/off'',
   ''  - forged pids on socket credentials passing'',
   ''  - setting readahead and flushing buffers on block'',
   ''    devices'',
   ''  - setting geometry in floppy driver'',
   ''  - turning DMA on/off in xd driver'',
   ''  - administration of md devices (mostly the above, but'',
   ''    some extra ioctls)'',
   ''  - tuning the ide driver'',
   ''  - access to the nvram device'',
   ''  - administration of apm_bios, serial and bttv (TV)'',
   ''    device'',
   ''  - manufacturer commands in isdn CAPI support driver'',
   ''  - reading non-standardized portions of PCI'',
   ''    configuration space'',
   ''  - DDI debug ioctl on sbpcd driver'',
   ''  - setting up serial ports'',
   ''  - sending raw qic-117 commands'',
   ''  - enabling/disabling tagged queuing on SCSI'',
   ''    controllers and sending arbitrary SCSI commands'',
   ''  - setting encryption key on loopback filesystem'',
   ''  - setting zone reclaim policy'']\<close>

definition explanation22 :: "string list" where
  \<open>explanation22 =
  [''Allows a process to initiate a reboot of the system.'']\<close>

definition explanation23 :: "string list" where
  \<open>explanation23 =
  [''Allows a process to maipulate the execution priorities'',
   ''of arbitrary processes:'',
   ''  - those involving different UIDs'',
   ''  - setting their CPU affinity'',
   ''  - alter the FIFO vs. round-robin (realtime)'',
   ''    scheduling for itself and other processes.'']\<close>

definition explanation24 :: "string list" where
  \<open>explanation24 =
  [''Allows a process to adjust resource related parameters'',
   ''of processes and the system:'',
   ''  - set and override resource limits'',
   ''  - override quota limits'',
   ''  - override the reserved space on ext2 filesystem'',
   ''    (this can also be achieved via CAP_FSETID)'',
   ''  - modify the data journaling mode on ext3 filesystem,'',
   ''    which uses journaling resources'',
   ''  - override size restrictions on IPC message queues'',
   ''  - configure more than 64Hz interrupts from the'',
   ''    real-time clock'',
   ''  - override the maximum number of consoles for console'',
   ''    allocation'',
   ''  - override the maximum number of keymaps'']\<close>

definition explanation25 :: "string list" where
  \<open>explanation25 =
  [''Allows a process to perform time manipulation of clocks:'',
   ''  - alter the system clock'',
   ''  - enable irix_stime on MIPS'',
   ''  - set the real-time clock'']\<close>

definition explanation26 :: "string list" where
  \<open>explanation26 =
  [''Allows a process to manipulate tty devices:'',
   ''  - configure tty devices'',
   ''  - perform vhangup() of a tty'']\<close>

definition explanation27 :: "string list" where
  \<open>explanation27 =
  [''Allows a process to perform privileged operations with'',
   ''the mknod() system call.'']\<close>

definition explanation28 :: "string list" where
  \<open>explanation28 =
  [''Allows a process to take leases on files.'']\<close>

definition explanation29 :: "string list" where
  \<open>explanation29 =
  [''Allows a process to write to the audit log via a'',
   ''unicast netlink socket.'']\<close>

definition explanation30 :: "string list" where
  \<open>explanation30 =
  [''Allows a process to configure audit logging via a'',
   ''unicast netlink socket.'']\<close>

definition explanation31 :: "string list" where
  \<open>explanation31 =
  [''Allows a process to set capabilities on files.'',
   ''Permits a process to uid_map the uid=0 of the'',
   ''parent user namespace into that of the child'',
   ''namespace. Also, permits a process to override'',
   ''securebits locks through user namespace'',
   ''creation.'']\<close>

definition explanation32 :: "string list" where
  \<open>explanation32 =
  [''Allows a process to override Manditory Access Control'',
   ''(MAC) access. Not all kernels are configured with a MAC'',
   ''mechanism, but this is the capability reserved for'',
   ''overriding them.'']\<close>

definition explanation33 :: "string list" where
  \<open>explanation33 =
  [''Allows a process to configure the Mandatory Access'',
   ''Control (MAC) policy. Not all kernels are configured'',
   ''with a MAC enabled, but if they are this capability is'',
   ''reserved for code to perform administration tasks.'']\<close>

definition explanation34 :: "string list" where
  \<open>explanation34 =
  [''Allows a process to configure the kernel's syslog'',
   ''(printk) behavior.'']\<close>

definition explanation35 :: "string list" where
  \<open>explanation35 =
  [''Allows a process to trigger something that can wake the'',
   ''system up.'']\<close>

definition explanation36 :: "string list" where
  \<open>explanation36 =
  [''Allows a process to block system suspends - prevent the'',
   ''system from entering a lower power state.'']\<close>

definition explanation37 :: "string list" where
  \<open>explanation37 =
  [''Allows a process to read the audit log via a multicast'',
   ''netlink socket.'']\<close>

definition explanation38 :: "string list" where
  \<open>explanation38 =
  [''Allows a process to enable observability of privileged'',
   ''operations related to performance. The mechanisms'',
   ''include perf_events, i915_perf and other kernel'',
   ''subsystems.'']\<close>

definition explanation39 :: "string list" where
  \<open>explanation39 =
  [''Allows a process to manipulate aspects of the kernel'',
   ''enhanced Berkeley Packet Filter (BPF) system. This is'',
   ''an execution subsystem of the kernel, that manages BPF'',
   ''programs. CAP_BPF permits a process to:'',
   ''  - create all types of BPF maps'',
   ''  - advanced verifier features:'',
   ''    - indirect variable access'',
   ''    - bounded loops'',
   ''    - BPF to BPF function calls'',
   ''    - scalar precision tracking'',
   ''    - larger complexity limits'',
   ''    - dead code elimination'',
   ''    - potentially other features'',
   '''',
   ''Other capabilities can be used together with CAP_BFP to'',
   ''further manipulate the BPF system:'',
   ''  - CAP_PERFMON relaxes the verifier checks as follows:'',
   ''    - BPF programs can use pointer-to-integer'',
   ''      conversions'',
   ''    - speculation attack hardening measures can be'',
   ''      bypassed'',
   ''    - bpf_probe_read to read arbitrary kernel memory is'',
   ''      permitted'',
   ''    - bpf_trace_printk to print the content of kernel'',
   ''      memory'',
   ''  - CAP_SYS_ADMIN permits the following:'',
   ''    - use of bpf_probe_write_user'',
   ''    - iteration over the system-wide loaded programs,'',
   ''      maps, links BTFs and convert their IDs to file'',
   ''      descriptors.'',
   ''  - CAP_PERFMON is required to load tracing programs.'',
   ''  - CAP_NET_ADMIN is required to load networking'',
   ''    programs.'']\<close>

definition explanation40 :: "string list" where
  \<open>explanation40 =
  [''Allows a process to perform checkpoint'',
   ''and restore operations. Also permits'',
   ''explicit PID control via clone3() and'',
   ''also writing to ns_last_pid.'']\<close>

definition explanations :: "string list list" where
  "explanations =
  [explanation0, explanation1, explanation2, explanation3, explanation4,
   explanation5, explanation6, explanation7, explanation8, explanation9,
   explanation10, explanation11, explanation12, explanation13, explanation14,
   explanation15, explanation16, explanation17, explanation18, explanation19,
   explanation20, explanation21, explanation22, explanation23, explanation24,
   explanation25, explanation26, explanation27, explanation28, explanation29,
   explanation30, explanation31, explanation32, explanation33, explanation34,
   explanation35, explanation36, explanation37, explanation38, explanation39,
   explanation40]"

definition capsh_doc_limit :: nat where "capsh_doc_limit = 41"

text \<open>The two agree, and no entry is empty.\<close>

lemma explanations_table: "length explanations = capsh_doc_limit" "[] \<notin> set explanations"
proof -
  show "length explanations = capsh_doc_limit" by (simp add: explanations_def capsh_doc_limit_def)
  show "[] \<notin> set explanations" by code_simp
qed

end
