(* ===== verification/Prog_Capsh.thy ===== *)
theory Prog_Capsh
  imports Cap_Launch Cap_Iab_Text Cap_File Cap_Mode Capsh_Doc
begin

text \<open>
  \<^verbatim>\<open>progs/capsh.c\<close>: the program that changes, tests and shows the capability state of a
  process and runs a shell with it.

  A run is a function of the command line and of the world.  An option either goes on with the next
  one (\<open>Inr\<close>), or ends the program (\<open>Inl\<close>) by \<^verbatim>\<open>exit\<close> or by a successful
  \<^verbatim>\<open>execve\<close>.  What is printed on standard output by an option that goes on is kept in the
  state; the texts of errors are left out.  The user database, the limits of \<^verbatim>\<open>sysconf\<close>,
  the environment and the process-level calls are parameters, the fields of \<open>'k host\<close> and of
  the launcher's \<open>'k procs\<close>.  As in the library, a C allocation is a step of
  \<^verbatim>\<open>calloc\<close>.
\<close>

section \<open>Numbers\<close>

definition MAX_GROUPS :: nat where "MAX_GROUPS = 100"

definition nonneg_uint :: "string \<Rightarrow> nat option" where
  "nonneg_uint text =
     (if length text = 0 \<or> deref text = CHR ''-'' then None
      else
        (let (v, remains, _) = strtoul text 0 in
         if deref remains \<noteq> NUL \<or> v \<noteq> v mod 2 ^ 32 then None else Some v))"

definition hex_ull :: "string \<Rightarrow> nat option" where
  "hex_ull text =
     (if deref text = NUL \<or> deref text = CHR ''-'' then None
      else
        (let (v, remains, overflow) = strtoul text 16 in
         if deref remains \<noteq> NUL \<or> overflow then None else Some v))"

text \<open>The buffer of \<^verbatim>\<open>binary\<close> has room for 64 digits; \<open>i\<close> is the index the loop is at.\<close>

fun binary_loop :: "nat \<Rightarrow> nat \<Rightarrow> string \<Rightarrow> string" where
  "binary_loop 0 v acc = acc"
| "binary_loop (Suc i) v acc =
     (let acc = (if odd v then CHR ''1'' else CHR ''0'') # acc;
          v = v div 2
      in if i > 0 \<and> v \<noteq> 0 then binary_loop i v acc else acc)"

definition binary :: "nat \<Rightarrow> string" where
  "binary v = binary_loop 64 v []"

section \<open>The program's surroundings\<close>

datatype capsh_end = Exit int | Exec string "string list" "string list"

record capsh_state =
  cs_child :: int
  cs_strict :: bool
  cs_quiet :: bool
  cs_noenv :: bool
  cs_shell :: string
  cs_setenv :: "(string \<times> string) list"
  cs_out :: string

record 'k host =
  h_getpwnam :: "string \<Rightarrow> (u32 \<times> u32 \<times> string) option"
  h_getpwuid :: "u32 \<Rightarrow> string option"
  h_getgrnam :: "string \<Rightarrow> u32 option"
  h_getgrgid :: "u32 \<Rightarrow> string option"
  h_getgrouplist :: "string \<Rightarrow> u32 \<Rightarrow> u32 list"
  h_gr_size_max :: int
  h_ngroups_max :: int
  h_path :: "string option"
  h_access :: "string \<Rightarrow> 'k \<Rightarrow> bool"
  h_getuid :: "'k \<Rightarrow> u32"
  h_geteuid :: "'k \<Rightarrow> u32"
  h_getgid :: "'k \<Rightarrow> u32"
  h_getgroups :: "'k \<Rightarrow> u32 list"
  h_setenv :: "string \<Rightarrow> string \<Rightarrow> int"
  h_fork :: "'k \<Rightarrow> int \<times> 'k"
  h_kill :: "int \<Rightarrow> nat \<Rightarrow> 'k \<Rightarrow> int \<times> 'k"
  h_waitpid :: "int \<Rightarrow> 'k \<Rightarrow> (int \<times> nat) \<times> 'k"

type_synonym ('a, 'k) run = "((capsh_end + 'a) \<times> 'k world) option"

definition exit_with :: "int \<Rightarrow> 'k world \<Rightarrow> ('a, 'k) run" where
  "exit_with s w = Some (Inl (Exit s), w)"

definition andthen :: "('a, 'k) run \<Rightarrow> ('a \<Rightarrow> 'k world \<Rightarrow> ('b, 'k) run) \<Rightarrow> ('b, 'k) run" where
  "andthen m f = do {
     (r, w) \<leftarrow> m;
     (case r of Inl e \<Rightarrow> Some (Inl e, w) | Inr a \<Rightarrow> f a w) }"

section \<open>Printing\<close>

definition WIFEXITED :: "nat \<Rightarrow> bool" where "WIFEXITED s \<longleftrightarrow> s AND 0x7f = 0"
definition WEXITSTATUS :: "nat \<Rightarrow> nat" where "WEXITSTATUS s = (s div 256) AND 0xff"
definition WTERMSIG :: "nat \<Rightarrow> nat" where "WTERMSIG s = s AND 0x7f"

text \<open>A name for a capability: what \<^verbatim>\<open>cap_to_name\<close> returns, or else its number.\<close>

definition name_or_number :: "names_h \<Rightarrow> nat \<Rightarrow> 'k world \<Rightarrow> (string \<times> 'k world) option" where
  "name_or_number N cap w =
     (let (ptr, w) = cap_to_name N (int cap) w in
      if ptr = NULL then Some (show_nat cap, w)
      else do {
        s \<leftarrow> get_str ptr w;
        (_, w) \<leftarrow> cap_free ptr w;
        Some (s, w) })"

partial_function (option) prctl_set_loop ::
  "names_h \<Rightarrow> (int \<Rightarrow> 'k world \<Rightarrow> int \<times> 'k world) \<Rightarrow> nat \<Rightarrow> string \<Rightarrow> string \<Rightarrow> 'k world \<Rightarrow> ((nat \<times> string) \<times> 'k world) option" where
  "prctl_set_loop N fn cap sep out w =
     (let (set, w) = fn (int cap) w in
      if set < 0 then Some ((cap, out), w)
      else if set = 0 then prctl_set_loop N fn (cap + 1) sep out w
      else do {
        (s, w) \<leftarrow> name_or_number N cap w;
        prctl_set_loop N fn (cap + 1) '','' (out @ sep @ s) w })"

definition newline :: string where "newline = [CHR 0x0A]"

definition display_prctl_set ::
  "names_h \<Rightarrow> string \<Rightarrow> (int \<Rightarrow> 'k world \<Rightarrow> int \<times> 'k world) \<Rightarrow> 'k world \<Rightarrow> (string \<times> 'k world) option" where
  "display_prctl_set N nm fn w = do {
     ((cap, out), w) \<leftarrow> prctl_set_loop N fn 0 [] (nm @ '' set ='') w;
     Some (out @ (if cap = 0 then '' <unsupported>'' else []) @ newline, w) }"

definition display_current :: "'k kernel \<Rightarrow> names_h \<Rightarrow> 'k world \<Rightarrow> (string, 'k) run" where
  "display_current K N w = do {
     (all, w) \<leftarrow> cap_get_proc K w;
     if all = NULL then exit_with 1 w
     else do {
       ((text, _), w) \<leftarrow> cap_to_text N all w;
       s \<leftarrow> get_str text w;
       (_, w) \<leftarrow> cap_free text w;
       (_, w) \<leftarrow> cap_free all w;
       Some (Inr (''Current: '' @ s @ newline), w) } }"

definition display_current_iab :: "'k kernel \<Rightarrow> names_h \<Rightarrow> 'k world \<Rightarrow> (string, 'k) run" where
  "display_current_iab K N w = do {
     (iab, w) \<leftarrow> cap_iab_get_proc K w;
     if iab = NULL then exit_with 1 w
     else do {
       (text, w) \<leftarrow> cap_iab_to_text N iab w;
       if text = NULL then do {
         (_, w) \<leftarrow> cap_free iab w;
         exit_with 1 w }
       else do {
         s \<leftarrow> get_str text w;
         (_, w) \<leftarrow> cap_free text w;
         (_, w) \<leftarrow> cap_free iab w;
         Some (Inr (''Current IAB: '' @ s @ newline), w) } } }"

definition show_int :: "int \<Rightarrow> string" where
  "show_int x = (if x < 0 then CHR ''-'' # show_nat (nat (- x)) else show_nat (nat x))"

text \<open>One line of the securebits: the bit and its lock.\<close>

definition secbit_line :: "string \<Rightarrow> nat \<Rightarrow> nat \<Rightarrow> string" where
  "secbit_line nm b bits = '' secure-'' @ nm @ '': '' @ (if bit bits b then ''yes'' else ''no'') @ '' ('' @
     (if bit bits (Suc b) then ''locked'' else ''unlocked'') @ '')'' @ newline"

definition print_secbits :: "'k kernel \<Rightarrow> 'k world \<Rightarrow> string \<times> 'k world" where
  "print_secbits K w =
     (let (bits, w) = cap_get_secbits K w;
          set = uint bits
      in if set \<ge> 0 then
           (let n = nat set;
                b = binary n;
                (nnp, w) = prctl K 39 0 0 0 0 0 w;
                (amb, w) = CAP_AMBIENT_SUPPORTED K w
            in (''Securebits: 0'' @ show_base 8 n @ ''/0x'' @ show_base 16 n @ ''/'' @ show_nat (length b) @ [CHR 0x27, CHR ''b''] @ b
                  @ '' (no-new-privs='' @ show_int nnp @ '')'' @ newline
                  @ secbit_line ''noroot'' 0 n @ secbit_line ''no-suid-fixup'' 2 n @ secbit_line ''keep-caps'' 4 n
                  @ (if amb then secbit_line ''no-ambient-raise'' 6 n else []), w))
         else
           (let (set, w) = prctl K PR_GET_KEEPCAPS 0 0 0 0 0 w in
            (''[Securebits ABI not supported]'' @ newline @
             (if set \<ge> 0 then '' prctl-keep-caps: '' @ (if set \<noteq> 0 then ''yes'' else ''no'') @ '' (locking not supported)''
              else ''[Keepcaps ABI not supported]'') @ newline, w)))"

definition or_unknown :: "string option \<Rightarrow> string" where
  "or_unknown nm = (case nm of None \<Rightarrow> ''???'' | Some s \<Rightarrow> s)"

definition print_id :: "string \<Rightarrow> u32 \<Rightarrow> string option \<Rightarrow> string" where
  "print_id what x nm = what @ show_nat (unat x) @ ''('' @ or_unknown nm @ '')''"

fun print_groups :: "'k host \<Rightarrow> string \<Rightarrow> u32 list \<Rightarrow> string" where
  "print_groups H sep [] = []"
| "print_groups H sep (g # gs) = print_id sep g (h_getgrgid H g) @ print_groups H '','' gs"

definition print_ids :: "'k host \<Rightarrow> 'k \<Rightarrow> string" where
  "print_ids H k =
     (let uid = h_getuid H k;
          euid = h_geteuid H k;
          gid = h_getgid H k;
          groups = h_getgroups H k
      in print_id ''uid='' uid (h_getpwuid H uid) @ print_id '' euid='' euid (h_getpwuid H euid) @ newline
         @ print_id ''gid='' gid (h_getgrgid H gid) @ newline
         @ ''groups='' @ (if length groups \<le> MAX_GROUPS then print_groups H [] groups else []) @ newline)"

definition arg_print :: "'k kernel \<Rightarrow> 'k host \<Rightarrow> names_h \<Rightarrow> 'k world \<Rightarrow> (string, 'k) run" where
  "arg_print K H N w =
     andthen (display_current K N w) (\<lambda>o1 w. do {
       (o2, w) \<leftarrow> display_prctl_set N ''Bounding'' (cap_get_bound K) w;
       (o3, w) \<leftarrow> display_prctl_set N ''Ambient'' (cap_get_ambient K) w;
       andthen (display_current_iab K N w) (\<lambda>o4 w. do {
         (o5, w) \<leftarrow> Some (print_secbits K w);
         o6 \<leftarrow> Some (print_ids H (kern w));
         (mode, w) \<leftarrow> cap_get_mode K w;
         Some (Inr (o1 @ o2 @ o3 @ o4 @ o5 @ o6 @
           ''Guessed mode: '' @ cap_mode_name mode @ '' ('' @ show_nat mode @ '')'' @ newline), w) }) })"

section \<open>Bounding and ambient sets\<close>

text \<open>
  \<^verbatim>\<open>will_need_setpcap\<close>: NULL when strict or when the effective set has
  \<^verbatim>\<open>CAP_SETPCAP\<close> already, else the set that raises it.
\<close>

definition will_need_setpcap :: "'k kernel \<Rightarrow> bool \<Rightarrow> 'k world \<Rightarrow> (addr, 'k) run" where
  "will_need_setpcap K strict w =
     (if strict then Some (Inr NULL, w)
      else do {
        (raised, w) \<leftarrow> cap_get_proc K w;
        if raised = NULL then exit_with 1 w
        else do {
          ((r, enabled), w) \<leftarrow> cap_get_flag raised (int CAP_SETPCAP) (int CAP_EFFECTIVE) True w;
          if r \<noteq> 0 then exit_with 1 w
          else do {
            enabled \<leftarrow> enabled;
            if enabled \<noteq> CAP_SET then do {
              (_, w) \<leftarrow> cap_set_flag raised (int CAP_EFFECTIVE) 1 [int CAP_SETPCAP] CAP_SET w;
              Some (Inr raised, w) }
            else do {
              (_, w) \<leftarrow> cap_free raised w;
              Some (Inr NULL, w) } } } })"

definition push_pcap :: "'k kernel \<Rightarrow> bool \<Rightarrow> 'k world \<Rightarrow> (addr \<times> addr, 'k) run" where
  "push_pcap K strict w = do {
     (orig, w) \<leftarrow> cap_get_proc K w;
     if orig = NULL then exit_with 1 w
     else andthen (will_need_setpcap K strict w) (\<lambda>raised w. Some (Inr (orig, raised), w)) }"

definition pop_pcap :: "addr \<Rightarrow> addr \<Rightarrow> 'k world \<Rightarrow> (unit, 'k) run" where
  "pop_pcap orig raised w = do {
     (_, w) \<leftarrow> cap_free raised w;
     (_, w) \<leftarrow> cap_free orig w;
     Some (Inr (), w) }"

text \<open>The body shared by the two loops of \<^verbatim>\<open>arg_drop\<close>: raise, drop, lower, and the status of the drop.\<close>

definition drop_raised :: "'k kernel \<Rightarrow> addr \<Rightarrow> addr \<Rightarrow> int \<Rightarrow> 'k world \<Rightarrow> (unit, 'k) run" where
  "drop_raised K orig raised cap w = do {
     (r, w) \<leftarrow> (if raised \<noteq> NULL then cap_set_proc K raised w else Some (0, w));
     if r \<noteq> 0 then exit_with 1 w
     else do {
       (status, w) \<leftarrow> Some (cap_drop_bound K cap w);
       (r, w) \<leftarrow> (if raised \<noteq> NULL then cap_set_proc K orig w else Some (0, w));
       if r \<noteq> 0 then exit_with 1 w
       else if status \<noteq> 0 then exit_with 1 w
       else Some (Inr (), w) } }"

partial_function (option) drop_supported :: "'k kernel \<Rightarrow> addr \<Rightarrow> addr \<Rightarrow> nat \<Rightarrow> 'k world \<Rightarrow> (unit, 'k) run" where
  "drop_supported K orig raised j w =
     (let (r, w) = cap_get_bound K (int j) w in
      if r \<ge> 0 then do {
        (r, w) \<leftarrow> drop_raised K orig raised (int j) w;
        (case r of Inl e \<Rightarrow> Some (Inl e, w) | Inr _ \<Rightarrow> drop_supported K orig raised (j + 1) w) }
      else Some (Inr (), w))"

text \<open>A loop over the names of a comma separated list, with what is done for each capability.\<close>

fun each_name :: "names_h \<Rightarrow> (int \<Rightarrow> 'k world \<Rightarrow> (unit, 'k) run) \<Rightarrow> string list \<Rightarrow> 'k world \<Rightarrow> (unit, 'k) run" where
  "each_name N f [] w = Some (Inr (), w)"
| "each_name N f (ptr # ptrs) w =
     (case cap_from_name N ptr w of
        (r, cap) \<Rightarrow>
          if r \<noteq> 0 then exit_with 1 w
          else do {
            cap \<leftarrow> cap;
            andthen (f cap w) (\<lambda>_ w. each_name N f ptrs w) })"

definition arg_drop :: "'k kernel \<Rightarrow> names_h \<Rightarrow> bool \<Rightarrow> string \<Rightarrow> 'k world \<Rightarrow> (unit, 'k) run" where
  "arg_drop K N strict arg_names w =
     andthen (push_pcap K strict w) (\<lambda>(orig, raised) w.
       if arg_names = ''all'' then andthen (drop_supported K orig raised 0 w) (\<lambda>_ w. pop_pcap orig raised w)
       else
         (let (names, w) = calloc w in
          if names = NULL then exit_with 1 w
          else andthen (each_name N (drop_raised K orig raised) (strtok_all '','' arg_names) w)
                 (\<lambda>_ w. pop_pcap orig raised w)))"

definition change_one_amb :: "'k kernel \<Rightarrow> int \<Rightarrow> int \<Rightarrow> 'k world \<Rightarrow> (unit, 'k) run" where
  "change_one_amb K v cap w =
     (let (status, w) = cap_set_ambient K cap v w in
      if status \<noteq> 0 then exit_with 1 w else Some (Inr (), w))"

partial_function (option) change_supported_amb :: "'k kernel \<Rightarrow> int \<Rightarrow> nat \<Rightarrow> 'k world \<Rightarrow> (unit, 'k) run" where
  "change_supported_amb K v j w =
     (let (r, w) = cap_get_bound K (int j) w in
      if r \<ge> 0 then do {
        (r, w) \<leftarrow> change_one_amb K v (int j) w;
        (case r of Inl e \<Rightarrow> Some (Inl e, w) | Inr _ \<Rightarrow> change_supported_amb K v (j + 1) w) }
      else Some (Inr (), w))"

definition arg_change_amb :: "'k kernel \<Rightarrow> names_h \<Rightarrow> string \<Rightarrow> int \<Rightarrow> 'k world \<Rightarrow> (unit, 'k) run" where
  "arg_change_amb K N arg_names v w = do {
     (orig, w) \<leftarrow> cap_get_proc K w;
     if arg_names = ''all'' then
       andthen (change_supported_amb K v 0 w) (\<lambda>_ w. do { (_, w) \<leftarrow> cap_free orig w; Some (Inr (), w) })
     else
       (let (names, w) = calloc w in
        if names = NULL then exit_with 1 w
        else andthen (each_name N (change_one_amb K v) (strtok_all '','' arg_names) w)
               (\<lambda>_ w. do { (_, w) \<leftarrow> cap_free orig w; Some (Inr (), w) })) }"

section \<open>Chain loading\<close>

text \<open>\<^verbatim>\<open>find_self\<close>; \<open>Inr None\<close> when the last \<^verbatim>\<open>strdup\<close> fails.\<close>

definition find_self :: "'k host \<Rightarrow> string \<Rightarrow> 'k world \<Rightarrow> (string option, 'k) run" where
  "find_self H arg0 w =
     (if CHR ''/'' \<in> set arg0 then
        (let (p, w) = calloc w in Some (Inr (if p = NULL then None else Some arg0), w))
      else
        (case h_path H of
           None \<Rightarrow> exit_with 1 w
         | Some path \<Rightarrow>
             (let (parts, w) = calloc w in
              if parts = NULL then exit_with 1 w
              else
                (let (scratch, w) = calloc w in
                 if scratch = NULL then exit_with 1 w
                 else
                   (case find (\<lambda>file. h_access H file (kern w)) (map (\<lambda>dir. dir @ ''/'' @ arg0) (strtok_all '':'' path)) of
                      None \<Rightarrow> exit_with 1 w
                    | Some file \<Rightarrow> Some (Inr (Some file), w))))))"

definition safe_sysconf :: "int \<Rightarrow> 'k world \<Rightarrow> (int, 'k) run" where
  "safe_sysconf ans w = (if ans \<le> 0 then exit_with 1 w else Some (Inr ans, w))"

definition do_launch :: "'k kernel \<Rightarrow> 'k procs \<Rightarrow> 'k host \<Rightarrow> string \<Rightarrow> string list \<Rightarrow> string list \<Rightarrow> 'k world \<Rightarrow> (capsh_end \<times> 'k world) option" where
  "do_launch K E H arg0 args envp w =
     (let (lau, w) = cap_new_launcher (Some arg0) (Some args) (Some envp) w in
      if lau = NULL then Some (Exit 1, w)
      else do {
        (child, w) \<leftarrow> cap_launch K E lau w;
        if child \<le> 0 then Some (Exit 1, w)
        else do {
          (_, w) \<leftarrow> cap_free lau w;
          (case h_waitpid H child (kern w) of
             ((ret, result), k) \<Rightarrow>
               Some (Exit (if ret \<noteq> child then 1
                           else if WIFEXITED result then int (WEXITSTATUS result) else 1), w\<lparr>kern := k\<rparr>)) } })"

text \<open>
  The options \<^verbatim>\<open>--\<close>, \<^verbatim>\<open>-+\<close>, \<^verbatim>\<open>==\<close> and \<^verbatim>\<open>=+\<close>, with the arguments that
  follow.  A name that could not be copied is NULL, which neither way of starting a program accepts.
\<close>

definition chain_load ::
  "'k kernel \<Rightarrow> 'k procs \<Rightarrow> 'k host \<Rightarrow> string \<Rightarrow> string list \<Rightarrow> string \<Rightarrow> string list \<Rightarrow> capsh_state \<Rightarrow> 'k world \<Rightarrow> (capsh_state, 'k) run" where
  "chain_load K E H argv0 envp arg rest st w =
     andthen
       (if hd arg = CHR ''='' then
          (let (args, w) = (if cs_quiet st then (let (p, w) = calloc w in (if p = NULL then [] else ''--quiet'' # rest, w)) else (rest, w)) in
           andthen (find_self H argv0 w) (\<lambda>self w. Some (Inr (self, args), w)))
        else
          (let (p, w) = calloc w in Some (Inr (if p = NULL then None else Some (cs_shell st), rest), w)))
       (\<lambda>(file, args) w.
          case file of
            None \<Rightarrow> exit_with 1 w
          | Some file \<Rightarrow>
              if arg ! 1 = CHR ''+'' then do {
                (e, w) \<leftarrow> do_launch K E H file (file # args) envp w;
                Some (Inl e, w) }
              else
                (case e_execve E file (Some (file # args)) (Some envp) (kern w) of
                   (None, k) \<Rightarrow> Some (Inl (Exec file (file # args) envp), w\<lparr>kern := k\<rparr>)
                 | (Some e, k) \<Rightarrow> exit_with 1 (w\<lparr>kern := k, errno := e\<rparr>)))"

section \<open>Explanations\<close>

definition mask_text :: "nat \<Rightarrow> string" where
  "mask_text cap = '' [/proc/self/status:CapXXX: 0x'' @ zero_pad 16 (show_base 16 (2 ^ cap)) @ '']'' @ newline"

definition describe :: "names_h \<Rightarrow> nat \<Rightarrow> 'k world \<Rightarrow> (string \<times> 'k world) option" where
  "describe N cap w =
     (let (name, w) = cap_to_name N (int cap) w in do {
        s \<leftarrow> get_str name w;
        (_, w) \<leftarrow> cap_free name w;
        Some ((if int cap < cap_max_bits w then [] else ''<reserved for> '') @ s @ '' ('' @ show_nat cap @ '')''
          @ mask_text cap @ newline @ concat (map (\<lambda>line. ''    '' @ line @ newline) (explanations ! cap)), w) })"

definition arg_explain :: "names_h \<Rightarrow> string \<Rightarrow> 'k world \<Rightarrow> (string, 'k) run" where
  "arg_explain N nm w =
     (case cap_from_name N nm w of
        (r, cap) \<Rightarrow>
          if r \<noteq> 0 then exit_with 1 w
          else do {
            cap \<leftarrow> cap;
            if cap < 0 then exit_with 1 w
            else if cap < int capsh_doc_limit then do {
              (s, w) \<leftarrow> describe N (nat cap) w;
              Some (Inr s, w) }
            else Some (Inr ((if cap < cap_max_bits w then ''<unnamed in libcap> ('' else ''<unsupported> ('') @ show_int cap @ '')''
                   @ mask_text (nat cap)), w) })"

definition strcasestr :: "string \<Rightarrow> string \<Rightarrow> bool" where
  "strcasestr s t \<longleftrightarrow> list_ex (\<lambda>i. map tolower (take (length t) (drop i s)) = map tolower t) [0..<Suc (length s)]"

text \<open>The loop of \<^verbatim>\<open>--suggest\<close> over the capabilities, with the number of hits so far.\<close>

fun suggest_loop :: "names_h \<Rightarrow> string \<Rightarrow> nat list \<Rightarrow> nat \<Rightarrow> string \<Rightarrow> 'k world \<Rightarrow> (string, 'k) run" where
  "suggest_loop N text [] hits out w = Some (Inr out, w)"
| "suggest_loop N text (cap # caps) hits out w =
     (let (name, w) = cap_to_name N (int cap) w in
      if name = NULL then exit_with 1 w
      else do {
        s \<leftarrow> get_str name w;
        (_, w) \<leftarrow> cap_free name w;
        if strcasestr s text \<or> list_ex (\<lambda>line. strcasestr line text) (explanations ! cap) then do {
          (d, w) \<leftarrow> describe N cap w;
          suggest_loop N text caps (hits + 1) (out @ (if hits \<noteq> 0 then newline else []) @ d) w }
        else suggest_loop N text caps hits out w })"

section \<open>Decoding\<close>

function decode_loop :: "names_h \<Rightarrow> nat \<Rightarrow> nat \<Rightarrow> string \<Rightarrow> string \<Rightarrow> 'k world \<Rightarrow> (string \<times> 'k world) option" where
  "decode_loop N v cap sep out w =
     (if cap < 64 \<and> drop_bit cap v \<noteq> 0 then
        (if bit v cap then do {
           (s, w) \<leftarrow> name_or_number N cap w;
           decode_loop N v (cap + 1) '','' (out @ sep @ s) w }
         else decode_loop N v (cap + 1) sep out w)
      else Some (out, w))"
  by pat_completeness auto
termination by (relation "measure (\<lambda>(N, v, cap, sep, out, w). 64 - cap)") auto

declare decode_loop.simps [simp del]

definition arg_decode :: "names_h \<Rightarrow> string \<Rightarrow> 'k world \<Rightarrow> (string, 'k) run" where
  "arg_decode N text w =
     (case hex_ull text of
        None \<Rightarrow> exit_with 1 w
      | Some v \<Rightarrow> do {
          (s, w) \<leftarrow> decode_loop N v 0 [] (''0x'' @ zero_pad 16 (show_base 16 v) @ ''='') w;
          Some (Inr (s @ newline), w) })"

section \<open>Options\<close>

text \<open>\<^verbatim>\<open>strncmp\<close> with a prefix: what follows it.\<close>

definition arg_value :: "string \<Rightarrow> string \<Rightarrow> string option" where
  "arg_value pre arg = (if take (length pre) arg = pre then Some (drop (length pre) arg) else None)"

definition arg_dropped :: "'k kernel \<Rightarrow> names_h \<Rightarrow> string \<Rightarrow> 'k world \<Rightarrow> (unit, 'k) run" where
  "arg_dropped K N nm w =
     (case cap_from_name N nm w of
        (r, cap) \<Rightarrow>
          if r < 0 then exit_with 1 w
          else do {
            cap \<leftarrow> cap;
            (b, w) \<leftarrow> Some (cap_get_bound K cap w);
            if b > 0 then exit_with 1 w else Some (Inr (), w) })"

text \<open>The end that \<^verbatim>\<open>--inh\<close> and \<^verbatim>\<open>--caps\<close> share: raise if asked to, install, release.\<close>

definition install_caps :: "'k kernel \<Rightarrow> addr \<Rightarrow> addr \<Rightarrow> 'k world \<Rightarrow> (unit, 'k) run" where
  "install_caps K raised all w = do {
     w \<leftarrow> (if raised \<noteq> NULL then do {
             (_, w) \<leftarrow> cap_set_proc K raised w;
             (_, w) \<leftarrow> cap_free raised w;
             Some w }
           else Some w);
     (r, w) \<leftarrow> cap_set_proc K all w;
     if r \<noteq> 0 then exit_with 1 w
     else do {
       (_, w) \<leftarrow> cap_free all w;
       Some (Inr (), w) } }"

text \<open>
  \<^verbatim>\<open>--inh\<close> from the set without its inheritable flag on: its text, with a clause for the names
  appended, read back and installed.
\<close>

definition inh_from_text :: "'k kernel \<Rightarrow> names_h \<Rightarrow> string \<Rightarrow> addr \<Rightarrow> addr \<Rightarrow> 'k world \<Rightarrow> (unit, 'k) run" where
  "inh_from_text K N val all raised w = do {
     ((text, _), w) \<leftarrow> cap_to_text N all w;
     (_, w) \<leftarrow> cap_free all w;
     if text = NULL then exit_with 1 w
     else
       (let (ptr, w) = calloc w in
        if ptr = NULL then exit_with 1 w
        else do {
          t \<leftarrow> get_str text w;
          s \<leftarrow> Some (if val \<noteq> [] \<and> val \<noteq> ''none'' then t @ '' '' @ val @ ''+i'' else t);
          (_, w) \<leftarrow> cap_free text w;
          (all, w) \<leftarrow> cap_from_text N K (Some s) w;
          if all = NULL then exit_with 1 w
          else install_caps K raised all w }) }"

definition arg_inh :: "'k kernel \<Rightarrow> names_h \<Rightarrow> bool \<Rightarrow> string \<Rightarrow> 'k world \<Rightarrow> (unit, 'k) run" where
  "arg_inh K N strict val w =
     andthen (push_pcap K strict w) (\<lambda>(all, raised) w. do {
       (r, w) \<leftarrow> cap_clear_flag all (int CAP_INHERITABLE) w;
       if r \<noteq> 0 then exit_with 1 w else inh_from_text K N val all raised w })"

definition arg_set_caps :: "'k kernel \<Rightarrow> names_h \<Rightarrow> bool \<Rightarrow> string \<Rightarrow> 'k world \<Rightarrow> (unit, 'k) run" where
  "arg_set_caps K N strict val w =
     andthen (will_need_setpcap K strict w) (\<lambda>raised w. do {
       (all, w) \<leftarrow> cap_from_text N K (Some val) w;
       if all = NULL then exit_with 1 w
       else install_caps K raised all w })"

text \<open>The two loops over the names of the modes end at the first number that has none.\<close>

lemma mode_name_known: "cap_mode_name c \<noteq> ''UNKNOWN'' \<Longrightarrow> c < 5"
  by (auto simp: cap_mode_name_def split: if_splits)

function mode_names :: "nat \<Rightarrow> string" where
  "mode_names c =
     (let m = cap_mode_name c in if m = ''UNKNOWN'' then [] else '' '' @ m @ mode_names (c + 1))"
  by pat_completeness auto
termination by (relation "measure (\<lambda>c. 5 - c)") (auto dest: mode_name_known)

function find_mode :: "string \<Rightarrow> nat \<Rightarrow> nat option" where
  "find_mode target c =
     (let m = cap_mode_name c in
      if m = ''UNKNOWN'' then None else if m = target then Some c else find_mode target (c + 1))"
  by pat_completeness auto
termination by (relation "measure (\<lambda>(t, c). 5 - c)") (auto dest: mode_name_known)

declare mode_names.simps [simp del] find_mode.simps [simp del]

definition arg_set_mode :: "'k kernel \<Rightarrow> string \<Rightarrow> 'k world \<Rightarrow> (unit, 'k) run" where
  "arg_set_mode K target w =
     (case find_mode target 1 of
        None \<Rightarrow> exit_with 1 w
      | Some c \<Rightarrow> do {
          (ret, w) \<leftarrow> cap_set_mode K c w;
          if ret \<noteq> 0 then exit_with 1 w else Some (Inr (), w) })"

definition arg_inmode :: "'k kernel \<Rightarrow> string \<Rightarrow> 'k world \<Rightarrow> (unit, 'k) run" where
  "arg_inmode K target w = do {
     (c, w) \<leftarrow> cap_get_mode K w;
     if cap_mode_name c \<noteq> target then exit_with 1 w else Some (Inr (), w) }"

text \<open>An option that takes a number: the call, and its negative result as the failure.\<close>

definition with_number :: "string \<Rightarrow> (nat \<Rightarrow> 'k world \<Rightarrow> (int \<times> 'k world) option) \<Rightarrow> 'k world \<Rightarrow> (unit, 'k) run" where
  "with_number val f w =
     (case nonneg_uint val of
        None \<Rightarrow> exit_with 1 w
      | Some v \<Rightarrow> do {
          (status, w) \<leftarrow> f v w;
          if status < 0 then exit_with 1 w else Some (Inr (), w) })"

definition arg_keep :: "'k kernel \<Rightarrow> string \<Rightarrow> 'k world \<Rightarrow> (unit, 'k) run" where
  "arg_keep K val = with_number val (\<lambda>v w. Some (prctl K PR_SET_KEEPCAPS (int v) 0 0 0 0 w))"

definition arg_secbits :: "'k kernel \<Rightarrow> string \<Rightarrow> 'k world \<Rightarrow> (unit, 'k) run" where
  "arg_secbits K val = with_number val (\<lambda>v w. Some (cap_set_secbits K (of_nat v) w))"

definition arg_uid :: "'k kernel \<Rightarrow> string \<Rightarrow> 'k world \<Rightarrow> (unit, 'k) run" where
  "arg_uid K val = with_number val (\<lambda>v w. Some (libc K (SysSetuid (of_nat v)) w))"

definition arg_cap_uid :: "'k kernel \<Rightarrow> string \<Rightarrow> 'k world \<Rightarrow> (unit, 'k) run" where
  "arg_cap_uid K val = with_number val (\<lambda>v w. cap_setuid K (of_nat v) w)"

definition arg_gid :: "'k kernel \<Rightarrow> string \<Rightarrow> 'k world \<Rightarrow> (unit, 'k) run" where
  "arg_gid K val = with_number val (\<lambda>v w. Some (libc K (SysSetgid (of_nat v)) w))"

definition arg_chroot :: "'k kernel \<Rightarrow> string \<Rightarrow> 'k world \<Rightarrow> (unit, 'k) run" where
  "arg_chroot K path w = do {
     (orig, w) \<leftarrow> cap_get_proc K w;
     if orig = NULL then exit_with 1 w
     else do {
       (raised, w) \<leftarrow> cap_dup K orig w;
       if raised = NULL then exit_with 1 w
       else do {
         (r, w) \<leftarrow> cap_set_flag raised (int CAP_EFFECTIVE) 1 [int CAP_SYS_CHROOT] CAP_SET w;
         if r \<noteq> 0 then exit_with 1 w
         else do {
           (r, w) \<leftarrow> cap_set_proc K raised w;
           if r \<noteq> 0 then exit_with 1 w
           else do {
             (_, w) \<leftarrow> cap_free raised w;
             (status, w) \<leftarrow> Some (libc K (SysChroot path) w);
             (r, w) \<leftarrow> cap_set_proc K orig w;
             if r \<noteq> 0 then exit_with 1 w
             else do {
               (status, w) \<leftarrow> Some (if status = 0 then kcall (k_chdir_root K) w else (status, w));
               (_, w) \<leftarrow> cap_free orig w;
               if status \<noteq> 0 then exit_with 1 w else Some (Inr (), w) } } } } } }"

text \<open>
  \<^verbatim>\<open>--forkfor\<close> as the parent sees it; the child sleeps and exits.  \<open>usage\<close> is the
  exit status of the usage message.
\<close>

definition arg_forkfor :: "'k host \<Rightarrow> int \<Rightarrow> string \<Rightarrow> capsh_state \<Rightarrow> 'k world \<Rightarrow> (capsh_state, 'k) run" where
  "arg_forkfor H usage val st w =
     (if cs_child st \<noteq> 0 then exit_with 1 w
      else
        (case nonneg_uint val of
           None \<Rightarrow> exit_with 1 w
         | Some v \<Rightarrow>
             if v = 0 then exit_with usage w
             else (let (child, w) = kcall (h_fork H) w in Some (Inr (st\<lparr>cs_child := child\<rparr>), w))))"

definition arg_killit :: "'k host \<Rightarrow> string \<Rightarrow> capsh_state \<Rightarrow> 'k world \<Rightarrow> (capsh_state, 'k) run" where
  "arg_killit H val st w =
     (case nonneg_uint val of
        None \<Rightarrow> exit_with 1 w
      | Some v \<Rightarrow>
          if cs_child st = 0 then exit_with 1 w
          else
            (let (retval, w) = kcall (h_kill H (cs_child st) v) w in
             if retval \<noteq> 0 then exit_with 1 w
             else
               (case h_waitpid H (cs_child st) (kern w) of
                  ((result, status), k) \<Rightarrow>
                    if result \<noteq> cs_child st then exit_with 1 (w\<lparr>kern := k\<rparr>)
                    else if WTERMSIG status \<noteq> v then exit_with 1 (w\<lparr>kern := k\<rparr>)
                    else Some (Inr (st\<lparr>cs_child := 0\<rparr>), w\<lparr>kern := k\<rparr>))))"

text \<open>The loop of \<^verbatim>\<open>--groups\<close> over the tokens: the list so far.\<close>

fun group_tokens :: "'k host \<Rightarrow> int \<Rightarrow> string list \<Rightarrow> u32 list \<Rightarrow> u32 list option" where
  "group_tokens H max_groups [] gs = Some gs"
| "group_tokens H max_groups (ptr # ptrs) gs =
     (if max_groups \<le> int (length gs) then None
      else
        (case (if isdigit (deref ptr) then map_option of_nat (nonneg_uint ptr) else h_getgrnam H ptr) of
           None \<Rightarrow> None
         | Some g \<Rightarrow> group_tokens H max_groups ptrs (gs @ [g])))"

definition arg_groups :: "'k kernel \<Rightarrow> 'k host \<Rightarrow> string \<Rightarrow> 'k world \<Rightarrow> (unit, 'k) run" where
  "arg_groups K H val w =
     andthen (safe_sysconf (h_gr_size_max H) w) (\<lambda>_ w.
       let (buf, w) = calloc w in
       if buf = NULL then exit_with 1 w
       else andthen (safe_sysconf (h_ngroups_max H) w) (\<lambda>max_groups w.
         let (group_list, w) = calloc w in
         if group_list = NULL then exit_with 1 w
         else
           (case group_tokens H max_groups (strtok_all '','' val) [] of
              None \<Rightarrow> exit_with 1 w
            | Some gs \<Rightarrow>
                (let (r, w) = libc K (SysSetgroups (int (length gs)) (Some gs)) w in
                 if r \<noteq> 0 then exit_with 1 w else Some (Inr (), w)))))"

definition set_user_env :: "'k host \<Rightarrow> string \<Rightarrow> string \<Rightarrow> capsh_state \<Rightarrow> 'k world \<Rightarrow> (capsh_state, 'k) run" where
  "set_user_env H user dir st w =
     (if cs_noenv st then Some (Inr st, w)
      else if h_setenv H ''HOME'' dir \<noteq> 0 then exit_with 1 w
      else if h_setenv H ''USER'' user \<noteq> 0 then exit_with 1 w
      else Some (Inr (st\<lparr>cs_setenv := cs_setenv st @ [(''HOME'', dir), (''USER'', user)]\<rparr>), w))"

definition arg_user :: "'k kernel \<Rightarrow> 'k host \<Rightarrow> string \<Rightarrow> capsh_state \<Rightarrow> 'k world \<Rightarrow> (capsh_state, 'k) run" where
  "arg_user K H user st w =
     (case h_getpwnam H user of
        None \<Rightarrow> exit_with 1 w
      | Some (uid, gid, dir) \<Rightarrow>
          (let groups = h_getgrouplist H user gid;
               status = (if length groups \<le> MAX_GROUPS then int (length groups) else - 1)
           in if status < 1 then exit_with 1 w
              else do {
                (status, w) \<leftarrow> cap_setgroups K gid (int (length groups)) (Some groups) w;
                if status \<noteq> 0 then exit_with 1 w
                else do {
                  (status, w) \<leftarrow> cap_setuid K uid w;
                  if status < 0 then exit_with 1 w
                  else set_user_env H user dir st w } }))"

section \<open>Tests\<close>

text \<open>A test of the capability that a name stands for.\<close>

definition with_cap :: "names_h \<Rightarrow> string \<Rightarrow> (int \<Rightarrow> 'k world \<Rightarrow> (unit, 'k) run) \<Rightarrow> 'k world \<Rightarrow> (unit, 'k) run" where
  "with_cap N nm f w =
     (case cap_from_name N nm w of
        (r, cap) \<Rightarrow> if r < 0 then exit_with 1 w else do { cap \<leftarrow> cap; f cap w })"

definition arg_supports :: "'k kernel \<Rightarrow> names_h \<Rightarrow> string \<Rightarrow> 'k world \<Rightarrow> (unit, 'k) run" where
  "arg_supports K N nm = with_cap N nm (\<lambda>cap w.
     let (b, w) = cap_get_bound K cap w in if \<not> b \<ge> 0 then exit_with 1 w else Some (Inr (), w))"

definition arg_has_flag :: "'k kernel \<Rightarrow> names_h \<Rightarrow> nat \<Rightarrow> string \<Rightarrow> 'k world \<Rightarrow> (unit, 'k) run" where
  "arg_has_flag K N flag nm = with_cap N nm (\<lambda>cap w. do {
     (orig, w) \<leftarrow> cap_get_proc K w;
     if orig = NULL then exit_with 1 w
     else do {
       ((r, enabled), w) \<leftarrow> cap_get_flag orig cap (int flag) True w;
       if r \<noteq> 0 then exit_with 1 w
       else do {
         enabled \<leftarrow> enabled;
         if enabled = 0 then exit_with 1 w
         else do {
           (_, w) \<leftarrow> cap_free orig w;
           Some (Inr (), w) } } } })"

definition arg_has_a :: "'k kernel \<Rightarrow> names_h \<Rightarrow> string \<Rightarrow> 'k world \<Rightarrow> (unit, 'k) run" where
  "arg_has_a K N nm = with_cap N nm (\<lambda>cap w.
     let (a, w) = cap_get_ambient K cap w in if a = 0 then exit_with 1 w else Some (Inr (), w))"

definition arg_has_b :: "'k kernel \<Rightarrow> names_h \<Rightarrow> string \<Rightarrow> 'k world \<Rightarrow> (unit, 'k) run" where
  "arg_has_b K N nm = with_cap N nm (\<lambda>cap w.
     let (b, w) = cap_get_bound K cap w in if b = 0 then exit_with 1 w else Some (Inr (), w))"

definition arg_is :: "u32 \<Rightarrow> string \<Rightarrow> 'k world \<Rightarrow> (unit, 'k) run" where
  "arg_is x val w =
     (case nonneg_uint val of
        None \<Rightarrow> exit_with 1 w
      | Some v \<Rightarrow> if x \<noteq> of_nat v then exit_with 1 w else Some (Inr (), w))"

definition arg_iab :: "'k kernel \<Rightarrow> names_h \<Rightarrow> string \<Rightarrow> 'k world \<Rightarrow> (unit, 'k) run" where
  "arg_iab K N val w = do {
     (iab, w) \<leftarrow> cap_iab_from_text N (Some val) w;
     if iab = NULL then exit_with 1 w
     else do {
       (r, w) \<leftarrow> cap_iab_set_proc K iab w;
       if r \<noteq> 0 then exit_with 1 w
       else do {
         (_, w) \<leftarrow> cap_free iab w;
         Some (Inr (), w) } } }"

section \<open>The program\<close>

definition quiet_step :: "capsh_state \<Rightarrow> (unit, 'k) run \<Rightarrow> (capsh_state, 'k) run" where
  "quiet_step st m = andthen m (\<lambda>_ w. Some (Inr st, w))"

definition print_step :: "capsh_state \<Rightarrow> (string, 'k) run \<Rightarrow> (capsh_state, 'k) run" where
  "print_step st m = andthen m (\<lambda>s w. Some (Inr (st\<lparr>cs_out := cs_out st @ s\<rparr>), w))"

text \<open>The options that take a value, in the order of the source; \<^const>\<open>None\<close> for any other argument.\<close>

definition value_option ::
  "'k kernel \<Rightarrow> 'k host \<Rightarrow> names_h \<Rightarrow> int \<Rightarrow> string \<Rightarrow> capsh_state \<Rightarrow> 'k world \<Rightarrow> (capsh_state, 'k) run option" where
  "value_option K H N usage arg st w =
     (let opts = [
        (''--drop='', \<lambda>v. quiet_step st (arg_drop K N (cs_strict st) v w)),
        (''--dropped='', \<lambda>v. quiet_step st (arg_dropped K N v w)),
        (''--addamb='', \<lambda>v. quiet_step st (arg_change_amb K N v CAP_SET w)),
        (''--delamb='', \<lambda>v. quiet_step st (arg_change_amb K N v CAP_CLEAR w)),
        (''--noamb'', \<lambda>v. do { (r, w) \<leftarrow> cap_reset_ambient K w; if r \<noteq> 0 then exit_with 1 w else Some (Inr st, w) }),
        (''--inh='', \<lambda>v. quiet_step st (arg_inh K N (cs_strict st) v w)),
        (''--caps='', \<lambda>v. quiet_step st (arg_set_caps K N (cs_strict st) v w)),
        (''--mode='', \<lambda>v. quiet_step st (arg_set_mode K v w)),
        (''--inmode='', \<lambda>v. quiet_step st (arg_inmode K v w)),
        (''--keep='', \<lambda>v. quiet_step st (arg_keep K v w)),
        (''--chroot='', \<lambda>v. quiet_step st (arg_chroot K v w)),
        (''--secbits='', \<lambda>v. quiet_step st (arg_secbits K v w)),
        (''--forkfor='', \<lambda>v. arg_forkfor H usage v st w),
        (''--killit='', \<lambda>v. arg_killit H v st w),
        (''--uid='', \<lambda>v. quiet_step st (arg_uid K v w)),
        (''--cap-uid='', \<lambda>v. quiet_step st (arg_cap_uid K v w)),
        (''--gid='', \<lambda>v. quiet_step st (arg_gid K v w)),
        (''--groups='', \<lambda>v. quiet_step st (arg_groups K H v w)),
        (''--user='', \<lambda>v. arg_user K H v st w),
        (''--decode='', \<lambda>v. print_step st (arg_decode N v w)),
        (''--supports='', \<lambda>v. quiet_step st (arg_supports K N v w)),
        (''--shell='', \<lambda>v. Some (Inr (st\<lparr>cs_shell := v\<rparr>), w)),
        (''--has-p='', \<lambda>v. quiet_step st (arg_has_flag K N CAP_PERMITTED v w)),
        (''--has-i='', \<lambda>v. quiet_step st (arg_has_flag K N CAP_INHERITABLE v w)),
        (''--has-a='', \<lambda>v. quiet_step st (arg_has_a K N v w)),
        (''--has-b='', \<lambda>v. quiet_step st (arg_has_b K N v w)),
        (''--is-uid='', \<lambda>v. quiet_step st (arg_is (h_getuid H (kern w)) v w)),
        (''--is-gid='', \<lambda>v. quiet_step st (arg_is (h_getgid H (kern w)) v w)),
        (''--iab='', \<lambda>v. quiet_step st (arg_iab K N v w)),
        (''--explain='', \<lambda>v. print_step st (arg_explain N v w)),
        (''--suggest='', \<lambda>v. print_step st (suggest_loop N v [0..<capsh_doc_limit] 0 [] w))]
      in case find (\<lambda>(pre, _). arg_value pre arg \<noteq> None) opts of
           None \<Rightarrow> None
         | Some (pre, f) \<Rightarrow> Some (f (the (arg_value pre arg))))"

definition capsh_step ::
  "'k kernel \<Rightarrow> 'k procs \<Rightarrow> 'k host \<Rightarrow> names_h \<Rightarrow> string \<Rightarrow> string list \<Rightarrow> int \<Rightarrow> string \<Rightarrow> string list \<Rightarrow> capsh_state \<Rightarrow> 'k world
     \<Rightarrow> (capsh_state, 'k) run" where
  "capsh_step K E H N argv0 envp usage arg rest st w =
     (if arg = ''--has-ambient'' then
        (let (ok, w) = CAP_AMBIENT_SUPPORTED K w in if \<not> ok then exit_with 1 w else Some (Inr st, w))
      else if arg = ''--noenv'' then Some (Inr (st\<lparr>cs_noenv := True\<rparr>), w)
      else if arg = ''--strict'' then Some (Inr (st\<lparr>cs_strict := \<not> cs_strict st\<rparr>), w)
      else if arg = ''--modes'' then
        print_step st (Some (Inr (''Supported modes:'' @ mode_names 1 @ newline), w))
      else if arg = ''--mode'' then do {
        (m, w) \<leftarrow> cap_get_mode K w;
        print_step st (Some (Inr (''Mode: '' @ cap_mode_name m @ newline), w)) }
      else if arg = ''--print'' then print_step st (arg_print K H N w)
      else if arg \<in> {''--'', ''=='', ''-+'', ''=+''} then chain_load K E H argv0 envp arg rest st w
      else if arg = ''--no-new-privs'' then
        (let (r, w) = prctl K PR_SET_NO_NEW_PRIVS 1 0 0 0 0 w in if r \<noteq> 0 then exit_with 1 w else Some (Inr st, w))
      else if arg = ''--has-no-new-privs'' then
        (let (r, w) = prctl K 39 0 0 0 0 0 w in if r \<noteq> 1 then exit_with 1 w else Some (Inr st, w))
      else if arg = ''--license'' then exit_with 0 w
      else if arg = ''--current'' then
        andthen (print_step st (display_current K N w)) (\<lambda>st w. print_step st (display_current_iab K N w))
      else
        (case value_option K H N usage arg st w of
           None \<Rightarrow> exit_with usage w
         | Some m \<Rightarrow> m))"

text \<open>The check of the first argument: the highest capability has to have a name, or a warning is printed.\<close>

definition first_check :: "names_h \<Rightarrow> 'k world \<Rightarrow> (string, 'k) run" where
  "first_check N w =
     (let (temp_name, w) = cap_to_name N (cap_max_bits w - 1) w in
      if temp_name = NULL then exit_with 1 w
      else do {
        s \<leftarrow> get_str temp_name w;
        (_, w) \<leftarrow> cap_free temp_name w;
        Some (Inr (if deref s \<noteq> CHR ''c'' then ''WARNING: libcap needs an update (cap='' @ show_int (cap_max_bits w - 1)
                     @ '' should have a name).'' @ newline else []), w) })"

fun capsh_loop ::
  "'k kernel \<Rightarrow> 'k procs \<Rightarrow> 'k host \<Rightarrow> names_h \<Rightarrow> string \<Rightarrow> string list \<Rightarrow> int \<Rightarrow> bool \<Rightarrow> string list \<Rightarrow> capsh_state \<Rightarrow> 'k world
     \<Rightarrow> ((capsh_end \<times> capsh_state) \<times> 'k world) option" where
  "capsh_loop K E H N argv0 envp usage first [] st w = Some ((Exit 0, st), w)"
| "capsh_loop K E H N argv0 envp usage first (arg # rest) st w =
     (if arg = ''--quiet'' then capsh_loop K E H N argv0 envp usage False rest (st\<lparr>cs_quiet := True\<rparr>) w
      else do {
        (r, w) \<leftarrow> andthen (print_step st (if first then first_check N w else Some (Inr [], w)))
                    (\<lambda>st w. capsh_step K E H N argv0 envp usage arg rest st w);
        (case r of
           Inl e \<Rightarrow> Some ((e, st), w)
         | Inr st \<Rightarrow> capsh_loop K E H N argv0 envp usage False rest st w) })"

definition capsh_init :: capsh_state where
  "capsh_init = \<lparr>cs_child = 0, cs_strict = False, cs_quiet = False, cs_noenv = False, cs_shell = ''/bin/bash'',
     cs_setenv = [], cs_out = []\<rparr>"

definition capsh_main ::
  "'k kernel \<Rightarrow> 'k procs \<Rightarrow> 'k host \<Rightarrow> names_h \<Rightarrow> string list \<Rightarrow> string list \<Rightarrow> 'k world \<Rightarrow> ((capsh_end \<times> capsh_state) \<times> 'k world) option" where
  "capsh_main K E H N argv envp w =
     capsh_loop K E H N (hd argv) envp (if take 1 (tl argv) \<in> {[''--help''], [''-h'']} then 0 else 1) True (tl argv) capsh_init w"

end
