(* ===== verification/Prog_Capsh_Spec.thy ===== *)
theory Prog_Capsh_Spec
  imports Prog_Capsh
begin

text \<open>
  What the options of \<^verbatim>\<open>capsh\<close> achieve on a kernel that meets \<open>cred_abi\<close>: an option
  that raises a capability for a system call leaves the effective set as it found it, whether the
  call succeeds or not.
\<close>

section \<open>Raise, act, restore\<close>

lemma exit_with_eq [simp]: "exit_with s w = Some (Inl (Exit s), w)"
  by (simp add: exit_with_def)

lemma andthen_simps [simp]:
  "andthen (Some (Inl e, w)) f = Some (Inl e, w)" "andthen (Some (Inr a, w)) f = f a w" "andthen None f = None"
  by (simp_all add: andthen_def)

context cred_abi
begin

text \<open>Installing a set that differs from the current one in its effective flag only.\<close>

lemma set_proc_eff:
  assumes "cap_ready w p c" "c_head c = self_head" "caller_ok K (multithread w) w" "valid (kern w)"
    "caps_of c CAP_PERMITTED = p_per (view (kern w))" "caps_of c CAP_INHERITABLE = p_inh (view (kern w))"
  shows "\<exists>r k e. cap_set_proc K p w = Some (r, after k e w) \<and> valid k
     \<and> view k = (view (kern w))\<lparr>p_eff := (if r = 0 then caps_of c CAP_EFFECTIVE \<inter> {..<p_ncaps (view (kern w))} else p_eff (view (kern w)))\<rparr>
     \<and> (caps_of c CAP_EFFECTIVE \<subseteq> p_per (view (kern w)) \<longrightarrow> r = 0)"
proof -
  obtain r w' where s: "cap_set_proc_sc K (multithread w) p w = Some (r, w')" "installed c w r w'"
    using cap_set_proc_exec [OF assms(1-4)] by blast
  have v: "view (kern w') = (view (kern w))\<lparr>p_eff := (if r = 0 then caps_of c CAP_EFFECTIVE \<inter> {..<p_ncaps (view (kern w))} else p_eff (view (kern w)))\<rparr>"
    by (rule installed_same [OF s(2) assms(4) cap_readyD(4) [OF assms(1)] assms(5,6)])
  have "caps_of c CAP_EFFECTIVE \<subseteq> p_per (view (kern w)) \<longrightarrow> r = 0" using s(2) assms(5,6) by (auto simp: installed_def)
  with v s(1) installed_frame(1,6) [OF s(2)] show ?thesis unfolding cap_set_proc_def by metis
qed

text \<open>The process's own set \<open>p\<close>, and \<open>q\<close>: NULL or the set that raises \<open>x\<close>.\<close>

definition pcap_ready :: "nat \<Rightarrow> 'k world \<Rightarrow> addr \<Rightarrow> addr \<Rightarrow> creds \<Rightarrow> bool" where
  "pcap_ready x w p q v \<longleftrightarrow> cap_ready w p (proc_cap v) \<and> p \<noteq> q \<and> (q \<noteq> NULL \<longrightarrow> cap_ready w q (raised x v))"

lemma pcap_ready_after [simp]: "pcap_ready x (after k e w) p q v = pcap_ready x w p q v"
  by (simp add: pcap_ready_def)

definition same_caps :: "creds \<Rightarrow> creds \<Rightarrow> bool" where
  "same_caps v u \<longleftrightarrow> p_eff v = p_eff u \<and> p_per v = p_per u \<and> p_inh v = p_inh u"

lemma raise_step:
  assumes "pcap_ready x w p q v" "same_caps v (view (kern w))" "wf_creds v" "caller_ok K (multithread w) w" "valid (kern w)"
    "x < p_ncaps (view (kern w))"
  shows "\<exists>r k e. (if q \<noteq> NULL then cap_set_proc K q w else Some (0, w)) = Some (r, after k e w) \<and> valid k
     \<and> view k = (view (kern w))\<lparr>p_eff := (if r = 0 \<and> q \<noteq> NULL then insert x else id) (p_eff (view (kern w)))\<rparr>
     \<and> (q = NULL \<or> x \<in> p_per (view (kern w)) \<longrightarrow> r = 0)"
proof (cases "q = NULL")
  case True
  then have "(if q \<noteq> NULL then cap_set_proc K q w else Some (0, w)) = Some (0, after (kern w) (errno w) w)" by (simp add: after_self)
  with True assms(5) show ?thesis by (intro exI [of _ 0] exI [of _ "kern w"] exI [of _ "errno w"]) simp
next
  case False
  let ?u = "view (kern w)"
  have u: "wf_creds ?u" using valid_wf [OF assms(5)] .
  have c: "caps_of (raised x v) CAP_EFFECTIVE = insert x (p_eff ?u)" "caps_of (raised x v) CAP_PERMITTED = p_per ?u"
    "caps_of (raised x v) CAP_INHERITABLE = p_inh ?u"
    using caps_of_raised [OF assms(3), of x] assms(2,6) u by (auto simp: same_caps_def wf_creds_def)
  have "insert x (p_eff ?u) \<inter> {..<p_ncaps ?u} = insert x (p_eff ?u)" "p_eff ?u \<subseteq> p_per ?u" using u assms(6) by (auto simp: wf_creds_def)
  with set_proc_eff [of w q "raised x v"] c assms False show ?thesis by (fastforce simp: pcap_ready_def)
qed

lemma restore_step:
  assumes "pcap_ready x w p q v" "p_per v = p_per (view (kern w))" "p_inh v = p_inh (view (kern w))" "wf_creds v"
    "caller_ok K (multithread w) w" "valid (kern w)" "p_ncaps v = p_ncaps (view (kern w))"
  shows "\<exists>k e. cap_set_proc K p w = Some (0, after k e w) \<and> valid k \<and> view k = (view (kern w))\<lparr>p_eff := p_eff v\<rparr>"
proof -
  have "p_eff v \<subseteq> p_per v" "p_eff v \<inter> {..<p_ncaps v} = p_eff v" using assms(4) by (auto simp: wf_creds_def)
  with set_proc_eff [of w p "proc_cap v"] caps_of_proc_cap [OF assms(4)] assms show ?thesis
    by (fastforce simp: pcap_ready_def)
qed

end

section \<open>Dropping from the bounding set\<close>

text \<open>Whether a drop is sure to be allowed: the capability that allows it is there or can be raised.\<close>

definition can_drop :: "addr \<Rightarrow> creds \<Rightarrow> bool" where
  "can_drop q u \<longleftrightarrow> CAP_SETPCAP \<in> p_eff u \<or> q \<noteq> NULL \<and> CAP_SETPCAP \<in> p_per u"

context cred_abi
begin

lemma drop_raised_exec:
  assumes "pcap_ready CAP_SETPCAP w p q v" "same_caps v (view (kern w))" "wf_creds v" "p_ncaps v = p_ncaps (view (kern w))"
    "caller_ok K (multithread w) w" "valid (kern w)" "0 \<le> c" "c < 2 ^ 64" "u = view (kern w)"
  shows "\<exists>b k e. drop_raised K p q c w = Some (if b then Inr () else Inl (Exit 1), after k e w) \<and> valid k
     \<and> view k = (if b then u\<lparr>p_bnd := p_bnd u - {nat c}\<rparr> else u) \<and> (can_drop q u \<longrightarrow> c < int (p_ncaps u) \<longrightarrow> b)"
proof -
  have x: "CAP_SETPCAP < p_ncaps u" using valid_wf [OF assms(6)] assms(9) by (simp add: wf_creds_def)
  obtain r k e where ra: "(if q \<noteq> NULL then cap_set_proc K q w else Some (0, w)) = Some (r, after k e w)" "valid k"
    "view k = u\<lparr>p_eff := (if r = 0 \<and> q \<noteq> NULL then insert CAP_SETPCAP else id) (p_eff u)\<rparr>"
    "q = NULL \<or> CAP_SETPCAP \<in> p_per u \<Longrightarrow> r = 0"
    using raise_step [OF assms(1-3,5,6)] x assms(9) by blast
  show ?thesis
  proof (cases "r = 0")
    case False
    then have "drop_raised K p q c w = Some (Inl (Exit 1), after k e w)" "view k = u" using ra(1,3) by (simp_all add: drop_raised_def)
    moreover have "p_eff u \<subseteq> p_per u" using valid_wf [OF assms(6)] assms(9) by (simp add: wf_creds_def)
    ultimately show ?thesis using False ra(2,4) by (intro exI [of _ False] exI [of _ k] exI [of _ e]) (auto simp: can_drop_def)
  next
    case True
    let ?w1 = "after k e w"
    obtain s k2 e2 where d: "cap_drop_bound K c ?w1 = (s, after k2 e2 w)" "valid k2"
      "view k2 = (if s = 0 then (view k)\<lparr>p_bnd := p_bnd (view k) - {nat c}\<rparr> else view k)"
      "CAP_SETPCAP \<in> p_eff (view k) \<Longrightarrow> c < int (p_ncaps u) \<Longrightarrow> s = 0"
      using drop_bound_exec [of "multithread w" ?w1 c] assms(5,7,8) ra(2,3) by (auto simp: cap_drop_bound_def)
    obtain k3 e3 where l: "(if q \<noteq> NULL then cap_set_proc K p (after k2 e2 w) else Some (0, after k2 e2 w)) = Some (0, after k3 e3 w)"
      "valid k3" "view k3 = (view k2)\<lparr>p_eff := p_eff u\<rparr>"
    proof (cases "q = NULL")
      case True
      then show ?thesis using that [of k2 e2] d(2,3) ra(3) by auto
    next
      case False
      have "p_per v = p_per (view k2)" "p_inh v = p_inh (view k2)" "p_eff v = p_eff u" "p_ncaps v = p_ncaps (view k2)"
        using d(3) ra(3) assms(2,4,9) by (auto simp: same_caps_def)
      with restore_step [of CAP_SETPCAP "after k2 e2 w" p q v] assms(1,3,5) d(2) that False show ?thesis by auto
    qed
    have "drop_raised K p q c w = Some (if s = 0 then Inr () else Inl (Exit 1), after k3 e3 w)"
      using ra(1) True d(1) l(1) by (simp add: drop_raised_def)
    moreover have "view k3 = (if s = 0 then u\<lparr>p_bnd := p_bnd u - {nat c}\<rparr> else u)" using l(3) d(3) ra(3) by auto
    moreover have "can_drop q u \<longrightarrow> c < int (p_ncaps u) \<longrightarrow> s = 0" using d(4) ra(3) True by (auto simp: can_drop_def)
    ultimately show ?thesis using l(2) by (intro exI [of _ "s = 0"] exI [of _ k3] exI [of _ e3]) auto
  qed
qed

end

text \<open>The capabilities that the names of a list stand for.\<close>

definition named :: "names_h \<Rightarrow> int \<Rightarrow> string list \<Rightarrow> nat set" where
  "named N cmb ts = (\<lambda>t. nat (fst (lookupname N cmb t))) ` {t \<in> set ts. 0 \<le> fst (lookupname N cmb t)}"

definition all_known :: "names_h \<Rightarrow> int \<Rightarrow> string list \<Rightarrow> bool" where
  "all_known N cmb ts \<longleftrightarrow> (\<forall>t \<in> set ts. 0 \<le> fst (lookupname N cmb t))"

lemma named_Cons:
  "0 \<le> fst (lookupname N cmb t) \<Longrightarrow> named N cmb (t # ts) = insert (nat (fst (lookupname N cmb t))) (named N cmb ts)"
  "named N cmb [] = {}"
  by (auto simp: named_def)

lemma cap_from_name_eq:
  "cap_from_name N t w = (if fst (lookupname N (max_bits w) t) < 0 then (- 1, None) else (0, Some (fst (lookupname N (max_bits w) t))))"
  by (auto simp: cap_from_name_def split: prod.split)

text \<open>What a loop that drops capabilities has done: all of \<open>S\<close>, or a part of it and an error.\<close>

definition dropped :: "nat set \<Rightarrow> creds \<Rightarrow> capsh_end + unit \<Rightarrow> creds \<Rightarrow> bool" where
  "dropped S u r v \<longleftrightarrow> (\<exists>B \<subseteq> S. v = u\<lparr>p_bnd := p_bnd u - B\<rparr> \<and> (r = Inr () \<and> B = S \<or> r = Inl (Exit 1)))"

lemma dropped_none: "dropped S u (Inl (Exit 1)) u"
  by (auto simp: dropped_def intro!: exI [of _ "{}"])

lemma dropped_step: "dropped S (u\<lparr>p_bnd := p_bnd u - {x}\<rparr>) r v \<Longrightarrow> dropped (insert x S) u r v"
proof -
  assume "dropped S (u\<lparr>p_bnd := p_bnd u - {x}\<rparr>) r v"
  then obtain B where "B \<subseteq> S" "v = u\<lparr>p_bnd := p_bnd u - insert x B\<rparr>" "r = Inr () \<and> B = S \<or> r = Inl (Exit 1)"
    by (auto simp: dropped_def Diff_insert2 [symmetric])
  then show ?thesis unfolding dropped_def by (intro exI [of _ "insert x B"]) auto
qed

context cred_abi
begin

lemma each_drop_exec:
  assumes "names_abi N" "pcap_ready CAP_SETPCAP w p q v" "same_caps v (view (kern w))" "wf_creds v" "p_ncaps v = p_ncaps (view (kern w))"
    "caller_ok K (multithread w) w" "valid (kern w)"
  shows "\<exists>r k e. each_name N (drop_raised K p q) ts w = Some (r, after k e w) \<and> valid k
     \<and> dropped (named N (max_bits w) ts) (view (kern w)) r (view k)
     \<and> (r = Inr () \<longrightarrow> all_known N (max_bits w) ts)
     \<and> (can_drop q (view (kern w)) \<and> all_known N (max_bits w) ts \<and> named N (max_bits w) ts \<subseteq> {..<p_ncaps (view (kern w))} \<longrightarrow> r = Inr ())"
  using assms(2-)
proof (induction ts arbitrary: w)
  case Nil
  then have "each_name N (drop_raised K p q) [] w = Some (Inr (), after (kern w) (errno w) w)" by (simp add: after_self)
  with Nil show ?case
    by (intro exI [of _ "Inr ()"] exI [of _ "kern w"] exI [of _ "errno w"]) (simp add: dropped_def named_Cons all_known_def)
next
  case (Cons t ts)
  let ?n = "fst (lookupname N (max_bits w) t)" and ?u = "view (kern w)"
  have n: "?n = - 1 \<or> 0 \<le> ?n \<and> ?n < 64" using names_abi.lookupname_range [OF assms(1)] by blast
  show ?case
  proof (cases "?n < 0")
    case True
    then have "each_name N (drop_raised K p q) (t # ts) w = Some (Inl (Exit 1), after (kern w) (errno w) w)"
      by (simp add: cap_from_name_eq after_self)
    with Cons.prems True show ?thesis
      by (intro exI [of _ "Inl (Exit 1)"] exI [of _ "kern w"] exI [of _ "errno w"]) (simp add: dropped_none all_known_def)
  next
    case False
    note nm = named_Cons(1) [of N "max_bits w" t ts]
    obtain b k e where d: "drop_raised K p q ?n w = Some (if b then Inr () else Inl (Exit 1), after k e w)" "valid k"
      "view k = (if b then ?u\<lparr>p_bnd := p_bnd ?u - {nat ?n}\<rparr> else ?u)" "can_drop q ?u \<Longrightarrow> ?n < int (p_ncaps ?u) \<Longrightarrow> b"
      using drop_raised_exec [OF Cons.prems, of ?n] n False by fastforce
    show ?thesis
    proof (cases b)
      case False
      then have "each_name N (drop_raised K p q) (t # ts) w = Some (Inl (Exit 1), after k e w)"
        using d(1) \<open>\<not> ?n < 0\<close> by (simp add: cap_from_name_eq)
      moreover have "\<not> (can_drop q ?u \<and> named N (max_bits w) (t # ts) \<subseteq> {..<p_ncaps ?u})" using d(4) False nm n by (auto simp: nat_less_iff)
      ultimately show ?thesis using d(2,3) False by (intro exI [of _ "Inl (Exit 1)"] exI [of _ k] exI [of _ e]) (auto simp: dropped_none)
    next
      case True
      have u: "p_eff (view k) = p_eff ?u" "p_per (view k) = p_per ?u" "p_inh (view k) = p_inh ?u" "p_ncaps (view k) = p_ncaps ?u"
        using d(3) True by auto
      obtain r k' e' where ih: "each_name N (drop_raised K p q) ts (after k e w) = Some (r, after k' e' w)" "valid k'"
        "dropped (named N (max_bits w) ts) (view k) r (view k')" "r = Inr () \<longrightarrow> all_known N (max_bits w) ts"
        "can_drop q (view k) \<and> all_known N (max_bits w) ts \<and> named N (max_bits w) ts \<subseteq> {..<p_ncaps (view k)} \<longrightarrow> r = Inr ()"
        using Cons.IH [of "after k e w"] Cons.prems d(2) u by (auto simp: same_caps_def)
      have "each_name N (drop_raised K p q) (t # ts) w = Some (r, after k' e' w)"
        using d(1) True ih(1) \<open>\<not> ?n < 0\<close> by (simp add: cap_from_name_eq)
      moreover have "dropped (named N (max_bits w) (t # ts)) ?u r (view k')"
        using dropped_step [of _ ?u "nat ?n" r "view k'"] ih(3) d(3) True nm \<open>\<not> ?n < 0\<close> by simp
      moreover have "can_drop q (view k) = can_drop q ?u" using u by (simp add: can_drop_def)
      ultimately show ?thesis using ih(2,4,5) nm u(4) \<open>\<not> ?n < 0\<close>
        by (intro exI [of _ r] exI [of _ k'] exI [of _ e']) (auto simp: all_known_def)
    qed
  qed
qed

end

context cred_abi
begin

lemma drop_supported_exec:
  assumes "pcap_ready CAP_SETPCAP w p q v" "same_caps v (view (kern w))" "wf_creds v" "p_ncaps v = p_ncaps (view (kern w))"
    "caller_ok K (multithread w) w" "valid (kern w)" "j \<le> p_ncaps (view (kern w))"
  shows "\<exists>r k e. drop_supported K p q j w = Some (r, after k e w) \<and> valid k
     \<and> dropped {j..<p_ncaps (view (kern w))} (view (kern w)) r (view k) \<and> (can_drop q (view (kern w)) \<longrightarrow> r = Inr ())"
  using assms
proof (induction "p_ncaps (view (kern w)) - j" arbitrary: j w)
  case 0
  then have j: "j = p_ncaps (view (kern w))" "int j < 2 ^ 64" using valid_wf [of "kern w"] by (auto simp: wf_creds_def)
  obtain k e where g: "cap_get_bound K (int j) w = (- 1, after k e w)" "valid k" "view k = view (kern w)"
    using 0 j by (elim get_bound [where c = "int j" and w = w]) auto
  then have "drop_supported K p q j w = Some (Inr (), after k e w)" by (subst drop_supported.simps) simp
  then show ?case using j g(2,3) by (intro exI [of _ "Inr ()"] exI [of _ k] exI [of _ e]) (simp add: dropped_def)
next
  case (Suc n)
  let ?u = "view (kern w)"
  have j: "j < p_ncaps ?u" "int j < 2 ^ 64" "{j..<p_ncaps ?u} = insert j {Suc j..<p_ncaps ?u}"
    using Suc.hyps(2) valid_wf [OF Suc.prems(6)] by (auto simp: wf_creds_def)
  obtain k e where g: "cap_get_bound K (int j) w = (of_bool (j \<in> p_bnd ?u), after k e w)" "valid k" "view k = ?u"
    using Suc.prems(6) j by (elim get_bound [where c = "int j" and w = w]) auto
  obtain b k2 e2 where d: "drop_raised K p q (int j) (after k e w) = Some (if b then Inr () else Inl (Exit 1), after k2 e2 w)" "valid k2"
    "view k2 = (if b then ?u\<lparr>p_bnd := p_bnd ?u - {j}\<rparr> else ?u)" "can_drop q ?u \<Longrightarrow> b"
  proof -
    have "\<exists>b k2 e2. drop_raised K p q (int j) (after k e w) = Some (if b then Inr () else Inl (Exit 1), after k2 e2 (after k e w)) \<and> valid k2
        \<and> view k2 = (if b then ?u\<lparr>p_bnd := p_bnd ?u - {nat (int j)}\<rparr> else ?u) \<and> (can_drop q ?u \<longrightarrow> int j < int (p_ncaps ?u) \<longrightarrow> b)"
      by (rule drop_raised_exec [where v = v]) (use Suc.prems g(2,3) j in simp_all)
    then show ?thesis using that j(1) unfolding after_simps nat_int of_nat_less_iff by blast
  qed
  have step: "drop_supported K p q j w = (if b then drop_supported K p q (Suc j) (after k2 e2 w) else Some (Inl (Exit 1), after k2 e2 w))"
    using g(1) d(1) by (subst drop_supported.simps) simp
  show ?case
  proof (cases b)
    case False
    then show ?thesis using step d(2-4) by (intro exI [of _ "Inl (Exit 1)"] exI [of _ k2] exI [of _ e2]) (auto simp: dropped_none)
  next
    case True
    have u: "p_eff (view k2) = p_eff ?u" "p_per (view k2) = p_per ?u" "p_inh (view k2) = p_inh ?u" "p_ncaps (view k2) = p_ncaps ?u"
      using d(3) True by auto
    have n: "n = p_ncaps (view k2) - Suc j" using Suc.hyps(2) u(4) by simp
    obtain r k' e' where ih: "drop_supported K p q (Suc j) (after k2 e2 w) = Some (r, after k' e' w)" "valid k'"
      "dropped {Suc j..<p_ncaps ?u} (view k2) r (view k')" "can_drop q (view k2) \<longrightarrow> r = Inr ()"
      using Suc.hyps(1) [of "after k2 e2 w" "Suc j"] n Suc.prems d(2) u j(1) by (auto simp: same_caps_def)
    have "dropped {j..<p_ncaps ?u} ?u r (view k')" using dropped_step [of _ ?u j r "view k'"] ih(3) d(3) True j(3) by simp
    moreover have "can_drop q (view k2) = can_drop q ?u" using u by (simp add: can_drop_def)
    ultimately show ?thesis using step True ih(1,2,4) by (intro exI [of _ r] exI [of _ k'] exI [of _ e']) auto
  qed
qed

text \<open>The two sets that \<^verbatim>\<open>push_pcap\<close> allocates, and their release.\<close>

definition release :: "addr \<Rightarrow> addr \<Rightarrow> 'k world \<Rightarrow> 'k world" where
  "release p q w = del_obj p (if q = NULL then w else del_obj q w)"

lemma pop_pcap_exec: "pcap_ready x w p q v \<Longrightarrow> pop_pcap p q w = Some (Inr (), release p q w)"
proof -
  assume r: "pcap_ready x w p q v"
  note p = cap_readyD [of w p "proc_cap v"] and q = cap_readyD [of w q "raised x v"]
  show ?thesis
  proof (cases "q = NULL")
    case True
    then show ?thesis using r p by (simp add: pop_pcap_def cap_free_NULL cap_free_set pcap_ready_def release_def)
  next
    case False
    then show ?thesis using r p q by (simp add: pop_pcap_def cap_free_set pcap_ready_def release_def)
  qed
qed

lemma will_need_setpcap_exec:
  assumes "wf_world w" "alloc_ok w" "valid (kern w)" "u = view (kern w)"
  shows "will_need_setpcap K strict w =
     (if strict then Some (Inr NULL, w)
      else if CAP_SETPCAP \<in> p_eff u then Some (Inr NULL, bumped w)
      else Some (Inr (next_ptr w), with_raised CAP_SETPCAP w))"
proof -
  let ?q = "next_ptr w" and ?c = "proc_cap u"
  let ?w = "new_obj ?q sizeof_cap_alloc_s (CapSet ?c) (bumped w)"
  have ready: "cap_ready ?w ?q ?c" using assms(1) by (simp add: ready_new)
  have "CAP_SETPCAP \<in> caps_of ?c CAP_EFFECTIVE \<longleftrightarrow> CAP_SETPCAP \<in> p_eff u"
    using caps_of_proc_cap(1) [of u] valid_wf [OF assms(3)] assms(4) by simp
  then have "isset_cap ?c CAP_SETPCAP 0 \<longleftrightarrow> CAP_SETPCAP \<in> p_eff u" by (simp add: caps_of_iff CAP_SETPCAP_def)
  then have "cap_get_flag ?q (int CAP_SETPCAP) (int CAP_EFFECTIVE) True ?w =
      Some ((0, Some (if CAP_SETPCAP \<in> p_eff u then CAP_SET else CAP_CLEAR)), ?w)"
    using cap_get_flag_exec [OF ready, of "int CAP_SETPCAP" 0] by (simp add: CAP_SETPCAP_def)
  moreover have "cap_set_flag ?q (int CAP_EFFECTIVE) 1 [int CAP_SETPCAP] CAP_SET ?w = Some (0, with_raised CAP_SETPCAP w)"
    using cap_set_flag_exec [OF ready, of 1 "[int CAP_SETPCAP]" 0 CAP_SET] assms(4) by (simp add: with_raised_def raised_def)
  moreover have "cap_free ?q ?w = Some (0, bumped w)"
    using cap_readyD [OF ready] wf_fresh [OF assms(1)] by (simp add: cap_free_set del_new)
  ultimately show ?thesis
    using cap_get_proc_exec [OF assms(3,2)] assms(4) cap_readyD(5) [OF ready] by (simp add: will_need_setpcap_def)
qed

end

context cred_abi
begin

lemma push_pcap_exec:
  assumes "wf_world w" "mem_ok w" "valid (kern w)" "u = view (kern w)"
  shows "\<exists>p q w1. push_pcap K strict w = Some (Inr (p, q), w1) \<and> pcap_ready CAP_SETPCAP w1 p q u
     \<and> (q = NULL \<longleftrightarrow> strict \<or> CAP_SETPCAP \<in> p_eff u) \<and> heap (release p q w1) = heap w
     \<and> kern w1 = kern w \<and> multithread w1 = multithread w \<and> overrode_syscalls w1 = overrode_syscalls w
     \<and> max_bits w1 = max_bits w \<and> mem_ok w1"
proof -
  let ?p = "next_ptr w"
  let ?w = "new_obj ?p sizeof_cap_alloc_s (CapSet (proc_cap u)) (bumped w)"
  let ?q = "next_ptr ?w"
  have wf1: "wf_world ?w" and ready: "cap_ready ?w ?p (proc_cap u)" using assms(1) by (simp_all add: ready_new wf_new_bumped)
  have pq: "?p \<noteq> ?q" "?p \<noteq> NULL" by (simp_all add: next_ptr_def)
  have get: "cap_get_proc K w = Some (?p, ?w)" using cap_get_proc_exec [OF assms(3)] assms(2,4) by simp
  have need: "will_need_setpcap K strict ?w = (if strict then Some (Inr NULL, ?w)
      else if CAP_SETPCAP \<in> p_eff u then Some (Inr NULL, bumped ?w) else Some (Inr ?q, with_raised CAP_SETPCAP ?w))"
    using will_need_setpcap_exec [OF wf1, of u strict] assms(2,3,4) by simp
  have free: "heap (del_obj ?p ?w) = heap w" "heap (del_obj ?p (bumped ?w)) = heap w"
    using wf_fresh [OF assms(1)] by (simp_all add: del_obj_def new_obj_def fun_upd_idem)
  consider "strict" | "\<not> strict" "CAP_SETPCAP \<in> p_eff u" | "\<not> strict" "CAP_SETPCAP \<notin> p_eff u" by blast
  then show ?thesis
  proof cases
    case 1
    then show ?thesis using get need ready pq free assms(2)
      by (intro exI [of _ ?p] exI [of _ NULL] exI [of _ ?w]) (simp add: push_pcap_def pcap_ready_def release_def)
  next
    case 2
    then show ?thesis using get need ready pq free assms(2)
      by (intro exI [of _ ?p] exI [of _ NULL] exI [of _ "bumped ?w"])
        (simp add: push_pcap_def pcap_ready_def release_def cap_ready_def wf_bumped)
  next
    case 3
    let ?r = "with_raised CAP_SETPCAP ?w"
    have "cap_ready ?r ?q (raised CAP_SETPCAP u)" using ready_raised [OF wf1, of CAP_SETPCAP] assms(4) by simp
    moreover have "cap_ready ?r ?p (proc_cap u)"
      using ready pq calculation assms(4) by (simp add: cap_ready_def with_raised_def)
    moreover have "heap (release ?p ?q ?r) = heap w"
      using del_raised [OF wf1, of CAP_SETPCAP] free pq by (simp add: release_def next_ptr_def)
    ultimately show ?thesis using 3 get need pq assms(2)
      by (intro exI [of _ ?p] exI [of _ ?q] exI [of _ ?r]) (simp add: push_pcap_def pcap_ready_def with_raised_def next_ptr_def)
  qed
qed

lemma release_after [simp]: "heap (release p q (after k e w)) = heap (release p q w)"
  "kern (release p q w) = kern w"
  by (simp_all add: release_def after_def del_obj_def)

end

context cred_abi
begin

lemma arg_drop_exec:
  assumes "names_abi N" "wf_world w" "mem_ok w" "valid (kern w)" "caller_ok K (multithread w) w"
    "u = view (kern w)" "ts = strtok_all '','' names"
    "S = (if names = ''all'' then {..<p_ncaps u} else named N (max_bits w) ts)"
    "known = (names = ''all'' \<or> all_known N (max_bits w) ts)"
  shows "\<exists>r w'. arg_drop K N strict names w = Some (r, w') \<and> dropped S u r (view (kern w'))
     \<and> (r = Inr () \<longrightarrow> known \<and> heap w' = heap w)
     \<and> ((CAP_SETPCAP \<in> p_eff u \<or> \<not> strict \<and> CAP_SETPCAP \<in> p_per u) \<and> known \<and> S \<subseteq> {..<p_ncaps u} \<longrightarrow> r = Inr ())"
proof -
  obtain p q w1 where push: "push_pcap K strict w = Some (Inr (p, q), w1)" "pcap_ready CAP_SETPCAP w1 p q u"
    "q = NULL \<longleftrightarrow> strict \<or> CAP_SETPCAP \<in> p_eff u" "heap (release p q w1) = heap w" "kern w1 = kern w"
    "multithread w1 = multithread w" "overrode_syscalls w1 = overrode_syscalls w" "max_bits w1 = max_bits w" "mem_ok w1"
    using push_pcap_exec [OF assms(2-4,6)] by blast
  have u: "wf_creds u" "same_caps u u" using valid_wf [OF assms(4)] assms(6) by (simp_all add: same_caps_def)
  have call: "caller_ok K (multithread w1) w1" using assms(5) push(6,7) by (simp add: caller_ok_def)
  have can: "can_drop q u \<longleftrightarrow> CAP_SETPCAP \<in> p_eff u \<or> \<not> strict \<and> CAP_SETPCAP \<in> p_per u"
    using push(3) by (auto simp: can_drop_def)
  obtain r k e w2 where run: "arg_drop K N strict names w = andthen (Some (r, after k e w2)) (\<lambda>_ w. pop_pcap p q w)"
    "pcap_ready CAP_SETPCAP w2 p q u" "heap (release p q w2) = heap w"
    "dropped S u r (view k)" "r = Inr () \<longrightarrow> known" "can_drop q u \<and> known \<and> S \<subseteq> {..<p_ncaps u} \<longrightarrow> r = Inr ()"
  proof (cases "names = ''all''")
    case True
    obtain r k e where d: "drop_supported K p q 0 w1 = Some (r, after k e w1)" "dropped {0..<p_ncaps u} u r (view k)" "can_drop q u \<longrightarrow> r = Inr ()"
      using drop_supported_exec [OF push(2), of 0] u call assms(4,6) push(5) by auto
    then show ?thesis using that [of r k e w1] True push(1,2,4) assms(8,9) by (auto simp: arg_drop_def atLeast0LessThan)
  next
    case False
    have r2: "pcap_ready CAP_SETPCAP (bumped w1) p q u" using push(2) by (simp add: pcap_ready_def cap_ready_def wf_bumped)
    obtain r k e where d: "each_name N (drop_raised K p q) ts (bumped w1) = Some (r, after k e (bumped w1))"
      "dropped S u r (view k)" "r = Inr () \<longrightarrow> known" "can_drop q u \<and> known \<and> S \<subseteq> {..<p_ncaps u} \<longrightarrow> r = Inr ()"
      using each_drop_exec [OF assms(1) r2, of ts] u call assms(4,6,8,9) push(5,8) False by auto
    have "heap (release p q (bumped w1)) = heap w" using push(4) by (simp add: release_def del_obj_def bumped_def split: if_splits)
    with d show ?thesis using that [of r k e "bumped w1"] False push(1,9) r2 assms(7) calloc_ok [of w1]
      by (auto simp: arg_drop_def)
  qed
  show ?thesis
  proof (cases "r = Inr ()")
    case True
    then have "arg_drop K N strict names w = Some (Inr (), release p q (after k e w2))"
      using run(1) pop_pcap_exec [of CAP_SETPCAP "after k e w2" p q u] run(2) by simp
    then show ?thesis using True run(3-6) can by (intro exI [of _ "Inr ()"] exI [of _ "release p q (after k e w2)"]) auto
  next
    case False
    then have "r = Inl (Exit 1)" using run(4) by (auto simp: dropped_def)
    then have "arg_drop K N strict names w = Some (Inl (Exit 1), after k e w2)" using run(1) by simp
    then show ?thesis using run(4,6) can \<open>r = Inl (Exit 1)\<close>
      by (intro exI [of _ "Inl (Exit 1)"] exI [of _ "after k e w2"]) auto
  qed
qed

end

text \<open>
  C34: \<^verbatim>\<open>capsh --drop=LIST\<close>, with \<^verbatim>\<open>CAP_SETPCAP\<close> raised around every drop: when the
  option succeeds, exactly the capabilities the list stands for (all the kernel knows for
  \<^verbatim>\<open>all\<close>) are gone from the bounding set, nothing else of the credentials has changed, and
  nothing is leaked; when it exits it exits with the status 1 and has dropped a part of them, and the
  effective set is as it was.  It succeeds for every list of known names when the capability
  is effective, or permitted and the program not \<^verbatim>\<open>--strict\<close>.
\<close>

theorem arg_drop_spec:
  assumes "cred_abi K view valid" "names_abi N" "wf_world w" "mem_ok w" "valid (kern w)" "caller_ok K (multithread w) w"
    "u = view (kern w)" "ts = strtok_all '','' names"
    "S = (if names = ''all'' then {..<p_ncaps u} else named N (max_bits w) ts)"
    "known = (names = ''all'' \<or> all_known N (max_bits w) ts)"
  shows "\<exists>r w'. arg_drop K N strict names w = Some (r, w') \<and> dropped S u r (view (kern w'))
     \<and> (r = Inr () \<longrightarrow> known \<and> heap w' = heap w)
     \<and> ((CAP_SETPCAP \<in> p_eff u \<or> \<not> strict \<and> CAP_SETPCAP \<in> p_per u) \<and> known \<and> S \<subseteq> {..<p_ncaps u} \<longrightarrow> r = Inr ())"
  using cred_abi.arg_drop_exec [OF assms] .

lemma linux_lookup:
  assumes "x < 41" "name_of linux_names x = s"
  shows "lookupname linux_names 41 s = (int x, [])"
  using linux_names.lookupname_name_of [of 41 x "[]"] assms by (simp add: readable_def linux_cap_names)

theorem arg_drop_spec_witness:
  "\<exists>w'. arg_drop linux_kernel linux_names False ''cap_chown,cap_setuid'' (machine root_linux) = Some (Inr (), w')
     \<and> p_bnd (lk_view (kern w')) = {..<41} - {0, 7} \<and> p_eff (lk_view (kern w')) = {..<41}"
proof -
  have t: "strtok_all '','' ''cap_chown,cap_setuid'' = [''cap_chown'', ''cap_setuid'']" by code_simp
  have l: "lookupname linux_names 41 ''cap_chown'' = (int 0, [])" "lookupname linux_names 41 ''cap_setuid'' = (int 7, [])"
    by (rule linux_lookup; simp add: name_of_def linux_cap_names linux_cap_list_def)+
  then have n: "named linux_names 41 [''cap_chown'', ''cap_setuid''] = {0, 7}" "all_known linux_names 41 [''cap_chown'', ''cap_setuid'']"
    by (simp_all add: named_Cons all_known_def)
  obtain r w' where "arg_drop linux_kernel linux_names False ''cap_chown,cap_setuid'' (machine root_linux) = Some (r, w')"
    "dropped {0, 7} (lk_view root_linux) r (lk_view (kern w'))" "r = Inr ()"
    using arg_drop_spec [OF linux.cred_abi_axioms linux_names.names_abi_axioms wf_machine mem_ok_machine(1) _ caller_ok_machine(1) refl refl refl refl,
        of root_linux False "''cap_chown,cap_setuid''"] root_valid n t
    by (auto simp: lk_view_def root_linux_def plain_linux_def CAP_SETPCAP_def)
  then show ?thesis by (auto simp: dropped_def lk_view_def root_linux_def plain_linux_def)
qed

section \<open>Changing the root\<close>

text \<open>What \<^verbatim>\<open>--chroot\<close> may leave behind.\<close>

definition rooted :: "string \<Rightarrow> creds \<Rightarrow> capsh_end + unit \<Rightarrow> creds \<Rightarrow> bool" where
  "rooted path u r v \<longleftrightarrow> r = Inr () \<and> v = u\<lparr>p_root := path\<rparr> \<or> r = Inl (Exit 1) \<and> (v = u \<or> v = u\<lparr>p_root := path\<rparr>)"

context cred_abi
begin

lemma chroot_call:
  assumes "valid (kern w)"
  shows "\<exists>s k e. libc K (SysChroot path) w = (s, after k e w) \<and> valid k
     \<and> view k = (if s = 0 then (view (kern w))\<lparr>p_root := path\<rparr> else view (kern w))"
  using plain_call [OF posix_libc_syscall assms, of "SysChroot path" "\<lambda>v. v\<lparr>p_root := path\<rparr>"]
  by (auto simp: libc_def cap_post_def)

lemma chdir_call:
  assumes "valid (kern w)"
  shows "\<exists>s k e. kcall (k_chdir_root K) w = (s, after k e w) \<and> valid k \<and> view k = view (kern w)"
proof -
  obtain r k where k: "k_chdir_root K (kern w) = (r, k)" by fastforce
  have "kcall (k_chdir_root K) w = (if r < 0 then - 1 else r, after k (if r < 0 then - r else errno w) w)"
    using k by (simp add: kcall_def libc_ret_def after_def)
  with chdir_root [OF assms k] show ?thesis by blast
qed

text \<open>From the raised set on: \<open>p\<close> holds the process's own set, \<open>q\<close> the raised one.\<close>

lemma chroot_tail:
  assumes "cap_ready w p (proc_cap u)" "cap_ready w q (raised x u)" "p \<noteq> q" "valid (kern w)" "caller_ok K (multithread w) w"
    "u = view (kern w)" "x < 64"
  shows "\<exists>r w'. do {
       (r, w) \<leftarrow> cap_set_proc K q w;
       if r \<noteq> 0 then exit_with 1 w
       else do {
         (_, w) \<leftarrow> cap_free q w;
         (status, w) \<leftarrow> Some (libc K (SysChroot path) w);
         (r, w) \<leftarrow> cap_set_proc K p w;
         if r \<noteq> 0 then exit_with 1 w
         else do {
           (status, w) \<leftarrow> Some (if status = 0 then kcall (k_chdir_root K) w else (status, w));
           (_, w) \<leftarrow> cap_free p w;
           if status \<noteq> 0 then exit_with 1 w else Some (Inr (), w) } } } = Some (r, w')
     \<and> rooted path u r (view (kern w')) \<and> (r = Inr () \<longrightarrow> heap w' = heap (del_obj p (del_obj q w)))"
proof -
  have wf: "wf_creds u" using valid_wf [OF assms(4)] assms(6) by simp
  note q = cap_readyD [OF assms(2)] and p = cap_readyD [OF assms(1)]
  obtain r k e where ra: "cap_set_proc K q w = Some (r, after k e w)" "valid k"
    "view k = u\<lparr>p_eff := (if r = 0 then insert x (p_eff u) \<inter> {..<p_ncaps u} else p_eff u)\<rparr>"
    using set_proc_eff [OF assms(2) _ assms(5,4)] caps_of_raised [OF wf assms(7)] assms(6) by auto
  show ?thesis
  proof (cases "r = 0")
    case False
    then show ?thesis using ra(1,3) by (auto simp: rooted_def)
  next
    case True
    let ?w1 = "del_obj q w"
    have free: "cap_free q (after k e w) = Some (0, after k e ?w1)" using q by (simp add: cap_free_set)
    have r1: "cap_ready ?w1 p (proc_cap u)" using assms(1,3) q(3) by (simp add: cap_ready_def wf_world_del)
    obtain s k2 e2 where c: "libc K (SysChroot path) (after k e ?w1) = (s, after k2 e2 ?w1)" "valid k2"
      "view k2 = (if s = 0 then (view k)\<lparr>p_root := path\<rparr> else view k)"
      using chroot_call [of "after k e ?w1" path] ra(2) by auto
    have f: "p_per u = p_per (view k2)" "p_inh u = p_inh (view k2)" "p_ncaps u = p_ncaps (view k2)" using c(3) ra(3) by auto
    have "pcap_ready x (after k2 e2 ?w1) p NULL u" using r1 p(5) by (simp add: pcap_ready_def)
    from restore_step [OF this] obtain k3 e3 where l: "cap_set_proc K p (after k2 e2 ?w1) = Some (0, after k3 e3 ?w1)" "valid k3"
      "view k3 = (view k2)\<lparr>p_eff := p_eff u\<rparr>"
      using c(2) f wf assms(5) by auto
    have v3: "view k3 = (if s = 0 then u\<lparr>p_root := path\<rparr> else u)" using l(3) c(3) ra(3) by auto
    obtain s2 k4 e4 where d: "(if s = 0 then kcall (k_chdir_root K) (after k3 e3 ?w1) else (s, after k3 e3 ?w1)) = (s2, after k4 e4 ?w1)"
      "view k4 = view k3" "s2 = 0 \<Longrightarrow> s = 0"
      using chdir_call [of "after k3 e3 ?w1"] l(2) by (cases "s = 0") auto
    have "cap_free p (after k4 e4 ?w1) = Some (0, after k4 e4 (del_obj p ?w1))"
      using cap_readyD [OF r1] by (simp add: cap_free_set)
    with ra(1) True free c(1) l(1) d show ?thesis using v3 by (auto simp: rooted_def)
  qed
qed

end

text \<open>
  C35: \<^verbatim>\<open>capsh --chroot=PATH\<close> raises \<^verbatim>\<open>CAP_SYS_CHROOT\<close> for the call only: whether it
  succeeds or exits, the capability sets, the identity and the securebits are those it started with.
  On success the root is \<open>PATH\<close> and nothing is leaked; an exit has the status 1, and leaves
  the root alone unless only the change of the directory failed.
\<close>

theorem arg_chroot_spec:
  assumes "cred_abi K view valid" "wf_world w" "mem_ok w" "valid (kern w)" "caller_ok K (multithread w) w"
  shows "\<exists>r w'. arg_chroot K path w = Some (r, w') \<and> rooted path (view (kern w)) r (view (kern w'))
     \<and> (r = Inr () \<longrightarrow> heap w' = heap w)"
proof -
  let ?u = "view (kern w)" and ?p = "next_ptr w"
  let ?w1 = "new_obj ?p sizeof_cap_alloc_s (CapSet (proc_cap ?u)) (bumped w)"
  let ?c = "set_flag_loop [int CAP_SYS_CHROOT] CAP_EFFECTIVE CAP_SET (proc_cap ?u)"
  define q where "q = next_ptr ?w1"
  define w2 where "w2 = new_obj q sizeof_cap_alloc_s (CapSet (proc_cap ?u)) (bumped ?w1)"
  let ?w3 = "put_obj q (CapSet ?c) w2"
  have wf1: "wf_world ?w1" using assms(2) by (simp add: wf_new_bumped)
  have wf2: "wf_world w2" unfolding w2_def q_def by (intro wf_new_bumped wf1) simp
  have pq: "?p \<noteq> q" "?p \<noteq> NULL" "q \<noteq> NULL" by (simp_all add: next_ptr_def q_def)
  have get: "cap_get_proc K w = Some (?p, ?w1)" using cred_abi.cap_get_proc_exec [OF assms(1,4)] assms(3) by simp
  have dup: "cap_dup K ?p ?w1 = Some (q, w2)"
    using capget_abi.cap_dup_ok [OF cred_abi.axioms(1) [OF assms(1)] wf1, of ?p "proc_cap ?u"] assms(3) by (simp add: w2_def q_def)
  have r2: "cap_ready w2 q (proc_cap ?u)" "cap_ready w2 ?p (proc_cap ?u)" "kern w2 = kern w" "multithread w2 = multithread w"
    "caller_ok K sc w2 = caller_ok K sc w" for sc
    using wf2 pq by (simp_all add: cap_ready_def w2_def)
  have flag: "cap_set_flag q (int CAP_EFFECTIVE) 1 [int CAP_SYS_CHROOT] CAP_SET w2 = Some (0, ?w3)"
    using cap_set_flag_exec [OF r2(1), of 1 "[int CAP_SYS_CHROOT]" 0 CAP_SET] by simp
  have r3: "cap_ready ?w3 q ?c" "cap_ready ?w3 ?p (proc_cap ?u)"
    using r2(1,2) pq by (simp_all add: cap_ready_put) (simp add: cap_ready_def wf_world_put)
  have "heap (del_obj ?p (del_obj q ?w3)) = heap w"
    using wf_fresh [OF assms(2)] wf_fresh [OF wf1] pq
    by (simp add: del_obj_def new_obj_def put_obj_def fun_upd_idem w2_def q_def)
  moreover have "\<exists>r w'. arg_chroot K path w = Some (r, w') \<and> rooted path ?u r (view (kern w'))
     \<and> (r = Inr () \<longrightarrow> heap w' = heap (del_obj ?p (del_obj q ?w3)))"
    using cred_abi.chroot_tail [OF assms(1) r3(2) _ pq(1), of CAP_SYS_CHROOT path] r3(1) assms(4,5) get dup flag pq r2(3-5)
    by (simp add: arg_chroot_def cred_abi.raised_def [OF assms(1)] CAP_SYS_CHROOT_def)
  ultimately show ?thesis by metis
qed

theorem arg_chroot_spec_witness:
  "\<exists>r w'. arg_chroot linux_kernel ''/jail'' (machine root_linux) = Some (r, w') \<and> p_eff (lk_view (kern w')) = {..<41}
     \<and> (r = Inr () \<longrightarrow> p_root (lk_view (kern w')) = ''/jail'')"
proof -
  obtain r w' where "arg_chroot linux_kernel ''/jail'' (machine root_linux) = Some (r, w')" "rooted ''/jail'' (lk_view root_linux) r (lk_view (kern w'))"
    using arg_chroot_spec [OF linux.cred_abi_axioms wf_machine mem_ok_machine(1), of root_linux "''/jail''"] root_valid caller_ok_machine(1)
    by auto
  then show ?thesis by (auto simp: rooted_def lk_view_def root_linux_def plain_linux_def)
qed

section \<open>Tests\<close>

text \<open>A test that goes on exactly when \<open>b\<close> holds, exits with the status 1 otherwise, and changes nothing.\<close>

definition answers :: "('k \<Rightarrow> creds) \<Rightarrow> bool \<Rightarrow> (unit, 'k) run \<Rightarrow> 'k world \<Rightarrow> bool" where
  "answers view b m w \<longleftrightarrow> (\<exists>w'. m = Some (if b then Inr () else Inl (Exit 1), w') \<and> view (kern w') = view (kern w))"

lemma with_cap_eq:
  "lookupname N (max_bits w) nm = (int n, rest) \<Longrightarrow> with_cap N nm f w = f (int n) w"
  by (simp add: with_cap_def cap_from_name_eq)

context cred_abi
begin

lemma has_flag_exec:
  assumes "wf_world w" "alloc_ok w" "valid (kern w)" "n < 64" "s < 3"
  shows "answers view (n \<in> caps_of (proc_cap (view (kern w))) s)
     (do { (orig, w) \<leftarrow> cap_get_proc K w;
           if orig = NULL then exit_with 1 w
           else do {
             ((r, enabled), w) \<leftarrow> cap_get_flag orig (int n) (int s) True w;
             if r \<noteq> 0 then exit_with 1 w
             else do {
               enabled \<leftarrow> enabled;
               if enabled = 0 then exit_with 1 w
               else do { (_, w) \<leftarrow> cap_free orig w; Some (Inr (), w) } } } }) w"
proof -
  let ?q = "next_ptr w" and ?c = "proc_cap (view (kern w))"
  let ?w = "new_obj ?q sizeof_cap_alloc_s (CapSet ?c) (bumped w)"
  have ready: "cap_ready ?w ?q ?c" using assms(1) by (simp add: ready_new)
  note q = cap_readyD [OF ready]
  have "cap_get_flag ?q (int n) (int s) True ?w = Some ((0, Some (if isset_cap ?c n s then CAP_SET else CAP_CLEAR)), ?w)"
    using cap_get_flag_exec [OF ready, of "int n" "int s"] assms(4,5) by simp
  moreover have "cap_free ?q ?w = Some (0, del_obj ?q ?w)" using q by (simp add: cap_free_set)
  ultimately show ?thesis
    using cap_get_proc_exec [OF assms(3,2)] q(5) assms(4) by (simp add: answers_def caps_of_iff)
qed

end

text \<open>
  C38: the tests of \<^verbatim>\<open>capsh\<close> on a name that the library knows as capability \<open>n\<close>:
  \<^verbatim>\<open>--has-p\<close>, \<^verbatim>\<open>--has-i\<close>, \<^verbatim>\<open>--supports\<close> and \<^verbatim>\<open>--dropped\<close> answer what they
  are asked and change nothing.  \<^verbatim>\<open>--has-a\<close> and \<^verbatim>\<open>--has-b\<close> test that the capability is
  in the ambient or the bounding set, but also pass for every capability that the running kernel
  does not know: they take the error of the query for a positive answer.
\<close>

theorem capsh_tests:
  assumes "cred_abi K view valid" "wf_world w" "mem_ok w" "valid (kern w)" "lookupname N (max_bits w) nm = (int n, rest)" "n < 64"
    "u = view (kern w)"
  shows "answers view (n \<in> p_per u) (arg_has_flag K N CAP_PERMITTED nm w) w
     \<and> answers view (n \<in> p_inh u) (arg_has_flag K N CAP_INHERITABLE nm w) w
     \<and> answers view (n < p_ncaps u) (arg_supports K N nm w) w
     \<and> answers view (n \<notin> p_bnd u) (arg_dropped K N nm w) w
     \<and> answers view (n \<in> p_amb u \<or> p_ncaps u \<le> n) (arg_has_a K N nm w) w
     \<and> answers view (n \<in> p_bnd u \<or> p_ncaps u \<le> n) (arg_has_b K N nm w) w"
proof (intro conjI)
  have wf: "wf_creds u" using cred_abi.valid_wf [OF assms(1,4)] assms(7) by simp
  note f = cred_abi.has_flag_exec [OF assms(1,2) _ assms(4,6)] and c = caps_of_proc_cap [OF wf] and w = with_cap_eq [OF assms(5)]
  show "answers view (n \<in> p_per u) (arg_has_flag K N CAP_PERMITTED nm w) w"
    using f [of CAP_PERMITTED] c(2) assms(3,7) by (simp add: arg_has_flag_def w)
  show "answers view (n \<in> p_inh u) (arg_has_flag K N CAP_INHERITABLE nm w) w"
    using f [of CAP_INHERITABLE] c(3) assms(3,7) by (simp add: arg_has_flag_def w)
  have n: "0 \<le> int n" "int n < 2 ^ 64" using assms(6) by simp_all
  obtain k e where b: "cap_get_bound K (int n) w = (if n < p_ncaps u then of_bool (n \<in> p_bnd u) else - 1, after k e w)" "view k = u"
    by (rule cred_abi.get_bound [OF assms(1,4) n]) (simp add: assms(7))
  obtain ka ea where a: "cap_get_ambient K (int n) w = (if n < p_ncaps u then of_bool (n \<in> p_amb u) else - 1, after ka ea w)" "view ka = u"
    by (rule cred_abi.get_ambient [OF assms(1,4) n]) (simp add: assms(7))
  have nb: "n \<in> p_bnd u \<Longrightarrow> n < p_ncaps u" "n \<in> p_amb u \<Longrightarrow> n < p_ncaps u" using wf by (auto simp: wf_creds_def)
  show "answers view (n < p_ncaps u) (arg_supports K N nm w) w"
    using b assms(7) by (simp add: answers_def arg_supports_def w)
  show "answers view (n \<notin> p_bnd u) (arg_dropped K N nm w) w"
    using b assms(5,7) nb by (auto simp: answers_def arg_dropped_def cap_from_name_eq)
  show "answers view (n \<in> p_amb u \<or> p_ncaps u \<le> n) (arg_has_a K N nm w) w"
    using a assms(7) nb by (auto simp: answers_def arg_has_a_def w)
  show "answers view (n \<in> p_bnd u \<or> p_ncaps u \<le> n) (arg_has_b K N nm w) w"
    using b assms(7) nb by (auto simp: answers_def arg_has_b_def w)
qed

theorem capsh_tests_witness:
  "answers lk_view True (arg_has_flag linux_kernel linux_names CAP_PERMITTED ''cap_setuid'' (machine root_linux)) (machine root_linux)
   \<and> answers lk_view False (arg_has_a linux_kernel linux_names ''cap_setuid'' (machine root_linux)) (machine root_linux)
   \<and> answers lk_view True (arg_has_b linux_kernel linux_names ''cap_setuid'' (machine root_linux)) (machine root_linux)"
proof -
  have "lookupname linux_names 41 ''cap_setuid'' = (int 7, [])"
    by (rule linux_lookup; simp add: name_of_def linux_cap_names linux_cap_list_def)
  then have l: "lookupname linux_names (max_bits (machine root_linux)) ''cap_setuid'' = (int 7, [])" by simp
  have v: "lk_valid (kern (machine root_linux))" using root_valid by simp
  have u: "7 \<in> p_per (lk_view root_linux)" "7 \<notin> p_amb (lk_view root_linux)" "7 \<in> p_bnd (lk_view root_linux)" "7 < p_ncaps (lk_view root_linux)"
    by (simp_all add: lk_view_def root_linux_def plain_linux_def)
  from capsh_tests [OF linux.cred_abi_axioms wf_machine mem_ok_machine(1) v l _ refl] u show ?thesis by simp
qed

section \<open>Decoding\<close>

text \<open>A comma separated list of names.\<close>

fun listing :: "names_h \<Rightarrow> string \<Rightarrow> nat list \<Rightarrow> string" where
  "listing N sep [] = []"
| "listing N sep (x # xs) = sep @ name_of N x @ listing N '','' xs"

context names_abi
begin

lemma name_or_number_exec:
  assumes "wf_world w" "mem_ok w" "cap < 64"
  shows "\<exists>n. name_or_number N cap w = Some (name_of N cap, bumps n w)"
proof -
  obtain v where v: "cap_to_name N (int cap) w =
      (next_ptr v, new_obj (next_ptr v) (strdup_size (name_of N cap)) (CapStr (name_of N cap)) (bumped v))" "v = w \<or> v = bumped w"
    using cap_to_name_ok [OF assms(2), of cap] assms(3) by auto
  let ?p = "next_ptr v"
  have wf: "wf_world v" using v(2) assms(1) by (auto simp: wf_bumped)
  have p: "?p \<noteq> NULL" "?p mod 8 = 0" by (simp_all add: next_ptr_def)
  have "cap_free ?p (snd (cap_to_name N (int cap) w)) = Some (0, bumped v)"
    using p wf_fresh [OF wf] v(1) by (simp add: cap_free_str del_new)
  moreover have "bumped v = bumps (if v = w then 1 else 2) w" using v(2) by (auto simp: bumped_def bumps_def)
  ultimately show ?thesis using v(1) p by (auto simp: name_or_number_def get_str_def)
qed

lemma decode_loop_exec:
  assumes "wf_world w" "mem_ok w"
  shows "\<exists>n. decode_loop N v cap sep out w = Some (out @ listing N sep (filter (bit v) [cap..<64]), bumps n w)"
  using assms
proof (induction "64 - cap" arbitrary: cap sep out w)
  case 0
  then show ?case by (subst decode_loop.simps) (auto intro: exI [of _ 0] simp: bumps_def)
next
  case (Suc m)
  then have c: "cap < 64" "m = 64 - Suc cap" "[cap..<64] = cap # [Suc cap..<64]" by (simp_all add: upt_conv_Cons)
  consider "drop_bit cap v = 0" | "drop_bit cap v \<noteq> 0" "bit v cap" | "drop_bit cap v \<noteq> 0" "\<not> bit v cap" by blast
  then show ?case
  proof cases
    case 1
    then have "\<not> bit v x" if "cap \<le> x" for x
      using that bit_drop_bit_eq [of cap v] by (metis bit_0_eq bot_apply bot_bool_def comp_apply le_add_diff_inverse)
    then have "filter (bit v) [cap..<64] = []" by (simp add: filter_empty_conv)
    then show ?thesis using 1 by (subst decode_loop.simps) (auto intro: exI [of _ 0] simp: bumps_def)
  next
    case 2
    obtain n where s: "name_or_number N cap w = Some (name_of N cap, bumps n w)"
      using name_or_number_exec [OF Suc.prems c(1)] by blast
    obtain n' where "decode_loop N v (Suc cap) '','' (out @ sep @ name_of N cap) (bumps n w) =
        Some ((out @ sep @ name_of N cap) @ listing N '','' (filter (bit v) [Suc cap..<64]), bumps n' (bumps n w))"
      using Suc.hyps(1) [OF c(2), of "bumps n w" "'',''" "out @ sep @ name_of N cap"] Suc.prems by auto
    then show ?thesis using 2 s c by (subst decode_loop.simps) auto
  next
    case 3
    then show ?thesis using Suc.hyps(1) [OF c(2) Suc.prems] c by (subst decode_loop.simps) auto
  qed
qed

end

text \<open>
  A text that stands for the number \<open>v\<close> in base 16 as \<^verbatim>\<open>strtoull\<close> has it: white space,
  a sign, the prefix \<^verbatim>\<open>0x\<close>, all of them optional, and digits; a minus sign negates in 64
  bits.  The program refuses a minus sign at the front of the text, but not one behind white space.
\<close>

definition hex_number :: "string \<Rightarrow> nat \<Rightarrow> bool" where
  "hex_number s v \<longleftrightarrow> (\<exists>ws sg pre ds. s = ws @ sg @ pre @ ds \<and> list_all isspace ws
     \<and> sg \<in> {[], ''+'', ''-''} \<and> (ws = [] \<longrightarrow> sg \<noteq> ''-'') \<and> pre \<in> {[], ''0x'', ''0X''}
     \<and> ds \<noteq> [] \<and> list_all (\<lambda>c. digit_val c < 16) ds \<and> digits_value 16 ds \<le> ULONG_MAX
     \<and> v = (if sg = ''-'' \<and> digits_value 16 ds \<noteq> 0 then 2 ^ 64 - digits_value 16 ds else digits_value 16 ds))"

lemma tolower_x: "tolower c = CHR ''x'' \<longleftrightarrow> c = CHR ''x'' \<or> c = CHR ''X''"
proof
  assume a: "tolower c = CHR ''x''"
  show "c = CHR ''x'' \<or> c = CHR ''X''"
  proof (cases "isupper c")
    case True
    then have u: "code c \<le> 90" "char_of (code c + 32) = CHR ''x''" using a by (simp_all add: tolower_def isupper_def)
    have "code (char_of (code c + 32)) = code c + 32" using u(1) by (simp only: of_char_of) simp
    then have "code c = code CHR ''X''" unfolding u(2) by simp
    then show ?thesis unfolding of_char_eq_iff by simp
  qed (use a in simp)
next
  have "char_of (120 :: nat) = CHR ''x''" by code_simp
  then show "c = CHR ''x'' \<or> c = CHR ''X'' \<Longrightarrow> tolower c = CHR ''x''"
    by (auto simp: tolower_def isupper_def)
qed

lemma hex_prefix_cases:
  assumes "strtoul_base 16 s = (b, s')"
  shows "b = 16" "\<exists>pre \<in> {[], ''0x'', ''0X''}. s = pre @ s'"
proof -
  show "b = 16" using assms by (auto simp: strtoul_base_def split: if_splits)
  show "\<exists>pre \<in> {[], ''0x'', ''0X''}. s = pre @ s'"
  proof (cases "s' = s")
    case False
    then have d: "deref s = CHR ''0''" "tolower (deref (tl s)) = CHR ''x''" "s' = drop 2 s"
      using assms by (auto simp: strtoul_base_def split: if_splits)
    then have ne: "s \<noteq> []" "tl s \<noteq> []" unfolding tolower_x by (auto simp: NUL_def)
    then obtain a b r where "s = a # b # r" by (cases s; cases "tl s") auto
    with d show ?thesis unfolding tolower_x by auto
  qed auto
qed

lemma hex_digit_chars:
  assumes "digit_val c < 16"
  shows "\<not> isspace c" "c \<noteq> CHR ''-''" "c \<noteq> CHR ''+''" "tolower c \<noteq> CHR ''x''"
  using assms by (auto simp: digit_val_def ctype_defs tolower_x split: if_splits)

lemma strtoul_base_digits:
  assumes "pre \<in> {[], ''0x'', ''0X''}" "ds \<noteq> []" "list_all (\<lambda>c. digit_val c < 16) ds"
  shows "strtoul_base 16 (pre @ ds) = (16, ds)"
proof (cases "pre = []")
  case True
  have "tolower (deref (tl ds)) \<noteq> CHR ''x''"
  proof (cases "tl ds")
    case Nil
    then show ?thesis by (simp add: tolower_x NUL_def)
  next
    case (Cons a r)
    then have "digit_val a < 16" using assms(2,3) by (cases ds) auto
    then show ?thesis using Cons hex_digit_chars by simp
  qed
  with True show ?thesis by (simp add: strtoul_base_def)
next
  case False
  have "digit_val (deref ds) < 16" using assms(2,3) by (cases ds) auto
  with False assms(1) show ?thesis by (auto simp: strtoul_base_def tolower_x)
qed

lemma hex_ull_number:
  assumes "NUL \<notin> set s"
  shows "hex_ull s = Some v \<longleftrightarrow> hex_number s v"
proof
  assume h: "hex_ull s = Some v"
  define s1 where "s1 = dropWhile isspace s"
  define s2 where "s2 = (if deref s1 = CHR ''-'' \<or> deref s1 = CHR ''+'' then tl s1 else s1)"
  obtain b s3 where s3: "strtoul_base 16 s2 = (b, s3)" by force
  define ds where "ds = takeWhile (\<lambda>c. digit_val c < 16) s3"
  define sg where "sg = (if deref s1 = CHR ''-'' then ''-'' else if deref s1 = CHR ''+'' then ''+'' else [])"
  obtain pre where pre: "pre \<in> {[], ''0x'', ''0X''}" "s2 = pre @ s3" using hex_prefix_cases(2) [OF s3] by blast
  have first: "deref s \<noteq> NUL" "deref s \<noteq> CHR ''-''" using h by (auto simp: hex_ull_def split: if_splits)
  have run: "strtoul s 16 = (if ds = [] then (0, s, False) else if ULONG_MAX < digits_value 16 ds then (ULONG_MAX, drop (length ds) s3, True)
      else ((if deref s1 = CHR ''-'' \<and> digits_value 16 ds \<noteq> 0 then 2 ^ 64 - digits_value 16 ds else digits_value 16 ds), drop (length ds) s3, False))"
    using s3 hex_prefix_cases(1) [OF s3] by (simp add: strtoul_def Let_def s1_def [symmetric] s2_def [symmetric] ds_def [symmetric])
  have ne: "ds \<noteq> []" using h first run by (auto simp: hex_ull_def)
  have le: "\<not> ULONG_MAX < digits_value 16 ds" using h first run ne by (auto simp: hex_ull_def)
  have v: "v = (if deref s1 = CHR ''-'' \<and> digits_value 16 ds \<noteq> 0 then 2 ^ 64 - digits_value 16 ds else digits_value 16 ds)"
    and rest: "deref (drop (length ds) s3) = NUL"
    using h first run ne le by (auto simp: hex_ull_def split: if_splits)
  have s1: "s = takeWhile isspace s @ s1" by (simp add: s1_def)
  have s12: "s1 = sg @ s2" by (cases s1) (auto simp: s2_def sg_def NUL_def)
  have "set s3 \<subseteq> set s" using s1 s12 pre(2) by (metis set_append sup_ge2 sup.coboundedI2)
  then have "drop (length ds) s3 = []" using rest assms set_drop_subset [of "length ds" s3] by (cases "drop (length ds) s3") auto
  then have s3ds: "s3 = ds" unfolding ds_def by (metis append_Nil2 takeWhile_dropWhile_id dropWhile_eq_drop)
  have all: "list_all (\<lambda>c. digit_val c < 16) ds" unfolding ds_def list_all_iff using set_takeWhileD by fastforce
  have "takeWhile isspace s = [] \<longrightarrow> sg \<noteq> ''-''" using first(2) s1 by (auto simp: sg_def)
  moreover have "s = takeWhile isspace s @ sg @ pre @ ds" using s1 s12 pre(2) s3ds by simp
  moreover have "list_all isspace (takeWhile isspace s)" by (auto simp: list_all_iff dest: set_takeWhileD)
  moreover have "sg \<in> {[], ''+'', ''-''}" "(deref s1 = CHR ''-'') = (sg = ''-'')" by (simp_all add: sg_def)
  ultimately show "hex_number s v"
    unfolding hex_number_def using pre(1) ne all le v by (metis not_le_imp_less)
next
  assume "hex_number s v"
  then obtain ws sg pre ds where g: "s = ws @ sg @ pre @ ds" "list_all isspace ws" "sg \<in> {[], ''+'', ''-''}" "ws = [] \<longrightarrow> sg \<noteq> ''-''"
    "pre \<in> {[], ''0x'', ''0X''}" "ds \<noteq> []" "list_all (\<lambda>c. digit_val c < 16) ds" "digits_value 16 ds \<le> ULONG_MAX"
    "v = (if sg = ''-'' \<and> digits_value 16 ds \<noteq> 0 then 2 ^ 64 - digits_value 16 ds else digits_value 16 ds)"
    unfolding hex_number_def by blast
  define r where "r = pre @ ds"
  obtain c r' where r: "r = c # r'" "\<not> isspace c" "c \<noteq> CHR ''-''" "c \<noteq> CHR ''+''"
    using g(5-7) hex_digit_chars [of "hd ds"] by (cases ds) (auto simp: r_def ctype_defs)
  have s1: "dropWhile isspace s = sg @ r"
    using g(1-3) r by (auto simp: r_def [symmetric] dropWhile_append list_all_iff isspace_def)
  have tw: "takeWhile (\<lambda>c. digit_val c < 16) ds = ds" using g(7) by (simp add: takeWhile_eq_all_conv list_all_iff)
  have neg: "deref (sg @ r) = CHR ''-'' \<longleftrightarrow> sg = ''-''" "(if deref (sg @ r) = CHR ''-'' \<or> deref (sg @ r) = CHR ''+'' then tl (sg @ r) else sg @ r) = r"
    using g(3) r by auto
  have "strtoul s 16 = (v, [], False)"
    using g(6,8,9) tw strtoul_base_digits [OF g(5-7)] neg unfolding r_def [symmetric]
    by (simp only: strtoul_def Let_def s1 r_def [symmetric] prod.case) (simp add: not_less)
  moreover have "deref s \<noteq> NUL \<and> deref s \<noteq> CHR ''-''"
  proof (cases ws)
    case Nil
    then show ?thesis using g(1,3,4) r assms by (cases s) (auto simp: r_def [symmetric])
  next
    case (Cons a u)
    then show ?thesis using g(1,2) by (auto simp: isspace_def NUL_def)
  qed
  ultimately show "hex_ull s = Some v" by (simp add: hex_ull_def)
qed

text \<open>
  C37: \<^verbatim>\<open>capsh --decode=HEX\<close> lists the set bits.  A text that is a number in base 16 (white
  space, sign, \<^verbatim>\<open>0x\<close> and digits up to 64 bits, see \<open>hex_number\<close>) is printed with 16
  digits and then the names of exactly the capabilities whose bit is set, in ascending order, and
  nothing is leaked; for every other text, the empty one, one with characters left over, one too large
  and one that starts with a minus sign included, it exits with the status 1.  A minus sign behind
  white space is accepted and negates the number in 64 bits.
\<close>

theorem arg_decode_spec:
  assumes "names_abi N" "wf_world w" "mem_ok w" "NUL \<notin> set text"
  shows "\<exists>w'. heap w' = heap w \<and> kern w' = kern w
     \<and> (\<forall>v. hex_number text v \<longrightarrow> arg_decode N text w =
          Some (Inr (''0x'' @ zero_pad 16 (show_base 16 v) @ ''='' @ listing N [] (filter (bit v) [0..<64]) @ newline), w'))
     \<and> ((\<nexists>v. hex_number text v) \<longrightarrow> arg_decode N text w = Some (Inl (Exit 1), w'))"
proof (cases "hex_ull text")
  case None
  then have "\<not> hex_number text v" for v using hex_ull_number [OF assms(4)] by simp
  with None show ?thesis by (intro exI [of _ w]) (simp add: arg_decode_def)
next
  case (Some v)
  obtain n where "decode_loop N v 0 [] (''0x'' @ zero_pad 16 (show_base 16 v) @ ''='') w =
      Some ((''0x'' @ zero_pad 16 (show_base 16 v) @ ''='') @ listing N [] (filter (bit v) [0..<64]), bumps n w)"
    using names_abi.decode_loop_exec [OF assms(1-3)] by blast
  moreover have "hex_number text u \<longleftrightarrow> u = v" for u by (auto simp: hex_ull_number [OF assms(4), symmetric] Some)
  ultimately show ?thesis using Some by (intro exI [of _ "bumps n w"]) (simp add: arg_decode_def)
qed

theorem arg_decode_spec_witness:
  "\<exists>w'. arg_decode linux_names ''81'' (machine root_linux) = Some (Inr (''0x0000000000000081=cap_chown,cap_setuid'' @ newline), w')"
proof -
  have "ULONG_MAX \<ge> 129" by (simp add: ULONG_MAX_def)
  then have h: "hex_number ''81'' 129"
    unfolding hex_number_def by (intro exI [of _ "[]"] exI [of _ "''81''"]) (simp add: digits_value_def digit_val_def ctype_defs)
  have f: "filter (bit (129 :: nat)) [0..<64] = [0, 7]" by (simp add: upt_rec bit_0)
  have c: "char_of (49 :: nat) = CHR ''1''" "char_of (56 :: nat) = CHR ''8''" by code_simp+
  have "show_base 16 129 = show_base 16 8 @ [CHR ''1'']" "show_base 16 8 = [CHR ''8'']"
    by (subst show_base.simps, simp add: base_digit_def c)+
  then have z: "zero_pad 16 (show_base 16 129) = ''0000000000000081''" by (simp add: zero_pad_def numeral_eq_Suc)
  have n: "name_of linux_names 0 = ''cap_chown''" "name_of linux_names 7 = ''cap_setuid''"
    by (simp_all add: name_of_def linux_cap_names linux_cap_list_def)
  from arg_decode_spec [OF linux_names.names_abi_axioms wf_machine mem_ok_machine(1), of "''81''" root_linux] h f z n
  show ?thesis by (auto simp: NUL_def)
qed

section \<open>Becoming a user\<close>

text \<open>The credentials after \<^verbatim>\<open>--user\<close> went on.\<close>

definition became :: "u32 \<Rightarrow> u32 \<Rightarrow> u32 list \<Rightarrow> creds \<Rightarrow> creds \<Rightarrow> bool" where
  "became uid gid groups u v \<longleftrightarrow> p_uid v = uid \<and> p_gid v = gid \<and> p_groups v = groups \<and> p_eff v = {} \<and> p_inh v = p_inh u
     \<and> (\<not> bit (p_sbits u) 5 \<longrightarrow> p_per v = p_per u)"

lemma set_user_env_result: "\<exists>r. set_user_env H user dir st w = Some (r, w) \<and> (r = Inl (Exit 1) \<or> (\<exists>st'. r = Inr st'))"
  by (simp add: set_user_env_def)

text \<open>
  C36: \<^verbatim>\<open>capsh --user=NAME\<close> always comes to an end; when it goes on, the process has the uid, the
  gid and the groups of the user database and no other, an empty effective set, its old inheritable
  set, and its old permitted set unless the keep-caps bit is locked.  Every exit has the status 1, and
  once the groups were attempted, the effective set is empty as well.  A user without groups, or
  with more than 100, is refused before anything is changed.
\<close>

theorem arg_user_spec:
  assumes "cred_abi K view valid" "wf_world w" "mem_ok w" "valid (kern w)" "caller_ok K (multithread w) w"
    "h_getpwnam H user = Some (uid, gid, dir)" "groups = h_getgrouplist H user gid"
  shows "\<exists>r w'. arg_user K H user st w = Some (r, w') \<and> heap w' = heap w \<and> (r = Inl (Exit 1) \<or> (\<exists>st'. r = Inr st'))
     \<and> (if groups = [] \<or> length groups > MAX_GROUPS then r = Inl (Exit 1) \<and> w' = w
        else p_eff (view (kern w')) = {} \<and> ((\<exists>st'. r = Inr st') \<longrightarrow> became uid gid groups (view (kern w)) (view (kern w'))))"
proof (cases "groups = [] \<or> length groups > MAX_GROUPS")
  case True
  then have "arg_user K H user st w = Some (Inl (Exit 1), w)" using assms(6,7) by (auto simp: arg_user_def)
  with True show ?thesis by simp
next
  case False
  then have n: "length groups \<le> MAX_GROUPS" "groups \<noteq> []" by simp_all
  let ?u = "view (kern w)"
  obtain r1 k1 e1 g l where g: "cap_setgroups K gid (int (length groups)) (Some groups) w = Some (r1, after k1 e1 (bumped w))" "valid k1"
    "view k1 = ?u\<lparr>p_gid := g, p_groups := l, p_eff := {}\<rparr>" "r1 = 0 \<longrightarrow> g = gid \<and> l = groups"
    using cred_abi.cap_setgroups_exec [OF assms(1,2) _ assms(4,5), of gid "int (length groups)" "Some groups"] assms(3)
    by (auto simp: cap_setgroups_def)
  let ?w1 = "after k1 e1 (bumped w)"
  have pre: "wf_world ?w1" "alloc_ok ?w1" "valid (kern ?w1)" "caller_ok K (multithread ?w1) ?w1"
    using assms(2,3,5) g(2) by (simp_all add: wf_bumped)
  obtain r2 k2 e2 where s: "cap_setuid K uid ?w1 = Some (r2, after k2 e2 (bumped ?w1))" "p_eff (view k2) = {}" "p_inh (view k2) = p_inh (view k1)"
    "ids (view k2) = ids (if r2 = 0 then (view k1)\<lparr>p_uid := uid\<rparr> else view k1)"
    "\<not> bit (p_sbits (view k1)) 5 \<longrightarrow> p_per (view k2) = p_per (view k1)" "r2 \<le> 0"
    using cred_abi.cap_setuid_exec [OF assms(1) pre, of uid] unfolding cap_setuid_def [symmetric] after_simps(1) by blast
  have run: "arg_user K H user st w = (if r1 \<noteq> 0 then Some (Inl (Exit 1), ?w1)
      else if r2 < 0 then Some (Inl (Exit 1), after k2 e2 (bumped ?w1)) else set_user_env H user dir st (after k2 e2 (bumped ?w1)))"
    using assms(6) assms(7) [symmetric] n g(1) s(1) by (simp add: arg_user_def Let_def)
  consider "r1 \<noteq> 0" | "r1 = 0" "r2 < 0" | "r1 = 0" "r2 = 0" using s(6) by linarith
  then show ?thesis
  proof cases
    case 3
    then have "became uid gid groups ?u (view k2)" using s(2-5) g(3,4) by (auto simp: became_def ids_def)
    with 3 run s(2) False set_user_env_result [of H user dir st "after k2 e2 (bumped ?w1)"] show ?thesis by auto
  qed (use run False g(3) s(2) in auto)
qed

text \<open>A host with one user of two groups.\<close>

definition demo_host :: "linux host" where
  "demo_host = \<lparr>h_getpwnam = (\<lambda>u. if u = ''luser'' then Some (1001, 7, ''/home/luser'') else None), h_getpwuid = (\<lambda>_. None),
     h_getgrnam = (\<lambda>_. None), h_getgrgid = (\<lambda>_. None), h_getgrouplist = (\<lambda>u g. [g, 9]), h_gr_size_max = 1024, h_ngroups_max = 65536,
     h_path = None, h_access = (\<lambda>_ _. False), h_getuid = lk_uid, h_geteuid = lk_uid, h_getgid = lk_gid, h_getgroups = lk_groups,
     h_setenv = (\<lambda>_ _. 0), h_fork = (\<lambda>k. (- 11, k)), h_kill = (\<lambda>_ _ k. (- 3, k)), h_waitpid = (\<lambda>_ k. ((- 1, 0), k))\<rparr>"

theorem arg_user_spec_witness:
  "\<exists>r w'. arg_user linux_kernel demo_host ''luser'' capsh_init (machine root_linux) = Some (r, w') \<and> p_eff (lk_view (kern w')) = {}
     \<and> ((\<exists>st'. r = Inr st') \<longrightarrow> p_uid (lk_view (kern w')) = 1001 \<and> p_groups (lk_view (kern w')) = [7, 9] \<and> p_per (lk_view (kern w')) = {..<41})"
proof -
  have u: "h_getpwnam demo_host ''luser'' = Some (1001, 7, ''/home/luser'')" "h_getgrouplist demo_host ''luser'' 7 = [7, 9]"
    by (simp_all add: demo_host_def)
  have v: "lk_valid (kern (machine root_linux))" using root_valid by simp
  obtain r w' where "arg_user linux_kernel demo_host ''luser'' capsh_init (machine root_linux) = Some (r, w')" "p_eff (lk_view (kern w')) = {}"
    "(\<exists>st'. r = Inr st') \<longrightarrow> became 1001 7 [7, 9] (lk_view root_linux) (lk_view (kern w'))"
    using arg_user_spec [OF linux.cred_abi_axioms wf_machine mem_ok_machine(1) v caller_ok_machine(1) u(1) u(2) [symmetric], of capsh_init]
    by (auto simp: MAX_GROUPS_def)
  then show ?thesis by (auto simp: became_def lk_view_def root_linux_def plain_linux_def)
qed

end
