(* ===== verification/Prog_Capsh_Inh.thy ===== *)
theory Prog_Capsh_Inh
  imports Prog_Capsh_Spec
begin

text \<open>
  \<^verbatim>\<open>capsh --inh\<close>: the option prints the process's own set without its inheritable flag, appends
  a clause to the text and parses the result.  The detour is lossless: the clause is applied
  to the very set that was printed.
\<close>

section \<open>The appended clause\<close>

context names_abi
begin

lemma parse_raise_inh:
  assumes "0 \<le> cmb" "ns \<noteq> []" "\<forall>n \<in> set ns. readable N cmb n" "wf_cap c"
  shows "\<exists>d. parse_clauses N cmb 2 ('' '' @ join_names N ns @ ''+i'') c = Some d \<and> kept c d
     \<and> (\<forall>x < 64. \<forall>s < 3. isset_cap d x s \<longleftrightarrow> isset_cap c x s \<or> x \<in> set ns \<and> s = CAP_INHERITABLE)"
proof -
  let ?l = "fold vec_raise ns [0, 0]"
  have "\<forall>n \<in> set ns. n < 64" using assms(3) by (auto simp: readable_def)
  then have l: "\<And>x. x < 64 \<Longrightarrow> vec_isset ?l x \<longleftrightarrow> x \<in> set ns" by (rule vec_isset_fold_raise)
  have tok: "token_end ''+i''" "deref ''+i'' \<noteq> CHR '',''" by (auto simp: token_end_def ctype_defs)
  have first: "isalnum (deref (join_names N ns @ s)) \<or> deref (join_names N ns @ s) = CHR ''_''" for s
    using deref_join_names [OF assms(2)] .
  have caps: "clause_caps N cmb 2 (join_names N ns @ ''+i'') = Some (''+i'', ?l, True)"
    using parse_list_join [OF assms(2,3,1) tok, of 2 "[0, 0]"] first by (simp add: clause_caps_def)
  have op: "clause_op True ''+i'' = Some (CHR ''+'', ''i'')" by (simp add: clause_op_def)
  have lt: "letters (CHR ''i'' # [])" "flags_of ''i'' = 4" by (simp_all add: letters_def flag_letter_def)
  obtain d where d: "op_result CHR ''+'' (0 OR flags_of (CHR ''i'' # [])) ?l c d" "parse_actions True ?l 2 CHR ''+'' 0 ''i'' c = Some ([], d)"
    using parse_actions_letters [OF lt(1) assms(4), of "[]" True "CHR ''+''" 0 ?l] by auto
  have "parse_clause N cmb 2 (join_names N ns @ ''+i'') c = Some ([], d)" using caps op d(2) by (simp add: parse_clause_def)
  moreover have ne: "\<not> at_end (join_names N ns @ ''+i'')" using first [of "''+i''"] by (auto simp: at_end_def ctype_defs NUL_def)
  ultimately have "parse_clauses N cmb 2 (join_names N ns @ ''+i'') c = parse_clauses N cmb 2 [] d"
    using parse_clauses_clause by blast
  moreover have "parse_clauses N cmb 2 ('' '' @ join_names N ns @ ''+i'') c = parse_clauses N cmb 2 (join_names N ns @ ''+i'') c"
    by (subst (1 2) parse_clauses.simps) (simp add: isspace_def)
  ultimately have "parse_clauses N cmb 2 ('' '' @ join_names N ns @ ''+i'') c = Some d"
    by (simp add: parse_clauses.simps [of _ _ _ "[]"])
  moreover have "bit (4 :: int) s \<longleftrightarrow> s = 2" if "s < 3" for s
    using that by (auto simp: less_Suc_eq numeral_eq_Suc bit_0 bit_Suc)
  ultimately show ?thesis using d(1) l lt(2) by (auto simp: op_result_def op_bit_def kept_def)
qed

end

section \<open>Installing a set\<close>

context cred_abi
begin

text \<open>The end of \<^verbatim>\<open>--inh\<close> and \<^verbatim>\<open>--caps\<close>: the set \<open>d\<close> at \<open>a\<close> is installed or the program exits.\<close>

lemma install_caps_exec:
  assumes "cap_ready w a d" "c_head d = self_head" "q \<noteq> NULL \<longrightarrow> cap_ready w q (raised CAP_SETPCAP u)" "a \<noteq> q"
    "caller_ok K (multithread w) w" "valid (kern w)" "u = view (kern w)"
  shows "\<exists>b k e. install_caps K q a w = Some (if b then Inr () else Inl (Exit 1),
        after k e (if b then release a q w else if q = NULL then w else del_obj q w))
     \<and> (if b then view k = capset_post (map data_of_flat (c_u d)) u else \<exists>E. view k = u\<lparr>p_eff := E\<rparr>)
     \<and> (caps_of d CAP_EFFECTIVE \<subseteq> caps_of d CAP_PERMITTED \<longrightarrow> caps_of d CAP_PERMITTED \<subseteq> p_per u \<longrightarrow>
          caps_of d CAP_INHERITABLE \<subseteq> p_inh u \<longrightarrow> b)"
proof -
  let ?w = "if q = NULL then w else del_obj q w"
  have u: "wf_creds u" using valid_wf [OF assms(6)] assms(7) by simp
  obtain k1 e1 E where s1: "(if q \<noteq> NULL then do {
             (_, w) \<leftarrow> cap_set_proc K q w;
             (_, w) \<leftarrow> cap_free q w;
             Some w }
           else Some w) = Some (after k1 e1 ?w)" "valid k1" "view k1 = u\<lparr>p_eff := E\<rparr>"
  proof (cases "q = NULL")
    case True
    then show ?thesis using that [of "kern w" "errno w" "p_eff u"] assms(6,7) by (simp add: after_self)
  next
    case False
    then have q: "cap_ready w q (raised CAP_SETPCAP u)" using assms(3) by simp
    obtain r k e where s: "cap_set_proc K q w = Some (r, after k e w)" "valid k"
      "view k = u\<lparr>p_eff := (if r = 0 then caps_of (raised CAP_SETPCAP u) CAP_EFFECTIVE \<inter> {..<p_ncaps u} else p_eff u)\<rparr>"
      using set_proc_eff [OF q _ assms(5,6)] caps_of_raised [OF u, of CAP_SETPCAP] assms(7) u by (auto simp: wf_creds_def)
    moreover have "cap_free q (after k e w) = Some (0, after k e (del_obj q w))"
      using cap_readyD [OF q] by (simp add: cap_free_set)
    ultimately show ?thesis using that [of k e] False by simp
  qed
  have ready: "cap_ready (after k1 e1 ?w) a d"
    using assms(1,4) cap_readyD(3) [OF assms(1)] by (simp add: cap_ready_def wf_world_del)
  have same: "multithread ?w = multithread w" "caller_ok K sc ?w = caller_ok K sc w" for sc by simp_all
  obtain r w2 where s2: "cap_set_proc K a (after k1 e1 ?w) = Some (r, w2)" "installed d (after k1 e1 ?w) r w2"
    using cap_set_proc_exec [OF ready assms(2), of "multithread w"] assms(5) s1(2) same by (auto simp: cap_set_proc_def simp del: if_split)
  then obtain k e where w2: "w2 = after k e ?w"
    "if r = 0 then view k = capset_post (map data_of_flat (c_u d)) (view k1) else view k = view k1"
    "caps_of d CAP_EFFECTIVE \<subseteq> caps_of d CAP_PERMITTED \<longrightarrow> caps_of d CAP_PERMITTED \<subseteq> p_per (view k1) \<longrightarrow>
         caps_of d CAP_INHERITABLE \<subseteq> p_inh (view k1) \<longrightarrow> r = 0"
    using that by (simp add: installed_def split del: if_split) (metis (full_types))
  have free: "cap_free a (after k e ?w) = Some (0, after k e (release a q w))"
    using cap_readyD [OF assms(1)] assms(4) by (simp add: cap_free_set release_def)
  have "install_caps K q a w = Some (if r = 0 then Inr () else Inl (Exit 1), after k e (if r = 0 then release a q w else ?w))"
    using s1(1) s2(1) w2(1) free by (simp add: install_caps_def)
  moreover have "capset_post d' (view k1) = capset_post d' u" for d' using s1(3) by (simp add: capset_post_def)
  ultimately show ?thesis using w2(2,3) s1(3) by (intro exI [of _ "r = 0"] exI [of _ k] exI [of _ e]) (simp, blast)
qed

end

section \<open>The detour through the text\<close>

context cred_abi
begin

lemma inh_from_text_exec:
  assumes "names_abi N" "cap_ready w p c" "mem_ok w" "max_bits w = int lo" "lo \<le> 64" "\<forall>x. lo \<le> x \<and> x < 64 \<longrightarrow> getstateflags c x = 0"
    "clause = (if val \<noteq> [] \<and> val \<noteq> ''none'' then '' '' @ val @ ''+i'' else [])"
  shows "\<exists>c2 v. kept zero3 c2 \<and> c_u c2 = c_u c \<and> (\<exists>n. v = bumps n (del_obj p w)) \<and> inh_from_text K N val p q w =
     (case parse_clauses N (int lo) 2 clause c2 of
        None \<Rightarrow> Some (Inl (Exit 1), (bumped v)\<lparr>errno := EINVAL\<rparr>)
      | Some d \<Rightarrow> install_caps K q (next_ptr v) (new_obj (next_ptr v) sizeof_cap_alloc_s (CapSet d) (bumped v)))"
proof -
  note p = cap_readyD [OF assms(2)]
  have "\<forall>x \<in> {lo..<64}. getstateflags c x \<noteq> 0 \<longrightarrow> readable N (int lo) x" using assms(6) by auto
  then obtain s c2 k where s: "cap_to_text N p w = Some ((next_ptr (bumps k w), Some (length s)),
        new_obj (next_ptr (bumps k w)) (strdup_size s) (CapStr s) (bumps (Suc k) w))"
      "parse_clauses N (int lo) 2 s zero3 = Some c2" "c_u c2 = c_u c"
      "\<forall>rest. at_end rest \<longrightarrow> parse_clauses N (int lo) 2 (s @ rest) zero3 = parse_clauses N (int lo) 2 rest c2"
    using names_abi.cap_to_text_ok [OF assms(1-5)] by blast
  define t where "t = next_ptr (bumps k w)"
  define w1 where "w1 = new_obj t (strdup_size s) (CapStr s) (bumps (Suc k) w)"
  define v where "v = bumps (Suc (Suc k)) (del_obj p w)"
  have t: "t \<noteq> NULL" "t mod 8 = 0" "heap w t = None" "t \<noteq> p"
  proof -
    show "heap w t = None" using wf_fresh [OF wf_bumps [OF p(3)], of k] by (simp add: t_def)
    then show "t \<noteq> p" using p(1) by (auto simp: obj_at_def)
  qed (simp_all add: t_def next_ptr_def)
  have free_set: "cap_free p w1 = Some (0, del_obj p w1)" using p t by (simp add: cap_free_set w1_def)
  have ptr: "calloc (del_obj p w1) = (16 * Suc (mem_calls (del_obj p w1)), bumped (del_obj p w1))"
    using assms(3) by (intro calloc_ok) (simp add: w1_def)
  have str: "get_str t (bumped (del_obj p w1)) = Some s" "cap_free t (bumped (del_obj p w1)) = Some (0, del_obj t (bumped (del_obj p w1)))"
    using t by (simp_all add: w1_def get_str_def cap_free_str)
  have returned: "del_obj t (bumped (del_obj p w1)) = v"
    using t by (simp add: v_def w1_def del_obj_def bumped_def bumps_def new_obj_def fun_upd_twist [of t p] fun_upd_idem)
  have v: "wf_world v" "alloc_ok v" "max_bits v = int lo" using p(3) assms(3,4) by (simp_all add: v_def wf_world_del)
  have "at_end clause" using assms(7) by (simp add: at_end_def ctype_defs)
  then have parsed: "parse_clauses N (int lo) 2 (s @ clause) zero3 = parse_clauses N (int lo) 2 clause c2" using s(4) by blast
  have from_text: "cap_from_text N K (Some (s @ clause)) v =
      (case parse_clauses N (int lo) 2 clause c2 of
         Some d \<Rightarrow> Some (next_ptr v, new_obj (next_ptr v) sizeof_cap_alloc_s (CapSet d) (bumped v))
       | None \<Rightarrow> Some (NULL, (bumped v)\<lparr>errno := EINVAL\<rparr>))"
    using cap_from_text_exec [OF assms(1) v(2,1), of "s @ clause"] v(3) parsed by simp
  have arg: "(if val \<noteq> [] \<and> val \<noteq> ''none'' then s @ '' '' @ val @ ''+i'' else s) = s @ clause" using assms(7) by simp
  have "inh_from_text K N val p q w = do {
      (all, w) \<leftarrow> cap_from_text N K (Some (s @ clause)) v;
      if all = NULL then exit_with 1 w else install_caps K q all w }"
    using s(1) [folded t_def, folded w1_def] free_set ptr str t(1) returned
    by (simp add: inh_from_text_def arg [simplified])
  moreover have "kept zero3 c2" using parse_clauses_keeps [OF s(2) zero3_props(1)] .
  moreover have "\<exists>n. v = bumps n (del_obj p w)" using v_def by blast
  ultimately show ?thesis using from_text s(3) by (intro exI [of _ c2] exI [of _ v]) (simp split: option.split)
qed

end

section \<open>The two options\<close>

text \<open>
  The credentials with the three sets replaced, as far as the kernel knows their capabilities; a
  capability stays ambient only while it is permitted and inheritable.
\<close>

definition holding :: "nat set \<Rightarrow> nat set \<Rightarrow> nat set \<Rightarrow> creds \<Rightarrow> creds" where
  "holding E P I u = u\<lparr>p_eff := E \<inter> {..<p_ncaps u}, p_per := P \<inter> {..<p_ncaps u}, p_inh := I \<inter> {..<p_ncaps u},
     p_amb := p_amb u \<inter> (P \<inter> {..<p_ncaps u}) \<inter> (I \<inter> {..<p_ncaps u})\<rparr>"

text \<open>The sets are in force, or the program exits with at most the effective set changed.\<close>

definition changed_to :: "nat set \<Rightarrow> nat set \<Rightarrow> nat set \<Rightarrow> creds \<Rightarrow> capsh_end + unit \<Rightarrow> creds \<Rightarrow> bool" where
  "changed_to E P I u r v \<longleftrightarrow> (r = Inr () \<and> v = holding E P I u \<or> r = Inl (Exit 1) \<and> (\<exists>X. v = u\<lparr>p_eff := X\<rparr>))
     \<and> (E \<subseteq> P \<and> P \<subseteq> p_per u \<and> I \<subseteq> p_inh u \<longrightarrow> r = Inr ())"

context cred_abi
begin

lemma install_new_exec:
  assumes "wf_world v" "wf_cap d" "c_mutex d = 0" "c_head d = self_head" "q \<noteq> NULL \<longrightarrow> cap_ready v q (raised CAP_SETPCAP u)"
    "caller_ok K (multithread v) v" "valid (kern v)" "u = view (kern v)"
  shows "\<exists>r w'. install_caps K q (next_ptr v) (new_obj (next_ptr v) sz (CapSet d) (bumped v)) = Some (r, w')
     \<and> changed_to (caps_of d CAP_EFFECTIVE) (caps_of d CAP_PERMITTED) (caps_of d CAP_INHERITABLE) u r (view (kern w'))
     \<and> (r = Inr () \<longrightarrow> heap w' = (if q = NULL then heap v else (heap v)(q := None)))"
proof -
  define a where "a = next_ptr v"
  define w where "w = new_obj a sz (CapSet d) (bumped v)"
  have fresh: "heap v a = None" using wf_fresh [OF assms(1)] by (simp add: a_def)
  have aq: "a \<noteq> q" if "q \<noteq> NULL" using that assms(5) fresh cap_readyD(1) [of v q] by (auto simp: obj_at_def)
  have ready: "cap_ready w a d" using ready_new [OF assms(1-3), of sz] by (simp add: w_def a_def)
  have a: "a \<noteq> q" using aq cap_readyD(5) [OF ready] by auto
  have q: "q \<noteq> NULL \<longrightarrow> cap_ready w q (raised CAP_SETPCAP u)"
    using assms(5) a cap_readyD(3) [OF ready] by (simp add: cap_ready_def w_def)
  have w: "caller_ok K (multithread w) w" "valid (kern w)" "u = view (kern w)" using assms(6-8) by (simp_all add: w_def)
  obtain b k e where i: "install_caps K q a w = Some (if b then Inr () else Inl (Exit 1),
        after k e (if b then release a q w else if q = NULL then w else del_obj q w))"
    "if b then view k = capset_post (map data_of_flat (c_u d)) u else \<exists>E. view k = u\<lparr>p_eff := E\<rparr>"
    "caps_of d CAP_EFFECTIVE \<subseteq> caps_of d CAP_PERMITTED \<longrightarrow> caps_of d CAP_PERMITTED \<subseteq> p_per u \<longrightarrow>
          caps_of d CAP_INHERITABLE \<subseteq> p_inh u \<longrightarrow> b"
    using install_caps_exec [OF ready assms(4) q a w] by blast
  have "capset_post (map data_of_flat (c_u d)) u =
      holding (caps_of d CAP_EFFECTIVE) (caps_of d CAP_PERMITTED) (caps_of d CAP_INHERITABLE) u"
    by (simp add: capset_post_cap [OF assms(2)] holding_def Let_def)
  then have "changed_to (caps_of d CAP_EFFECTIVE) (caps_of d CAP_PERMITTED) (caps_of d CAP_INHERITABLE) u (if b then Inr () else Inl (Exit 1)) (view k)"
    using i(2,3) by (cases b) (simp_all add: changed_to_def)
  moreover have "heap (release a q w) = (if q = NULL then heap v else (heap v)(q := None))"
    using fresh a by (auto simp: release_def del_obj_def w_def new_obj_def bumped_def)
  ultimately show ?thesis using i(1) unfolding a_def [symmetric] w_def [symmetric]
    by (intro exI [of _ "if b then Inr () else Inl (Exit 1)"] exI conjI) (assumption, simp, auto)
qed

end

context cred_abi
begin

lemma need_exec:
  assumes "wf_world w" "mem_ok w" "valid (kern w)" "u = view (kern w)"
  shows "\<exists>q w1. will_need_setpcap K strict w = Some (Inr q, w1) \<and> wf_world w1 \<and> (q \<noteq> NULL \<longrightarrow> cap_ready w1 q (raised CAP_SETPCAP u))
     \<and> (if q = NULL then heap w1 else (heap w1)(q := None)) = heap w \<and> kern w1 = kern w \<and> multithread w1 = multithread w
     \<and> overrode_syscalls w1 = overrode_syscalls w \<and> max_bits w1 = max_bits w \<and> mem_ok w1"
proof -
  have need: "will_need_setpcap K strict w = (if strict then Some (Inr NULL, w)
      else if CAP_SETPCAP \<in> p_eff u then Some (Inr NULL, bumped w) else Some (Inr (next_ptr w), with_raised CAP_SETPCAP w))"
    using will_need_setpcap_exec [OF assms(1)] assms(2-4) by simp
  consider "strict" | "\<not> strict" "CAP_SETPCAP \<in> p_eff u" | "\<not> strict" "CAP_SETPCAP \<notin> p_eff u" by blast
  then show ?thesis
  proof cases
    case 1
    then show ?thesis using need assms(1,2) by (intro exI [of _ NULL] exI [of _ w]) simp
  next
    case 2
    then show ?thesis using need assms(1,2) by (intro exI [of _ NULL] exI [of _ "bumped w"]) (simp add: wf_bumped)
  next
    case 3
    let ?q = "next_ptr w" and ?r = "with_raised CAP_SETPCAP w"
    have "cap_ready ?r ?q (raised CAP_SETPCAP u)" using ready_raised [OF assms(1), of CAP_SETPCAP] assms(4) by simp
    moreover have "(heap ?r)(?q := None) = heap (del_obj ?q ?r)" by (simp add: del_obj_def)
    then have "(heap ?r)(?q := None) = heap w" using del_raised [OF assms(1), of CAP_SETPCAP] by simp
    ultimately show ?thesis using 3 need assms(2) cap_readyD(3)
      by (intro exI [of _ ?q] exI [of _ ?r]) (auto simp: with_raised_def)
  qed
qed

lemma arg_set_caps_exec:
  assumes "wf_world w" "mem_ok w" "valid (kern w)" "caller_ok K (multithread w) w" "u = view (kern w)" "names_abi N"
  shows "\<exists>r w'. arg_set_caps K N strict val w = Some (r, w')
     \<and> (case parse_clauses N (max_bits w) 2 val zero3 of
          None \<Rightarrow> r = Inl (Exit 1) \<and> kern w' = kern w
        | Some d \<Rightarrow> changed_to (caps_of d CAP_EFFECTIVE) (caps_of d CAP_PERMITTED) (caps_of d CAP_INHERITABLE) u r (view (kern w')))
     \<and> (r = Inr () \<longrightarrow> heap w' = heap w)"
proof -
  obtain q v where n: "will_need_setpcap K strict w = Some (Inr q, v)" "wf_world v" "q \<noteq> NULL \<longrightarrow> cap_ready v q (raised CAP_SETPCAP u)"
    "(if q = NULL then heap v else (heap v)(q := None)) = heap w" "kern v = kern w" "multithread v = multithread w"
    "overrode_syscalls v = overrode_syscalls w" "max_bits v = max_bits w" "mem_ok v"
    using need_exec [OF assms(1-3,5)] by blast
  note run = cap_from_text_exec [OF assms(6) _ n(2), of val]
  show ?thesis
  proof (cases "parse_clauses N (max_bits w) 2 val zero3")
    case None
    then have "arg_set_caps K N strict val w = Some (Inl (Exit 1), (bumped v)\<lparr>errno := EINVAL\<rparr>)"
      using n(1,8,9) run by (simp add: arg_set_caps_def)
    with None n(5) show ?thesis by simp
  next
    case (Some d)
    have d: "wf_cap d" "c_mutex d = 0" "c_head d = self_head"
      using parse_clauses_keeps [OF Some zero3_props(1)] by (simp_all add: kept_def zero3_def zero_cap_def)
    have "caller_ok K (multithread v) v" using assms(4) n(6,7) by (simp add: caller_ok_def)
    then obtain r w' where i: "install_caps K q (next_ptr v) (new_obj (next_ptr v) sizeof_cap_alloc_s (CapSet d) (bumped v)) = Some (r, w')"
      "changed_to (caps_of d CAP_EFFECTIVE) (caps_of d CAP_PERMITTED) (caps_of d CAP_INHERITABLE) u r (view (kern w'))"
      "r = Inr () \<longrightarrow> heap w' = (if q = NULL then heap v else (heap v)(q := None))"
      using install_new_exec [OF n(2) d n(3), of sizeof_cap_alloc_s] assms(3,5) n(5) by auto
    have "arg_set_caps K N strict val w = Some (r, w')"
      using n(1,8,9) run Some i(1) by (simp add: arg_set_caps_def)
    then show ?thesis using i(2,3) n(4) Some by (intro exI [of _ r] exI [of _ w']) simp
  qed
qed

end

text \<open>
  The argument of \<^verbatim>\<open>--inh\<close>: nothing or \<^verbatim>\<open>none\<close> for the empty set, or a comma separated
  list of names.
\<close>

definition inh_list :: "names_h \<Rightarrow> int \<Rightarrow> string \<Rightarrow> nat set \<Rightarrow> bool" where
  "inh_list N cmb val S \<longleftrightarrow> val \<in> {[], ''none''} \<and> S = {}
     \<or> val \<noteq> ''none'' \<and> (\<exists>ns. ns \<noteq> [] \<and> (\<forall>n \<in> set ns. readable N cmb n) \<and> val = join_names N ns \<and> S = set ns)"

lemma caps_of_flags: "c_u c = c_u d \<Longrightarrow> caps_of c s = caps_of d s"
  by (simp add: caps_of_def isset_cap_def flat_def)

lemma getstateflags_zero:
  assumes "x < 64" "x \<notin> caps_of c CAP_EFFECTIVE" "x \<notin> caps_of c CAP_PERMITTED" "x \<notin> caps_of c CAP_INHERITABLE"
  shows "getstateflags c x = 0"
  using assms by (simp add: getstateflags_def caps_of_iff)

context names_abi
begin

lemma inh_list_parse:
  assumes "inh_list N cmb val S" "0 \<le> cmb" "wf_cap c" "caps_of c CAP_INHERITABLE = {}"
  shows "\<exists>d. parse_clauses N cmb 2 (if val \<noteq> [] \<and> val \<noteq> ''none'' then '' '' @ val @ ''+i'' else []) c = Some d \<and> kept c d
     \<and> caps_of d CAP_EFFECTIVE = caps_of c CAP_EFFECTIVE \<and> caps_of d CAP_PERMITTED = caps_of c CAP_PERMITTED
     \<and> caps_of d CAP_INHERITABLE = S"
proof (cases "val \<in> {[], ''none''} \<and> S = {}")
  case True
  then show ?thesis using assms(3,4) by (intro exI [of _ c]) (auto simp: parse_clauses.simps kept_refl)
next
  case False
  then obtain ns where ns: "ns \<noteq> []" "\<forall>n \<in> set ns. readable N cmb n" "val = join_names N ns" "S = set ns" "val \<noteq> ''none''"
    using assms(1) by (auto simp: inh_list_def)
  have "val \<noteq> []" using deref_join_names [OF ns(1), of "[]"] ns(3) by (auto simp: ctype_defs NUL_def)
  moreover obtain d where "parse_clauses N cmb 2 ('' '' @ join_names N ns @ ''+i'') c = Some d" "kept c d"
    "\<forall>x < 64. \<forall>s < 3. isset_cap d x s \<longleftrightarrow> isset_cap c x s \<or> x \<in> set ns \<and> s = CAP_INHERITABLE"
    using parse_raise_inh [OF assms(2) ns(1,2) assms(3)] by blast
  moreover have "S \<subseteq> {..<64}" using ns(2,4) by (auto simp: readable_def)
  ultimately show ?thesis using ns(3-5) assms(4)
    by (intro exI [of _ d]) (auto simp: caps_of_def)
qed

end

context cred_abi
begin

lemma arg_inh_exec:
  assumes "names_abi N" "wf_world w" "mem_ok w" "valid (kern w)" "caller_ok K (multithread w) w" "u = view (kern w)"
    "max_bits w = int (p_ncaps u)" "inh_list N (max_bits w) val S"
  shows "\<exists>r w'. arg_inh K N strict val w = Some (r, w') \<and> changed_to (p_eff u) (p_per u) S u r (view (kern w'))
     \<and> (r = Inr () \<longrightarrow> heap w' = heap w)"
proof -
  obtain p q w1 where push: "push_pcap K strict w = Some (Inr (p, q), w1)" "pcap_ready CAP_SETPCAP w1 p q u"
    "heap (release p q w1) = heap w" "kern w1 = kern w"
    "multithread w1 = multithread w" "overrode_syscalls w1 = overrode_syscalls w" "max_bits w1 = max_bits w" "mem_ok w1"
    using push_pcap_exec [OF assms(2-4,6)] by blast
  define c where "c = clear_flag_loop CAP_INHERITABLE (proc_cap u)"
  define w2 where "w2 = put_obj p (CapSet c) w1"
  have u: "wf_creds u" using valid_wf [OF assms(4)] assms(6) by simp
  have p: "cap_ready w1 p (proc_cap u)" "p \<noteq> q" "q \<noteq> NULL \<longrightarrow> cap_ready w1 q (raised CAP_SETPCAP u)"
    using push(2) by (simp_all add: pcap_ready_def)
  have clr: "cap_clear_flag p (int CAP_INHERITABLE) w1 = Some (0, w2)"
    using cap_clear_flag_exec [OF p(1), of 2] by (simp add: w2_def c_def)
  have caps: "caps_of c CAP_EFFECTIVE = p_eff u" "caps_of c CAP_PERMITTED = p_per u" "caps_of c CAP_INHERITABLE = {}"
    using caps_of_proc_cap [OF u] by (simp_all add: c_def caps_of_clear)
  have known: "p_eff u \<subseteq> {..<p_ncaps u}" "p_per u \<subseteq> {..<p_ncaps u}" using u by (auto simp: wf_creds_def)
  have none: "\<forall>x. p_ncaps u \<le> x \<and> x < 64 \<longrightarrow> getstateflags c x = 0"
    by (intro allI impI getstateflags_zero) (use known caps in auto)
  have ready: "cap_ready w2 p c" "q \<noteq> NULL \<longrightarrow> cap_ready w2 q (raised CAP_SETPCAP u)"
    using p cap_readyD(3) [OF p(1)] by (auto simp: w2_def cap_ready_def wf_world_put c_def)
  have "p_ncaps u \<le> 64" using u by (simp add: wf_creds_def)
  then obtain c2 v n where t: "kept zero3 c2" "c_u c2 = c_u c" "v = bumps n (del_obj p w2)" "inh_from_text K N val p q w2 =
     (case parse_clauses N (int (p_ncaps u)) 2 (if val \<noteq> [] \<and> val \<noteq> ''none'' then '' '' @ val @ ''+i'' else []) c2 of
        None \<Rightarrow> Some (Inl (Exit 1), (bumped v)\<lparr>errno := EINVAL\<rparr>)
      | Some d \<Rightarrow> install_caps K q (next_ptr v) (new_obj (next_ptr v) sizeof_cap_alloc_s (CapSet d) (bumped v)))"
    using inh_from_text_exec [OF assms(1) ready(1) _ _ _ none refl, of val q] push(7,8) assms(7) by (auto simp: w2_def)
  have c2: "wf_cap c2" "caps_of c2 s = caps_of c s" for s using t(1) caps_of_flags [OF t(2)] by (simp_all add: kept_def)
  obtain d where d: "parse_clauses N (int (p_ncaps u)) 2 (if val \<noteq> [] \<and> val \<noteq> ''none'' then '' '' @ val @ ''+i'' else []) c2 = Some d"
    "kept c2 d" "caps_of d CAP_EFFECTIVE = p_eff u" "caps_of d CAP_PERMITTED = p_per u" "caps_of d CAP_INHERITABLE = S"
    using names_abi.inh_list_parse [OF assms(1,8) _ c2(1)] c2(2) caps assms(7) by auto
  have kd: "wf_cap d" "c_mutex d = 0" "c_head d = self_head"
    using kept_trans [OF t(1) d(2)] by (simp_all add: kept_def zero3_def zero_cap_def)
  have f: "kern v = kern w" "multithread v = multithread w" "overrode_syscalls v = overrode_syscalls w"
    using push(4-6) by (simp_all add: t(3) w2_def del_obj_def put_obj_def bumps_def)
  have wfv: "wf_world v" using cap_readyD(3) [OF ready(1)] unfolding t(3) by (intro wf_bumps wf_world_del)
  then have q: "q \<noteq> NULL \<longrightarrow> cap_ready v q (raised CAP_SETPCAP u)" using ready(2) p(2) by (simp add: t(3) cap_ready_def)
  have call: "caller_ok K (multithread v) v" using assms(5) f by (simp add: caller_ok_def)
  have "heap v = (heap w1)(p := None)" by (simp add: t(3) w2_def del_obj_def put_obj_def bumps_def)
  then have hv: "(if q = NULL then heap v else (heap v)(q := None)) = heap w"
    using push(3) p(2) by (auto simp: release_def del_obj_def fun_upd_twist)
  obtain r w' where "inh_from_text K N val p q w2 = Some (r, w')" "changed_to (p_eff u) (p_per u) S u r (view (kern w'))"
    "r = Inr () \<longrightarrow> heap w' = heap w"
    using install_new_exec [OF wfv kd q call, of sizeof_cap_alloc_s] assms(4,6) f(1) hv t(4) d by auto
  then show ?thesis using push(1) clr by (simp add: arg_inh_def)
qed

end

text \<open>
  C39: \<^verbatim>\<open>capsh --inh=LIST\<close> prints the process's own set, appends a clause and parses the
  result; the detour is lossless.  When the option goes on, the inheritable set is exactly the
  listed capabilities (as far as the kernel knows them), the ambient set has lost those that are
  no longer inheritable, and the effective and permitted sets, the identity and the objects are
  as they were.  Otherwise it exits with the status 1.  Listing capabilities that are inheritable
  already always succeeds.
\<close>

theorem arg_inh_spec:
  assumes "cred_abi K view valid" "names_abi N" "wf_world w" "mem_ok w" "valid (kern w)" "caller_ok K (multithread w) w"
    "u = view (kern w)" "max_bits w = int (p_ncaps u)" "inh_list N (max_bits w) val S"
  shows "\<exists>r w'. arg_inh K N strict val w = Some (r, w') \<and> changed_to (p_eff u) (p_per u) S u r (view (kern w'))
     \<and> (r = Inr () \<longrightarrow> heap w' = heap w)"
  using cred_abi.arg_inh_exec [OF assms] .

text \<open>A process with two inheritable capabilities.\<close>

definition heir_linux :: linux where
  "heir_linux = root_linux\<lparr>lk_inh := {0, 7}\<rparr>"

theorem arg_inh_spec_witness:
  "\<exists>w'. arg_inh linux_kernel linux_names False ''cap_setuid'' (machine heir_linux) = Some (Inr (), w')
     \<and> p_inh (lk_view (kern w')) = {7} \<and> p_per (lk_view (kern w')) = {..<41} \<and> heap w' = heap (machine heir_linux)"
proof -
  let ?u = "lk_view heir_linux"
  have u: "lk_valid heir_linux" "p_inh ?u = {0, 7}" "p_eff ?u = {..<41}" "p_per ?u = {..<41}" "p_ncaps ?u = 41"
    by (simp_all add: lk_valid_def wf_creds_def lk_view_def heir_linux_def root_linux_def plain_linux_def CAP_SETPCAP_def)
  have l: "inh_list linux_names 41 ''cap_setuid'' {7}"
    unfolding inh_list_def
    by (intro disjI2 conjI exI [of _ "[7]"]) (simp_all add: readable_def join_names_def name_of_def linux_cap_names linux_cap_list_def)
  obtain r w' where "arg_inh linux_kernel linux_names False ''cap_setuid'' (machine heir_linux) = Some (r, w')"
    "changed_to {..<41} {..<41} {7} ?u r (lk_view (kern w'))" "r = Inr () \<longrightarrow> heap w' = heap (machine heir_linux)"
    using arg_inh_spec [OF linux.cred_abi_axioms linux_names.names_abi_axioms wf_machine mem_ok_machine(1) _ caller_ok_machine(1) refl,
        of heir_linux "''cap_setuid''" "{7}" False] u l by auto
  then show ?thesis using u by (auto simp: changed_to_def holding_def)
qed

text \<open>
  C40: \<^verbatim>\<open>capsh --caps=TEXT\<close> with a text that \<^verbatim>\<open>cap_from_text\<close> accepts: when the option goes on,
  the three sets are those the text stands for (as far as the kernel knows their capabilities),
  the ambient set is cut to what is permitted and inheritable, and nothing else has changed and
  nothing is leaked; else the program exits with the status 1, and at most the effective set differs.
  Giving up capabilities always succeeds.  With any other text it exits with the status 1
  without a change.
\<close>

theorem arg_set_caps_spec:
  assumes "cred_abi K view valid" "names_abi N" "wf_world w" "mem_ok w" "valid (kern w)" "caller_ok K (multithread w) w"
    "u = view (kern w)"
  shows "\<exists>r w'. arg_set_caps K N strict val w = Some (r, w')
     \<and> (case parse_clauses N (max_bits w) 2 val zero3 of
          None \<Rightarrow> r = Inl (Exit 1) \<and> kern w' = kern w
        | Some d \<Rightarrow> changed_to (caps_of d CAP_EFFECTIVE) (caps_of d CAP_PERMITTED) (caps_of d CAP_INHERITABLE) u r (view (kern w')))
     \<and> (r = Inr () \<longrightarrow> heap w' = heap w)"
  using cred_abi.arg_set_caps_exec [OF assms(1,3-7,2)] .

theorem arg_set_caps_spec_witness:
  "\<exists>w'. arg_set_caps linux_kernel linux_names False ''='' (machine root_linux) = Some (Inr (), w')
     \<and> p_eff (lk_view (kern w')) = {} \<and> p_per (lk_view (kern w')) = {} \<and> p_bnd (lk_view (kern w')) = {..<41}"
proof -
  obtain d where d: "moved {x. int x < 41} 0 zero3 d" "parse_clauses linux_names 41 2 (CHR ''='' # flag_text 0) zero3 = parse_clauses linux_names 41 2 [] d"
    using parse_default_clause [of 0 zero3 41 linux_names] zero3_props(1) by (auto simp: at_end_def)
  have "flag_text 0 = []" by (simp add: flag_text_def)
  then have p: "parse_clauses linux_names 41 2 ''='' zero3 = Some d" using d(2) by (simp add: parse_clauses.simps [of _ _ _ "[]"])
  have c: "caps_of d CAP_EFFECTIVE = {}" "caps_of d CAP_PERMITTED = {}" "caps_of d CAP_INHERITABLE = {}"
    using d(1) zero3_props(4) by (auto simp: moved_def caps_of_def)
  obtain r w' where "arg_set_caps linux_kernel linux_names False ''='' (machine root_linux) = Some (r, w')"
    "changed_to {} {} {} (lk_view root_linux) r (lk_view (kern w'))"
    using arg_set_caps_spec [OF linux.cred_abi_axioms linux_names.names_abi_axioms wf_machine mem_ok_machine(1) _ caller_ok_machine(1) refl, of root_linux False "''=''"]
      root_valid p c by auto
  then show ?thesis by (auto simp: changed_to_def holding_def lk_view_def root_linux_def plain_linux_def)
qed

end
