(* ===== verification/Psx_Map.thy ===== *)
theory Psx_Map
  imports Libcap_Prelude
begin

unbundle bit_operations_syntax

text \<open>
  The coordination state of \<^verbatim>\<open>libpsx\<close> (\<^verbatim>\<open>psx/libpsx.h\<close>, \<^verbatim>\<open>psx/psx.c\<close>): the tracker, its lock, and
  the table of threads it keeps while a system call is mirrored.

  \<^item> A \<^verbatim>\<open>long\<close> that is hashed is a 64-bit word; \<^verbatim>\<open>>>\<close> on it is the arithmetic shift.
  \<^item> The table is the array \<^verbatim>\<open>map\<close>; the slot of a thread is its mixed id under \<^verbatim>\<open>map_mask\<close>, with
    no probing: on a collision the table is doubled until the two ids part.
  \<^item> \<^verbatim>\<open>calloc\<close> is taken to succeed, as the code takes it.
\<close>

section \<open>The tracker\<close>

type_synonym s64 = "64 word"

datatype psx_tracker_state = PSX_IDLE | PSX_SETUP | PSX_SYSCALL | PSX_EXITING

datatype psx_sensitivity = PSX_IGNORE | PSX_WARNING | PSX_ERROR

record psx_thread_ref =
  r_sweep :: int
  r_pending :: int
  r_tid :: s64
  r_retval :: int

definition zero_ref :: psx_thread_ref where
  "zero_ref = \<lparr>r_sweep = 0, r_pending = 0, r_tid = 0, r_retval = 0\<rparr>"

record psx_cmd =
  syscall_nr :: int
  arg1 :: int
  arg2 :: int
  arg3 :: int
  arg4 :: int
  arg5 :: int
  arg6 :: int
  six :: int
  active :: int

record psx_tracker =
  t_pid :: int
  t_pid_path :: "int option"
  t_state_mu :: int
  t_state :: psx_tracker_state
  t_initialized :: int
  t_incomplete :: int
  t_psx_sig :: int
  t_sensitivity :: psx_sensitivity
  t_cmd :: psx_cmd
  t_map_entries :: int
  t_map_mask :: s64
  t_map :: "psx_thread_ref list"

text \<open>The global \<^verbatim>\<open>psx_tracker\<close> before its first use: static storage, all zero.\<close>

definition psx_tracker_zero :: psx_tracker where
  "psx_tracker_zero = \<lparr>t_pid = 0, t_pid_path = None, t_state_mu = 0, t_state = PSX_IDLE, t_initialized = 0,
     t_incomplete = 0, t_psx_sig = 0, t_sensitivity = PSX_IGNORE,
     t_cmd = \<lparr>syscall_nr = 0, arg1 = 0, arg2 = 0, arg3 = 0, arg4 = 0, arg5 = 0, arg6 = 0, six = 0, active = 0\<rparr>,
     t_map_entries = 0, t_map_mask = 0, t_map = []\<rparr>"

section \<open>The hash\<close>

definition psx_mix :: "s64 \<Rightarrow> s64" where
  "psx_mix value = value XOR signed_drop_bit 7 value XOR signed_drop_bit 13 value XOR signed_drop_bit 23 value"

text \<open>\<^verbatim>\<open>psx_set_map(int size)\<close>: the \<^verbatim>\<open>long\<close> of the caller is narrowed to an \<^verbatim>\<open>int\<close>.\<close>

definition psx_set_map :: "s64 \<Rightarrow> psx_tracker \<Rightarrow> psx_tracker" where
  "psx_set_map n64 tr =
     (let n = sint (ucast n64 :: 32 word)
      in tr\<lparr>t_map_entries := n, t_map_mask := word_of_int (n - 1), t_map := replicate (nat n) zero_ref\<rparr>)"

section \<open>Start, lock and unlock\<close>

definition psx_syscall_start :: "psx_tracker \<Rightarrow> psx_tracker" where
  "psx_syscall_start tr = psx_set_map 256 (tr\<lparr>t_initialized := 1, t_pid_path := Some 0, t_psx_sig := 33\<rparr>)"

text \<open>The spin lock holds the pid of its owner; a lock left by another process does not count.\<close>

definition psx_mu_lock :: "int \<Rightarrow> psx_tracker \<Rightarrow> psx_tracker option" where
  "psx_mu_lock pid tr = (if t_state_mu tr = pid then None else Some (tr\<lparr>t_state_mu := pid\<rparr>))"

definition psx_lock :: "int \<Rightarrow> psx_tracker \<Rightarrow> psx_tracker option" where
  "psx_lock pid tr = do {
     tr \<leftarrow> psx_mu_lock pid tr;
     Some (if t_pid tr \<noteq> pid then
             (let tr = (if t_initialized tr = 0 then psx_syscall_start tr else tr)
              in tr\<lparr>t_pid := pid, t_pid_path := Some pid, t_state := PSX_IDLE, t_cmd := (t_cmd tr)\<lparr>active := 0\<rparr>\<rparr>)
           else tr) }"

definition psx_unlock :: "psx_tracker \<Rightarrow> psx_tracker" where
  "psx_unlock tr = tr\<lparr>t_state_mu := 0\<rparr>"

text \<open>
  \<^verbatim>\<open>psx_cond_wait\<close>: the lock is free while others run; \<open>rest\<close> is what they leave behind.
\<close>

definition psx_cond_wait :: "int \<Rightarrow> (psx_tracker \<Rightarrow> psx_tracker) \<Rightarrow> psx_tracker \<Rightarrow> psx_tracker option" where
  "psx_cond_wait pid rest tr = psx_lock pid (rest (psx_unlock tr))"

text \<open>
  \<^verbatim>\<open>psx_new_state\<close> and \<^verbatim>\<open>_psx_cleanup\<close> in the round of their loops that succeeds; \<open>None\<close> while they
  have to wait.
\<close>

definition psx_new_state :: "int \<Rightarrow> psx_tracker_state \<Rightarrow> psx_tracker_state \<Rightarrow> psx_tracker \<Rightarrow> psx_tracker option" where
  "psx_new_state pid was new tr = do {
     tr \<leftarrow> psx_lock pid tr;
     if t_state tr \<noteq> was then None else Some (psx_unlock (tr\<lparr>t_state := new\<rparr>)) }"

definition psx_cleanup :: "int \<Rightarrow> psx_tracker \<Rightarrow> psx_tracker option" where
  "psx_cleanup pid tr = do {
     tr \<leftarrow> psx_lock pid tr;
     (case t_state tr of
        PSX_IDLE \<Rightarrow> Some (psx_unlock (tr\<lparr>t_state := PSX_EXITING, t_map := [], t_pid_path := None\<rparr>))
      | PSX_EXITING \<Rightarrow> Some (psx_unlock tr)
      | _ \<Rightarrow> None) }"

definition psx_set_sensitivity :: "int \<Rightarrow> int \<Rightarrow> psx_tracker \<Rightarrow> (int \<times> int option \<times> psx_tracker) option" where
  "psx_set_sensitivity pid level tr =
     (if level < 0 \<or> level > 2 then Some (- 1, Some EINVAL, tr)
      else do {
        tr \<leftarrow> psx_lock pid tr;
        Some (0, None, psx_unlock (tr\<lparr>t_sensitivity :=
           (if level = 0 then PSX_IGNORE else if level = 1 then PSX_WARNING else PSX_ERROR)\<rparr>)) })"

section \<open>The thread table\<close>

definition psx_slot :: "psx_tracker \<Rightarrow> s64 \<Rightarrow> nat" where
  "psx_slot tr tid = unat (psx_mix tid AND t_map_mask tr)"

text \<open>The loop that doubles the table until the two mixed ids differ under the mask.\<close>

partial_function (option) psx_more_entries :: "s64 \<Rightarrow> s64 \<Rightarrow> s64 \<Rightarrow> s64 option" where
  "psx_more_entries oval mix entries =
     (if (oval XOR mix) AND (entries - 1) \<noteq> 0 then Some entries
      else psx_more_entries oval mix (push_bit 1 entries))"

fun psx_rehash :: "int \<Rightarrow> s64 \<Rightarrow> psx_thread_ref list \<Rightarrow> psx_thread_ref list \<Rightarrow> psx_thread_ref list" where
  "psx_rehash ok_sweep msk [] new = new"
| "psx_rehash ok_sweep msk (y # ys) new =
     psx_rehash ok_sweep msk ys
       (if r_sweep y < ok_sweep then new else new[unat (psx_mix (r_tid y) AND msk) := y])"

definition psx_grow :: "int \<Rightarrow> s64 \<Rightarrow> s64 \<Rightarrow> psx_tracker \<Rightarrow> psx_tracker option" where
  "psx_grow sweep tid xtid tr = do {
     entries \<leftarrow> psx_more_entries (psx_mix xtid) (psx_mix tid) (word_of_int (t_map_entries tr));
     old \<leftarrow> Some (t_map tr);
     tr \<leftarrow> Some (psx_set_map entries tr);
     Some (tr\<lparr>t_map := psx_rehash (sweep - 1) (entries - 1) old (t_map tr)\<rparr>) }"

text \<open>
  Looking a listed thread up, entering it if it is new; the flag says whether it has to be sent
  the signal.
\<close>

definition psx_enter :: "int \<Rightarrow> s64 \<Rightarrow> psx_tracker \<Rightarrow> (bool \<times> psx_tracker) option" where
  "psx_enter sweep tid tr =
     (let x = t_map tr ! psx_slot tr tid
      in if r_tid x \<noteq> tid then do {
           tr \<leftarrow> (if r_tid x \<noteq> 0 then psx_grow sweep tid (r_tid x) tr else Some tr);
           i \<leftarrow> Some (psx_slot tr tid);
           Some (True, tr\<lparr>t_map := (t_map tr)[i := (t_map tr ! i)\<lparr>r_pending := 1, r_tid := tid\<rparr>],
                          t_cmd := (t_cmd tr)\<lparr>active := 1\<rparr>\<rparr>) }
         else Some (False, tr))"

text \<open>The accounting of a listed thread: its slot gets the sweep number.\<close>

definition psx_mark :: "int \<Rightarrow> s64 \<Rightarrow> psx_tracker \<Rightarrow> psx_tracker" where
  "psx_mark sweep tid tr =
     (let i = psx_slot tr tid in tr\<lparr>t_map := (t_map tr)[i := (t_map tr ! i)\<lparr>r_sweep := sweep\<rparr>]\<rparr>)"

text \<open>What the handler of a thread leaves in the table.\<close>

definition psx_report :: "s64 \<Rightarrow> int \<Rightarrow> psx_tracker \<Rightarrow> psx_tracker" where
  "psx_report tid retval tr =
     (let i = psx_slot tr tid in tr\<lparr>t_map := (t_map tr)[i := (t_map tr ! i)\<lparr>r_retval := retval, r_pending := 0\<rparr>]\<rparr>)"

section \<open>The hash parts any two thread ids\<close>

lemma bit_psx_mix:
  assumes "\<not> bit v 63"
  shows "bit (psx_mix v) n = ((bit v n \<noteq> bit v (n + 7)) \<noteq> (bit v (n + 13) \<noteq> bit v (n + 23)))"
proof (cases "n < 64")
  case True
  have "bit (signed_drop_bit m v) n = bit v (n + m)" for m
  proof -
    have iff: "bit (signed_drop_bit m v) n = bit v (if 64 - m \<le> n \<and> n < 64 then 63 else m + n)"
      by (simp add: bit_signed_drop_bit_iff)
    have "\<not> bit v (n + m)" if "64 - m \<le> n" using bit_imp_le_length [of v "n + m"] that by fastforce
    with iff assms True show ?thesis by (cases "64 - m \<le> n") (simp_all add: add.commute)
  qed
  then show ?thesis by (auto simp: psx_mix_def bit_xor_iff)
next
  case False
  then have "\<not> bit (psx_mix v) n" "\<not> bit v n" "\<not> bit v (n + m)" for m by (auto dest: bit_imp_le_length)
  then show ?thesis by simp
qed

lemma psx_mix_inj:
  assumes "psx_mix a = psx_mix b" "\<not> bit a 63" "\<not> bit b 63"
  shows "a = b"
proof (rule ccontr)
  assume "a \<noteq> b"
  define D where "D = {n. bit a n \<noteq> bit b n}"
  have "D \<subseteq> {..<64}" by (auto simp: D_def dest: bit_imp_le_length)
  then have fin: "finite D" using finite_subset by blast
  have "D \<noteq> {}" using \<open>a \<noteq> b\<close> by (auto simp: D_def bit_eq_iff)
  then have m: "Max D \<in> D" using fin by simp
  have above: "bit a n = bit b n" if "Max D < n" for n
    using Max_ge [OF fin, of n] that by (auto simp: D_def)
  have "bit a (Max D) \<noteq> bit b (Max D)" using m by (simp add: D_def)
  moreover have "bit a (Max D + 7) = bit b (Max D + 7)" "bit a (Max D + 13) = bit b (Max D + 13)"
    "bit a (Max D + 23) = bit b (Max D + 23)" by (simp_all add: above)
  ultimately have "bit (psx_mix a) (Max D) \<noteq> bit (psx_mix b) (Max D)"
    by (simp only: bit_psx_mix [OF assms(2)] bit_psx_mix [OF assms(3)]) blast
  with assms(1) show False by simp
qed

text \<open>Linux hands out thread ids below \<^verbatim>\<open>PID_MAX_LIMIT\<close>, \<open>2 ^ 22\<close>.\<close>

definition tid_ok :: "s64 \<Rightarrow> bool" where
  "tid_ok tid \<longleftrightarrow> 0 < tid \<and> tid < 2 ^ 22"

lemma tid_ok_bits:
  assumes "tid_ok tid"
  shows "bit tid n \<Longrightarrow> n < 22" "tid \<noteq> 0"
proof -
  have "unat tid < 2 ^ 22" using assms by (simp add: tid_ok_def word_less_nat_alt)
  then have "unat (take_bit 22 tid) = unat tid" by (simp only: unsigned_take_bit_eq take_bit_nat_eq_self)
  then have "take_bit 22 tid = tid" by (rule unsigned_word_eqI)
  then show "bit tid n \<Longrightarrow> n < 22" by (metis bit_take_bit_iff)
  show "tid \<noteq> 0" using assms by (auto simp: tid_ok_def)
qed

lemma mix_bits:
  assumes "tid_ok tid" "bit (psx_mix tid) n"
  shows "n < 22"
proof -
  have "\<not> bit tid 63" using tid_ok_bits(1) [OF assms(1), of 63] by auto
  with assms(2) show ?thesis using tid_ok_bits(1) [OF assms(1)] by (fastforce simp: bit_psx_mix)
qed

lemma mix_eq:
  assumes "tid_ok a" "tid_ok b"
  shows "psx_mix a = psx_mix b \<longleftrightarrow> a = b"
proof -
  have "\<not> bit a 63" "\<not> bit b 63" using tid_ok_bits(1) [OF assms(1), of 63] tid_ok_bits(1) [OF assms(2), of 63] by auto
  then show ?thesis using psx_mix_inj by blast
qed

section \<open>The table as a finite map\<close>

definition refs :: "psx_tracker \<Rightarrow> s64 \<Rightarrow> psx_thread_ref option" where
  "refs tr tid = (let x = t_map tr ! psx_slot tr tid in if tid \<noteq> 0 \<and> r_tid x = tid then Some x else None)"

definition slots_ok :: "psx_tracker \<Rightarrow> bool" where
  "slots_ok tr \<longleftrightarrow> (\<forall>i < length (t_map tr). (r_tid (t_map tr ! i) = 0 \<longrightarrow> t_map tr ! i = zero_ref)
     \<and> (r_tid (t_map tr ! i) \<noteq> 0 \<longrightarrow> tid_ok (r_tid (t_map tr ! i)) \<and> psx_slot tr (r_tid (t_map tr ! i)) = i))"

definition wf_map_at :: "nat \<Rightarrow> psx_tracker \<Rightarrow> bool" where
  "wf_map_at k tr \<longleftrightarrow> 8 \<le> k \<and> k \<le> 22 \<and> t_map_entries tr = 2 ^ k \<and> t_map_mask tr = mask k
     \<and> length (t_map tr) = 2 ^ k \<and> slots_ok tr"

definition wf_map :: "psx_tracker \<Rightarrow> bool" where
  "wf_map tr \<longleftrightarrow> (\<exists>k. wf_map_at k tr)"

lemma slot_take_bit: "t_map_mask tr = mask k \<Longrightarrow> psx_slot tr t = unat (take_bit k (psx_mix t))"
  by (simp add: psx_slot_def take_bit_eq_mask)

lemma unat_take_bit_less: "k \<le> 22 \<Longrightarrow> unat (take_bit k (v :: s64)) < 2 ^ k"
  by (simp add: unsigned_take_bit_eq)

lemma slot_less: "wf_map_at k tr \<Longrightarrow> psx_slot tr t < length (t_map tr)"
  using unat_take_bit_less [of k "psx_mix t"] by (simp add: wf_map_at_def slot_take_bit)

lemma finer_slot:
  assumes "k \<le> j" "unat (take_bit j (a :: s64)) = unat (take_bit j (b :: s64))"
  shows "unat (take_bit k a) = unat (take_bit k b)"
proof -
  have "take_bit j a = take_bit j b" using assms(2) by (rule unsigned_word_eqI)
  then have "take_bit k (take_bit j a) = take_bit k (take_bit j b)" by simp
  with assms(1) show ?thesis by (simp add: take_bit_take_bit min_def)
qed

lemma parted:
  "(a XOR b) AND (2 ^ k - 1) = 0 \<longleftrightarrow> take_bit k a = take_bit k (b :: s64)"
proof -
  have "(a XOR b) AND (2 ^ k - 1) = take_bit k a XOR take_bit k b"
    by (simp only: mask_eq_exp_minus_1 [symmetric] take_bit_eq_mask [symmetric] take_bit_xor)
  moreover have "x XOR y = 0 \<longleftrightarrow> x = y" for x y :: s64 by (auto simp: bit_eq_iff bit_xor_iff)
  ultimately show ?thesis by simp
qed

lemma more_entries_exec:
  assumes "k \<le> 22" "oval \<noteq> mix" "\<And>n. bit oval n \<Longrightarrow> n < 22" "\<And>n. bit mix n \<Longrightarrow> n < 22"
  shows "\<exists>j. psx_more_entries oval mix (2 ^ k) = Some (2 ^ j) \<and> k \<le> j \<and> j \<le> 22 \<and> take_bit j oval \<noteq> take_bit j mix"
  using assms(1)
proof (induction "22 - k" arbitrary: k)
  case 0
  then have k: "k = 22" by simp
  have "take_bit 22 oval = oval" "take_bit 22 mix = mix"
    using assms(3,4) by (auto simp: bit_eq_iff bit_take_bit_iff)
  then have ne: "take_bit k oval \<noteq> take_bit k mix" using k assms(2) by simp
  then have "psx_more_entries oval mix (2 ^ k) = Some (2 ^ k)" by (subst psx_more_entries.simps) (simp only: parted if_True simp_thms)
  with k ne show ?case by blast
next
  case (Suc d)
  then have k: "k < 22" by simp
  show ?case
  proof (cases "take_bit k oval = take_bit k mix")
    case True
    have "d = 22 - Suc k" "Suc k \<le> 22" using Suc(2) k by simp_all
    from Suc(1) [OF this] obtain j where "psx_more_entries oval mix (2 ^ Suc k) = Some (2 ^ j)" "Suc k \<le> j" "j \<le> 22"
      "take_bit j oval \<noteq> take_bit j mix" by blast
    moreover have "psx_more_entries oval mix (2 ^ k) = psx_more_entries oval mix (2 ^ Suc k)"
      using True by (subst psx_more_entries.simps) (simp add: parted push_bit_eq_mult mult.commute)
    ultimately show ?thesis by (metis Suc_leD)
  next
    case False
    then have "psx_more_entries oval mix (2 ^ k) = Some (2 ^ k)" by (subst psx_more_entries.simps) (simp add: parted)
    with False show ?thesis using k by (metis less_imp_le order_refl)
  qed
qed

lemma set_map_exec:
  assumes "j \<le> 22"
  shows "psx_set_map (2 ^ j) tr = tr\<lparr>t_map_entries := 2 ^ j, t_map_mask := mask j, t_map := replicate (2 ^ j) zero_ref\<rparr>"
proof -
  have "list_all (\<lambda>j. sint (ucast (2 ^ j :: s64) :: 32 word) = 2 ^ j) [0..<23]" by code_simp
  then have "sint (ucast (2 ^ j :: s64) :: 32 word) = 2 ^ j" using assms by (simp only: list_all_iff) simp
  moreover have "word_of_int (2 ^ j - 1) = (mask j :: s64)" by (simp add: mask_eq_exp_minus_1)
  ultimately show ?thesis by (simp add: psx_set_map_def nat_power_eq)
qed

lemma rehash_length [simp]: "length (psx_rehash ok msk ys new) = length new"
  by (induction ok msk ys new rule: psx_rehash.induct) simp_all

lemma rehash_other:
  assumes "\<forall>y \<in> set ys. ok \<le> r_sweep y \<longrightarrow> unat (psx_mix (r_tid y) AND msk) \<noteq> i"
  shows "psx_rehash ok msk ys new ! i = new ! i"
  using assms by (induction ok msk ys new rule: psx_rehash.induct) auto

lemma rehash_kept:
  assumes "y \<in> set ys" "ok \<le> r_sweep y"
    "\<forall>y \<in> set ys. \<forall>z \<in> set ys. ok \<le> r_sweep y \<longrightarrow> ok \<le> r_sweep z \<longrightarrow>
       unat (psx_mix (r_tid y) AND msk) = unat (psx_mix (r_tid z) AND msk) \<longrightarrow> y = z"
    "unat (psx_mix (r_tid y) AND msk) < length new"
  shows "psx_rehash ok msk ys new ! unat (psx_mix (r_tid y) AND msk) = y"
  using assms
proof (induction ok msk ys new rule: psx_rehash.induct)
  case (2 ok msk z ys new)
  show ?case
  proof (cases "y \<in> set ys")
    case True
    with 2 show ?thesis by (cases "r_sweep z < ok") simp_all
  next
    case False
    then have y: "y = z" using 2(2) by simp
    have "unat (psx_mix (r_tid u) AND msk) \<noteq> unat (psx_mix (r_tid y) AND msk)" if "u \<in> set ys" "ok \<le> r_sweep u" for u
      using 2(3,4) that False y by auto
    with y 2(3,5) show ?thesis by (simp add: rehash_other)
  qed
qed simp

lemma slots_okD:
  assumes "slots_ok tr" "x \<in> set (t_map tr)"
  shows "r_tid x = 0 \<Longrightarrow> x = zero_ref" "r_tid x \<noteq> 0 \<Longrightarrow> tid_ok (r_tid x) \<and> t_map tr ! psx_slot tr (r_tid x) = x"
  using assms by (auto simp: slots_ok_def in_set_conv_nth)

definition regrown :: "int \<Rightarrow> nat \<Rightarrow> psx_tracker \<Rightarrow> psx_tracker" where
  "regrown sweep j tr = tr\<lparr>t_map_entries := 2 ^ j, t_map_mask := mask j,
     t_map := psx_rehash (sweep - 1) (mask j) (t_map tr) (replicate (2 ^ j) zero_ref)\<rparr>"

lemma wf_map_atD:
  assumes "wf_map_at k tr"
  shows "8 \<le> k" "k \<le> 22" "t_map_entries tr = 2 ^ k" "t_map_mask tr = mask k" "length (t_map tr) = 2 ^ k" "slots_ok tr"
    "t_map tr ! psx_slot tr t \<in> set (t_map tr)"
  using assms slot_less [OF assms] by (simp_all add: wf_map_at_def)

lemma regrown_slot: "psx_slot (regrown sweep j tr) u = unat (psx_mix u AND mask j)"
  by (simp add: psx_slot_def regrown_def)

lemma regrown_less: "j \<le> 22 \<Longrightarrow> psx_slot (regrown sweep j tr) u < 2 ^ j"
  using unat_take_bit_less [of j] by (simp add: regrown_slot take_bit_eq_mask)

lemma regrown_finer:
  assumes "wf_map_at k tr" "k \<le> j" "psx_slot (regrown sweep j tr) u = psx_slot (regrown sweep j tr) v"
  shows "psx_slot tr u = psx_slot tr v"
  using finer_slot [OF assms(2), of "psx_mix u" "psx_mix v"] assms(3)
  by (simp add: regrown_slot slot_take_bit [OF wf_map_atD(4) [OF assms(1)]] take_bit_eq_mask [symmetric])

text \<open>The references a new table keeps: those of this sweep and of the one before it.\<close>

definition keeps :: "int \<Rightarrow> psx_tracker \<Rightarrow> psx_thread_ref \<Rightarrow> bool" where
  "keeps sweep tr y \<longleftrightarrow> y \<in> set (t_map tr) \<and> sweep - 1 \<le> r_sweep y"

lemma keepsD:
  assumes "wf_map_at k tr" "2 \<le> sweep" "keeps sweep tr y"
  shows "r_tid y \<noteq> 0" "tid_ok (r_tid y)" "t_map tr ! psx_slot tr (r_tid y) = y"
proof -
  note sl = wf_map_atD(6) [OF assms(1)]
  show t: "r_tid y \<noteq> 0"
  proof
    assume "r_tid y = 0"
    then have "y = zero_ref" using slots_okD(1) [OF sl] assms(3) by (simp add: keeps_def)
    with assms(2,3) show False by (simp add: keeps_def zero_ref_def)
  qed
  show "tid_ok (r_tid y)" "t_map tr ! psx_slot tr (r_tid y) = y" using slots_okD(2) [OF sl _ t] assms(3) by (auto simp: keeps_def)
qed

lemma regrown_kept:
  assumes "wf_map_at k tr" "k \<le> j" "j \<le> 22" "2 \<le> sweep" "keeps sweep tr y"
  shows "t_map (regrown sweep j tr) ! psx_slot (regrown sweep j tr) (r_tid y) = y"
proof -
  have "u = v" if "keeps sweep tr u" "keeps sweep tr v"
      "psx_slot (regrown sweep j tr) (r_tid u) = psx_slot (regrown sweep j tr) (r_tid v)" for u v
    using keepsD(3) [OF assms(1,4)] that regrown_finer [OF assms(1,2) that(3)] by metis
  then show ?thesis
    using assms(5) regrown_less [OF assms(3), of sweep tr "r_tid y"] rehash_kept [of y "t_map tr" "sweep - 1" "mask j" "replicate (2 ^ j) zero_ref"]
    unfolding regrown_slot by (simp add: regrown_def keeps_def)
qed

lemma regrown_cell:
  assumes "wf_map_at k tr" "k \<le> j" "j \<le> 22" "2 \<le> sweep" "i < 2 ^ j"
  obtains y where "keeps sweep tr y" "psx_slot (regrown sweep j tr) (r_tid y) = i" "t_map (regrown sweep j tr) ! i = y"
  | "t_map (regrown sweep j tr) ! i = zero_ref" "\<And>y. keeps sweep tr y \<Longrightarrow> psx_slot (regrown sweep j tr) (r_tid y) \<noteq> i"
proof (cases "\<exists>y. keeps sweep tr y \<and> psx_slot (regrown sweep j tr) (r_tid y) = i")
  case True
  then show ?thesis using regrown_kept [OF assms(1-4)] that(1) by blast
next
  case False
  then have "t_map (regrown sweep j tr) ! i = zero_ref"
    using rehash_other [of "t_map tr" "sweep - 1" "mask j" i "replicate (2 ^ j) zero_ref"] assms(5)
    by (auto simp: regrown_slot keeps_def) (simp add: regrown_def)
  with False show ?thesis using that(2) by blast
qed

lemma regrown_wf:
  assumes "wf_map_at k tr" "k \<le> j" "j \<le> 22" "2 \<le> sweep"
  shows "wf_map (regrown sweep j tr)"
proof -
  let ?tr = "regrown sweep j tr"
  have len: "length (t_map ?tr) = 2 ^ j" by (simp add: regrown_def)
  have "(r_tid (t_map ?tr ! i) = 0 \<longrightarrow> t_map ?tr ! i = zero_ref)
     \<and> (r_tid (t_map ?tr ! i) \<noteq> 0 \<longrightarrow> tid_ok (r_tid (t_map ?tr ! i)) \<and> psx_slot ?tr (r_tid (t_map ?tr ! i)) = i)"
    if "i < 2 ^ j" for i
    using that by (rule regrown_cell [OF assms]) (use keepsD [OF assms(1,4)] in \<open>auto simp: zero_ref_def\<close>)
  then have "slots_ok ?tr" using len by (simp add: slots_ok_def)
  then show ?thesis
    unfolding wf_map_def wf_map_at_def using len assms(2,3) wf_map_atD(1) [OF assms(1)]
    by (intro exI [of _ j]) (simp add: regrown_def)
qed

lemma regrown_refs:
  assumes "wf_map_at k tr" "k \<le> j" "j \<le> 22" "2 \<le> sweep"
  shows "refs (regrown sweep j tr) u = (case refs tr u of None \<Rightarrow> None | Some y \<Rightarrow> if sweep - 1 \<le> r_sweep y then Some y else None)"
proof (cases "\<exists>y. refs tr u = Some y \<and> sweep - 1 \<le> r_sweep y")
  case True
  then obtain y where y: "refs tr u = Some y" "sweep - 1 \<le> r_sweep y" by blast
  then have c: "y = t_map tr ! psx_slot tr u" "r_tid y = u" "u \<noteq> 0" by (auto simp: refs_def Let_def split: if_splits)
  with y have "keeps sweep tr y" using wf_map_atD(7) [OF assms(1), of u] by (simp add: keeps_def)
  from regrown_kept [OF assms this] c have "refs (regrown sweep j tr) u = Some y" by (simp add: refs_def)
  with y show ?thesis by simp
next
  case False
  let ?i = "psx_slot (regrown sweep j tr) u"
  have "refs (regrown sweep j tr) u = None"
  proof (rule regrown_cell [OF assms regrown_less [OF assms(3), of sweep tr u]])
    fix y assume y: "keeps sweep tr y" "t_map (regrown sweep j tr) ! ?i = y"
    have "r_tid y \<noteq> u"
    proof
      assume "r_tid y = u"
      then have "refs tr u = Some y" using keepsD [OF assms(1,4) y(1)] by (auto simp: refs_def)
      with False y(1) show False by (simp add: keeps_def)
    qed
    with y(2) show ?thesis by (simp add: refs_def)
  qed (simp add: refs_def zero_ref_def)
  with False show ?thesis by (cases "refs tr u") auto
qed

lemma grow_exec:
  assumes "wf_map_at k tr" "tid_ok t" "r_tid (t_map tr ! psx_slot tr t) = xt" "xt \<noteq> 0" "xt \<noteq> t" "2 \<le> sweep"
  obtains j where "psx_grow sweep t xt tr = Some (regrown sweep j tr)" "k \<le> j" "j \<le> 22"
    "t_map (regrown sweep j tr) ! psx_slot (regrown sweep j tr) t = zero_ref"
proof -
  note k = wf_map_atD [OF assms(1)]
  have xt: "tid_ok xt" using slots_okD(2) [OF k(6) k(7) [of t]] assms(3,4) by auto
  obtain j where j: "psx_more_entries (psx_mix xt) (psx_mix t) (2 ^ k) = Some (2 ^ j)" "k \<le> j" "j \<le> 22"
    "take_bit j (psx_mix xt) \<noteq> take_bit j (psx_mix t)"
    using more_entries_exec [of k "psx_mix xt" "psx_mix t"] k(2) mix_eq [OF xt assms(2)] assms(5)
      mix_bits [OF xt] mix_bits [OF assms(2)] by auto
  let ?tr = "regrown sweep j tr"
  have run: "psx_grow sweep t xt tr = Some ?tr"
    using j(1) k(3) by (simp add: psx_grow_def set_map_exec [OF j(3)] regrown_def mask_eq_exp_minus_1)
  have "t_map ?tr ! psx_slot ?tr t = zero_ref"
  proof (rule regrown_cell [OF assms(1) j(2,3) assms(6) regrown_less [OF j(3), of sweep tr t]])
    fix y assume y: "keeps sweep tr y" "psx_slot ?tr (r_tid y) = psx_slot ?tr t"
    then have "r_tid y = xt" using regrown_finer [OF assms(1) j(2) y(2)] keepsD(3) [OF assms(1,6) y(1)] assms(3) by simp
    with y(2) have "take_bit j (psx_mix xt) = take_bit j (psx_mix t)"
      by (intro unsigned_word_eqI) (simp add: regrown_slot take_bit_eq_mask)
    with j(4) show ?thesis by simp
  qed
  with run j(2,3) show ?thesis using that by blast
qed

lemma refs_tid:
  assumes "wf_map tr" "refs tr u = Some y"
  shows "r_tid y = u" "tid_ok u"
proof -
  from assms(1) obtain k where k: "wf_map_at k tr" by (auto simp: wf_map_def)
  have y: "y = t_map tr ! psx_slot tr u" "u \<noteq> 0" "r_tid y = u" using assms(2) by (auto simp: refs_def Let_def split: if_splits)
  then show "r_tid y = u" "tid_ok u" using slots_okD(2) [OF wf_map_atD(6,7) [OF k], of u] by auto
qed

lemma psx_slot_frame [simp]:
  "psx_slot (tr\<lparr>t_cmd := c\<rparr>) = psx_slot tr" "psx_slot (tr\<lparr>t_state := st\<rparr>) = psx_slot tr"
  "psx_slot (tr\<lparr>t_incomplete := n\<rparr>) = psx_slot tr" "psx_slot (tr\<lparr>t_state_mu := m\<rparr>) = psx_slot tr"
  "psx_slot (tr\<lparr>t_map := l\<rparr>) = psx_slot tr"
  by (simp_all add: psx_slot_def fun_eq_iff)

lemma refs_frame [simp]:
  "refs (tr\<lparr>t_cmd := c\<rparr>) = refs tr" "refs (tr\<lparr>t_state := st\<rparr>) = refs tr"
  "refs (tr\<lparr>t_incomplete := n\<rparr>) = refs tr" "refs (tr\<lparr>t_state_mu := m\<rparr>) = refs tr"
  by (simp_all add: refs_def fun_eq_iff)

lemma wf_map_frame [simp]:
  "wf_map (tr\<lparr>t_cmd := c\<rparr>) = wf_map tr" "wf_map (tr\<lparr>t_state := st\<rparr>) = wf_map tr"
  "wf_map (tr\<lparr>t_incomplete := n\<rparr>) = wf_map tr" "wf_map (tr\<lparr>t_state_mu := m\<rparr>) = wf_map tr"
  by (simp_all add: wf_map_def wf_map_at_def slots_ok_def)

text \<open>Writing into a slot without moving its thread.\<close>

lemma write_slot:
  assumes "wf_map tr" "r_tid z = t" "tid_ok t" "r_tid (t_map tr ! psx_slot tr t) = t \<or> t_map tr ! psx_slot tr t = zero_ref"
  shows "wf_map (tr\<lparr>t_map := (t_map tr)[psx_slot tr t := z]\<rparr>)"
    "refs (tr\<lparr>t_map := (t_map tr)[psx_slot tr t := z]\<rparr>) = (refs tr)(t \<mapsto> z)"
proof -
  from assms(1) obtain k where k: "wf_map_at k tr" by (auto simp: wf_map_def)
  note t0 = tid_ok_bits(2) [OF assms(3)] and len = slot_less [OF k, of t]
  have "slots_ok (tr\<lparr>t_map := (t_map tr)[psx_slot tr t := z]\<rparr>)"
  proof (unfold slots_ok_def, intro allI impI)
    fix i assume "i < length (t_map (tr\<lparr>t_map := (t_map tr)[psx_slot tr t := z]\<rparr>))"
    then show "(r_tid (t_map (tr\<lparr>t_map := (t_map tr)[psx_slot tr t := z]\<rparr>) ! i) = 0 \<longrightarrow> t_map (tr\<lparr>t_map := (t_map tr)[psx_slot tr t := z]\<rparr>) ! i = zero_ref)
      \<and> (r_tid (t_map (tr\<lparr>t_map := (t_map tr)[psx_slot tr t := z]\<rparr>) ! i) \<noteq> 0 \<longrightarrow>
         tid_ok (r_tid (t_map (tr\<lparr>t_map := (t_map tr)[psx_slot tr t := z]\<rparr>) ! i))
         \<and> psx_slot (tr\<lparr>t_map := (t_map tr)[psx_slot tr t := z]\<rparr>) (r_tid (t_map (tr\<lparr>t_map := (t_map tr)[psx_slot tr t := z]\<rparr>) ! i)) = i)"
      using wf_map_atD(6) [OF k] assms(2,3) t0 by (cases "i = psx_slot tr t") (simp_all add: slots_ok_def)
  qed
  with k show "wf_map (tr\<lparr>t_map := (t_map tr)[psx_slot tr t := z]\<rparr>)" by (auto simp: wf_map_def wf_map_at_def)
  show "refs (tr\<lparr>t_map := (t_map tr)[psx_slot tr t := z]\<rparr>) = (refs tr)(t \<mapsto> z)"
  proof
    fix u
    have "r_tid (t_map tr ! psx_slot tr t) = u \<Longrightarrow> u \<noteq> 0 \<Longrightarrow> u = t" using assms(4) by (auto simp: zero_ref_def)
    then show "refs (tr\<lparr>t_map := (t_map tr)[psx_slot tr t := z]\<rparr>) u = ((refs tr)(t \<mapsto> z)) u"
      using assms(2) t0 len by (auto simp: refs_def Let_def nth_list_update)
  qed
qed

section \<open>The contract of the thread table\<close>

locale thread_table =
  fixes wf :: "'tr \<Rightarrow> bool" and ref :: "'tr \<Rightarrow> s64 \<Rightarrow> psx_thread_ref option"
    and enter :: "int \<Rightarrow> s64 \<Rightarrow> 'tr \<Rightarrow> (bool \<times> 'tr) option"
    and mark :: "int \<Rightarrow> s64 \<Rightarrow> 'tr \<Rightarrow> 'tr" and report :: "s64 \<Rightarrow> int \<Rightarrow> 'tr \<Rightarrow> 'tr"
  assumes enter_known: "wf tr \<Longrightarrow> ref tr t = Some x \<Longrightarrow> enter s t tr = Some (False, tr)"
    and enter_new: "wf tr \<Longrightarrow> tid_ok t \<Longrightarrow> ref tr t = None \<Longrightarrow> 2 \<le> s \<Longrightarrow>
       \<exists>tr'. enter s t tr = Some (True, tr') \<and> wf tr' \<and> ref tr' t = Some (zero_ref\<lparr>r_pending := 1, r_tid := t\<rparr>)
         \<and> (\<forall>u. u \<noteq> t \<longrightarrow> ref tr' u = ref tr u \<or> (\<exists>y. ref tr u = Some y \<and> r_sweep y < s - 1 \<and> ref tr' u = None))"
    and mark_ref: "wf tr \<Longrightarrow> ref tr t = Some x \<Longrightarrow> wf (mark s t tr) \<and> ref (mark s t tr) = (ref tr)(t \<mapsto> x\<lparr>r_sweep := s\<rparr>)"
    and report_ref: "wf tr \<Longrightarrow> ref tr t = Some x \<Longrightarrow>
       wf (report t r tr) \<and> ref (report t r tr) = (ref tr)(t \<mapsto> x\<lparr>r_retval := r, r_pending := 0\<rparr>)"
begin

text \<open>Entering a thread loses nobody who was seen in this sweep or the one before.\<close>

lemma enter_ok:
  assumes "wf tr" "tid_ok t" "2 \<le> s" "\<forall>u y. u \<in> live \<longrightarrow> ref tr u = Some y \<longrightarrow> s - 1 \<le> r_sweep y"
  shows "\<exists>tr'. enter s t tr = Some (ref tr t = None, tr') \<and> wf tr'
     \<and> ref tr' t = Some (case ref tr t of None \<Rightarrow> zero_ref\<lparr>r_pending := 1, r_tid := t\<rparr> | Some x \<Rightarrow> x)
     \<and> (\<forall>u. u \<noteq> t \<longrightarrow> u \<in> live \<or> ref tr u = None \<longrightarrow> ref tr' u = ref tr u)
     \<and> (\<forall>u. u \<noteq> t \<longrightarrow> ref tr' u = ref tr u \<or> ref tr' u = None)"
proof (cases "ref tr t")
  case None
  from enter_new [OF assms(1,2) None assms(3)] obtain tr' where e: "enter s t tr = Some (True, tr')" "wf tr'"
    "ref tr' t = Some (zero_ref\<lparr>r_pending := 1, r_tid := t\<rparr>)"
    "\<And>u. u \<noteq> t \<Longrightarrow> ref tr' u = ref tr u \<or> (\<exists>y. ref tr u = Some y \<and> r_sweep y < s - 1 \<and> ref tr' u = None)"
    by blast
  have "ref tr' u = ref tr u" if "u \<noteq> t" "u \<in> live \<or> ref tr u = None" for u
    using e(4) [OF that(1)] that(2) assms(4) by fastforce
  moreover have "ref tr' u = ref tr u \<or> ref tr' u = None" if "u \<noteq> t" for u using e(4) [OF that] by auto
  ultimately show ?thesis using e None by (intro exI [of _ tr']) simp
next
  case (Some x)
  from enter_known [OF assms(1) Some] Some show ?thesis using assms(1) by simp
qed

end

lemma psx_enter_known:
  assumes "refs tr t = Some x"
  shows "psx_enter s t tr = Some (False, tr)"
  using assms by (auto simp: refs_def psx_enter_def Let_def split: if_splits)

definition table_only :: "psx_tracker \<Rightarrow> psx_tracker \<Rightarrow> bool" where
  "table_only tr tr' \<longleftrightarrow> (\<exists>e m l. tr' = tr\<lparr>t_map_entries := e, t_map_mask := m, t_map := l\<rparr>)"

lemma table_onlyI: "table_only tr (tr\<lparr>t_map := l\<rparr>)" "table_only tr (regrown s j tr)"
  "table_only tr tr' \<Longrightarrow> table_only tr (tr'\<lparr>t_map := l\<rparr>)"
proof -
  have "tr\<lparr>t_map := l\<rparr> = tr\<lparr>t_map_entries := t_map_entries tr, t_map_mask := t_map_mask tr, t_map := l\<rparr>" by simp
  then show "table_only tr (tr\<lparr>t_map := l\<rparr>)" unfolding table_only_def by blast
  show "table_only tr (regrown s j tr)" unfolding table_only_def regrown_def by blast
  show "table_only tr tr' \<Longrightarrow> table_only tr (tr'\<lparr>t_map := l\<rparr>)" unfolding table_only_def
    by (elim exE) (simp, blast)
qed

lemma psx_enter_new:
  assumes "wf_map tr" "tid_ok t" "refs tr t = None" "2 \<le> s"
  obtains tr' where "psx_enter s t tr = Some (True, tr'\<lparr>t_cmd := (t_cmd tr)\<lparr>active := 1\<rparr>\<rparr>)" "table_only tr tr'" "wf_map tr'"
    "refs tr' t = Some (zero_ref\<lparr>r_pending := 1, r_tid := t\<rparr>)"
    "\<And>u. u \<noteq> t \<Longrightarrow> refs tr' u = refs tr u \<or> (\<exists>y. refs tr u = Some y \<and> r_sweep y < s - 1 \<and> refs tr' u = None)"
proof -
  let ?x = "t_map tr ! psx_slot tr t" and ?z = "zero_ref\<lparr>r_pending := 1, r_tid := t\<rparr>"
  from assms(1) obtain k where k: "wf_map_at k tr" by (auto simp: wf_map_def)
  have t: "t \<noteq> 0" "r_tid ?x \<noteq> t" using tid_ok_bits(2) [OF assms(2)] assms(3) by (auto simp: refs_def Let_def split: if_splits)
  show ?thesis
  proof (cases "r_tid ?x = 0")
    case True
    then have z: "?x = zero_ref" using slots_okD(1) wf_map_atD(6,7) [OF k] by blast
    have w: "wf_map (tr\<lparr>t_map := (t_map tr)[psx_slot tr t := ?z]\<rparr>)"
      "refs (tr\<lparr>t_map := (t_map tr)[psx_slot tr t := ?z]\<rparr>) = (refs tr)(t \<mapsto> ?z)"
      using write_slot [OF assms(1) _ assms(2), of ?z] z by simp_all
    have "psx_enter s t tr = Some (True, (tr\<lparr>t_map := (t_map tr)[psx_slot tr t := ?z]\<rparr>)\<lparr>t_cmd := (t_cmd tr)\<lparr>active := 1\<rparr>\<rparr>)"
      using True t(1) z by (simp add: psx_enter_def)
    then show ?thesis by (rule that [OF _ table_onlyI(1) w(1)]) (simp_all add: w(2))
  next
    case False
    from grow_exec [OF k assms(2) refl False t(2) assms(4)] obtain j
      where g: "psx_grow s t (r_tid ?x) tr = Some (regrown s j tr)" "k \<le> j" "j \<le> 22"
        "t_map (regrown s j tr) ! psx_slot (regrown s j tr) t = zero_ref" .
    let ?g = "regrown s j tr"
    have w: "wf_map (?g\<lparr>t_map := (t_map ?g)[psx_slot ?g t := ?z]\<rparr>)"
      "refs (?g\<lparr>t_map := (t_map ?g)[psx_slot ?g t := ?z]\<rparr>) = (refs ?g)(t \<mapsto> ?z)"
      using write_slot [OF regrown_wf [OF k g(2,3) assms(4)] _ assms(2), of ?z] g(4) by simp_all
    have "t_cmd ?g = t_cmd tr" by (simp add: regrown_def)
    then have "psx_enter s t tr = Some (True, (?g\<lparr>t_map := (t_map ?g)[psx_slot ?g t := ?z]\<rparr>)\<lparr>t_cmd := (t_cmd tr)\<lparr>active := 1\<rparr>\<rparr>)"
      using False t(2) g(1,4) by (simp add: psx_enter_def)
    then show ?thesis
      by (rule that [OF _ table_onlyI(3) [OF table_onlyI(2)] w(1)])
        (auto simp: w(2) regrown_refs [OF k g(2,3) assms(4)] split: option.splits)
  qed
qed

lemma psx_mark_ref:
  assumes "wf_map tr" "refs tr t = Some x"
  shows "wf_map (psx_mark s t tr)" "refs (psx_mark s t tr) = (refs tr)(t \<mapsto> x\<lparr>r_sweep := s\<rparr>)"
proof -
  have "x = t_map tr ! psx_slot tr t" using assms(2) by (simp add: refs_def Let_def split: if_splits)
  then show "wf_map (psx_mark s t tr)" "refs (psx_mark s t tr) = (refs tr)(t \<mapsto> x\<lparr>r_sweep := s\<rparr>)"
    using write_slot [OF assms(1) _ refs_tid(2) [OF assms], of "x\<lparr>r_sweep := s\<rparr>"] refs_tid(1) [OF assms]
    by (simp_all add: psx_mark_def Let_def)
qed

lemma psx_report_ref:
  assumes "wf_map tr" "refs tr t = Some x"
  shows "wf_map (psx_report t r tr)" "refs (psx_report t r tr) = (refs tr)(t \<mapsto> x\<lparr>r_retval := r, r_pending := 0\<rparr>)"
proof -
  have "x = t_map tr ! psx_slot tr t" using assms(2) by (simp add: refs_def Let_def split: if_splits)
  then show "wf_map (psx_report t r tr)" "refs (psx_report t r tr) = (refs tr)(t \<mapsto> x\<lparr>r_retval := r, r_pending := 0\<rparr>)"
    using write_slot [OF assms(1) _ refs_tid(2) [OF assms], of "x\<lparr>r_retval := r, r_pending := 0\<rparr>"] refs_tid(1) [OF assms]
    by (simp_all add: psx_report_def Let_def)
qed

interpretation psx: thread_table wf_map refs psx_enter psx_mark psx_report
proof
  fix tr t and s :: int assume a: "wf_map tr" "tid_ok t" "refs tr t = None" "2 \<le> s"
  from psx_enter_new [OF a] obtain tr' where "psx_enter s t tr = Some (True, tr'\<lparr>t_cmd := (t_cmd tr)\<lparr>active := 1\<rparr>\<rparr>)" "wf_map tr'"
    "refs tr' t = Some (zero_ref\<lparr>r_pending := 1, r_tid := t\<rparr>)"
    "\<And>u. u \<noteq> t \<Longrightarrow> refs tr' u = refs tr u \<or> (\<exists>y. refs tr u = Some y \<and> r_sweep y < s - 1 \<and> refs tr' u = None)"
    by blast
  then show "\<exists>tr'. psx_enter s t tr = Some (True, tr') \<and> wf_map tr' \<and> refs tr' t = Some (zero_ref\<lparr>r_pending := 1, r_tid := t\<rparr>)
         \<and> (\<forall>u. u \<noteq> t \<longrightarrow> refs tr' u = refs tr u \<or> (\<exists>y. refs tr u = Some y \<and> r_sweep y < s - 1 \<and> refs tr' u = None))"
    by (intro exI [of _ "tr'\<lparr>t_cmd := (t_cmd tr)\<lparr>active := 1\<rparr>\<rparr>"]) simp
qed (simp_all add: psx_enter_known psx_mark_ref psx_report_ref)

section \<open>Properties\<close>

text \<open>
  C24: Entering a thread into the table always ends, also when it collides and the table has to
  grow: for thread ids below \<^verbatim>\<open>PID_MAX_LIMIT\<close> the mixed ids part, the table has a power of two of
  entries, at most \<open>2 ^ 22\<close> (so the narrowing to \<^verbatim>\<open>int\<close> is harmless), the thread has an entry, is
  to be signalled exactly if it had none, and no thread seen in this or the previous sweep is lost.
\<close>

theorem psx_enter_spec:
  assumes "wf_map tr" "tid_ok t" "2 \<le> s"
  shows "\<exists>tr' k. psx_enter s t tr = Some (refs tr t = None, tr') \<and> wf_map tr'
     \<and> t_map_entries tr' = 2 ^ k \<and> k \<le> 22 \<and> length (t_map tr') = 2 ^ k
     \<and> refs tr' t = Some (case refs tr t of None \<Rightarrow> zero_ref\<lparr>r_pending := 1, r_tid := t\<rparr> | Some x \<Rightarrow> x)
     \<and> (\<forall>u y. u \<noteq> t \<and> refs tr u = Some y \<and> s - 1 \<le> r_sweep y \<longrightarrow> refs tr' u = Some y)"
proof -
  define live where "live = {u. \<forall>y. refs tr u = Some y \<longrightarrow> s - 1 \<le> r_sweep y}"
  have "\<forall>u y. u \<in> live \<longrightarrow> refs tr u = Some y \<longrightarrow> s - 1 \<le> r_sweep y" by (simp add: live_def)
  from psx.enter_ok [OF assms this] obtain tr' where e: "psx_enter s t tr = Some (refs tr t = None, tr')" "wf_map tr'"
    "refs tr' t = Some (case refs tr t of None \<Rightarrow> zero_ref\<lparr>r_pending := 1, r_tid := t\<rparr> | Some x \<Rightarrow> x)"
    "\<forall>u. u \<noteq> t \<longrightarrow> u \<in> live \<or> refs tr u = None \<longrightarrow> refs tr' u = refs tr u" by blast
  from e(2) obtain k where k: "wf_map_at k tr'" by (auto simp: wf_map_def)
  have kept: "\<forall>u y. u \<noteq> t \<and> refs tr u = Some y \<and> s - 1 \<le> r_sweep y \<longrightarrow> refs tr' u = Some y"
    using e(4) by (simp add: live_def)
  show ?thesis by (intro exI [of _ tr'] exI [of _ k] conjI e(1-3) kept wf_map_atD(2,3,5) [OF k])
qed

lemma start_exec:
  "psx_syscall_start tr = tr\<lparr>t_initialized := 1, t_pid_path := Some 0, t_psx_sig := 33,
      t_map_entries := 2 ^ 8, t_map_mask := mask 8, t_map := replicate (2 ^ 8) zero_ref\<rparr>"
  using set_map_exec [of 8] unfolding psx_syscall_start_def by simp

lemma wf_start: "wf_map (psx_syscall_start tr)"
  unfolding wf_map_def wf_map_at_def slots_ok_def start_exec by (intro exI [of _ 8]) (simp add: zero_ref_def)

theorem psx_enter_spec_witness:
  "\<exists>tr'. psx_enter 2 1000 (psx_syscall_start psx_tracker_zero) = Some (True, tr') \<and> wf_map tr' \<and> refs tr' 1000 \<noteq> None"
proof -
  let ?tr = "psx_syscall_start psx_tracker_zero"
  have "t_map ?tr = replicate 256 zero_ref" "t_map_mask ?tr = 255" using set_map_exec [of 8]
    by (simp_all add: psx_syscall_start_def mask_eq_exp_minus_1)
  moreover have "psx_slot ?tr 1000 < 256"
    using slot_less wf_start calculation(1) by (metis length_replicate wf_map_def)
  ultimately have "refs ?tr 1000 = None" by (simp add: refs_def zero_ref_def)
  with psx_enter_spec [OF wf_start, of 1000 2 psx_tracker_zero] show ?thesis by (auto simp: tid_ok_def)
qed

text \<open>
  C25: A forked child is never held up by its parent's call: whatever state the parent's tracker
  was copied in, locked or in the middle of a sweep, the first \<^verbatim>\<open>psx_lock\<close> of the child succeeds and
  leaves the mechanism idle, with no command active, and a child of an unused parent with an
  empty table.
\<close>

theorem psx_lock_after_fork:
  assumes "t_pid tr \<noteq> child" "t_state_mu tr \<in> {0, t_pid tr}" "child \<noteq> 0"
  shows "\<exists>tr'. psx_lock child tr = Some tr' \<and> t_state_mu tr' = child \<and> t_pid tr' = child \<and> t_pid_path tr' = Some child
     \<and> t_state tr' = PSX_IDLE \<and> active (t_cmd tr') = 0 \<and> t_sensitivity tr' = t_sensitivity tr
     \<and> (if t_initialized tr = 0 then wf_map tr' \<and> (\<forall>t. refs tr' t = None) \<and> t_psx_sig tr' = 33
        else t_map tr' = t_map tr)
     \<and> psx_lock child tr' = None
     \<and> psx_new_state child PSX_IDLE PSX_SETUP (psx_unlock tr') = Some ((psx_unlock tr')\<lparr>t_state := PSX_SETUP\<rparr>)"
proof -
  define tr1 where "tr1 = tr\<lparr>t_state_mu := child\<rparr>"
  define tr' where "tr' = (let tr = (if t_initialized tr1 = 0 then psx_syscall_start tr1 else tr1)
      in tr\<lparr>t_pid := child, t_pid_path := Some child, t_state := PSX_IDLE, t_cmd := (t_cmd tr)\<lparr>active := 0\<rparr>\<rparr>)"
  have run: "psx_lock child tr = Some tr'"
    using assms by (auto simp: psx_lock_def psx_mu_lock_def tr1_def tr'_def)
  have f: "t_state_mu tr' = child" "t_pid tr' = child" "t_pid_path tr' = Some child" "t_state tr' = PSX_IDLE"
    "active (t_cmd tr') = 0" "t_sensitivity tr' = t_sensitivity tr"
    by (simp_all add: tr'_def start_exec tr1_def Let_def)
  have i: "if t_initialized tr = 0 then wf_map tr' \<and> (\<forall>t. refs tr' t = None) \<and> t_psx_sig tr' = 33 else t_map tr' = t_map tr"
  proof (cases "t_initialized tr = 0")
    case True
    then have m: "t_map tr' = replicate (2 ^ 8) zero_ref" "t_map_mask tr' = mask 8" "t_map_entries tr' = 2 ^ 8" "t_psx_sig tr' = 33"
      by (simp_all add: tr'_def start_exec tr1_def Let_def)
    then have w: "wf_map_at 8 tr'" by (simp add: wf_map_at_def slots_ok_def zero_ref_def)
    then have "refs tr' t = None" for t using slot_less [OF w, of t] m(1) by (simp add: refs_def zero_ref_def)
    with w m True show ?thesis by (auto simp: wf_map_def)
  next
    case False
    then show ?thesis by (simp add: tr'_def tr1_def Let_def)
  qed
  have "psx_lock child tr' = None" using f by (simp add: psx_lock_def psx_mu_lock_def)
  moreover have "psx_new_state child PSX_IDLE PSX_SETUP (psx_unlock tr') = Some ((psx_unlock tr')\<lparr>t_state := PSX_SETUP\<rparr>)"
    using f assms(3) by (simp add: psx_new_state_def psx_lock_def psx_mu_lock_def psx_unlock_def)
  ultimately show ?thesis using run f i by (intro exI [of _ tr']) simp
qed

theorem psx_lock_after_fork_witness:
  "\<exists>tr'. psx_lock 43 (psx_tracker_zero\<lparr>t_pid := 42, t_state_mu := 42, t_initialized := 1, t_state := PSX_SYSCALL\<rparr>) = Some tr'
     \<and> t_state tr' = PSX_IDLE"
  using psx_lock_after_fork [of "psx_tracker_zero\<lparr>t_pid := 42, t_state_mu := 42, t_initialized := 1, t_state := PSX_SYSCALL\<rparr>" 43]
  by auto

end
