(* ===== verification/Psx_Machine.thy ===== *)
theory Psx_Machine
  imports Psx_Map
begin

text \<open>
  \<^verbatim>\<open>__psx_syscall\<close> of \<^verbatim>\<open>psx/psx.c\<close> and its signal handler of \<^verbatim>\<open>psx/psx_calls.c\<close>, as a machine of the
  threads of one process.

  \<^item> A step is one region between \<^verbatim>\<open>psx_lock\<close> and \<^verbatim>\<open>psx_unlock\<close>, or one system call, of one thread; a
    loop around \<^verbatim>\<open>psx_cond_wait\<close> is a step that is enabled when the loop ends.  A signal is taken
    between two regions, never inside one.  (The code does not block the signal there; a handler
    that starts while its own thread holds the lock blocks for ever.)
  \<^item> A thread has its own credentials \<open>'k\<close>; what a system call does to the credentials of the
    thread that makes it is the parameter \<open>sys\<close> (the \<^verbatim>\<open>-1\<close> convention of \<^verbatim>\<open>syscall()\<close>).
  \<^item> Threads that run user code can clone and exit at any time, and a new thread may get any id
    that no living thread has, that of a thread that exited during the call included.
  \<^item> Reading \<^verbatim>\<open>/proc/<pid>/task\<close> lists ids one by one, each at most once, in any order; the thread
    may have exited before its entry is looked at.  When a walk of the directory may report its end
    is the parameter \<open>walk\<close>, of the threads that live besides the caller and of those it has listed.
  \<^item> Not modelled: the diagnostics on \<^verbatim>\<open>stderr\<close>, \<^verbatim>\<open>errno\<close> and a task directory that cannot be read
    (the process is killed then).
\<close>

section \<open>The command\<close>

text \<open>
  The argument trick of the \<^verbatim>\<open>psx_syscall\<close> macro: the literals behind the arguments put their
  number into the seventh variadic argument.
\<close>

definition psx_syscall_args :: "int list \<Rightarrow> int list option" where
  "psx_syscall_args va =
     (let arg = take 7 (va @ [6, 5, 4, 3, 2, 1, 0]);
          count = arg ! 6
      in if count < 0 \<or> count > 6 then None else Some (take (nat count) arg))"

definition nth_arg :: "int list \<Rightarrow> nat \<Rightarrow> int" where
  "nth_arg args i = (if length args > i then args ! i else 0)"

definition psx_set_cmd :: "int \<Rightarrow> int list \<Rightarrow> psx_cmd \<Rightarrow> psx_cmd" where
  "psx_set_cmd nr args c =
     (let c = c\<lparr>syscall_nr := nr, arg1 := nth_arg args 0, arg2 := nth_arg args 1, arg3 := nth_arg args 2\<rparr>
      in if length args > 3 then c\<lparr>six := 1, arg4 := args ! 3, arg5 := nth_arg args 4, arg6 := nth_arg args 5\<rparr>
         else c\<lparr>six := 0\<rparr>)"

definition psx_cmd_args :: "psx_cmd \<Rightarrow> int list" where
  "psx_cmd_args c = (if six c = 0 then [arg1 c, arg2 c, arg3 c] else [arg1 c, arg2 c, arg3 c, arg4 c, arg5 c, arg6 c])"

section \<open>The signal handler\<close>

record sigact =
  sa_handler :: nat
  sa_flags :: "64 word"
  sa_restorer :: nat
  sa_mask :: "64 word"

text \<open>What the kernel has installed for \<^verbatim>\<open>psx_sig\<close>, and the two actions \<^verbatim>\<open>psx_actions_t\<close> keeps.\<close>

record psx_actions =
  k_action :: sigact
  sig_action :: sigact
  chained_action :: sigact

definition PSX_ACTOR :: nat where "PSX_ACTOR = 4096"

definition PSX_RESTORER :: nat where "PSX_RESTORER = 8192"

definition SA_PSX :: "64 word" where
  "SA_PSX = 4 OR 0x08000000 OR 0x10000000 OR 0x04000000"

definition psx_confirm_sigaction :: "psx_actions \<Rightarrow> psx_actions" where
  "psx_confirm_sigaction a =
     (let existing_sa = k_action a
      in if sa_handler existing_sa \<noteq> PSX_ACTOR then
           (let a = a\<lparr>chained_action := existing_sa\<rparr>;
                sa = existing_sa\<lparr>sa_handler := PSX_ACTOR, sa_flags := sa_flags existing_sa OR SA_PSX\<rparr>;
                sa = (if sa_restorer sa = 0 then sa\<lparr>sa_restorer := PSX_RESTORER\<rparr> else sa)
            in a\<lparr>sig_action := sa, k_action := sa\<rparr>)
         else a)"

abbreviation (input) SI_TKILL :: int where "SI_TKILL \<equiv> - 6"

text \<open>The test with which \<^verbatim>\<open>psx_posix_syscall_actor\<close> starts: a signal of ours, or one to chain.\<close>

definition psx_actor_accepts :: "int \<Rightarrow> (int \<times> int) option \<Rightarrow> psx_tracker \<Rightarrow> bool" where
  "psx_actor_accepts signum info tr \<longleftrightarrow>
     \<not> (signum \<noteq> t_psx_sig tr \<or> active (t_cmd tr) = 0 \<or>
        (case info of None \<Rightarrow> True | Some (si_code, si_pid) \<Rightarrow> si_code \<noteq> SI_TKILL \<or> si_pid \<noteq> t_pid tr))"

section \<open>Threads and their process\<close>

datatype psx_handler = H_none | H_call | H_report int | H_wait

record sweep_frame =
  f_ret :: int
  f_sweep :: int
  f_some :: int
  f_incomplete :: int
  f_mismatch :: int
  f_verified :: int
  f_listed :: "s64 list"

text \<open>
  Where a thread is in \<^verbatim>\<open>__psx_syscall\<close>; \<open>C_user\<close> carries the result of its last call, and a thread
  in \<open>C_wait\<close> waits for the calls of others to end.
\<close>

datatype psx_call =
    C_user "int option"
  | C_wait int "int list"
  | C_setup int "int list"
  | C_failed int
  | C_go int
  | C_sweep sweep_frame
  | C_entered sweep_frame s64
  | C_close sweep_frame
  | C_drain sweep_frame
  | C_finish sweep_frame

record 'k psx_thread =
  th_cred :: 'k
  th_sig :: bool
  th_hand :: psx_handler
  th_call :: psx_call

record 'k psx_process =
  m_pid :: int
  m_tr :: psx_tracker
  m_actions :: psx_actions
  m_threads :: "s64 \<rightharpoonup> 'k psx_thread"
  m_killed :: bool

definition psx_locked :: "int \<Rightarrow> (psx_tracker \<Rightarrow> ('a \<times> psx_tracker) option) \<Rightarrow> psx_tracker \<Rightarrow> ('a \<times> psx_tracker) option" where
  "psx_locked pid f tr = do {
     tr \<leftarrow> psx_lock pid tr;
     (a, tr) \<leftarrow> f tr;
     Some (a, psx_unlock tr) }"

text \<open>The first sweep starts with a cleared table.\<close>

definition psx_start_sweep :: "int \<Rightarrow> sweep_frame" where
  "psx_start_sweep ret = \<lparr>f_ret = ret, f_sweep = 2, f_some = 0, f_incomplete = 0, f_mismatch = 0, f_verified = 0, f_listed = []\<rparr>"

definition psx_clear_map :: "psx_tracker \<Rightarrow> psx_tracker" where
  "psx_clear_map tr = tr\<lparr>t_map := replicate (length (t_map tr)) zero_ref\<rparr>"

text \<open>The accounting of a listed thread.\<close>

definition psx_account :: "s64 \<Rightarrow> sweep_frame \<Rightarrow> psx_tracker \<Rightarrow> (sweep_frame \<times> psx_tracker) option" where
  "psx_account tid f tr =
     (let x = t_map tr ! psx_slot tr tid;
          f = f\<lparr>f_incomplete := f_incomplete f + 1, f_listed := tid # f_listed f\<rparr>
      in Some (if r_pending x \<noteq> 0 then f\<lparr>f_some := f_some f + 1\<rparr>
               else if r_retval x \<noteq> f_ret f then f\<lparr>f_mismatch := 1\<rparr> else f,
               psx_mark (f_sweep f) tid tr))"

text \<open>The end of a directory: another sweep, or two in a row had nobody pending.\<close>

definition psx_end_sweep :: "sweep_frame \<Rightarrow> psx_call" where
  "psx_end_sweep f =
     (let verified = (if f_some f \<noteq> 0 then 0 else f_verified f + 1)
      in if verified < 2 then
           C_sweep (f\<lparr>f_sweep := f_sweep f + 1, f_some := 0, f_incomplete := 0, f_verified := verified, f_listed := []\<rparr>)
         else C_close (f\<lparr>f_verified := verified\<rparr>))"

definition psx_close :: "sweep_frame \<Rightarrow> psx_tracker \<Rightarrow> (unit \<times> psx_tracker) option" where
  "psx_close f tr = Some ((), tr\<lparr>t_incomplete := f_incomplete f, t_cmd := (t_cmd tr)\<lparr>active := 0\<rparr>\<rparr>)"

text \<open>A mismatch is fatal when the sensitivity says so.\<close>

definition psx_fatal :: "sweep_frame \<Rightarrow> psx_tracker \<Rightarrow> bool" where
  "psx_fatal f tr \<longleftrightarrow> f_mismatch f \<noteq> 0 \<and> t_sensitivity tr = PSX_ERROR"

definition set_thread :: "s64 \<Rightarrow> 'k psx_thread \<Rightarrow> 'k psx_process \<Rightarrow> 'k psx_process" where
  "set_thread t th s = s\<lparr>m_threads := (m_threads s)(t \<mapsto> th)\<rparr>"

definition set_call :: "s64 \<Rightarrow> psx_call \<Rightarrow> 'k psx_process \<Rightarrow> 'k psx_process" where
  "set_call t c s = s\<lparr>m_threads := (m_threads s)(t := map_option (\<lambda>th. th\<lparr>th_call := c\<rparr>) (m_threads s t))\<rparr>"

definition in_user :: "'k psx_thread \<Rightarrow> bool" where
  "in_user th \<longleftrightarrow> th_hand th = H_none \<and> (\<exists>r. th_call th = C_user r)"

text \<open>
  What the thread that is listed finds in its signal queue; \<^verbatim>\<open>tkill\<close> of a thread that has exited
  has no effect.
\<close>

definition tkill :: "bool \<Rightarrow> 'k psx_thread \<Rightarrow> 'k psx_thread" where
  "tkill new th = (if new then th\<lparr>th_sig := True\<rparr> else th)"

definition send_signal :: "s64 \<Rightarrow> bool \<Rightarrow> 'k psx_process \<Rightarrow> 'k psx_process" where
  "send_signal u new s = s\<lparr>m_threads := (m_threads s)(u := map_option (tkill new) (m_threads s u))\<rparr>"

inductive psx_step ::
  "(s64 set \<Rightarrow> s64 set \<Rightarrow> bool) \<Rightarrow> (int \<Rightarrow> int list \<Rightarrow> 'k \<Rightarrow> int \<times> 'k) \<Rightarrow> 'k psx_process \<Rightarrow> 'k psx_process \<Rightarrow> bool"
  for walk sys where
  enter: "m_threads s t = Some th \<Longrightarrow> in_user th \<Longrightarrow> psx_syscall_args va = Some args \<Longrightarrow>
    psx_step walk sys s (set_call t (C_wait nr args) s)"
| call: "m_threads s t = Some th \<Longrightarrow> th_call th = C_wait nr args \<Longrightarrow> th_hand th = H_none \<Longrightarrow>
    psx_new_state (m_pid s) PSX_IDLE PSX_SETUP (m_tr s) = Some tr \<Longrightarrow>
    psx_step walk sys s (set_call t (C_setup nr args) (s\<lparr>m_tr := tr\<rparr>))"
| immediate: "m_threads s t = Some th \<Longrightarrow> th_call th = C_setup nr args \<Longrightarrow> tr = m_tr s \<Longrightarrow>
    cmd = psx_set_cmd nr args (t_cmd tr) \<Longrightarrow> sys nr (psx_cmd_args cmd) (th_cred th) = (ret, k) \<Longrightarrow>
    psx_step walk sys s (set_thread t (th\<lparr>th_cred := k, th_call := (if ret = - 1 then C_failed ret else C_go ret)\<rparr>)
      (s\<lparr>m_tr := tr\<lparr>t_cmd := cmd\<rparr>, m_actions := psx_confirm_sigaction (m_actions s)\<rparr>))"
| failed: "m_threads s t = Some th \<Longrightarrow> th_call th = C_failed ret \<Longrightarrow>
    psx_new_state (m_pid s) PSX_SETUP PSX_IDLE (m_tr s) = Some tr \<Longrightarrow>
    psx_step walk sys s (set_call t (C_user (Some ret)) (s\<lparr>m_tr := tr\<rparr>))"
| go: "m_threads s t = Some th \<Longrightarrow> th_call th = C_go ret \<Longrightarrow>
    psx_new_state (m_pid s) PSX_SETUP PSX_SYSCALL (m_tr s) = Some tr \<Longrightarrow>
    psx_step walk sys s (set_call t (C_sweep (psx_start_sweep ret)) (s\<lparr>m_tr := psx_clear_map tr\<rparr>))"
| listed: "m_threads s t = Some th \<Longrightarrow> th_call th = C_sweep f \<Longrightarrow>
    tid_ok u \<Longrightarrow> u \<noteq> t \<Longrightarrow> u \<notin> set (f_listed f) \<Longrightarrow>
    psx_locked (m_pid s) (psx_enter (f_sweep f) u) (m_tr s) = Some (new, tr) \<Longrightarrow>
    psx_step walk sys s (set_call t (C_entered f u) (send_signal u new (s\<lparr>m_tr := tr\<rparr>)))"
| account: "m_threads s t = Some th \<Longrightarrow> th_call th = C_entered f u \<Longrightarrow>
    psx_locked (m_pid s) (psx_account u f) (m_tr s) = Some (f', tr) \<Longrightarrow>
    psx_step walk sys s (set_call t (C_sweep f') (s\<lparr>m_tr := tr\<rparr>))"
| sweep_end: "m_threads s t = Some th \<Longrightarrow> th_call th = C_sweep f \<Longrightarrow>
    walk (dom (m_threads s) - {t}) (set (f_listed f)) \<Longrightarrow>
    psx_step walk sys s (set_call t (psx_end_sweep f) s)"
| close: "m_threads s t = Some th \<Longrightarrow> th_call th = C_close f \<Longrightarrow>
    psx_locked (m_pid s) (psx_close f) (m_tr s) = Some (x, tr) \<Longrightarrow>
    psx_step walk sys s (set_call t (C_drain f) (s\<lparr>m_tr := tr\<rparr>))"
| drained: "m_threads s t = Some th \<Longrightarrow> th_call th = C_drain f \<Longrightarrow> t_incomplete (m_tr s) = 0 \<Longrightarrow>
    psx_step walk sys s (set_call t (C_finish f) s)"
| finish: "m_threads s t = Some th \<Longrightarrow> th_call th = C_finish f \<Longrightarrow> \<not> psx_fatal f (m_tr s) \<Longrightarrow>
    psx_new_state (m_pid s) PSX_SYSCALL PSX_IDLE (m_tr s) = Some tr \<Longrightarrow>
    psx_step walk sys s (set_call t (C_user (Some (f_ret f))) (s\<lparr>m_tr := tr\<rparr>))"
| fatal: "m_threads s t = Some th \<Longrightarrow> th_call th = C_finish f \<Longrightarrow> psx_fatal f (m_tr s) \<Longrightarrow>
    psx_step walk sys s (s\<lparr>m_threads := Map.empty, m_killed := True\<rparr>)"
| deliver: "m_threads s t = Some th \<Longrightarrow> th_sig th \<Longrightarrow> th_hand th = H_none \<Longrightarrow> sa_handler (k_action (m_actions s)) = PSX_ACTOR \<Longrightarrow>
    psx_locked (m_pid s) (\<lambda>tr. Some (psx_actor_accepts (t_psx_sig tr) (Some (SI_TKILL, m_pid s)) tr, tr)) (m_tr s) = Some (b, tr) \<Longrightarrow>
    psx_step walk sys s (set_thread t (th\<lparr>th_sig := False, th_hand := (if b then H_call else H_none)\<rparr>) (s\<lparr>m_tr := tr\<rparr>))"
| handle: "m_threads s t = Some th \<Longrightarrow> th_hand th = H_call \<Longrightarrow>
    sys (syscall_nr (t_cmd (m_tr s))) (psx_cmd_args (t_cmd (m_tr s))) (th_cred th) = (r, k) \<Longrightarrow>
    psx_step walk sys s (set_thread t (th\<lparr>th_cred := k, th_hand := H_report r\<rparr>) s)"
| report: "m_threads s t = Some th \<Longrightarrow> th_hand th = H_report r \<Longrightarrow>
    psx_locked (m_pid s) (\<lambda>tr. Some ((), psx_report t r tr)) (m_tr s) = Some (x, tr) \<Longrightarrow>
    psx_step walk sys s (set_thread t (th\<lparr>th_hand := H_wait\<rparr>) (s\<lparr>m_tr := tr\<rparr>))"
| leave: "m_threads s t = Some th \<Longrightarrow> th_hand th = H_wait \<Longrightarrow> active (t_cmd (m_tr s)) = 0 \<Longrightarrow>
    psx_locked (m_pid s) (\<lambda>tr. Some ((), tr\<lparr>t_incomplete := t_incomplete tr - 1\<rparr>)) (m_tr s) = Some (x, tr) \<Longrightarrow>
    psx_step walk sys s (set_thread t (th\<lparr>th_hand := H_none\<rparr>) (s\<lparr>m_tr := tr\<rparr>))"
| clone: "m_threads s t = Some th \<Longrightarrow> in_user th \<Longrightarrow> tid_ok n \<Longrightarrow> m_threads s n = None \<Longrightarrow>
    psx_step walk sys s (set_thread n \<lparr>th_cred = th_cred th, th_sig = False, th_hand = H_none, th_call = C_user None\<rparr> s)"
| thread_exit: "m_threads s t = Some th \<Longrightarrow> in_user th \<Longrightarrow>
    psx_step walk sys s (s\<lparr>m_threads := (m_threads s)(t := None)\<rparr>)"
| process_exit: "m_threads s t = Some th \<Longrightarrow> in_user th \<Longrightarrow> psx_cleanup (m_pid s) (m_tr s) = Some tr \<Longrightarrow>
    psx_step walk sys s (s\<lparr>m_tr := tr\<rparr>)"

end
