(* ===== verification/Psx_Inv.thy ===== *)
theory Psx_Inv
  imports Psx_Machine
begin

text \<open>
  Why the threads of a process act as one: the phases of a mirrored system call, and that every
  step of every thread keeps to them.  The abstract process has one credential; it changes when
  the calling thread makes the call itself, and the other threads follow before it returns.
\<close>

section \<open>Phases\<close>

definition resting :: "'k \<Rightarrow> 'k psx_thread \<Rightarrow> bool" where
  "resting k th \<longleftrightarrow> th_hand th = H_none \<and> \<not> th_sig th \<and> th_cred th = k"

definition waiting :: "'k \<Rightarrow> 'k psx_thread \<Rightarrow> bool" where
  "waiting k th \<longleftrightarrow> th_hand th = H_wait \<and> \<not> th_sig th \<and> th_cred th = k"

text \<open>User code, or the wait for the calls of others to end: the thread has no part in a call that is on.\<close>

definition outside :: "psx_call \<Rightarrow> bool" where
  "outside pc \<longleftrightarrow> (\<exists>r. pc = C_user r) \<or> (\<exists>nr args. pc = C_wait nr args)"

lemma outside_simps [simp]:
  "outside (C_user r)" "outside (C_wait nr args)" "\<not> outside (C_setup nr args)" "\<not> outside (C_failed i)" "\<not> outside (C_go i)"
  "\<not> outside (C_sweep f)" "\<not> outside (C_entered f u)" "\<not> outside (C_close f)" "\<not> outside (C_drain f)" "\<not> outside (C_finish f)"
  by (simp_all add: outside_def)

lemma in_user_outside: "in_user th \<Longrightarrow> outside (th_call th)"
  by (auto simp: in_user_def)

text \<open>A thread the signal of the call has reached.\<close>

definition engaged :: "'k psx_thread \<Rightarrow> bool" where
  "engaged th \<longleftrightarrow> th_sig th \<or> th_hand th \<noteq> H_none"

text \<open>Every thread is outside, or only \<open>c\<close> is not, and the others satisfy \<open>P\<close>.\<close>

definition callers :: "s64 \<Rightarrow> (psx_call \<Rightarrow> bool) \<Rightarrow> 'k \<Rightarrow> (s64 \<Rightarrow> 'k psx_thread \<Rightarrow> bool) \<Rightarrow> (s64 \<rightharpoonup> 'k psx_thread) \<Rightarrow> bool" where
  "callers c C k P ths \<longleftrightarrow> (\<exists>th. ths c = Some th \<and> C (th_call th) \<and> resting k th)
     \<and> (\<forall>u th. u \<noteq> c \<longrightarrow> ths u = Some th \<longrightarrow> outside (th_call th) \<and> P u th)"

definition live_ok :: "'k psx_process \<Rightarrow> bool" where
  "live_ok s \<longleftrightarrow> 0 < m_pid s \<and> t_state_mu (m_tr s) = 0 \<and> finite (dom (m_threads s))
     \<and> (\<forall>u \<in> dom (m_threads s). tid_ok u) \<and> \<not> m_killed s"

definition ready :: "psx_tracker_state \<Rightarrow> 'k psx_process \<Rightarrow> bool" where
  "ready st s \<longleftrightarrow> t_pid (m_tr s) = m_pid s \<and> t_state (m_tr s) = st \<and> wf_map (m_tr s) \<and> t_initialized (m_tr s) \<noteq> 0"

definition quiet :: "'k \<Rightarrow> 'k psx_process \<Rightarrow> bool" where
  "quiet k s \<longleftrightarrow> (\<forall>u th. m_threads s u = Some th \<longrightarrow> outside (th_call th) \<and> resting k th)
     \<and> active (t_cmd (m_tr s)) = 0
     \<and> (ready PSX_IDLE s \<or> (t_pid (m_tr s) = 0 \<and> t_initialized (m_tr s) = 0)
        \<or> (t_pid (m_tr s) = m_pid s \<and> t_state (m_tr s) = PSX_EXITING))"

definition calling :: "s64 \<Rightarrow> 'k \<Rightarrow> 'k psx_process \<Rightarrow> bool" where
  "calling c k s \<longleftrightarrow> callers c (\<lambda>pc. (\<exists>nr args. pc = C_setup nr args) \<or> pc = C_failed (- 1)) k (\<lambda>u. resting k) (m_threads s)
     \<and> ready PSX_SETUP s \<and> active (t_cmd (m_tr s)) = 0"

text \<open>The command of the tracker takes \<open>k0\<close> to \<open>k1\<close> with the result \<open>ret\<close>.\<close>

definition does ::
  "(int \<Rightarrow> int list \<Rightarrow> 'k \<Rightarrow> int \<times> 'k) \<Rightarrow> 'k psx_process \<Rightarrow> int \<Rightarrow> 'k \<Rightarrow> 'k \<Rightarrow> bool" where
  "does sys s ret k0 k1 \<longleftrightarrow> sys (syscall_nr (t_cmd (m_tr s))) (psx_cmd_args (t_cmd (m_tr s))) k0 = (ret, k1)
     \<and> sa_handler (k_action (m_actions s)) = PSX_ACTOR"

definition going :: "(int \<Rightarrow> int list \<Rightarrow> 'k \<Rightarrow> int \<times> 'k) \<Rightarrow> s64 \<Rightarrow> 'k \<Rightarrow> 'k psx_process \<Rightarrow> bool" where
  "going sys c k s \<longleftrightarrow> (\<exists>k0 ret. callers c (\<lambda>pc. pc = C_go ret) k (\<lambda>u. resting k0) (m_threads s)
     \<and> ready PSX_SETUP s \<and> active (t_cmd (m_tr s)) = 0 \<and> does sys s ret k0 k)"

text \<open>
  What the table entry of a thread says of it while the command is active.  A thread whose id has
  belonged to one that exited before it took the signal inherits a pending entry, but no signal.
\<close>

definition mirrored :: "bool \<Rightarrow> int \<Rightarrow> 'k \<Rightarrow> 'k \<Rightarrow> psx_thread_ref option \<Rightarrow> 'k psx_thread \<Rightarrow> bool" where
  "mirrored act ret k0 k1 r th \<longleftrightarrow> (case r of
     None \<Rightarrow> resting k0 th
   | Some x \<Rightarrow> act \<and>
       (if r_pending x = 0 then r_retval x = ret \<and> waiting k1 th
        else resting k0 th \<or> (th_sig th \<and> th_hand th = H_none \<and> th_cred th = k0)
           \<or> (\<not> th_sig th \<and> th_hand th = H_call \<and> th_cred th = k0)
           \<or> (\<not> th_sig th \<and> th_hand th = H_report ret \<and> th_cred th = k1)))"

definition engaged_at :: "(s64 \<rightharpoonup> 'k psx_thread) \<Rightarrow> s64 \<Rightarrow> bool" where
  "engaged_at ths u \<longleftrightarrow> (\<exists>th. ths u = Some th \<and> engaged th)"

definition sweep_table ::
  "sweep_frame \<Rightarrow> s64 option \<Rightarrow> (s64 \<rightharpoonup> 'k psx_thread) \<Rightarrow> (s64 \<Rightarrow> psx_thread_ref option) \<Rightarrow> bool" where
  "sweep_table f ent ths rf \<longleftrightarrow>
     (\<forall>u x. rf u = Some x \<longrightarrow> r_pending x = 0 \<longrightarrow> ths u \<noteq> None)
     \<and> (\<forall>u x. engaged_at ths u \<longrightarrow> rf u = Some x \<longrightarrow> ent \<noteq> Some u \<longrightarrow> f_sweep f - 1 \<le> r_sweep x)
     \<and> (\<forall>u x. u \<in> set (f_listed f) \<longrightarrow> rf u = Some x \<longrightarrow> r_sweep x = f_sweep f)
     \<and> (f_some f = 0 \<longrightarrow> (\<forall>u \<in> set (f_listed f). \<exists>x. rf u = Some x \<and> r_pending x = 0))
     \<and> (\<forall>u. ent = Some u \<longrightarrow> rf u \<noteq> None)"

definition sweep_frame_ok :: "sweep_frame \<Rightarrow> s64 \<Rightarrow> s64 option \<Rightarrow> bool" where
  "sweep_frame_ok f c ent \<longleftrightarrow> 2 \<le> f_sweep f \<and> f_mismatch f = 0 \<and> distinct (f_listed f) \<and> c \<notin> set (f_listed f)
     \<and> f_incomplete f = int (length (f_listed f)) \<and> 0 \<le> f_some f \<and> 0 \<le> f_verified f \<and> f_verified f \<le> 1
     \<and> ent \<noteq> Some c \<and> (\<forall>u. ent = Some u \<longrightarrow> u \<notin> set (f_listed f))"

definition sweep_pc :: "sweep_frame \<Rightarrow> s64 option \<Rightarrow> psx_call" where
  "sweep_pc f ent = (case ent of None \<Rightarrow> C_sweep f | Some u \<Rightarrow> C_entered f u)"

definition sweeping :: "(int \<Rightarrow> int list \<Rightarrow> 'k \<Rightarrow> int \<times> 'k) \<Rightarrow> s64 \<Rightarrow> 'k \<Rightarrow> sweep_frame \<Rightarrow> s64 option \<Rightarrow> 'k psx_process \<Rightarrow> bool" where
  "sweeping sys c k f ent s \<longleftrightarrow> (\<exists>k0.
     callers c (\<lambda>pc. pc = sweep_pc f ent) k
       (\<lambda>u. mirrored (active (t_cmd (m_tr s)) \<noteq> 0) (f_ret f) k0 k (refs (m_tr s) u)) (m_threads s)
     \<and> ready PSX_SYSCALL s \<and> does sys s (f_ret f) k0 k \<and> sweep_frame_ok f c ent
     \<and> sweep_table f ent (m_threads s) (refs (m_tr s))
     \<and> (\<forall>u. refs (m_tr s) u \<noteq> None \<longrightarrow> active (t_cmd (m_tr s)) \<noteq> 0) \<and> refs (m_tr s) c = None)"

definition closing :: "s64 \<Rightarrow> 'k \<Rightarrow> 'k psx_process \<Rightarrow> bool" where
  "closing c k s \<longleftrightarrow> (\<exists>f. callers c (\<lambda>pc. pc = C_close f) k (\<lambda>u th. waiting k th \<and> active (t_cmd (m_tr s)) \<noteq> 0) (m_threads s)
     \<and> ready PSX_SYSCALL s \<and> f_mismatch f = 0 \<and> f_incomplete f = int (card (dom (m_threads s) - {c})))"

definition waiters :: "(s64 \<rightharpoonup> 'k psx_thread) \<Rightarrow> s64 set" where
  "waiters ths = {u. \<exists>th. ths u = Some th \<and> th_hand th = H_wait}"

definition draining :: "s64 \<Rightarrow> 'k \<Rightarrow> 'k psx_process \<Rightarrow> bool" where
  "draining c k s \<longleftrightarrow> (\<exists>f. callers c (\<lambda>pc. pc = C_drain f) k (\<lambda>u th. waiting k th \<or> resting k th) (m_threads s)
     \<and> ready PSX_SYSCALL s \<and> active (t_cmd (m_tr s)) = 0 \<and> f_mismatch f = 0
     \<and> t_incomplete (m_tr s) = int (card (waiters (m_threads s))))"

definition finishing :: "s64 \<Rightarrow> 'k \<Rightarrow> 'k psx_process \<Rightarrow> bool" where
  "finishing c k s \<longleftrightarrow> (\<exists>f. callers c (\<lambda>pc. pc = C_finish f) k (\<lambda>u. resting k) (m_threads s)
     \<and> ready PSX_SYSCALL s \<and> active (t_cmd (m_tr s)) = 0 \<and> f_mismatch f = 0)"

text \<open>The simulation: the process acts as one thread with the credential \<open>k\<close>.\<close>

definition acts_as :: "(int \<Rightarrow> int list \<Rightarrow> 'k \<Rightarrow> int \<times> 'k) \<Rightarrow> 'k \<Rightarrow> 'k psx_process \<Rightarrow> bool" where
  "acts_as sys k s \<longleftrightarrow> live_ok s \<and> (quiet k s \<or> (\<exists>c. calling c k s) \<or> (\<exists>c. going sys c k s)
     \<or> (\<exists>c f ent. sweeping sys c k f ent s) \<or> (\<exists>c. closing c k s) \<or> (\<exists>c. draining c k s) \<or> (\<exists>c. finishing c k s))"

lemma engaged_at_simps [simp]:
  "engaged_at (ths(t := map_option (\<lambda>th. th\<lparr>th_call := pc\<rparr>) (ths t))) = engaged_at ths"
  "ths t = None \<Longrightarrow> engaged_at (ths(t := None)) = engaged_at ths"
  by (auto simp: fun_eq_iff engaged_at_def engaged_def)

lemma mirrored_forgotten: "mirrored act ret k0 k1 r th \<Longrightarrow> \<not> engaged th \<Longrightarrow> mirrored act' ret k0 k1 None th"
  by (auto simp: mirrored_def waiting_def engaged_def split: option.splits if_splits)

lemma callersD:
  assumes "callers c C k P ths"
  shows "\<exists>th. ths c = Some th \<and> C (th_call th) \<and> resting k th"
    "\<And>u th. u \<noteq> c \<Longrightarrow> ths u = Some th \<Longrightarrow> outside (th_call th) \<and> P u th"
  using assms by (auto simp: callers_def)

text \<open>A thread found inside \<^verbatim>\<open>__psx_syscall\<close> is the caller.\<close>

lemma callers_eq:
  assumes "callers c C k P ths" "ths t = Some th" "\<not> outside (th_call th)"
  shows "t = c" "C (th_call th)" "resting k th"
  using assms callersD [OF assms(1)] by (metis option.inject)+

lemma callers_other:
  assumes "callers c C k P ths" "ths t = Some th" "th_hand th \<noteq> H_none \<or> th_sig th"
  shows "t \<noteq> c" "P t th" "outside (th_call th)"
proof -
  show "t \<noteq> c" using assms(2,3) callersD(1) [OF assms(1)] by (auto simp: resting_def)
  from callersD(2) [OF assms(1) this assms(2)] show "P t th" "outside (th_call th)" by blast+
qed

lemma callers_set_call:
  assumes "callers c C k P ths" "C' pc" "\<And>u th. u \<noteq> c \<Longrightarrow> ths u = Some th \<Longrightarrow> P u th \<Longrightarrow> P' u th"
  shows "callers c C' k P' (ths(c := map_option (\<lambda>th. th\<lparr>th_call := pc\<rparr>) (ths c)))"
  using callersD [OF assms(1)] assms(2,3) unfolding callers_def by (auto simp: resting_def)

lemma callers_set_thread:
  assumes "callers c C k P ths" "t \<noteq> c" "outside (th_call th')" "P' t th'"
    "\<And>u th. u \<noteq> c \<Longrightarrow> u \<noteq> t \<Longrightarrow> ths u = Some th \<Longrightarrow> P u th \<Longrightarrow> P' u th"
  shows "callers c C k P' (ths(t \<mapsto> th'))"
  using callersD [OF assms(1)] assms(2-5) unfolding callers_def by auto

lemma callers_del:
  assumes "callers c C k P ths" "t \<noteq> c"
  shows "callers c C k P (ths(t := None))"
  using callersD [OF assms(1)] assms(2) unfolding callers_def by auto

lemma callers_mono:
  assumes "callers c C k P ths" "\<And>pc. C pc \<Longrightarrow> C' pc" "\<And>u th. u \<noteq> c \<Longrightarrow> ths u = Some th \<Longrightarrow> P u th \<Longrightarrow> P' u th"
  shows "callers c C' k P' ths"
  using callersD [OF assms(1)] assms(2,3) unfolding callers_def by blast

section \<open>The lock\<close>

lemma psx_same_mu: "t_state_mu tr = m \<Longrightarrow> tr\<lparr>t_state_mu := m\<rparr> = tr" by (cases tr) simp

lemma lock_own: "t_pid tr = pid \<Longrightarrow> t_state_mu tr \<noteq> pid \<Longrightarrow> psx_lock pid tr = Some (tr\<lparr>t_state_mu := pid\<rparr>)"
  by (simp add: psx_lock_def psx_mu_lock_def)

lemma new_state_own:
  assumes "t_pid tr = pid" "t_state_mu tr = 0" "0 < pid"
  shows "psx_new_state pid was new tr = (if t_state tr = was then Some (tr\<lparr>t_state := new\<rparr>) else None)"
  using assms psx_same_mu [of "tr\<lparr>t_state := new\<rparr>" 0] by (simp add: psx_new_state_def lock_own psx_unlock_def)

lemma new_state_first:
  assumes "t_pid tr = 0" "t_state_mu tr = 0" "t_initialized tr = 0" "0 < pid" "psx_new_state pid was new tr = Some tr'"
  shows "was = PSX_IDLE" "t_pid tr' = pid" "t_state tr' = new" "wf_map tr'" "t_state_mu tr' = 0" "active (t_cmd tr') = 0"
    "t_initialized tr' \<noteq> 0"
  using assms wf_start [of "tr\<lparr>t_state_mu := pid\<rparr>"]
  by (auto simp: psx_new_state_def psx_lock_def psx_mu_lock_def psx_unlock_def start_exec wf_map_def wf_map_at_def slots_ok_def
      psx_slot_def Let_def split: if_splits)

lemma locked_own:
  assumes "t_pid tr = pid" "t_state_mu tr = 0" "0 < pid"
  shows "psx_locked pid f tr = do { (a, tr) \<leftarrow> f (tr\<lparr>t_state_mu := pid\<rparr>); Some (a, psx_unlock tr) }"
  using assms by (simp add: psx_locked_def lock_own)

lemma clear_map:
  assumes "wf_map tr"
  shows "wf_map (psx_clear_map tr)" "refs (psx_clear_map tr) u = None"
proof -
  from assms obtain k where k: "wf_map_at k tr" by (auto simp: wf_map_def)
  then have w: "wf_map_at k (psx_clear_map tr)" by (simp add: wf_map_at_def psx_clear_map_def slots_ok_def zero_ref_def)
  then show "wf_map (psx_clear_map tr)" by (auto simp: wf_map_def)
  have "t_map (psx_clear_map tr) ! psx_slot (psx_clear_map tr) u = zero_ref"
    using slot_less [OF w, of u] by (simp add: psx_clear_map_def)
  then show "refs (psx_clear_map tr) u = None" by (simp add: refs_def zero_ref_def)
qed

section \<open>Steps of the caller\<close>

lemma live_okD:
  assumes "live_ok s"
  shows "0 < m_pid s" "t_state_mu (m_tr s) = 0" "finite (dom (m_threads s))"
    "m_threads s u = Some th \<Longrightarrow> tid_ok u"
  using assms by (auto simp: live_ok_def)

lemma live_ok_set_call:
  assumes "live_ok s" "t_state_mu tr = 0"
  shows "live_ok (set_call t pc (s\<lparr>m_tr := tr\<rparr>))"
proof -
  have "dom (m_threads (set_call t pc (s\<lparr>m_tr := tr\<rparr>))) = dom (m_threads s)" by (auto simp: set_call_def)
  with assms show ?thesis by (simp add: live_ok_def) (simp add: set_call_def)
qed

lemma live_ok_call: "live_ok s \<Longrightarrow> live_ok (set_call t pc s)"
  using live_ok_set_call [of s "m_tr s" t pc] by (simp add: live_ok_def)

lemma live_ok_set_thread:
  assumes "live_ok s" "m_threads s t = Some th" "t_state_mu tr = 0"
  shows "live_ok (set_thread t th' (s\<lparr>m_tr := tr, m_actions := a\<rparr>))" "live_ok (set_thread t th' (s\<lparr>m_tr := tr\<rparr>))"
    "live_ok (set_thread t th' s)"
proof -
  have "insert t (dom (m_threads s)) = dom (m_threads s)" using assms(2) by auto
  with assms show "live_ok (set_thread t th' (s\<lparr>m_tr := tr, m_actions := a\<rparr>))" "live_ok (set_thread t th' (s\<lparr>m_tr := tr\<rparr>))"
    "live_ok (set_thread t th' s)"
    by (simp_all add: live_ok_def set_thread_def)
qed

lemma phase_callers:
  "calling c k s \<Longrightarrow> \<exists>C P. callers c C k P (m_threads s)" "going sys c k s \<Longrightarrow> \<exists>C P. callers c C k P (m_threads s)"
  "sweeping sys c k f ent s \<Longrightarrow> \<exists>C P. callers c C k P (m_threads s)" "closing c k s \<Longrightarrow> \<exists>C P. callers c C k P (m_threads s)"
  "draining c k s \<Longrightarrow> \<exists>C P. callers c C k P (m_threads s)" "finishing c k s \<Longrightarrow> \<exists>C P. callers c C k P (m_threads s)"
  unfolding calling_def going_def sweeping_def closing_def draining_def finishing_def by blast+

lemma acts_in_call:
  assumes "acts_as sys k s" "m_threads s t = Some th" "\<not> outside (th_call th)"
  shows "calling t k s \<or> going sys t k s \<or> (\<exists>f ent. sweeping sys t k f ent s) \<or> closing t k s \<or> draining t k s \<or> finishing t k s"
    "resting k th" "live_ok s"
proof -
  have "\<not> quiet k s" using assms(2,3) by (auto simp: quiet_def)
  then obtain c where c: "calling c k s \<or> going sys c k s \<or> (\<exists>f ent. sweeping sys c k f ent s) \<or> closing c k s \<or> draining c k s \<or> finishing c k s"
    using assms(1) unfolding acts_as_def by blast
  then have "\<exists>C P. callers c C k P (m_threads s)" by (elim disjE exE) (erule phase_callers)+
  then obtain C P where "callers c C k P (m_threads s)" by blast
  from callers_eq [OF this assms(2,3)] c
  show "calling t k s \<or> going sys t k s \<or> (\<exists>f ent. sweeping sys t k f ent s) \<or> closing t k s \<or> draining t k s \<or> finishing t k s"
    "resting k th" by blast+
  show "live_ok s" using assms(1) by (simp add: acts_as_def)
qed

lemma in_call_state:
  assumes "calling c k s \<or> going sys c k s \<or> (\<exists>f ent. sweeping sys c k f ent s) \<or> closing c k s \<or> draining c k s \<or> finishing c k s"
  shows "ready PSX_SETUP s \<or> ready PSX_SYSCALL s"
  using assms unfolding calling_def going_def sweeping_def closing_def draining_def finishing_def by blast

lemma acts_cases:
  assumes "acts_as sys k s"
  obtains "quiet k s" | c where "calling c k s" | c where "going sys c k s" | c f ent where "sweeping sys c k f ent s"
    | c where "closing c k s" | c where "draining c k s" | c where "finishing c k s"
  using assms unfolding acts_as_def by blast

lemma acts_intro:
  assumes "live_ok s"
  shows "quiet k s \<Longrightarrow> acts_as sys k s" "calling c k s \<Longrightarrow> acts_as sys k s" "going sys c k s \<Longrightarrow> acts_as sys k s"
    "sweeping sys c k f ent s \<Longrightarrow> acts_as sys k s" "closing c k s \<Longrightarrow> acts_as sys k s"
    "draining c k s \<Longrightarrow> acts_as sys k s" "finishing c k s \<Longrightarrow> acts_as sys k s"
  using assms unfolding acts_as_def by blast+

lemma readyD:
  assumes "ready st s"
  shows "t_pid (m_tr s) = m_pid s" "t_state (m_tr s) = st" "wf_map (m_tr s)" "t_initialized (m_tr s) \<noteq> 0"
  using assms by (simp_all add: ready_def)

lemma new_state_ready:
  assumes "live_ok s" "ready st s"
  shows "psx_new_state (m_pid s) was new (m_tr s) = (if st = was then Some (m_tr s\<lparr>t_state := new\<rparr>) else None)"
  using new_state_own [of "m_tr s" "m_pid s"] live_okD [OF assms(1)] readyD [OF assms(2)] by simp

lemma call_acts:
  assumes "acts_as sys k s" "m_threads s t = Some th" "outside (th_call th)"
    "psx_new_state (m_pid s) PSX_IDLE PSX_SETUP (m_tr s) = Some tr"
  shows "acts_as sys k (set_call t (C_setup nr args) (s\<lparr>m_tr := tr\<rparr>))"
proof -
  have lv: "live_ok s" using assms(1) by (simp add: acts_as_def)
  have q: "quiet k s"
  proof (rule ccontr)
    assume "\<not> quiet k s"
    then obtain c where "calling c k s \<or> going sys c k s \<or> (\<exists>f ent. sweeping sys c k f ent s) \<or> closing c k s \<or> draining c k s \<or> finishing c k s"
      using assms(1) unfolding acts_as_def by blast
    then have "ready PSX_SETUP s \<or> ready PSX_SYSCALL s" by (rule in_call_state)
    with assms(4) show False using new_state_ready [OF lv] by fastforce
  qed
  have tr: "t_pid tr = m_pid s \<and> t_state tr = PSX_SETUP \<and> wf_map tr \<and> t_initialized tr \<noteq> 0 \<and> active (t_cmd tr) = 0 \<and> t_state_mu tr = 0"
  proof -
    consider "ready PSX_IDLE s" | "t_pid (m_tr s) = 0" "t_initialized (m_tr s) = 0"
      | "t_pid (m_tr s) = m_pid s" "t_state (m_tr s) = PSX_EXITING" using q by (auto simp: quiet_def)
    then show ?thesis
    proof cases
      case 1
      then show ?thesis using assms(4) new_state_ready [OF lv 1] q readyD [OF 1] live_okD(2) [OF lv] by (auto simp: quiet_def)
    next
      case 2
      from new_state_first [OF 2(1) live_okD(2) [OF lv] 2(2) live_okD(1) [OF lv] assms(4)] show ?thesis by simp
    next
      case 3
      then show ?thesis using assms(4) live_okD [OF lv] by (simp add: new_state_own)
    qed
  qed
  have "callers t (\<lambda>pc. (\<exists>nr args. pc = C_setup nr args) \<or> pc = C_failed (- 1)) k (\<lambda>u. resting k)
      ((m_threads s)(t := map_option (\<lambda>th. th\<lparr>th_call := C_setup nr args\<rparr>) (m_threads s t)))"
    using q assms(2) by (auto simp: callers_def quiet_def resting_def)
  then have "calling t k (set_call t (C_setup nr args) (s\<lparr>m_tr := tr\<rparr>))"
    using tr by (simp add: calling_def ready_def set_call_def)
  moreover have "live_ok (set_call t (C_setup nr args) (s\<lparr>m_tr := tr\<rparr>))" using live_ok_set_call [OF lv] tr by blast
  ultimately show ?thesis by (intro acts_intro(2))
qed

lemma phase_pc:
  assumes "m_threads s c = Some th"
  shows "calling c k s \<Longrightarrow> (\<exists>nr args. th_call th = C_setup nr args) \<or> th_call th = C_failed (- 1)"
    "going sys c k s \<Longrightarrow> \<exists>r. th_call th = C_go r" "sweeping sys c k f ent s \<Longrightarrow> th_call th = sweep_pc f ent"
    "closing c k s \<Longrightarrow> \<exists>f. th_call th = C_close f" "draining c k s \<Longrightarrow> \<exists>f. th_call th = C_drain f"
    "finishing c k s \<Longrightarrow> \<exists>f. th_call th = C_finish f"
proof -
  have pc: "C (th_call th)" if "callers c C k P (m_threads s)" for C P
    using callersD(1) [OF that] assms by auto
  show "calling c k s \<Longrightarrow> (\<exists>nr args. th_call th = C_setup nr args) \<or> th_call th = C_failed (- 1)"
    unfolding calling_def using pc by blast
  show "going sys c k s \<Longrightarrow> \<exists>r. th_call th = C_go r" unfolding going_def by (elim exE conjE, drule pc, blast)
  show "sweeping sys c k f ent s \<Longrightarrow> th_call th = sweep_pc f ent" unfolding sweeping_def by (elim exE conjE, drule pc, blast)
  show "closing c k s \<Longrightarrow> \<exists>f. th_call th = C_close f" unfolding closing_def by (elim exE conjE, drule pc, blast)
  show "draining c k s \<Longrightarrow> \<exists>f. th_call th = C_drain f" unfolding draining_def by (elim exE conjE, drule pc, blast)
  show "finishing c k s \<Longrightarrow> \<exists>f. th_call th = C_finish f" unfolding finishing_def by (elim exE conjE, drule pc, blast)
qed

lemma sweep_pc_inject [simp]:
  "C_sweep f = sweep_pc f' ent \<longleftrightarrow> f' = f \<and> ent = None" "C_entered f u = sweep_pc f' ent \<longleftrightarrow> f' = f \<and> ent = Some u"
  "\<not> outside (sweep_pc f ent)" "sweep_pc f ent \<noteq> C_setup nr args" "sweep_pc f ent \<noteq> C_failed r" "sweep_pc f ent \<noteq> C_go r" "sweep_pc f ent \<noteq> C_close f'"
  "sweep_pc f ent \<noteq> C_drain f'" "sweep_pc f ent \<noteq> C_finish f'" "sweep_pc f ent \<noteq> C_user r'"
  "C_setup nr args \<noteq> sweep_pc f ent" "C_failed r \<noteq> sweep_pc f ent" "C_go r \<noteq> sweep_pc f ent" "C_close f' \<noteq> sweep_pc f ent"
  "C_drain f' \<noteq> sweep_pc f ent" "C_finish f' \<noteq> sweep_pc f ent" "C_user r' \<noteq> sweep_pc f ent"
  by (auto simp: sweep_pc_def split: option.splits)

text \<open>The program counter of a thread inside \<^verbatim>\<open>__psx_syscall\<close> gives the phase.\<close>

lemma acts_pc:
  assumes "acts_as sys k s" "m_threads s t = Some th"
  shows "th_call th = C_setup nr args \<Longrightarrow> calling t k s" "th_call th = C_failed r \<Longrightarrow> calling t k s \<and> r = - 1"
    "th_call th = C_go r \<Longrightarrow> going sys t k s" "th_call th = C_sweep f \<Longrightarrow> sweeping sys t k f None s"
    "th_call th = C_entered f u \<Longrightarrow> sweeping sys t k f (Some u) s" "th_call th = C_close f \<Longrightarrow> closing t k s"
    "th_call th = C_drain f \<Longrightarrow> draining t k s" "th_call th = C_finish f \<Longrightarrow> finishing t k s"
proof -
  note pc = phase_pc [OF assms(2)]
  have phases: "calling t k s \<or> going sys t k s \<or> (\<exists>f ent. sweeping sys t k f ent s) \<or> closing t k s \<or> draining t k s \<or> finishing t k s"
    if "th_call th = x" "\<not> outside x" for x
    using acts_in_call(1) [OF assms] that by blast
  show "calling t k s" if e: "th_call th = C_setup nr args"
    using phases [OF e, simplified] by (elim disjE exE) (frule pc, force simp: e)+
  show "calling t k s \<and> r = - 1" if e: "th_call th = C_failed r"
    using phases [OF e, simplified] by (elim disjE exE) (frule pc, force simp: e)+
  show "going sys t k s" if e: "th_call th = C_go r"
    using phases [OF e, simplified] by (elim disjE exE) (frule pc, force simp: e)+
  show "sweeping sys t k f None s" if e: "th_call th = C_sweep f"
    using phases [OF e, simplified] by (elim disjE exE) (frule pc, force simp: e)+
  show "sweeping sys t k f (Some u) s" if e: "th_call th = C_entered f u"
    using phases [OF e, simplified] by (elim disjE exE) (frule pc, force simp: e)+
  show "closing t k s" if e: "th_call th = C_close f"
    using phases [OF e, simplified] by (elim disjE exE) (frule pc, force simp: e)+
  show "draining t k s" if e: "th_call th = C_drain f"
    using phases [OF e, simplified] by (elim disjE exE) (frule pc, force simp: e)+
  show "finishing t k s" if e: "th_call th = C_finish f"
    using phases [OF e, simplified] by (elim disjE exE) (frule pc, force simp: e)+
qed

lemma confirm_handler: "sa_handler (k_action (psx_confirm_sigaction a)) = PSX_ACTOR"
  by (simp add: psx_confirm_sigaction_def Let_def)

lemma set_cmd_nr: "syscall_nr (psx_set_cmd nr args c) = nr" "active (psx_set_cmd nr args c) = active c"
  by (simp_all add: psx_set_cmd_def Let_def)

lemma immediate_acts:
  assumes "acts_as sys k s" "m_threads s t = Some th" "th_call th = C_setup nr args"
    "sys nr (psx_cmd_args (psx_set_cmd nr args (t_cmd (m_tr s)))) (th_cred th) = (ret, k')"
    "ret = - 1 \<Longrightarrow> k' = th_cred th"
  shows "acts_as sys k' (set_thread t (th\<lparr>th_cred := k', th_call := (if ret = - 1 then C_failed ret else C_go ret)\<rparr>)
      (s\<lparr>m_tr := m_tr s\<lparr>t_cmd := psx_set_cmd nr args (t_cmd (m_tr s))\<rparr>, m_actions := psx_confirm_sigaction (m_actions s)\<rparr>))"
    "th_cred th = k"
proof -
  have nu: "\<not> outside (th_call th)" using assms(3) by simp
  note a = acts_in_call [OF assms(1,2) nu]
  from acts_pc(1) [OF assms(1-3)] have c: "callers t (\<lambda>pc. (\<exists>nr args. pc = C_setup nr args) \<or> pc = C_failed (- 1)) k (\<lambda>u. resting k) (m_threads s)"
    "ready PSX_SETUP s" "active (t_cmd (m_tr s)) = 0" by (auto simp: calling_def)
  show k: "th_cred th = k" using a(2) by (simp add: resting_def)
  let ?th = "th\<lparr>th_cred := k', th_call := (if ret = - 1 then C_failed ret else C_go ret)\<rparr>"
  let ?s = "set_thread t ?th
      (s\<lparr>m_tr := m_tr s\<lparr>t_cmd := psx_set_cmd nr args (t_cmd (m_tr s))\<rparr>, m_actions := psx_confirm_sigaction (m_actions s)\<rparr>)"
  have lv: "live_ok ?s" using live_ok_set_thread(1) [OF a(3) assms(2)] live_okD(2) [OF a(3)] by simp
  have others: "u \<noteq> t \<Longrightarrow> m_threads s u = Some uh \<Longrightarrow> outside (th_call uh) \<and> resting k uh" for u uh
    using callersD(2) [OF c(1)] by blast
  have rd: "ready PSX_SETUP ?s" "active (t_cmd (m_tr ?s)) = 0"
    using c(2,3) by (simp_all add: ready_def set_thread_def set_cmd_nr)
  show "acts_as sys k' ?s"
  proof (cases "ret = - 1")
    case True
    then have k': "k' = k" using assms(5) k by simp
    have "callers t (\<lambda>pc. (\<exists>nr args. pc = C_setup nr args) \<or> pc = C_failed (- 1)) k' (\<lambda>u. resting k') (m_threads ?s)"
      using others a(2) True k' by (auto simp: callers_def set_thread_def resting_def)
    with rd have "calling t k' ?s" by (simp add: calling_def)
    then show ?thesis by (rule acts_intro(2) [OF lv])
  next
    case False
    have "callers t (\<lambda>pc. pc = C_go ret) k' (\<lambda>u. resting k) (m_threads ?s)"
      using others a(2) False by (auto simp: callers_def set_thread_def resting_def)
    moreover have "does sys ?s ret k k'"
      using assms(4) k by (simp add: does_def set_thread_def set_cmd_nr confirm_handler)
    ultimately have "going sys t k' ?s" using rd unfolding going_def by blast
    then show ?thesis by (rule acts_intro(3) [OF lv])
  qed
qed

lemma set_call_simps [simp]:
  "m_tr (set_call t pc s) = m_tr s" "m_pid (set_call t pc s) = m_pid s" "m_actions (set_call t pc s) = m_actions s"
  "m_killed (set_call t pc s) = m_killed s"
  "m_threads (set_call t pc s) = (m_threads s)(t := map_option (\<lambda>th. th\<lparr>th_call := pc\<rparr>) (m_threads s t))"
  "m_tr (set_thread t th s) = m_tr s" "m_pid (set_thread t th s) = m_pid s" "m_actions (set_thread t th s) = m_actions s"
  "m_killed (set_thread t th s) = m_killed s"
  "m_threads (set_thread t th s) = (m_threads s)(t \<mapsto> th)"
  by (simp_all add: set_call_def set_thread_def)

text \<open>A call that has ended leaves a quiet process.\<close>

lemma callers_return:
  assumes "callers t C k (\<lambda>u. resting k) (m_threads s)" "live_ok s" "ready st s" "active (t_cmd (m_tr s)) = 0"
  shows "acts_as sys k (set_call t (C_user r) (s\<lparr>m_tr := m_tr s\<lparr>t_state := PSX_IDLE\<rparr>\<rparr>))"
proof -
  have "quiet k (set_call t (C_user r) (s\<lparr>m_tr := m_tr s\<lparr>t_state := PSX_IDLE\<rparr>\<rparr>))"
    using callersD [OF assms(1)] assms(3,4) by (auto simp: quiet_def ready_def resting_def)
  then show ?thesis
    using live_okD(2) [OF assms(2)] by (intro acts_intro(1) live_ok_set_call [OF assms(2)]) simp_all
qed

lemma failed_acts:
  assumes "acts_as sys k s" "m_threads s t = Some th" "th_call th = C_failed ret"
    "psx_new_state (m_pid s) PSX_SETUP PSX_IDLE (m_tr s) = Some tr"
  shows "acts_as sys k (set_call t (C_user (Some ret)) (s\<lparr>m_tr := tr\<rparr>))"
proof -
  have c: "calling t k s" "live_ok s" using acts_pc(2) [OF assms(1-3)] assms(1) by (auto simp: acts_as_def)
  then have "tr = m_tr s\<lparr>t_state := PSX_IDLE\<rparr>"
    using assms(4) new_state_ready [OF c(2), of PSX_SETUP] by (simp add: calling_def)
  moreover have "callers t (\<lambda>pc. (\<exists>nr args. pc = C_setup nr args) \<or> pc = C_failed (- 1)) k (\<lambda>u. resting k) (m_threads s)"
    "ready PSX_SETUP s" "active (t_cmd (m_tr s)) = 0" using c(1) by (auto simp: calling_def)
  ultimately show ?thesis using callers_return [OF _ c(2)] by simp
qed

lemma finish_acts:
  assumes "acts_as sys k s" "m_threads s t = Some th" "th_call th = C_finish f"
  shows "\<not> psx_fatal f (m_tr s)"
    "psx_new_state (m_pid s) PSX_SYSCALL PSX_IDLE (m_tr s) = Some tr \<Longrightarrow> acts_as sys k (set_call t (C_user (Some (f_ret f))) (s\<lparr>m_tr := tr\<rparr>))"
proof -
  have l: "live_ok s" using assms(1) by (simp add: acts_as_def)
  from acts_pc(8) [OF assms] obtain f' where f: "callers t (\<lambda>pc. pc = C_finish f') k (\<lambda>u. resting k) (m_threads s)"
    "ready PSX_SYSCALL s" "active (t_cmd (m_tr s)) = 0" "f_mismatch f' = 0" by (auto simp: finishing_def)
  have "f' = f" using callersD(1) [OF f(1)] assms(2,3) by auto
  with f(4) show "\<not> psx_fatal f (m_tr s)" by (simp add: psx_fatal_def)
  assume "psx_new_state (m_pid s) PSX_SYSCALL PSX_IDLE (m_tr s) = Some tr"
  then have "tr = m_tr s\<lparr>t_state := PSX_IDLE\<rparr>" using new_state_ready [OF l f(2)] by simp
  then show "acts_as sys k (set_call t (C_user (Some (f_ret f))) (s\<lparr>m_tr := tr\<rparr>))"
    using callers_return [OF f(1) l f(2,3)] by simp
qed

lemma go_acts:
  assumes "acts_as sys k s" "m_threads s t = Some th" "th_call th = C_go ret"
    "psx_new_state (m_pid s) PSX_SETUP PSX_SYSCALL (m_tr s) = Some tr"
  shows "acts_as sys k (set_call t (C_sweep (psx_start_sweep ret)) (s\<lparr>m_tr := psx_clear_map tr\<rparr>))"
proof -
  have l: "live_ok s" using assms(1) by (simp add: acts_as_def)
  from acts_pc(3) [OF assms(1-3)] obtain k0 r where g: "callers t (\<lambda>pc. pc = C_go r) k (\<lambda>u. resting k0) (m_threads s)"
    "ready PSX_SETUP s" "active (t_cmd (m_tr s)) = 0" "does sys s r k0 k" by (auto simp: going_def)
  have r: "r = ret" using callersD(1) [OF g(1)] assms(2,3) by auto
  have tr: "tr = m_tr s\<lparr>t_state := PSX_SYSCALL\<rparr>" using assms(4) new_state_ready [OF l g(2)] by simp
  let ?tr = "psx_clear_map tr" and ?f = "psx_start_sweep ret"
  let ?s = "set_call t (C_sweep ?f) (s\<lparr>m_tr := ?tr\<rparr>)"
  have w: "wf_map ?tr" "\<And>u. refs ?tr u = None" using clear_map [of tr] readyD(3) [OF g(2)] tr by simp_all
  have f: "t_cmd ?tr = t_cmd (m_tr s)" "t_pid ?tr = t_pid (m_tr s)" "t_state ?tr = PSX_SYSCALL" "t_state_mu ?tr = t_state_mu (m_tr s)"
    "t_initialized ?tr = t_initialized (m_tr s)"
    by (simp_all add: tr psx_clear_map_def)
  have rd: "ready PSX_SYSCALL ?s" "does sys ?s ret k0 k" using f w(1) g(2,4) r by (simp_all add: ready_def does_def)
  have c: "callers t (\<lambda>pc. pc = sweep_pc ?f None) k (\<lambda>u. mirrored (active (t_cmd (m_tr ?s)) \<noteq> 0) (f_ret ?f) k0 k (refs (m_tr ?s) u)) (m_threads ?s)"
    using callers_set_call [OF g(1), of "\<lambda>pc. pc = sweep_pc ?f None" "C_sweep ?f"] w(2) by (simp add: mirrored_def)
  have t: "sweep_table ?f None (m_threads ?s) (refs (m_tr ?s))" "sweep_frame_ok ?f t None" "f_ret ?f = ret"
    using w(2) by (simp_all add: sweep_table_def sweep_frame_ok_def psx_start_sweep_def)
  have "sweeping sys t k ?f None ?s"
    unfolding sweeping_def using c rd t w(2) by (intro exI [of _ k0] conjI) (simp_all add: psx_start_sweep_def)
  then show ?thesis using live_okD(2) [OF l] f(4) by (intro acts_intro(4) live_ok_set_call [OF l]) simp_all
qed

section \<open>Sweeping\<close>

lemma sweepingE:
  assumes "sweeping sys c k f ent s"
  obtains k0 where "callers c (\<lambda>pc. pc = sweep_pc f ent) k
       (\<lambda>u. mirrored (active (t_cmd (m_tr s)) \<noteq> 0) (f_ret f) k0 k (refs (m_tr s) u)) (m_threads s)"
    "ready PSX_SYSCALL s" "does sys s (f_ret f) k0 k" "sweep_frame_ok f c ent"
    "sweep_table f ent (m_threads s) (refs (m_tr s))"
    "\<forall>u. refs (m_tr s) u \<noteq> None \<longrightarrow> active (t_cmd (m_tr s)) \<noteq> 0" "refs (m_tr s) c = None"
  using assms unfolding sweeping_def by (elim exE conjE)

lemma sweep_tableD:
  assumes "sweep_table f ent ths rf"
  shows "rf u = Some x \<Longrightarrow> r_pending x = 0 \<Longrightarrow> ths u \<noteq> None"
    "engaged_at ths u \<Longrightarrow> rf u = Some x \<Longrightarrow> ent \<noteq> Some u \<Longrightarrow> f_sweep f - 1 \<le> r_sweep x"
    "u \<in> set (f_listed f) \<Longrightarrow> rf u = Some x \<Longrightarrow> r_sweep x = f_sweep f"
    "f_some f = 0 \<Longrightarrow> u \<in> set (f_listed f) \<Longrightarrow> \<exists>x. rf u = Some x \<and> r_pending x = 0"
    "ent = Some u \<Longrightarrow> rf u \<noteq> None"
  using assms by (simp_all add: sweep_table_def)

lemma end_sweep_acts:
  assumes "acts_as sys k s" "m_threads s t = Some th" "th_call th = C_sweep f"
    "dom (m_threads s) - {t} \<subseteq> set (f_listed f)"
  shows "acts_as sys k (set_call t (psx_end_sweep f) s)"
proof -
  have l: "live_ok s" using assms(1) by (simp add: acts_as_def)
  have lst: "u \<in> set (f_listed f)" if "m_threads s u \<noteq> None" "u \<noteq> t" for u using assms(4) that by auto
  from acts_pc(4) [OF assms(1-3)] obtain k0 where c: "callers t (\<lambda>pc. pc = sweep_pc f None) k
       (\<lambda>u. mirrored (active (t_cmd (m_tr s)) \<noteq> 0) (f_ret f) k0 k (refs (m_tr s) u)) (m_threads s)"
    and r: "ready PSX_SYSCALL s" "does sys s (f_ret f) k0 k" and f: "sweep_frame_ok f t None"
    and tab: "sweep_table f None (m_threads s) (refs (m_tr s))"
    and used: "\<forall>u. refs (m_tr s) u \<noteq> None \<longrightarrow> active (t_cmd (m_tr s)) \<noteq> 0" "refs (m_tr s) t = None"
    by (rule sweepingE)
  note tab = sweep_tableD [OF tab]
  have lv: "live_ok (set_call t pc s)" for pc
    using live_ok_set_call [OF l live_okD(2) [OF l], of t pc] by simp
  define v where "v = (if f_some f \<noteq> 0 then 0 else f_verified f + 1)"
  show ?thesis
  proof (cases "v < 2")
    case True
    define f' where "f' = f\<lparr>f_sweep := f_sweep f + 1, f_some := 0, f_incomplete := 0, f_verified := v, f_listed := []\<rparr>"
    have e: "psx_end_sweep f = C_sweep f'" using True by (simp add: psx_end_sweep_def v_def f'_def)
    have "f_sweep f \<le> r_sweep x" if "engaged_at (m_threads s) u" "refs (m_tr s) u = Some x" for u x
    proof -
      have "u \<noteq> t" "m_threads s u \<noteq> None" using that used(2) by (auto simp: engaged_at_def)
      then show ?thesis using tab(3) [of u x] lst that(2) by simp
    qed
    then have "sweep_table f' None (m_threads (set_call t (C_sweep f') s)) (refs (m_tr s))"
      unfolding sweep_table_def set_call_simps engaged_at_simps using tab(1) by (auto simp: f'_def)
    moreover have "sweep_frame_ok f' t None" using f True by (auto simp: sweep_frame_ok_def f'_def v_def)
    moreover have "callers t (\<lambda>pc. pc = sweep_pc f' None) k
        (\<lambda>u. mirrored (active (t_cmd (m_tr s)) \<noteq> 0) (f_ret f') k0 k (refs (m_tr s) u)) (m_threads (set_call t (C_sweep f') s))"
      using callers_set_call [OF c, of "\<lambda>pc. pc = sweep_pc f' None" "C_sweep f'"] by (simp add: f'_def)
    ultimately have "sweeping sys t k f' None (set_call t (C_sweep f') s)"
      unfolding sweeping_def using r used by (intro exI [of _ k0]) (simp add: f'_def ready_def does_def)
    then show ?thesis unfolding e by (intro acts_intro(4) lv)
  next
    case False
    define f' where "f' = f\<lparr>f_verified := v\<rparr>"
    have e: "psx_end_sweep f = C_close f'" using False by (simp add: psx_end_sweep_def v_def f'_def)
    have "f_some f = 0" using False by (auto simp: v_def split: if_splits)
    then have dn: "\<exists>x. refs (m_tr s) u = Some x \<and> r_pending x = 0" if "u \<in> set (f_listed f)" for u using tab(4) that by blast
    have "set (f_listed f) = dom (m_threads s) - {t}"
      using tab(1) dn lst f by (fastforce simp: sweep_frame_ok_def)
    then have inc: "f_incomplete f' = int (card (dom (m_threads s) - {t}))"
      using f by (metis distinct_card f'_def sweep_frame_ok_def sweep_frame.select_convs(4) sweep_frame.surjective sweep_frame.update_convs(6))
    have "callers t (\<lambda>pc. pc = C_close f') k (\<lambda>u th. waiting k th \<and> active (t_cmd (m_tr s)) \<noteq> 0)
        ((m_threads s)(t := map_option (\<lambda>th. th\<lparr>th_call := C_close f'\<rparr>) (m_threads s t)))"
    proof (rule callers_set_call [OF c])
      fix u uh assume u: "u \<noteq> t" "m_threads s u = Some uh"
        "mirrored (active (t_cmd (m_tr s)) \<noteq> 0) (f_ret f) k0 k (refs (m_tr s) u) uh"
      then obtain x where "refs (m_tr s) u = Some x" "r_pending x = 0" using dn lst by blast
      with u(3) show "waiting k uh \<and> active (t_cmd (m_tr s)) \<noteq> 0" by (simp add: mirrored_def)
    qed simp
    moreover have "dom (m_threads (set_call t (C_close f') s)) = dom (m_threads s)" by (auto split: if_splits)
    ultimately have "closing t k (set_call t (C_close f') s)"
      unfolding closing_def using r(1) inc f by (intro exI [of _ f']) (simp add: ready_def sweep_frame_ok_def f'_def)
    then show ?thesis unfolding e by (intro acts_intro(5) lv)
  qed
qed

lemma enter_frame:
  assumes "psx_enter sw u tr = Some (new, tr')"
  shows "t_pid tr' = t_pid tr" "t_state tr' = t_state tr" "t_state_mu tr' = t_state_mu tr" "t_initialized tr' = t_initialized tr"
    "t_psx_sig tr' = t_psx_sig tr" "t_cmd tr' = (if new then (t_cmd tr)\<lparr>active := 1\<rparr> else t_cmd tr)"
proof -
  have g: "t_pid y = t_pid tr \<and> t_state y = t_state tr \<and> t_state_mu y = t_state_mu tr \<and> t_initialized y = t_initialized tr
      \<and> t_psx_sig y = t_psx_sig tr \<and> t_cmd y = t_cmd tr" if "psx_grow sw u v tr = Some y" for v y
    using that by (auto simp: psx_grow_def psx_set_map_def Let_def split: Option.bind_splits)
  from assms g show "t_pid tr' = t_pid tr" "t_state tr' = t_state tr" "t_state_mu tr' = t_state_mu tr" "t_initialized tr' = t_initialized tr"
    "t_psx_sig tr' = t_psx_sig tr" "t_cmd tr' = (if new then (t_cmd tr)\<lparr>active := 1\<rparr> else t_cmd tr)"
    by (auto simp: psx_enter_def Let_def split: Option.bind_splits if_splits)
qed

text \<open>The table operations as the steps use them, inside the lock.\<close>

lemma locked_enter:
  assumes "live_ok s" "ready st s" "tid_ok u" "2 \<le> sw"
    "\<forall>v y. engaged_at (m_threads s) v \<longrightarrow> refs (m_tr s) v = Some y \<longrightarrow> sw - 1 \<le> r_sweep y"
  obtains tr where "psx_locked (m_pid s) (psx_enter sw u) (m_tr s) = Some (refs (m_tr s) u = None, tr)"
    "ready st (s\<lparr>m_tr := tr\<rparr>)" "t_state_mu tr = 0"
    "t_cmd tr = (if refs (m_tr s) u = None then (t_cmd (m_tr s))\<lparr>active := 1\<rparr> else t_cmd (m_tr s))"
    "refs tr u = Some (case refs (m_tr s) u of None \<Rightarrow> zero_ref\<lparr>r_pending := 1, r_tid := u\<rparr> | Some x \<Rightarrow> x)"
    "\<forall>v. v \<noteq> u \<longrightarrow> engaged_at (m_threads s) v \<or> refs (m_tr s) v = None \<longrightarrow> refs tr v = refs (m_tr s) v"
    "\<forall>v. v \<noteq> u \<longrightarrow> refs tr v = refs (m_tr s) v \<or> refs tr v = None"
proof -
  note rd = readyD [OF assms(2)] and lv = live_okD [OF assms(1)]
  let ?tr = "m_tr s\<lparr>t_state_mu := m_pid s\<rparr>"
  have "\<forall>v y. v \<in> Collect (engaged_at (m_threads s)) \<longrightarrow> refs ?tr v = Some y \<longrightarrow> sw - 1 \<le> r_sweep y" using assms(5) by auto
  then obtain tr' where e: "psx_enter sw u ?tr = Some (refs ?tr u = None, tr')" "wf_map tr'"
    "refs tr' u = Some (case refs ?tr u of None \<Rightarrow> zero_ref\<lparr>r_pending := 1, r_tid := u\<rparr> | Some x \<Rightarrow> x)"
    "\<forall>v. v \<noteq> u \<longrightarrow> v \<in> Collect (engaged_at (m_threads s)) \<or> refs ?tr v = None \<longrightarrow> refs tr' v = refs ?tr v"
    "\<forall>v. v \<noteq> u \<longrightarrow> refs tr' v = refs ?tr v \<or> refs tr' v = None"
    using psx.enter_ok [of ?tr u sw "Collect (engaged_at (m_threads s))"] assms(3,4) rd(3) by auto
  note fr = enter_frame [OF e(1)]
  show ?thesis
    by (rule that [of "psx_unlock tr'"])
      (use e fr rd lv in \<open>auto simp: locked_own ready_def psx_unlock_def\<close>)
qed

lemma locked_mark:
  assumes "live_ok s" "ready st s" "refs (m_tr s) u = Some x"
  obtains tr where "psx_locked (m_pid s) (psx_account u f) (m_tr s) = Some (
      let f' = f\<lparr>f_incomplete := f_incomplete f + 1, f_listed := u # f_listed f\<rparr>
      in if r_pending x \<noteq> 0 then f'\<lparr>f_some := f_some f + 1\<rparr> else if r_retval x \<noteq> f_ret f then f'\<lparr>f_mismatch := 1\<rparr> else f', tr)"
    "ready st (s\<lparr>m_tr := tr\<rparr>)" "t_state_mu tr = 0" "t_cmd tr = t_cmd (m_tr s)"
    "refs tr = (refs (m_tr s))(u \<mapsto> x\<lparr>r_sweep := f_sweep f\<rparr>)"
proof -
  note rd = readyD [OF assms(2)] and lv = live_okD [OF assms(1)]
  let ?tr = "m_tr s\<lparr>t_state_mu := m_pid s\<rparr>"
  have x: "t_map (m_tr s) ! psx_slot (m_tr s) u = x" using assms(3) by (auto simp: refs_def Let_def split: if_splits)
  have m: "wf_map (psx_mark (f_sweep f) u ?tr)" "refs (psx_mark (f_sweep f) u ?tr) = (refs (m_tr s))(u \<mapsto> x\<lparr>r_sweep := f_sweep f\<rparr>)"
    using psx_mark_ref [of ?tr u x "f_sweep f"] assms(3) rd(3) by simp_all
  have fr: "t_pid (psx_mark (f_sweep f) u ?tr) = t_pid (m_tr s)" "t_state (psx_mark (f_sweep f) u ?tr) = t_state (m_tr s)"
    "t_initialized (psx_mark (f_sweep f) u ?tr) = t_initialized (m_tr s)" "t_cmd (psx_mark (f_sweep f) u ?tr) = t_cmd (m_tr s)"
    by (simp_all add: psx_mark_def Let_def)
  show ?thesis
    by (rule that [of "psx_unlock (psx_mark (f_sweep f) u ?tr)"])
      (use m fr rd lv x in \<open>simp_all add: locked_own ready_def psx_unlock_def psx_account_def Let_def\<close>)
qed

lemma locked_report:
  assumes "live_ok s" "ready st s" "refs (m_tr s) u = Some x"
  obtains tr where "psx_locked (m_pid s) (\<lambda>tr. Some ((), psx_report u r tr)) (m_tr s) = Some ((), tr)"
    "ready st (s\<lparr>m_tr := tr\<rparr>)" "t_state_mu tr = 0" "t_cmd tr = t_cmd (m_tr s)"
    "refs tr = (refs (m_tr s))(u \<mapsto> x\<lparr>r_retval := r, r_pending := 0\<rparr>)"
proof -
  note rd = readyD [OF assms(2)] and lv = live_okD [OF assms(1)]
  let ?tr = "m_tr s\<lparr>t_state_mu := m_pid s\<rparr>"
  have m: "wf_map (psx_report u r ?tr)" "refs (psx_report u r ?tr) = (refs (m_tr s))(u \<mapsto> x\<lparr>r_retval := r, r_pending := 0\<rparr>)"
    using psx_report_ref [of ?tr u x r] assms(3) rd(3) by simp_all
  have fr: "t_pid (psx_report u r ?tr) = t_pid (m_tr s)" "t_state (psx_report u r ?tr) = t_state (m_tr s)"
    "t_initialized (psx_report u r ?tr) = t_initialized (m_tr s)" "t_cmd (psx_report u r ?tr) = t_cmd (m_tr s)"
    by (simp_all add: psx_report_def Let_def)
  show ?thesis
    by (rule that [of "psx_unlock (psx_report u r ?tr)"])
      (use m fr rd lv in \<open>simp_all add: locked_own ready_def psx_unlock_def\<close>)
qed

lemma mirrored_same:
  "mirrored act ret k0 k1 r th \<Longrightarrow> (act \<Longrightarrow> act') \<Longrightarrow> mirrored act' ret k0 k1 r th"
  by (auto simp: mirrored_def split: option.splits)

lemma send_signal_simps [simp]:
  "m_tr (send_signal u new s) = m_tr s" "m_pid (send_signal u new s) = m_pid s" "m_actions (send_signal u new s) = m_actions s"
  "m_killed (send_signal u new s) = m_killed s"
  "m_threads (send_signal u new s) = (m_threads s)(u := map_option (tkill new) (m_threads s u))"
  by (simp_all add: send_signal_def)

lemma tkill_call [simp]: "th_call (tkill new th) = th_call th"
  by (simp add: tkill_def)

lemma list_acts:
  assumes "acts_as sys k s" "m_threads s t = Some th" "th_call th = C_sweep f" "tid_ok u" "u \<noteq> t" "u \<notin> set (f_listed f)"
    "psx_locked (m_pid s) (psx_enter (f_sweep f) u) (m_tr s) = Some (new, tr)"
  shows "acts_as sys k (set_call t (C_entered f u) (send_signal u new (s\<lparr>m_tr := tr\<rparr>)))"
proof -
  have l: "live_ok s" using assms(1) by (simp add: acts_as_def)
  from acts_pc(4) [OF assms(1-3)] obtain k0 where c: "callers t (\<lambda>pc. pc = sweep_pc f None) k
       (\<lambda>u. mirrored (active (t_cmd (m_tr s)) \<noteq> 0) (f_ret f) k0 k (refs (m_tr s) u)) (m_threads s)"
    and r: "ready PSX_SYSCALL s" "does sys s (f_ret f) k0 k" and f: "sweep_frame_ok f t None"
    and tab: "sweep_table f None (m_threads s) (refs (m_tr s))"
    and used: "\<forall>u. refs (m_tr s) u \<noteq> None \<longrightarrow> active (t_cmd (m_tr s)) \<noteq> 0" "refs (m_tr s) t = None"
    by (rule sweepingE)
  note tab = sweep_tableD [OF tab]
  have sw: "2 \<le> f_sweep f" "\<forall>v y. engaged_at (m_threads s) v \<longrightarrow> refs (m_tr s) v = Some y \<longrightarrow> f_sweep f - 1 \<le> r_sweep y"
    using tab(2) f by (auto simp: sweep_frame_ok_def)
  from locked_enter [OF l r(1) assms(4) sw] obtain tr' where
    e: "psx_locked (m_pid s) (psx_enter (f_sweep f) u) (m_tr s) = Some (refs (m_tr s) u = None, tr')"
      and rd: "ready PSX_SYSCALL (s\<lparr>m_tr := tr'\<rparr>)" "t_state_mu tr' = 0"
      and cmd: "t_cmd tr' = (if refs (m_tr s) u = None then (t_cmd (m_tr s))\<lparr>active := 1\<rparr> else t_cmd (m_tr s))"
      and ref: "refs tr' u = Some (case refs (m_tr s) u of None \<Rightarrow> zero_ref\<lparr>r_pending := 1, r_tid := u\<rparr> | Some x \<Rightarrow> x)"
      "\<forall>v. v \<noteq> u \<longrightarrow> engaged_at (m_threads s) v \<or> refs (m_tr s) v = None \<longrightarrow> refs tr' v = refs (m_tr s) v"
      "\<forall>v. v \<noteq> u \<longrightarrow> refs tr' v = refs (m_tr s) v \<or> refs tr' v = None" .
  from e assms(7) have new: "new = (refs (m_tr s) u = None)" and "tr = tr'" by simp_all
  note rd = rd [folded \<open>tr = tr'\<close>] and cmd = cmd [folded \<open>tr = tr'\<close> new] and ref = ref [folded \<open>tr = tr'\<close>]
  let ?s = "set_call t (C_entered f u) (send_signal u new (s\<lparr>m_tr := tr\<rparr>))"
  let ?ths = "(m_threads s)(u := map_option (tkill new) (m_threads s u))"
  have act: "active (t_cmd (m_tr s)) \<noteq> 0 \<Longrightarrow> active (t_cmd tr) \<noteq> 0" "active (t_cmd tr) \<noteq> 0" using cmd used(1) new by auto
  have others: "outside (th_call vh) \<and> mirrored (active (t_cmd tr) \<noteq> 0) (f_ret f) k0 k (refs tr v) vh"
    if v: "v \<noteq> t" "?ths v = Some vh" for v vh
  proof (cases "v = u")
    case True
    then obtain uh where uh: "m_threads s u = Some uh" "vh = tkill new uh" using v(2) by auto
    have "outside (th_call uh)" "mirrored (active (t_cmd (m_tr s)) \<noteq> 0) (f_ret f) k0 k (refs (m_tr s) u) uh"
      using callersD(2) [OF c assms(5) uh(1)] by blast+
    then show ?thesis
      using True uh(2) ref(1) new cmd by (cases "refs (m_tr s) u") (auto simp: mirrored_def tkill_def resting_def)
  next
    case False
    then have m: "outside (th_call vh)" "mirrored (active (t_cmd (m_tr s)) \<noteq> 0) (f_ret f) k0 k (refs (m_tr s) v) vh"
      using callersD(2) [OF c v(1)] v(2) by auto
    have "refs tr v = refs (m_tr s) v \<or> refs tr v = None \<and> \<not> engaged vh"
      using ref(2,3) False v(2) by (auto simp: engaged_at_def)
    then show ?thesis using m mirrored_same [OF m(2) act(1)] mirrored_forgotten [OF m(2)] by auto
  qed
  have c1: "callers t (\<lambda>pc. pc = sweep_pc f None) k (\<lambda>u. mirrored (active (t_cmd tr) \<noteq> 0) (f_ret f) k0 k (refs tr u)) ?ths"
    using callersD(1) [OF c] others assms(5) unfolding callers_def by simp
  have c2: "callers t (\<lambda>pc. pc = sweep_pc f (Some u)) k
       (\<lambda>u. mirrored (active (t_cmd tr) \<noteq> 0) (f_ret f) k0 k (refs tr u)) (m_threads ?s)"
    using callers_set_call [OF c1, of "\<lambda>pc. pc = sweep_pc f (Some u)" "C_entered f u"] by simp
  have d: "?ths v \<noteq> None \<longleftrightarrow> m_threads s v \<noteq> None" for v by simp
  have ths: "m_threads ?s = ?ths(t := map_option (\<lambda>th. th\<lparr>th_call := C_entered f u\<rparr>) (?ths t))" by simp
  have t2: "sweep_table f (Some u) (m_threads ?s) (refs tr)"
    unfolding sweep_table_def ths
  proof (intro conjI allI impI ballI)
    fix v x
    show "(?ths(t := map_option (\<lambda>th. th\<lparr>th_call := C_entered f u\<rparr>) (?ths t))) v \<noteq> None" if "refs tr v = Some x" "r_pending x = 0"
      using tab(1) [of v x] ref(1,3) that by (cases "v = u") (force split: option.splits)+
    show "f_sweep f - 1 \<le> r_sweep x"
      if "engaged_at (?ths(t := map_option (\<lambda>th. th\<lparr>th_call := C_entered f u\<rparr>) (?ths t))) v" "refs tr v = Some x" "Some u \<noteq> Some v"
    proof -
      have "engaged_at (m_threads s) v" using that(1,3) unfolding engaged_at_simps by (simp add: engaged_at_def)
      with that(2,3) ref(2) show ?thesis using tab(2) [of v x] by simp
    qed
    show "r_sweep x = f_sweep f" if "v \<in> set (f_listed f)" "refs tr v = Some x"
      using tab(3) [of v x] ref(3) that assms(6) by (metis option.distinct(1))
  next
    show "\<exists>x. refs tr v = Some x \<and> r_pending x = 0" if "f_some f = 0" "v \<in> set (f_listed f)" for v
    proof -
      obtain x where x: "refs (m_tr s) v = Some x" "r_pending x = 0" using tab(4) \<open>f_some f = 0\<close> \<open>v \<in> set (f_listed f)\<close> by blast
      obtain vh where vh: "m_threads s v = Some vh" using tab(1) [OF x] by blast
      have "v \<noteq> u" "v \<noteq> t" using \<open>v \<in> set (f_listed f)\<close> assms(6) f by (auto simp: sweep_frame_ok_def)
      then have "waiting k vh" using callersD(2) [OF c _ vh] x by (simp add: mirrored_def)
      then have "engaged_at (m_threads s) v" using vh by (simp add: engaged_at_def engaged_def waiting_def)
      with ref(2) x \<open>v \<noteq> u\<close> show ?thesis by auto
    qed
    show "refs tr v \<noteq> None" if "Some u = Some v" for v using ref(1) that by simp
  qed
  have "sweep_frame_ok f t (Some u)" using f assms(5,6) by (auto simp: sweep_frame_ok_def)
  moreover have "does sys ?s (f_ret f) k0 k" using r(2) cmd by (auto simp: does_def psx_cmd_args_def)
  moreover have "refs tr t = None" using ref(2) used(2) assms(5) by auto
  ultimately have "sweeping sys t k f (Some u) ?s"
    unfolding sweeping_def using c2 t2 rd(1) act(2) by (intro exI [of _ k0]) (simp add: ready_def)
  moreover have "dom (m_threads (send_signal u new (s\<lparr>m_tr := tr\<rparr>))) = dom (m_threads s)" by auto
  with l rd(2) have "live_ok (send_signal u new (s\<lparr>m_tr := tr\<rparr>))" by (simp add: live_ok_def del: send_signal_simps(5))
  then have "live_ok ?s" by (rule live_ok_call)
  ultimately show ?thesis by (intro acts_intro(4))
qed

lemma account_acts:
  assumes "acts_as sys k s" "m_threads s t = Some th" "th_call th = C_entered f u"
    "psx_locked (m_pid s) (psx_account u f) (m_tr s) = Some (f', tr)"
  shows "acts_as sys k (set_call t (C_sweep f') (s\<lparr>m_tr := tr\<rparr>))"
proof -
  have l: "live_ok s" using assms(1) by (simp add: acts_as_def)
  from acts_pc(5) [OF assms(1-3)] obtain k0 where c: "callers t (\<lambda>pc. pc = sweep_pc f (Some u)) k
       (\<lambda>u. mirrored (active (t_cmd (m_tr s)) \<noteq> 0) (f_ret f) k0 k (refs (m_tr s) u)) (m_threads s)"
    and r: "ready PSX_SYSCALL s" "does sys s (f_ret f) k0 k" and f: "sweep_frame_ok f t (Some u)"
    and tab: "sweep_table f (Some u) (m_threads s) (refs (m_tr s))"
    and used: "\<forall>u. refs (m_tr s) u \<noteq> None \<longrightarrow> active (t_cmd (m_tr s)) \<noteq> 0" "refs (m_tr s) t = None"
    by (rule sweepingE)
  note tab = sweep_tableD [OF tab]
  have u: "u \<noteq> t" "u \<notin> set (f_listed f)" using f by (auto simp: sweep_frame_ok_def)
  obtain x where x: "refs (m_tr s) u = Some x" using tab(5) by blast
  let ?f = "f\<lparr>f_incomplete := f_incomplete f + 1, f_listed := u # f_listed f\<rparr>"
  let ?x = "x\<lparr>r_sweep := f_sweep f\<rparr>"
  from locked_mark [OF l r(1) x, of f] obtain tr' where
    e: "psx_locked (m_pid s) (psx_account u f) (m_tr s) = Some (let f' = ?f
      in if r_pending x \<noteq> 0 then f'\<lparr>f_some := f_some f + 1\<rparr> else if r_retval x \<noteq> f_ret f then f'\<lparr>f_mismatch := 1\<rparr> else f', tr')"
    and rd: "ready PSX_SYSCALL (s\<lparr>m_tr := tr'\<rparr>)" "t_state_mu tr' = 0" "t_cmd tr' = t_cmd (m_tr s)"
      "refs tr' = (refs (m_tr s))(u \<mapsto> ?x)" .
  have ret: "r_retval x = f_ret f" if p0: "r_pending x = 0"
  proof -
    obtain uh where "m_threads s u = Some uh" using tab(1) [OF x p0] by blast
    from callersD(2) [OF c u(1) this] x p0 show ?thesis by (simp add: mirrored_def)
  qed
  have f': "f' = (if r_pending x \<noteq> 0 then ?f\<lparr>f_some := f_some f + 1\<rparr> else ?f)" "tr = tr'"
    using assms(4) e ret by (auto simp: Let_def split: if_splits)
  note rd = rd [folded f'(2)]
  have ff: "f_ret f' = f_ret f" "f_sweep f' = f_sweep f" "f_listed f' = u # f_listed f" "f_verified f' = f_verified f"
    "f_mismatch f' = f_mismatch f" "f_incomplete f' = f_incomplete f + 1"
    "f_some f' = (if r_pending x \<noteq> 0 then f_some f + 1 else f_some f)" by (simp_all add: f'(1))
  let ?s = "set_call t (C_sweep f') (s\<lparr>m_tr := tr\<rparr>)"
  have c2: "callers t (\<lambda>pc. pc = sweep_pc f' None) k
       (\<lambda>u. mirrored (active (t_cmd tr) \<noteq> 0) (f_ret f') k0 k (refs tr u)) (m_threads ?s)"
  proof -
    have "mirrored (active (t_cmd tr) \<noteq> 0) (f_ret f') k0 k (refs tr v) vh"
      if "mirrored (active (t_cmd (m_tr s)) \<noteq> 0) (f_ret f) k0 k (refs (m_tr s) v) vh" for v vh
      using that x by (cases "v = u") (simp_all add: mirrored_def ff rd(3,4))
    then show ?thesis
      using callers_set_call [OF c, of "\<lambda>pc. pc = sweep_pc f' None" "C_sweep f'"
        "\<lambda>u. mirrored (active (t_cmd tr) \<noteq> 0) (f_ret f') k0 k (refs tr u)"] by simp
  qed
  have ths: "m_threads ?s = (m_threads s)(t := map_option (\<lambda>th. th\<lparr>th_call := C_sweep f'\<rparr>) (m_threads s t))" by simp
  have t2: "sweep_table f' None (m_threads ?s) (refs tr)"
    unfolding sweep_table_def ths engaged_at_simps rd(4) ff
  proof (intro conjI allI impI ballI)
    fix v y
    show "((m_threads s)(t := map_option (\<lambda>th. th\<lparr>th_call := C_sweep f'\<rparr>) (m_threads s t))) v \<noteq> None"
      if "((refs (m_tr s))(u \<mapsto> ?x)) v = Some y" "r_pending y = 0"
      using tab(1) x that by (auto split: if_splits)
    show "f_sweep f - 1 \<le> r_sweep y" if "engaged_at (m_threads s) v" "((refs (m_tr s))(u \<mapsto> ?x)) v = Some y" "None \<noteq> Some v"
      using tab(2) [of v y] that by (auto split: if_splits)
    show "r_sweep y = f_sweep f" if "v \<in> set (u # f_listed f)" "((refs (m_tr s))(u \<mapsto> ?x)) v = Some y"
      using tab(3) that by (auto split: if_splits)
    show "\<exists>y. ((refs (m_tr s))(u \<mapsto> ?x)) v = Some y \<and> r_pending y = 0"
      if "(if r_pending x \<noteq> 0 then f_some f + 1 else f_some f) = 0" "v \<in> set (u # f_listed f)"
      using tab(4) that f by (auto simp: sweep_frame_ok_def split: if_splits)
  qed simp
  have "sweep_frame_ok f' t None" using f u by (auto simp: sweep_frame_ok_def ff)
  moreover have "active (t_cmd (m_tr s)) \<noteq> 0" using used(1) x by auto
  moreover have "refs tr t = None" using used(2) u(1) by (simp add: rd(4))
  ultimately have "sweeping sys t k f' None ?s"
    unfolding sweeping_def using c2 t2 rd(1,3) r(2) by (intro exI [of _ k0]) (simp add: ready_def does_def ff)
  then show ?thesis by (intro acts_intro(4) live_ok_set_call [OF l rd(2)])
qed

text \<open>Closing the round: the handlers are let go, and the caller waits for the last of them.\<close>

lemma close_acts:
  assumes "acts_as sys k s" "m_threads s t = Some th" "th_call th = C_close f"
    "psx_locked (m_pid s) (psx_close f) (m_tr s) = Some (x, tr)"
  shows "acts_as sys k (set_call t (C_drain f) (s\<lparr>m_tr := tr\<rparr>))"
proof -
  have l: "live_ok s" using assms(1) by (simp add: acts_as_def)
  from acts_pc(6) [OF assms(1-3)] obtain f' where c: "callers t (\<lambda>pc. pc = C_close f') k (\<lambda>u th. waiting k th \<and> active (t_cmd (m_tr s)) \<noteq> 0) (m_threads s)"
    and r: "ready PSX_SYSCALL s" and f: "f_mismatch f' = 0" "f_incomplete f' = int (card (dom (m_threads s) - {t}))"
    by (auto simp: closing_def)
  have "f' = f" using callersD(1) [OF c] assms(2,3) by auto
  note c = c [unfolded this] and f = f [unfolded this]
  have tr: "tr = m_tr s\<lparr>t_incomplete := f_incomplete f, t_cmd := (t_cmd (m_tr s))\<lparr>active := 0\<rparr>\<rparr>"
    using assms(4) readyD(1) [OF r] live_okD(1,2) [OF l] psx_same_mu [of "m_tr s\<lparr>t_incomplete := f_incomplete f, t_cmd := (t_cmd (m_tr s))\<lparr>active := 0\<rparr>\<rparr>" 0]
    by (simp add: locked_own psx_close_def psx_unlock_def)
  have "waiters (m_threads (set_call t (C_drain f) (s\<lparr>m_tr := tr\<rparr>))) = dom (m_threads s) - {t}"
  proof (rule set_eqI)
    fix u
    have t: "th_hand th = H_none" using callersD(1) [OF c] assms(2) by (auto simp: resting_def)
    have "th_hand uh = H_wait" if "u \<noteq> t" "m_threads s u = Some uh" for uh
      using callersD(2) [OF c that] by (simp add: waiting_def)
    then show "u \<in> waiters (m_threads (set_call t (C_drain f) (s\<lparr>m_tr := tr\<rparr>))) \<longleftrightarrow> u \<in> dom (m_threads s) - {t}"
      using t assms(2) by (cases "u = t") (auto simp: waiters_def)
  qed
  moreover have "callers t (\<lambda>pc. pc = C_drain f) k (\<lambda>u th. waiting k th \<or> resting k th) (m_threads (set_call t (C_drain f) (s\<lparr>m_tr := tr\<rparr>)))"
    using callers_set_call [OF c, of "\<lambda>pc. pc = C_drain f" "C_drain f" "\<lambda>u th. waiting k th \<or> resting k th"] by simp
  ultimately have "draining t k (set_call t (C_drain f) (s\<lparr>m_tr := tr\<rparr>))"
    unfolding draining_def using r f by (intro exI [of _ f]) (simp add: ready_def tr)
  then show ?thesis using live_okD(2) [OF l] by (intro acts_intro(6) live_ok_set_call [OF l]) (simp_all add: tr)
qed

lemma finite_waiters: "finite (dom ths) \<Longrightarrow> finite (waiters ths)"
  by (rule finite_subset [of _ "dom ths"]) (auto simp: waiters_def)

lemma drained_acts:
  assumes "acts_as sys k s" "m_threads s t = Some th" "th_call th = C_drain f" "t_incomplete (m_tr s) = 0"
  shows "acts_as sys k (set_call t (C_finish f) s)"
proof -
  have l: "live_ok s" using assms(1) by (simp add: acts_as_def)
  from acts_pc(7) [OF assms(1-3)] obtain f' where c: "callers t (\<lambda>pc. pc = C_drain f') k (\<lambda>u th. waiting k th \<or> resting k th) (m_threads s)"
    and r: "ready PSX_SYSCALL s" "active (t_cmd (m_tr s)) = 0"
    and f: "f_mismatch f' = 0" "t_incomplete (m_tr s) = int (card (waiters (m_threads s)))"
    by (auto simp: draining_def)
  have "f' = f" using callersD(1) [OF c] assms(2,3) by auto
  note c = c [unfolded this] and f = f [unfolded this]
  have "waiters (m_threads s) = {}" using f(2) assms(4) finite_waiters [OF live_okD(3) [OF l]] by simp
  then have "resting k uh" if "waiting k uh \<or> resting k uh" "m_threads s u = Some uh" for u uh
    using that by (auto simp: waiters_def waiting_def)
  then have "callers t (\<lambda>pc. pc = C_finish f) k (\<lambda>u. resting k) (m_threads (set_call t (C_finish f) s))"
    using callers_set_call [OF c, of "\<lambda>pc. pc = C_finish f" "C_finish f" "\<lambda>u. resting k"] by auto
  then have "finishing t k (set_call t (C_finish f) s)"
    unfolding finishing_def using r f(1) by (intro exI [of _ f]) (simp add: ready_def)
  then show ?thesis by (intro acts_intro(7) live_ok_call l)
qed

section \<open>Steps of the handlers\<close>

text \<open>Signals and running handlers exist only while the sweep is on.\<close>

lemma acts_handler:
  assumes "acts_as sys k s" "m_threads s t = Some th" "th_sig th \<or> th_hand th = H_call \<or> (\<exists>r. th_hand th = H_report r)"
  obtains c f ent where "sweeping sys c k f ent s"
  using assms(1)
proof (cases rule: acts_cases)
  case 1
  with assms(2,3) show ?thesis by (auto simp: quiet_def resting_def)
next
  case (2 c)
  then have "callers c (\<lambda>pc. (\<exists>nr args. pc = C_setup nr args) \<or> pc = C_failed (- 1)) k (\<lambda>u. resting k) (m_threads s)"
    by (simp add: calling_def)
  from callers_other(2) [OF this assms(2)] assms(3) show ?thesis by (auto simp: resting_def)
next
  case (3 c)
  then obtain k0 ret where "callers c (\<lambda>pc. pc = C_go ret) k (\<lambda>u. resting k0) (m_threads s)" by (auto simp: going_def)
  from callers_other(2) [OF this assms(2)] assms(3) show ?thesis by (auto simp: resting_def)
next
  case (4 c f ent)
  then show ?thesis by (rule that)
next
  case (5 c)
  then obtain f where "callers c (\<lambda>pc. pc = C_close f) k (\<lambda>u th. waiting k th \<and> active (t_cmd (m_tr s)) \<noteq> 0) (m_threads s)"
    by (auto simp: closing_def)
  from callers_other(2) [OF this assms(2)] assms(3) show ?thesis by (auto simp: waiting_def)
next
  case (6 c)
  then obtain f where "callers c (\<lambda>pc. pc = C_drain f) k (\<lambda>u th. waiting k th \<or> resting k th) (m_threads s)"
    by (auto simp: draining_def)
  from callers_other(2) [OF this assms(2)] assms(3) show ?thesis by (auto simp: waiting_def resting_def)
next
  case (7 c)
  then obtain f where "callers c (\<lambda>pc. pc = C_finish f) k (\<lambda>u. resting k) (m_threads s)" by (auto simp: finishing_def)
  from callers_other(2) [OF this assms(2)] assms(3) show ?thesis by (auto simp: resting_def)
qed

text \<open>A step of one handler: the thread and its own entry change.\<close>

lemma sweeping_thread:
  assumes "sweeping sys c k f ent s" "live_ok s" "m_threads s t = Some th" "t \<noteq> c" "outside (th_call th') \<and> (engaged th' \<longrightarrow> engaged th)"
    "ready PSX_SYSCALL (s\<lparr>m_tr := tr\<rparr>)" "t_cmd tr = t_cmd (m_tr s)" "t_state_mu tr = 0"
    "\<And>k0. does sys s (f_ret f) k0 k \<Longrightarrow> mirrored (active (t_cmd (m_tr s)) \<noteq> 0) (f_ret f) k0 k (refs (m_tr s) t) th \<Longrightarrow>
       mirrored (active (t_cmd (m_tr s)) \<noteq> 0) (f_ret f) k0 k (refs tr t) th'"
    "refs tr = refs (m_tr s) \<or> (\<exists>x y. refs (m_tr s) t = Some x \<and> refs tr = (refs (m_tr s))(t \<mapsto> y) \<and> r_sweep y = r_sweep x \<and> r_pending y = 0)"
  shows "acts_as sys k (set_thread t th' (s\<lparr>m_tr := tr\<rparr>))"
proof -
  let ?s = "set_thread t th' (s\<lparr>m_tr := tr\<rparr>)"
  from assms(1) obtain k0 where c: "callers c (\<lambda>pc. pc = sweep_pc f ent) k
       (\<lambda>u. mirrored (active (t_cmd (m_tr s)) \<noteq> 0) (f_ret f) k0 k (refs (m_tr s) u)) (m_threads s)"
    and r: "ready PSX_SYSCALL s" "does sys s (f_ret f) k0 k" and f: "sweep_frame_ok f c ent"
    and tab: "sweep_table f ent (m_threads s) (refs (m_tr s))"
    and used: "\<forall>u. refs (m_tr s) u \<noteq> None \<longrightarrow> active (t_cmd (m_tr s)) \<noteq> 0" "refs (m_tr s) c = None"
    by (rule sweepingE)
  note th = callersD(2) [OF c assms(4,3)]
  have same: "refs tr u = refs (m_tr s) u" if "u \<noteq> t" for u using assms(10) that by auto
  have t: "(\<exists>x. refs tr t = Some x \<and> refs (m_tr s) t = Some x) \<or> (refs tr t = None \<and> refs (m_tr s) t = None)
      \<or> (\<exists>x y. refs (m_tr s) t = Some x \<and> refs tr t = Some y \<and> r_sweep y = r_sweep x \<and> r_pending y = 0)"
    using assms(10) by (cases "refs (m_tr s) t") auto
  have c2: "callers c (\<lambda>pc. pc = sweep_pc f ent) k (\<lambda>u. mirrored (active (t_cmd tr) \<noteq> 0) (f_ret f) k0 k (refs tr u)) (m_threads ?s)"
    unfolding set_call_simps
  proof (rule callers_set_thread [OF _ assms(4) conjunct1 [OF assms(5)]])
    show "callers c (\<lambda>pc. pc = sweep_pc f ent) k
       (\<lambda>u. mirrored (active (t_cmd (m_tr s)) \<noteq> 0) (f_ret f) k0 k (refs (m_tr s) u)) (m_threads (s\<lparr>m_tr := tr\<rparr>))" using c by simp
    show "mirrored (active (t_cmd tr) \<noteq> 0) (f_ret f) k0 k (refs tr t) th'" using assms(7,9) th r(2) by simp
  qed (simp add: assms(7) same)
  have d: "m_threads ?s v \<noteq> None \<longleftrightarrow> m_threads s v \<noteq> None" for v using assms(3) by simp
  have en: "engaged_at (m_threads ?s) v \<Longrightarrow> engaged_at (m_threads s) v" for v
    using assms(3,5) by (auto simp: engaged_at_def split: if_splits)
  have "sweep_table f ent (m_threads ?s) (refs tr)"
    unfolding sweep_table_def d
  proof (intro conjI allI impI ballI)
    fix v y
    show "m_threads s v \<noteq> None" if "refs tr v = Some y" "r_pending y = 0"
      using sweep_tableD(1) [OF tab, of v y] same [of v] assms(3) that by (cases "v = t") auto
    show "f_sweep f - 1 \<le> r_sweep y" if "engaged_at (m_threads ?s) v" "refs tr v = Some y" "ent \<noteq> Some v"
      using sweep_tableD(2) [OF tab en [OF that(1)] _ that(3)] same [of v] t that(2) by (cases "v = t") auto
    show "r_sweep y = f_sweep f" if "v \<in> set (f_listed f)" "refs tr v = Some y"
      using sweep_tableD(3) [OF tab that(1)] same [of v] t that(2) by (cases "v = t") auto
  next
    fix v
    show "\<exists>y. refs tr v = Some y \<and> r_pending y = 0" if "f_some f = 0" "v \<in> set (f_listed f)"
      using sweep_tableD(4) [OF tab that] same [of v] t by (cases "v = t") auto
    show "refs tr v \<noteq> None" if "ent = Some v"
      using sweep_tableD(5) [OF tab that] same [of v] t by (cases "v = t") auto
  qed
  moreover have "\<forall>u. refs tr u \<noteq> None \<longrightarrow> active (t_cmd tr) \<noteq> 0" "refs tr c = None"
    using used same assms(4,7) t by (metis option.distinct(1))+
  ultimately have "sweeping sys c k f ent ?s"
    unfolding sweeping_def using c2 assms(6,7) r(2) f by (intro exI [of _ k0]) (simp add: ready_def does_def)
  then show ?thesis by (intro acts_intro(4) live_ok_set_thread(2) [OF assms(2,3,8)])
qed

lemma sweeping_other:
  assumes "sweeping sys c k f ent s" "m_threads s t = Some th" "th_sig th \<or> th_hand th \<noteq> H_none"
  shows "t \<noteq> c" "outside (th_call th)" "ready PSX_SYSCALL s"
    "\<exists>k0 x. does sys s (f_ret f) k0 k \<and> refs (m_tr s) t = Some x \<and> mirrored (active (t_cmd (m_tr s)) \<noteq> 0) (f_ret f) k0 k (Some x) th"
proof -
  from assms(1) obtain k0 where c: "callers c (\<lambda>pc. pc = sweep_pc f ent) k
       (\<lambda>u. mirrored (active (t_cmd (m_tr s)) \<noteq> 0) (f_ret f) k0 k (refs (m_tr s) u)) (m_threads s)"
    and r: "ready PSX_SYSCALL s" "does sys s (f_ret f) k0 k" by (rule sweepingE)
  have a: "th_hand th \<noteq> H_none \<or> th_sig th" using assms(3) by blast
  note o = callers_other [OF c assms(2) a]
  show "t \<noteq> c" "outside (th_call th)" "ready PSX_SYSCALL s" by (fact o(1) o(3) r(1))+
  show "\<exists>k0 x. does sys s (f_ret f) k0 k \<and> refs (m_tr s) t = Some x \<and> mirrored (active (t_cmd (m_tr s)) \<noteq> 0) (f_ret f) k0 k (Some x) th"
    using o(2) a r(2) by (cases "refs (m_tr s) t") (auto simp: mirrored_def resting_def)
qed

lemma deliver_acts:
  assumes "acts_as sys k s" "m_threads s t = Some th" "th_sig th" "th_hand th = H_none"
    "psx_locked (m_pid s) (\<lambda>tr. Some (psx_actor_accepts (t_psx_sig tr) (Some (SI_TKILL, m_pid s)) tr, tr)) (m_tr s) = Some (b, tr)"
  shows "acts_as sys k (set_thread t (th\<lparr>th_sig := False, th_hand := (if b then H_call else H_none)\<rparr>) (s\<lparr>m_tr := tr\<rparr>))"
proof -
  have l: "live_ok s" using assms(1) by (simp add: acts_as_def)
  obtain c f ent where sw: "sweeping sys c k f ent s" using acts_handler [OF assms(1,2)] assms(3) by blast
  have a: "th_sig th \<or> th_hand th \<noteq> H_none" using assms(3) by blast
  note o = sweeping_other [OF sw assms(2) a]
  from o(4) have act: "active (t_cmd (m_tr s)) \<noteq> 0" by (auto simp: mirrored_def)
  have tr: "tr = m_tr s" "b"
    using assms(5) readyD(1) [OF o(3)] live_okD(1,2) [OF l] act psx_same_mu [of "m_tr s" 0]
    by (auto simp: locked_own psx_unlock_def psx_actor_accepts_def)
  show ?thesis
    by (rule sweeping_thread [OF sw l assms(2) o(1)])
      (use o assms(3,4) tr live_okD(2) [OF l] in \<open>auto simp: ready_def mirrored_def waiting_def resting_def engaged_def split: option.splits if_splits\<close>)
qed

lemma handle_acts:
  assumes "acts_as sys k s" "m_threads s t = Some th" "th_hand th = H_call"
    "sys (syscall_nr (t_cmd (m_tr s))) (psx_cmd_args (t_cmd (m_tr s))) (th_cred th) = (r, k')"
  shows "acts_as sys k (set_thread t (th\<lparr>th_cred := k', th_hand := H_report r\<rparr>) s)"
proof -
  have l: "live_ok s" using assms(1) by (simp add: acts_as_def)
  obtain c f ent where sw: "sweeping sys c k f ent s" using acts_handler [OF assms(1,2)] assms(3) by blast
  have a: "th_sig th \<or> th_hand th \<noteq> H_none" using assms(3) by simp
  note o = sweeping_other [OF sw assms(2) a]
  have "acts_as sys k (set_thread t (th\<lparr>th_cred := k', th_hand := H_report r\<rparr>) (s\<lparr>m_tr := m_tr s\<rparr>))"
    by (rule sweeping_thread [OF sw l assms(2) o(1)])
      (use o assms(3,4) live_okD(2) [OF l] in \<open>auto simp: ready_def mirrored_def does_def waiting_def resting_def engaged_def split: option.splits if_splits\<close>)
  then show ?thesis by simp
qed

lemma report_acts:
  assumes "acts_as sys k s" "m_threads s t = Some th" "th_hand th = H_report r"
    "psx_locked (m_pid s) (\<lambda>tr. Some ((), psx_report t r tr)) (m_tr s) = Some (x, tr)"
  shows "acts_as sys k (set_thread t (th\<lparr>th_hand := H_wait\<rparr>) (s\<lparr>m_tr := tr\<rparr>))"
proof -
  have l: "live_ok s" using assms(1) by (simp add: acts_as_def)
  obtain c f ent where sw: "sweeping sys c k f ent s" using acts_handler [OF assms(1,2)] assms(3) by blast
  have a: "th_sig th \<or> th_hand th \<noteq> H_none" using assms(3) by simp
  note o = sweeping_other [OF sw assms(2) a]
  from o(4) obtain y where y: "refs (m_tr s) t = Some y" by blast
  from locked_report [OF l o(3) y, of r] obtain tr' where e: "psx_locked (m_pid s) (\<lambda>tr. Some ((), psx_report t r tr)) (m_tr s) = Some ((), tr')"
    and rd: "ready PSX_SYSCALL (s\<lparr>m_tr := tr'\<rparr>)" "t_state_mu tr' = 0" "t_cmd tr' = t_cmd (m_tr s)"
      "refs tr' = (refs (m_tr s))(t \<mapsto> y\<lparr>r_retval := r, r_pending := 0\<rparr>)" .
  have "tr = tr'" using e assms(4) by simp
  note rd = rd [folded this]
  show ?thesis
  proof (rule sweeping_thread [OF sw l assms(2) o(1) _ rd(1,3,2)])
    show "outside (th_call (th\<lparr>th_hand := H_wait\<rparr>)) \<and> (engaged (th\<lparr>th_hand := H_wait\<rparr>) \<longrightarrow> engaged th)"
      using o(2) assms(3) by (simp add: engaged_def)
    show "refs tr = refs (m_tr s) \<or> (\<exists>x y. refs (m_tr s) t = Some x \<and> refs tr = (refs (m_tr s))(t \<mapsto> y) \<and> r_sweep y = r_sweep x \<and> r_pending y = 0)"
      using y rd(4) by (intro disjI2 exI [of _ y] exI [of _ "y\<lparr>r_retval := r, r_pending := 0\<rparr>"]) simp
    show "mirrored (active (t_cmd (m_tr s)) \<noteq> 0) (f_ret f) k0 k (refs tr t) (th\<lparr>th_hand := H_wait\<rparr>)"
      if "mirrored (active (t_cmd (m_tr s)) \<noteq> 0) (f_ret f) k0 k (refs (m_tr s) t) th" for k0
      using that y assms(3) by (auto simp: mirrored_def waiting_def resting_def rd(4) split: if_splits)
  qed
qed

lemma acts_waiting:
  assumes "acts_as sys k s" "m_threads s t = Some th" "th_hand th = H_wait" "active (t_cmd (m_tr s)) = 0"
  obtains c where "draining c k s"
  using assms(1)
proof (cases rule: acts_cases)
  case 1
  with assms(2,3) show ?thesis by (auto simp: quiet_def resting_def)
next
  case (2 c)
  then have "callers c (\<lambda>pc. (\<exists>nr args. pc = C_setup nr args) \<or> pc = C_failed (- 1)) k (\<lambda>u. resting k) (m_threads s)"
    by (simp add: calling_def)
  from callers_other(2) [OF this assms(2)] assms(3) show ?thesis by (auto simp: resting_def)
next
  case (3 c)
  then obtain k0 ret where "callers c (\<lambda>pc. pc = C_go ret) k (\<lambda>u. resting k0) (m_threads s)" by (auto simp: going_def)
  from callers_other(2) [OF this assms(2)] assms(3) show ?thesis by (auto simp: resting_def)
next
  case (4 c f ent)
  from sweeping_other(4) [OF 4 assms(2)] assms(3,4) show ?thesis by (auto simp: mirrored_def)
next
  case (5 c)
  then obtain f where "callers c (\<lambda>pc. pc = C_close f) k (\<lambda>u th. waiting k th \<and> active (t_cmd (m_tr s)) \<noteq> 0) (m_threads s)"
    by (auto simp: closing_def)
  from callers_other(2) [OF this assms(2)] assms(3,4) show ?thesis by auto
next
  case (6 c)
  then show ?thesis by (rule that)
next
  case (7 c)
  then obtain f where "callers c (\<lambda>pc. pc = C_finish f) k (\<lambda>u. resting k) (m_threads s)" by (auto simp: finishing_def)
  from callers_other(2) [OF this assms(2)] assms(3) show ?thesis by (auto simp: resting_def)
qed

lemma leave_acts:
  assumes "acts_as sys k s" "m_threads s t = Some th" "th_hand th = H_wait" "active (t_cmd (m_tr s)) = 0"
    "psx_locked (m_pid s) (\<lambda>tr. Some ((), tr\<lparr>t_incomplete := t_incomplete tr - 1\<rparr>)) (m_tr s) = Some (x, tr)"
  shows "acts_as sys k (set_thread t (th\<lparr>th_hand := H_none\<rparr>) (s\<lparr>m_tr := tr\<rparr>))"
proof -
  have l: "live_ok s" using assms(1) by (simp add: acts_as_def)
  obtain c where "draining c k s" by (rule acts_waiting [OF assms(1-4)])
  then obtain f where c: "callers c (\<lambda>pc. pc = C_drain f) k (\<lambda>u th. waiting k th \<or> resting k th) (m_threads s)"
    and r: "ready PSX_SYSCALL s" and f: "f_mismatch f = 0" "t_incomplete (m_tr s) = int (card (waiters (m_threads s)))"
    by (auto simp: draining_def)
  have a: "th_hand th \<noteq> H_none \<or> th_sig th" using assms(3) by simp
  note o = callers_other [OF c assms(2) a]
  have tr: "tr = m_tr s\<lparr>t_incomplete := t_incomplete (m_tr s) - 1\<rparr>"
    using assms(5) readyD(1) [OF r] live_okD(1,2) [OF l] psx_same_mu [of "m_tr s\<lparr>t_incomplete := t_incomplete (m_tr s) - 1\<rparr>" 0]
    by (simp add: locked_own psx_unlock_def)
  let ?s = "set_thread t (th\<lparr>th_hand := H_none\<rparr>) (s\<lparr>m_tr := tr\<rparr>)"
  have w: "waiters (m_threads ?s) = waiters (m_threads s) - {t}" "t \<in> waiters (m_threads s)"
    using assms(2,3) by (auto simp: waiters_def split: if_splits)
  have "card (waiters (m_threads s)) = Suc (card (waiters (m_threads ?s)))"
    unfolding w(1) using card_Suc_Diff1 [OF finite_waiters [OF live_okD(3) [OF l]] w(2)] by (rule sym)
  then have n: "t_incomplete tr = int (card (waiters (m_threads ?s)))" using f(2) by (simp add: tr)
  have "callers c (\<lambda>pc. pc = C_drain f) k (\<lambda>u th. waiting k th \<or> resting k th) (m_threads ?s)"
    using o assms(3) callers_set_thread [OF c o(1), of "th\<lparr>th_hand := H_none\<rparr>" "\<lambda>u th. waiting k th \<or> resting k th"]
    by (auto simp: waiting_def resting_def)
  then have "draining c k ?s"
    unfolding draining_def using r f(1) assms(4) n by (intro exI [of _ f]) (simp add: ready_def tr)
  moreover have "live_ok ?s" using live_okD(2) [OF l] by (intro live_ok_set_thread(2) [OF l assms(2)]) (simp add: tr)
  ultimately show ?thesis by (intro acts_intro(6))
qed

section \<open>Threads that come and go\<close>

text \<open>What a phase demands of the threads in user code is kept by a clone and by an exit.\<close>

lemma callers_user:
  assumes "callers c C k P ths" "ths t = Some th" "in_user th" "\<And>r. \<not> C (C_user r)"
  shows "t \<noteq> c" "P t th"
proof -
  show "t \<noteq> c" using assms callersD(1) [OF assms(1)] by (auto simp: in_user_def)
  from callersD(2) [OF assms(1) this assms(2)] show "P t th" by blast
qed

definition newborn :: "'k \<Rightarrow> 'k psx_thread" where
  "newborn k = \<lparr>th_cred = k, th_sig = False, th_hand = H_none, th_call = C_user None\<rparr>"

lemma newborn_simps [simp]: "resting k (newborn k')  = (k' = k)" "th_call (newborn k') = C_user None" "\<not> waiting k (newborn k')"
  "th_hand (newborn k') = H_none"
  by (auto simp: newborn_def resting_def waiting_def)

lemma callers_clone:
  assumes "callers c C k P ths" "n \<noteq> c" "P n (newborn k')"
  shows "callers c C k P (ths(n \<mapsto> newborn k'))"
  using callers_set_thread [of c C k P ths n "newborn k'" P] assms by auto

lemma live_ok_clone:
  assumes "live_ok s" "tid_ok n"
  shows "live_ok (set_thread n th s)"
  using assms by (auto simp: live_ok_def)

lemma waiters_clone: "ths n = None \<Longrightarrow> waiters (ths(n \<mapsto> newborn k)) = waiters ths"
  by (auto simp: waiters_def)

lemma sweep_table_clone:
  assumes "sweep_table f ent ths rf" "\<not> engaged th"
  shows "sweep_table f ent (ths(n \<mapsto> th)) rf"
  using assms unfolding sweep_table_def engaged_at_def by auto

lemma sweep_table_exit:
  assumes "sweep_table f ent ths rf" "\<And>x. rf t = Some x \<Longrightarrow> r_pending x \<noteq> 0"
  shows "sweep_table f ent (ths(t := None)) rf"
  using assms unfolding sweep_table_def engaged_at_def by auto

lemma mirrored_user:
  assumes "mirrored act ret k0 k1 r th" "in_user th"
  shows "th_cred th = k0" "r = Some x \<Longrightarrow> r_pending x \<noteq> 0"
  using assms by (auto simp: mirrored_def in_user_def resting_def waiting_def split: option.splits if_splits)

lemma clone_acts:
  assumes "acts_as sys k s" "m_threads s t = Some th" "in_user th" "tid_ok n" "m_threads s n = None"
  shows "acts_as sys k (set_thread n (newborn (th_cred th)) s)" (is "acts_as sys k ?s")
proof -
  have l: "live_ok s" using assms(1) by (simp add: acts_as_def)
  have lv: "live_ok ?s" by (rule live_ok_clone [OF l assms(4)])
  note fresh = assms(5)
  have rd: "ready st s \<Longrightarrow> ready st ?s" for st by (simp add: ready_def)
  have ne: "n \<noteq> c" if "callers c C k P (m_threads s)" for c C P using callersD(1) [OF that] fresh by auto
  show ?thesis using assms(1)
  proof (cases rule: acts_cases)
    case 1
    then have "quiet k ?s" using assms(2) rd by (auto simp: quiet_def resting_def newborn_def)
    then show ?thesis by (rule acts_intro(1) [OF lv])
  next
    case (2 c)
    then have c: "callers c (\<lambda>pc. (\<exists>nr args. pc = C_setup nr args) \<or> pc = C_failed (- 1)) k (\<lambda>u. resting k) (m_threads s)" by (simp add: calling_def)
    from callers_user(2) [OF c assms(2,3)] have "th_cred th = k" by (simp add: resting_def)
    with callers_clone [OF c ne [OF c]] 2 rd have "calling c k ?s" by (simp add: calling_def)
    then show ?thesis by (rule acts_intro(2) [OF lv])
  next
    case (3 c)
    then obtain k0 ret where c: "callers c (\<lambda>pc. pc = C_go ret) k (\<lambda>u. resting k0) (m_threads s)"
      and r: "ready PSX_SETUP s" "active (t_cmd (m_tr s)) = 0" "does sys s ret k0 k" by (auto simp: going_def)
    from callers_user(2) [OF c assms(2,3)] have "th_cred th = k0" by (simp add: resting_def)
    with callers_clone [OF c ne [OF c], of k0] r rd have "going sys c k ?s"
      unfolding going_def by (intro exI [of _ k0] exI [of _ ret]) (simp add: does_def)
    then show ?thesis by (rule acts_intro(3) [OF lv])
  next
    case (4 c f ent)
    from 4 obtain k0 where c: "callers c (\<lambda>pc. pc = sweep_pc f ent) k
       (\<lambda>u. mirrored (active (t_cmd (m_tr s)) \<noteq> 0) (f_ret f) k0 k (refs (m_tr s) u)) (m_threads s)"
      and r: "ready PSX_SYSCALL s" "does sys s (f_ret f) k0 k" and f: "sweep_frame_ok f c ent"
      and tab: "sweep_table f ent (m_threads s) (refs (m_tr s))"
      and used: "\<forall>u. refs (m_tr s) u \<noteq> None \<longrightarrow> active (t_cmd (m_tr s)) \<noteq> 0" "refs (m_tr s) c = None"
      by (rule sweepingE)
    from callers_user(2) [OF c assms(2,3)] have k0: "th_cred th = k0" using mirrored_user(1) [OF _ assms(3)] by auto
    have n: "mirrored (active (t_cmd (m_tr s)) \<noteq> 0) (f_ret f) k0 k (refs (m_tr s) n) (newborn k0)"
      using used(1) sweep_tableD(1) [OF tab, of n] fresh by (auto simp: mirrored_def split: option.split)
    have "callers c (\<lambda>pc. pc = sweep_pc f ent) k
       (\<lambda>u. mirrored (active (t_cmd (m_tr s)) \<noteq> 0) (f_ret f) k0 k (refs (m_tr s) u)) (m_threads ?s)"
      using callers_clone [OF c ne [OF c], of "th_cred th"] n k0 by simp
    moreover have "sweep_table f ent (m_threads ?s) (refs (m_tr s))"
      using sweep_table_clone [OF tab, of "newborn (th_cred th)" n] by (simp add: engaged_def newborn_def)
    ultimately have "sweeping sys c k f ent ?s"
      unfolding sweeping_def using r rd f used by (intro exI [of _ k0]) (simp add: does_def)
    then show ?thesis by (rule acts_intro(4) [OF lv])
  next
    case (5 c)
    then obtain f where c: "callers c (\<lambda>pc. pc = C_close f) k (\<lambda>u th. waiting k th \<and> active (t_cmd (m_tr s)) \<noteq> 0) (m_threads s)"
      by (auto simp: closing_def)
    from callers_user(2) [OF c assms(2,3)] assms(3) show ?thesis by (simp add: waiting_def in_user_def)
  next
    case (6 c)
    then obtain f where c: "callers c (\<lambda>pc. pc = C_drain f) k (\<lambda>u th. waiting k th \<or> resting k th) (m_threads s)"
      and r: "ready PSX_SYSCALL s" "active (t_cmd (m_tr s)) = 0" and f: "f_mismatch f = 0" "t_incomplete (m_tr s) = int (card (waiters (m_threads s)))"
      by (auto simp: draining_def)
    from callers_user(2) [OF c assms(2,3)] have "th_cred th = k" by (auto simp: resting_def waiting_def)
    with callers_clone [OF c ne [OF c], of k] r rd f have "draining c k ?s"
      unfolding draining_def by (intro exI [of _ f]) (simp add: waiters_clone fresh)
    then show ?thesis by (rule acts_intro(6) [OF lv])
  next
    case (7 c)
    then obtain f where c: "callers c (\<lambda>pc. pc = C_finish f) k (\<lambda>u. resting k) (m_threads s)"
      and r: "ready PSX_SYSCALL s" "active (t_cmd (m_tr s)) = 0" "f_mismatch f = 0" by (auto simp: finishing_def)
    from callers_user(2) [OF c assms(2,3)] have "th_cred th = k" by (auto simp: resting_def)
    with callers_clone [OF c ne [OF c], of k] r rd have "finishing c k ?s"
      unfolding finishing_def by (intro exI [of _ f]) simp
    then show ?thesis by (rule acts_intro(7) [OF lv])
  qed
qed

lemma live_ok_exit: "live_ok s \<Longrightarrow> live_ok (s\<lparr>m_threads := (m_threads s)(t := None)\<rparr>)"
  by (auto simp: live_ok_def)

lemma exit_acts:
  assumes "acts_as sys k s" "m_threads s t = Some th" "in_user th"
  shows "acts_as sys k (s\<lparr>m_threads := (m_threads s)(t := None)\<rparr>)" (is "acts_as sys k ?s")
proof -
  have l: "live_ok s" using assms(1) by (simp add: acts_as_def)
  have lv: "live_ok ?s" by (rule live_ok_exit [OF l])
  have rd: "ready st s \<Longrightarrow> ready st ?s" for st by (simp add: ready_def)
  show ?thesis using assms(1)
  proof (cases rule: acts_cases)
    case 1
    then have "quiet k ?s" using rd by (auto simp: quiet_def)
    then show ?thesis by (rule acts_intro(1) [OF lv])
  next
    case (2 c)
    then have c: "callers c (\<lambda>pc. (\<exists>nr args. pc = C_setup nr args) \<or> pc = C_failed (- 1)) k (\<lambda>u. resting k) (m_threads s)" by (simp add: calling_def)
    from callers_del [OF c callers_user(1) [OF c assms(2,3)]] 2 rd have "calling c k ?s" by (simp add: calling_def)
    then show ?thesis by (rule acts_intro(2) [OF lv])
  next
    case (3 c)
    then obtain k0 ret where c: "callers c (\<lambda>pc. pc = C_go ret) k (\<lambda>u. resting k0) (m_threads s)"
      and r: "ready PSX_SETUP s" "active (t_cmd (m_tr s)) = 0" "does sys s ret k0 k" by (auto simp: going_def)
    from callers_del [OF c callers_user(1) [OF c assms(2,3)]] r rd have "going sys c k ?s"
      unfolding going_def by (intro exI [of _ k0] exI [of _ ret]) (simp add: does_def)
    then show ?thesis by (rule acts_intro(3) [OF lv])
  next
    case (4 c f ent)
    from 4 obtain k0 where c: "callers c (\<lambda>pc. pc = sweep_pc f ent) k
       (\<lambda>u. mirrored (active (t_cmd (m_tr s)) \<noteq> 0) (f_ret f) k0 k (refs (m_tr s) u)) (m_threads s)"
      and r: "ready PSX_SYSCALL s" "does sys s (f_ret f) k0 k" and f: "sweep_frame_ok f c ent"
      and tab: "sweep_table f ent (m_threads s) (refs (m_tr s))"
      and used: "\<forall>u. refs (m_tr s) u \<noteq> None \<longrightarrow> active (t_cmd (m_tr s)) \<noteq> 0" "refs (m_tr s) c = None"
      by (rule sweepingE)
    have u: "t \<noteq> c" "mirrored (active (t_cmd (m_tr s)) \<noteq> 0) (f_ret f) k0 k (refs (m_tr s) t) th"
      using callers_user [OF c assms(2,3)] by auto
    have "sweep_table f ent (m_threads ?s) (refs (m_tr s))"
      using sweep_table_exit [OF tab, of t] mirrored_user(2) [OF u(2) assms(3)] by simp
    with callers_del [OF c u(1)] r rd f used have "sweeping sys c k f ent ?s"
      unfolding sweeping_def by (intro exI [of _ k0]) (simp add: does_def)
    then show ?thesis by (rule acts_intro(4) [OF lv])
  next
    case (5 c)
    then obtain f where c: "callers c (\<lambda>pc. pc = C_close f) k (\<lambda>u th. waiting k th \<and> active (t_cmd (m_tr s)) \<noteq> 0) (m_threads s)"
      by (auto simp: closing_def)
    from callers_user(2) [OF c assms(2,3)] assms(3) show ?thesis by (simp add: waiting_def in_user_def)
  next
    case (6 c)
    then obtain f where c: "callers c (\<lambda>pc. pc = C_drain f) k (\<lambda>u th. waiting k th \<or> resting k th) (m_threads s)"
      and r: "ready PSX_SYSCALL s" "active (t_cmd (m_tr s)) = 0" and f: "f_mismatch f = 0" "t_incomplete (m_tr s) = int (card (waiters (m_threads s)))"
      by (auto simp: draining_def)
    have "waiters ((m_threads s)(t := None)) = waiters (m_threads s)" using assms(2,3) by (auto simp: waiters_def in_user_def)
    with callers_del [OF c callers_user(1) [OF c assms(2,3)]] r rd f have "draining c k ?s"
      unfolding draining_def by (intro exI [of _ f]) simp
    then show ?thesis by (rule acts_intro(6) [OF lv])
  next
    case (7 c)
    then obtain f where c: "callers c (\<lambda>pc. pc = C_finish f) k (\<lambda>u. resting k) (m_threads s)"
      and r: "ready PSX_SYSCALL s" "active (t_cmd (m_tr s)) = 0" "f_mismatch f = 0" by (auto simp: finishing_def)
    from callers_del [OF c callers_user(1) [OF c assms(2,3)]] r rd have "finishing c k ?s"
      unfolding finishing_def by (intro exI [of _ f]) simp
    then show ?thesis by (rule acts_intro(7) [OF lv])
  qed
qed

text \<open>A thread that begins to wait for its turn stays what it was for the call that is on.\<close>

lemma set_call_thread: "m_threads s t = Some th \<Longrightarrow> set_call t pc s = set_thread t (th\<lparr>th_call := pc\<rparr>) s"
  by (simp add: set_call_def set_thread_def)

lemma th_call_only [simp]:
  "resting k (th\<lparr>th_call := pc\<rparr>) = resting k th" "waiting k (th\<lparr>th_call := pc\<rparr>) = waiting k th"
  "engaged (th\<lparr>th_call := pc\<rparr>) = engaged th" "mirrored act ret k0 k1 x (th\<lparr>th_call := pc\<rparr>) = mirrored act ret k0 k1 x th"
  by (simp_all add: resting_def waiting_def engaged_def mirrored_def split: option.split)

lemma callers_enter:
  assumes "callers c C k P ths" "t \<noteq> c" "ths t = Some th" "outside pc" "P t (th\<lparr>th_call := pc\<rparr>) = P t th"
  shows "callers c C k P (ths(t \<mapsto> th\<lparr>th_call := pc\<rparr>))"
  using callers_set_thread [OF assms(1,2), of "th\<lparr>th_call := pc\<rparr>" P] callersD(2) [OF assms(1,2,3)] assms(4,5) by simp

lemma enter_acts:
  assumes "acts_as sys k s" "m_threads s t = Some th" "in_user th" "outside pc"
  shows "acts_as sys k (set_call t pc s)"
  unfolding set_call_thread [OF assms(2)]
proof -
  have l: "live_ok s" using assms(1) by (simp add: acts_as_def)
  let ?th = "th\<lparr>th_call := pc\<rparr>" and ?s = "set_thread t (th\<lparr>th_call := pc\<rparr>) s"
  have lv: "live_ok ?s" using live_ok_set_thread(3) [OF l assms(2), of "m_tr s"] live_okD(2) [OF l] by simp
  have rd: "ready st s \<Longrightarrow> ready st ?s" for st by (simp add: ready_def)
  show "acts_as sys k ?s" using assms(1)
  proof (cases rule: acts_cases)
    case 1
    then have "quiet k ?s" using assms(2,4) rd by (auto simp: quiet_def)
    then show ?thesis by (rule acts_intro(1) [OF lv])
  next
    case (2 c)
    then have c: "callers c (\<lambda>pc. (\<exists>nr args. pc = C_setup nr args) \<or> pc = C_failed (- 1)) k (\<lambda>u. resting k) (m_threads s)" by (simp add: calling_def)
    from callers_enter [OF c callers_user(1) [OF c assms(2,3)] assms(2,4)] 2 rd have "calling c k ?s" by (simp add: calling_def)
    then show ?thesis by (rule acts_intro(2) [OF lv])
  next
    case (3 c)
    then obtain k0 ret where c: "callers c (\<lambda>pc. pc = C_go ret) k (\<lambda>u. resting k0) (m_threads s)"
      and r: "ready PSX_SETUP s" "active (t_cmd (m_tr s)) = 0" "does sys s ret k0 k" by (auto simp: going_def)
    from callers_enter [OF c callers_user(1) [OF c assms(2,3)] assms(2,4)] r rd have "going sys c k ?s"
      unfolding going_def by (intro exI [of _ k0] exI [of _ ret]) (simp add: does_def)
    then show ?thesis by (rule acts_intro(3) [OF lv])
  next
    case (4 c f ent)
    from 4 obtain k0 where c: "callers c (\<lambda>pc. pc = sweep_pc f ent) k
       (\<lambda>u. mirrored (active (t_cmd (m_tr s)) \<noteq> 0) (f_ret f) k0 k (refs (m_tr s) u)) (m_threads s)"
      and r: "ready PSX_SYSCALL s" by (rule sweepingE)
    have "t \<noteq> c" using callers_user(1) [OF c assms(2,3)] by auto
    then have "acts_as sys k (set_thread t ?th (s\<lparr>m_tr := m_tr s\<rparr>))"
      using r live_okD(2) [OF l] assms(4) by (intro sweeping_thread [OF 4 l assms(2)]) (simp_all add: ready_def)
    then show ?thesis by simp
  next
    case (5 c)
    then obtain f where c: "callers c (\<lambda>pc. pc = C_close f) k (\<lambda>u th. waiting k th \<and> active (t_cmd (m_tr s)) \<noteq> 0) (m_threads s)"
      by (auto simp: closing_def)
    from callers_user(2) [OF c assms(2,3)] assms(3) show ?thesis by (simp add: waiting_def in_user_def)
  next
    case (6 c)
    then obtain f where c: "callers c (\<lambda>pc. pc = C_drain f) k (\<lambda>u th. waiting k th \<or> resting k th) (m_threads s)"
      and r: "ready PSX_SYSCALL s" "active (t_cmd (m_tr s)) = 0" and f: "f_mismatch f = 0" "t_incomplete (m_tr s) = int (card (waiters (m_threads s)))"
      by (auto simp: draining_def)
    have "waiters (m_threads ?s) = waiters (m_threads s)" using assms(2) by (auto simp: waiters_def split: if_splits)
    with callers_enter [OF c callers_user(1) [OF c assms(2,3)] assms(2,4)] r rd f have "draining c k ?s"
      unfolding draining_def by (intro exI [of _ f]) simp
    then show ?thesis by (rule acts_intro(6) [OF lv])
  next
    case (7 c)
    then obtain f where c: "callers c (\<lambda>pc. pc = C_finish f) k (\<lambda>u. resting k) (m_threads s)"
      and r: "ready PSX_SYSCALL s" "active (t_cmd (m_tr s)) = 0" "f_mismatch f = 0" by (auto simp: finishing_def)
    from callers_enter [OF c callers_user(1) [OF c assms(2,3)] assms(2,4)] r rd have "finishing c k ?s"
      unfolding finishing_def by (intro exI [of _ f]) simp
    then show ?thesis by (rule acts_intro(7) [OF lv])
  qed
qed

end
