(* ===== verification/Psx_Spec.thy ===== *)
theory Psx_Spec
  imports Psx_Inv
begin

text \<open>
  What the psx mechanism promises: the threads of a process refine one thread with one credential,
  and a call can be completed in every state that has no thread of a reused id in the table.
\<close>

section \<open>The task directory\<close>

text \<open>
  What the mechanism relies on when it reads \<^verbatim>\<open>/proc/<pid>/task\<close>: a walk does not end before it has
  listed every thread that lives then, and it can end once it has.
\<close>

locale task_walk =
  fixes walk :: "s64 set \<Rightarrow> s64 set \<Rightarrow> bool"
  assumes misses_none: "walk live listed \<Longrightarrow> live \<subseteq> listed"

locale task_walk_ends = task_walk +
  assumes comes_to_end: "live \<subseteq> listed \<Longrightarrow> walk live listed"

interpretation whole_walk: task_walk_ends "(\<subseteq>)"
  by unfold_locales

section \<open>The simulation\<close>

lemma process_exit_quiet:
  assumes "acts_as sys k s" "psx_cleanup (m_pid s) (m_tr s) = Some tr"
  shows "quiet k (s\<lparr>m_tr := tr\<rparr>)" "acts_as sys k (s\<lparr>m_tr := tr\<rparr>)"
proof -
  have l: "live_ok s" using assms(1) by (simp add: acts_as_def)
  have q: "quiet k s"
  proof (rule ccontr)
    assume "\<not> quiet k s"
    then obtain c where "calling c k s \<or> going sys c k s \<or> (\<exists>f ent. sweeping sys c k f ent s) \<or> closing c k s \<or> draining c k s \<or> finishing c k s"
      using assms(1) unfolding acts_as_def by blast
    then have "ready PSX_SETUP s \<or> ready PSX_SYSCALL s" by (rule in_call_state)
    with assms(2) show False
      using live_okD(1,2) [OF l] by (auto simp: psx_cleanup_def lock_own ready_def)
  qed
  have "t_pid tr = m_pid s \<and> t_state tr = PSX_EXITING \<and> active (t_cmd tr) = 0 \<and> t_state_mu tr = 0"
  proof -
    consider "ready PSX_IDLE s" | "t_pid (m_tr s) = 0" "t_initialized (m_tr s) = 0"
      | "t_pid (m_tr s) = m_pid s" "t_state (m_tr s) = PSX_EXITING" using q by (auto simp: quiet_def)
    then show ?thesis
      using assms(2) live_okD(1,2) [OF l] q
      by cases (auto simp: psx_cleanup_def psx_lock_def psx_mu_lock_def ready_def psx_unlock_def start_exec quiet_def Let_def)
  qed
  with q l have "live_ok (s\<lparr>m_tr := tr\<rparr>)" and q': "quiet k (s\<lparr>m_tr := tr\<rparr>)" by (simp_all add: quiet_def live_ok_def)
  from acts_intro(1) [OF this] show "acts_as sys k (s\<lparr>m_tr := tr\<rparr>)" .
  show "quiet k (s\<lparr>m_tr := tr\<rparr>)" by (rule q')
qed

text \<open>The abstract process: one credential, which a successful system call changes.\<close>

inductive one_step :: "(int \<Rightarrow> int list \<Rightarrow> 'k \<Rightarrow> int \<times> 'k) \<Rightarrow> 'k \<Rightarrow> 'k \<Rightarrow> bool" for sys where
  "sys nr args k = (ret, k') \<Longrightarrow> ret \<noteq> - 1 \<Longrightarrow> one_step sys k k'"

text \<open>A failed system call has no effect.\<close>

definition fails_clean :: "(int \<Rightarrow> int list \<Rightarrow> 'k \<Rightarrow> int \<times> 'k) \<Rightarrow> bool" where
  "fails_clean sys \<longleftrightarrow> (\<forall>nr args k. fst (sys nr args k) = - 1 \<longrightarrow> snd (sys nr args k) = k)"

lemma psx_step_acts:
  assumes "psx_step walk sys s s'" "acts_as sys k s" "fails_clean sys" "task_walk walk"
  shows "\<exists>k'. acts_as sys k' s' \<and> (one_step sys)\<^sup>*\<^sup>* k k'"
  using assms(1)
proof cases
  case (immediate t th nr args tr cmd ret k')
  have clean: "ret = - 1 \<Longrightarrow> k' = th_cred th"
    using assms(3) immediate(6) unfolding fails_clean_def by (metis fst_conv snd_conv)
  note a = immediate_acts [OF assms(2) immediate(2,3) immediate(6) [unfolded immediate(4,5)] clean]
  have "(one_step sys)\<^sup>*\<^sup>* k k'"
  proof (cases "ret = - 1")
    case True
    with clean a(2) show ?thesis by simp
  next
    case False
    with immediate(6) a(2) have "one_step sys k k'" by (intro one_step.intros) simp_all
    then show ?thesis by blast
  qed
  with a(1) show ?thesis unfolding immediate(1,4,5) by blast
next
  case (clone t th n)
  from clone_acts [OF assms(2) clone(2-5)] show ?thesis unfolding clone(1) newborn_def by blast
next
  case (fatal t th f)
  with finish_acts(1) [OF assms(2) fatal(2,3)] show ?thesis by simp
next
  case (enter t th va args nr)
  have "outside (C_wait nr args)" by simp
  from enter_acts [OF assms(2) enter(2,3) this] show ?thesis unfolding enter(1) by blast
next
  case (call t th nr args tr)
  have "outside (th_call th)" using call(3) by simp
  then have "acts_as sys k s'" unfolding call(1) by (rule call_acts [OF assms(2) call(2) _ call(5)])
  then show ?thesis by blast
next
  case failed
  have "acts_as sys k s'" unfolding failed(1) by (rule failed_acts [OF assms(2) failed(2-4)])
  then show ?thesis by blast
next
  case go
  have "acts_as sys k s'" unfolding go(1) by (rule go_acts [OF assms(2) go(2-4)])
  then show ?thesis by blast
next
  case listed
  have "acts_as sys k s'" unfolding listed(1) by (rule list_acts [OF assms(2) listed(2-7)])
  then show ?thesis by blast
next
  case account
  have "acts_as sys k s'" unfolding account(1) by (rule account_acts [OF assms(2) account(2-4)])
  then show ?thesis by blast
next
  case sweep_end
  have "acts_as sys k s'" unfolding sweep_end(1) by (rule end_sweep_acts [OF assms(2) sweep_end(2,3) task_walk.misses_none [OF assms(4) sweep_end(4)]])
  then show ?thesis by blast
next
  case close
  have "acts_as sys k s'" unfolding close(1) by (rule close_acts [OF assms(2) close(2-4)])
  then show ?thesis by blast
next
  case drained
  have "acts_as sys k s'" unfolding drained(1) by (rule drained_acts [OF assms(2) drained(2-4)])
  then show ?thesis by blast
next
  case finish
  have "acts_as sys k s'" unfolding finish(1) by (rule finish_acts(2) [OF assms(2) finish(2,3,5)])
  then show ?thesis by blast
next
  case deliver
  have "acts_as sys k s'" unfolding deliver(1) by (rule deliver_acts [OF assms(2) deliver(2-4,6)])
  then show ?thesis by blast
next
  case handle
  have "acts_as sys k s'" unfolding handle(1) by (rule handle_acts [OF assms(2) handle(2-4)])
  then show ?thesis by blast
next
  case report
  have "acts_as sys k s'" unfolding report(1) by (rule report_acts [OF assms(2) report(2-4)])
  then show ?thesis by blast
next
  case leave
  have "acts_as sys k s'" unfolding leave(1) by (rule leave_acts [OF assms(2) leave(2-5)])
  then show ?thesis by blast
next
  case thread_exit
  have "acts_as sys k s'" unfolding thread_exit(1) by (rule exit_acts [OF assms(2) thread_exit(2,3)])
  then show ?thesis by blast
next
  case process_exit
  have "acts_as sys k s'" unfolding process_exit(1) by (rule process_exit_quiet(2) [OF assms(2) process_exit(4)])
  then show ?thesis by blast
qed

lemma psx_reach_acts:
  assumes "(psx_step walk sys)\<^sup>*\<^sup>* s s'" "acts_as sys k s" "fails_clean sys" "task_walk walk"
  shows "\<exists>k'. acts_as sys k' s' \<and> (one_step sys)\<^sup>*\<^sup>* k k'"
  using assms(1)
proof induction
  case base
  with assms(2) show ?case by blast
next
  case (step s1 s2)
  then obtain k1 where "acts_as sys k1 s1" "(one_step sys)\<^sup>*\<^sup>* k k1" by blast
  with psx_step_acts [OF step(2) _ assms(3,4)] show ?case by (meson rtranclp_trans)
qed

section \<open>A process that starts\<close>

definition psx_init :: "int \<Rightarrow> psx_actions \<Rightarrow> s64 list \<Rightarrow> 'k \<Rightarrow> 'k psx_process" where
  "psx_init pid a tids k = \<lparr>m_pid = pid, m_tr = psx_tracker_zero, m_actions = a,
     m_threads = (\<lambda>t. if t \<in> set tids then Some (newborn k) else None), m_killed = False\<rparr>"

lemma psx_init_acts:
  assumes "0 < pid" "\<forall>t \<in> set tids. tid_ok t"
  shows "acts_as sys k (psx_init pid a tids k)"
proof -
  have "dom (m_threads (psx_init pid a tids k)) = set tids" by (auto simp: psx_init_def split: if_splits)
  then have "live_ok (psx_init pid a tids k)" using assms
    by (simp add: live_ok_def) (simp add: psx_init_def psx_tracker_zero_def)
  moreover have "quiet k (psx_init pid a tids k)"
    by (auto simp: quiet_def psx_init_def psx_tracker_zero_def split: if_splits)
  ultimately show ?thesis by (intro acts_intro(1))
qed

lemma acts_quiet:
  assumes "acts_as sys k s" "\<And>u th. m_threads s u = Some th \<Longrightarrow> outside (th_call th)"
  shows "quiet k s"
proof (rule ccontr)
  assume "\<not> quiet k s"
  then obtain c where "calling c k s \<or> going sys c k s \<or> (\<exists>f ent. sweeping sys c k f ent s) \<or> closing c k s \<or> draining c k s \<or> finishing c k s"
    using assms(1) unfolding acts_as_def by blast
  then have "\<exists>th. m_threads s c = Some th \<and> \<not> outside (th_call th)"
  proof (elim disjE exE)
    have ex: "\<exists>th. m_threads s c = Some th" if "\<exists>C P. callers c C k P (m_threads s)"
      using that by (auto simp: callers_def)
    show ?thesis if "calling c k s" using ex [OF phase_callers(1) [OF that]] phase_pc(1) [OF _ that] by fastforce
    show ?thesis if "going sys c k s" using ex [OF phase_callers(2) [OF that]] phase_pc(2) [OF _ that] by fastforce
    show ?thesis if "sweeping sys c k f ent s" for f ent using ex [OF phase_callers(3) [OF that]] phase_pc(3) [OF _ that] by fastforce
    show ?thesis if "closing c k s" using ex [OF phase_callers(4) [OF that]] phase_pc(4) [OF _ that] by fastforce
    show ?thesis if "draining c k s" using ex [OF phase_callers(5) [OF that]] phase_pc(5) [OF _ that] by fastforce
    show ?thesis if "finishing c k s" using ex [OF phase_callers(6) [OF that]] phase_pc(6) [OF _ that] by fastforce
  qed
  with assms(2) show False by blast
qed

lemma acts_one_caller:
  assumes "acts_as sys k s" "m_threads s t = Some th" "m_threads s u = Some uh"
    "\<not> outside (th_call th)" "\<not> outside (th_call uh)"
  shows "t = u"
proof -
  have "\<exists>C P. callers t C k P (m_threads s)"
    using acts_in_call(1) [OF assms(1,2,4)] by (elim disjE exE) (erule phase_callers)+
  then obtain C P where "callers t C k P (m_threads s)" by blast
  from callers_eq(1) [OF this assms(3,5)] show ?thesis by simp
qed

text \<open>
  C26: The threads of a process act as one.  From a start with equal credentials, whatever the
  threads do (calls of several threads, signals, clones and exits in any interleaving, with thread
  ids handed out again at any time), there is a run of a one-threaded process such that, whenever
  no thread is inside \<^verbatim>\<open>psx_syscall\<close> (past the wait for its turn), and already when a caller is
  about to return, every thread has the credential of that one thread, with no handler running and
  no signal pending.  At most one thread is ever inside a call, and the mechanism never kills the
  process over diverging results.  The claim rests on a task directory whose walks list every
  thread that lives when they end.
\<close>

theorem psx_acts_as_one:
  assumes "0 < pid" "\<forall>t \<in> set tids. tid_ok t" "fails_clean sys" "task_walk walk"
    "(psx_step walk sys)\<^sup>*\<^sup>* (psx_init pid a tids k) s"
  shows "\<exists>k'. (one_step sys)\<^sup>*\<^sup>* k k' \<and> \<not> m_killed s
     \<and> ((\<forall>t th. m_threads s t = Some th \<longrightarrow> outside (th_call th)) \<or> (\<exists>t th f. m_threads s t = Some th \<and> th_call th = C_finish f)
         \<longrightarrow> (\<forall>t th. m_threads s t = Some th \<longrightarrow> th_cred th = k' \<and> th_hand th = H_none \<and> \<not> th_sig th))
     \<and> (\<forall>t th u uh. m_threads s t = Some th \<longrightarrow> m_threads s u = Some uh \<longrightarrow> t \<noteq> u
         \<longrightarrow> outside (th_call th) \<or> outside (th_call uh))"
proof -
  obtain k' where k': "acts_as sys k' s" "(one_step sys)\<^sup>*\<^sup>* k k'"
    using psx_reach_acts [OF assms(5) psx_init_acts [OF assms(1,2)] assms(3,4)] by blast
  have rest: "th_cred th = k' \<and> th_hand th = H_none \<and> \<not> th_sig th"
    if q: "(\<forall>t th. m_threads s t = Some th \<longrightarrow> outside (th_call th)) \<or> (\<exists>t th f. m_threads s t = Some th \<and> th_call th = C_finish f)"
      and t: "m_threads s t = Some th" for t th
    using q
  proof
    assume "\<forall>t th. m_threads s t = Some th \<longrightarrow> outside (th_call th)"
    then have "quiet k' s" using acts_quiet [OF k'(1)] by blast
    with t show ?thesis by (auto simp: quiet_def resting_def)
  next
    assume "\<exists>t th f. m_threads s t = Some th \<and> th_call th = C_finish f"
    then obtain c ch f where c: "m_threads s c = Some ch" "th_call ch = C_finish f" by blast
    from acts_pc(8) [OF k'(1) c] obtain f' where "callers c (\<lambda>pc. pc = C_finish f') k' (\<lambda>u. resting k') (m_threads s)"
      by (auto simp: finishing_def)
    from callersD [OF this] t show ?thesis by (cases "t = c") (auto simp: resting_def)
  qed
  have "\<not> m_killed s" using k'(1) by (simp add: acts_as_def live_ok_def)
  moreover have "outside (th_call th) \<or> outside (th_call uh)"
    if "m_threads s t = Some th" "m_threads s u = Some uh" "t \<noteq> u" for t th u uh
    using acts_one_caller [OF k'(1) that(1,2)] that(3) by blast
  ultimately show ?thesis using k'(2) rest by (intro exI [of _ k']) blast
qed

definition demo_sys :: "int \<Rightarrow> int list \<Rightarrow> int \<Rightarrow> int \<times> int" where
  "demo_sys nr args k = (if nr = 0 then (- 1, k) else (0, nr))"

definition demo_actions :: psx_actions where
  "demo_actions = (let sa = \<lparr>sa_handler = 0, sa_flags = 0, sa_restorer = 0, sa_mask = 0\<rparr>
     in \<lparr>k_action = sa, sig_action = sa, chained_action = sa\<rparr>)"

lemma demo_clean: "fails_clean demo_sys"
  by (simp add: fails_clean_def demo_sys_def)

lemma demo_call:
  "\<exists>tr. (psx_step (\<subseteq>) demo_sys)\<^sup>*\<^sup>* (psx_init 1000 demo_actions [1000, 1001] 5)
     (set_call 1000 (C_setup 9 [7]) ((psx_init 1000 demo_actions [1000, 1001] 5)\<lparr>m_tr := tr\<rparr>))"
proof -
  let ?s = "psx_init 1000 demo_actions [1000, 1001] (5 :: int)"
  let ?w = "set_call 1000 (C_wait 9 [7]) ?s"
  have "m_threads ?s 1000 = Some (newborn 5)" "in_user (newborn (5 :: int))" "psx_syscall_args [7] = Some [7]"
    by (simp_all add: psx_init_def in_user_def psx_syscall_args_def Let_def)
  from psx_step.enter [OF this] have enter: "psx_step (\<subseteq>) demo_sys ?s ?w" .
  obtain tr where tr: "psx_new_state (m_pid ?w) PSX_IDLE PSX_SETUP (m_tr ?w) = Some tr"
    by (simp add: psx_init_def psx_tracker_zero_def psx_new_state_def psx_lock_def psx_mu_lock_def start_exec Let_def)
  have "m_threads ?w 1000 = Some ((newborn 5)\<lparr>th_call := C_wait 9 [7]\<rparr>)" "th_call ((newborn 5 :: int psx_thread)\<lparr>th_call := C_wait 9 [7]\<rparr>) = C_wait 9 [7]"
    "th_hand ((newborn (5 :: int))\<lparr>th_call := C_wait 9 [7]\<rparr>) = H_none"
    by (simp_all add: psx_init_def)
  from psx_step.call [OF this tr] have "psx_step (\<subseteq>) demo_sys ?w (set_call 1000 (C_setup 9 [7]) (?w\<lparr>m_tr := tr\<rparr>))" .
  moreover have "set_call 1000 (C_setup 9 [7]) (?w\<lparr>m_tr := tr\<rparr>) = set_call 1000 (C_setup 9 [7]) (?s\<lparr>m_tr := tr\<rparr>)"
    by (simp add: set_call_def psx_init_def)
  ultimately show ?thesis using enter by (intro exI [of _ tr]) (simp add: converse_rtranclp_into_rtranclp r_into_rtranclp)
qed

theorem psx_acts_as_one_witness:
  "\<exists>s k'. (psx_step (\<subseteq>) demo_sys)\<^sup>*\<^sup>* (psx_init 1000 demo_actions [1000, 1001] 5) s
     \<and> (\<exists>th. m_threads s 1000 = Some th \<and> th_call th = C_setup 9 [7]) \<and> (one_step demo_sys)\<^sup>*\<^sup>* 5 k' \<and> \<not> m_killed s"
proof -
  obtain tr where st: "(psx_step (\<subseteq>) demo_sys)\<^sup>*\<^sup>* (psx_init 1000 demo_actions [1000, 1001] 5)
     (set_call 1000 (C_setup 9 [7]) ((psx_init 1000 demo_actions [1000, 1001] 5)\<lparr>m_tr := tr\<rparr>))" using demo_call by blast
  let ?s = "set_call 1000 (C_setup 9 [7]) ((psx_init 1000 demo_actions [1000, 1001] (5 :: int))\<lparr>m_tr := tr\<rparr>)"
  have reach: "(psx_step (\<subseteq>) demo_sys)\<^sup>*\<^sup>* (psx_init 1000 demo_actions [1000, 1001] 5) ?s" by (rule st)
  have tids: "\<forall>t \<in> set [1000, 1001 :: s64]. tid_ok t" by (simp add: tid_ok_def)
  have pid: "0 < (1000 :: int)" by simp
  have c: "\<exists>th. m_threads ?s 1000 = Some th \<and> th_call th = C_setup 9 [7]" by (simp add: psx_init_def)
  from psx_acts_as_one [OF pid tids demo_clean whole_walk.task_walk_axioms reach] obtain k' where "(one_step demo_sys)\<^sup>*\<^sup>* 5 k'" "\<not> m_killed ?s"
    by (elim exE conjE)
  then show ?thesis using reach c by (intro exI [of _ ?s] exI [of _ k'] conjI)
qed

section \<open>A call can always be completed\<close>

text \<open>Between two states only \<open>t\<close> has moved through \<^verbatim>\<open>psx_syscall\<close>, and no thread has come or gone.\<close>

definition others_same :: "s64 \<Rightarrow> 'k psx_process \<Rightarrow> 'k psx_process \<Rightarrow> bool" where
  "others_same t s s' \<longleftrightarrow> (\<forall>u. u \<noteq> t \<longrightarrow> map_option th_call (m_threads s' u) = map_option th_call (m_threads s u))"



lemma others_same_set [simp]:
  "others_same t s (set_call t pc (s\<lparr>m_tr := tr\<rparr>))" "others_same t s (set_call t pc s)"
  "others_same t s (set_thread t th (s\<lparr>m_tr := tr, m_actions := a\<rparr>))"
  "m_threads s u = Some uh \<Longrightarrow> th_call uh' = th_call uh \<Longrightarrow> others_same t s (set_thread u uh' (s\<lparr>m_tr := tr\<rparr>))"
  "m_threads s u = Some uh \<Longrightarrow> th_call uh' = th_call uh \<Longrightarrow> others_same t s (set_thread u uh' s)"
  "others_same t s (set_call t pc (send_signal u new (s\<lparr>m_tr := tr\<rparr>)))"
  by (auto simp: others_same_def option.map_comp o_def)








text \<open>
  Every living thread with an entry in the table has been sent the signal of the call.  A thread
  that got the id of one that exited before it answered has not: the caller waits for an answer
  that nobody will give.
\<close>

definition orphan_free :: "'k psx_process \<Rightarrow> bool" where
  "orphan_free s \<longleftrightarrow> (active (t_cmd (m_tr s)) \<noteq> 0 \<longrightarrow>
     (\<forall>u th. m_threads s u = Some th \<longrightarrow> refs (m_tr s) u \<noteq> None \<longrightarrow> engaged th))"

lemma orphan_freeI:
  "(\<And>u th. m_threads s u = Some th \<Longrightarrow> refs (m_tr s) u \<noteq> None \<Longrightarrow> engaged th) \<Longrightarrow> orphan_free s"
  by (simp add: orphan_free_def)

lemma sweeping_engaged:
  assumes "acts_as sys k s" "m_threads s t = Some th" "th_call th = C_sweep f \<or> th_call th = C_entered f v" "orphan_free s"
    "m_threads s u = Some uh" "refs (m_tr s) u \<noteq> None"
  shows "engaged uh"
proof -
  obtain ent where "sweeping sys t k f ent s" using assms(3) acts_pc(4,5) [OF assms(1,2)] by blast
  then have "active (t_cmd (m_tr s)) \<noteq> 0" using assms(6) by (auto elim: sweepingE)
  with assms(4-6) show ?thesis by (simp add: orphan_free_def)
qed

lemma listed_free:
  assumes "acts_as sys k s" "m_threads s t = Some th" "th_call th = C_sweep f" "tid_ok u" "u \<noteq> t" "orphan_free s"
    "psx_locked (m_pid s) (psx_enter (f_sweep f) u) (m_tr s) = Some (new, tr)"
  shows "orphan_free (set_call t (C_entered f u) (send_signal u new (s\<lparr>m_tr := tr\<rparr>)))" (is "orphan_free ?s")
proof -
  have l: "live_ok s" using assms(1) by (simp add: acts_as_def)
  from acts_pc(4) [OF assms(1-3)] obtain k0 where
    r: "ready PSX_SYSCALL s" and f: "sweep_frame_ok f t None" and tab: "sweep_table f None (m_threads s) (refs (m_tr s))" by (rule sweepingE)
  have sw: "2 \<le> f_sweep f" "\<forall>v y. engaged_at (m_threads s) v \<longrightarrow> refs (m_tr s) v = Some y \<longrightarrow> f_sweep f - 1 \<le> r_sweep y"
    using f sweep_tableD(2) [OF tab] by (auto simp: sweep_frame_ok_def)
  obtain tr' where "psx_locked (m_pid s) (psx_enter (f_sweep f) u) (m_tr s) = Some (refs (m_tr s) u = None, tr')"
    "\<forall>v. v \<noteq> u \<longrightarrow> refs tr' v = refs (m_tr s) v \<or> refs tr' v = None" by (rule locked_enter [OF l r assms(4) sw])
  with assms(7) have new: "new = (refs (m_tr s) u = None)" and tr: "\<And>v. v \<noteq> u \<Longrightarrow> refs tr v \<noteq> None \<Longrightarrow> refs (m_tr s) v \<noteq> None" by auto
  note en = sweeping_engaged [OF assms(1,2) disjI1 [OF assms(3)] assms(6)]
  show ?thesis
  proof (rule orphan_freeI)
    fix v vh assume v: "m_threads ?s v = Some vh" "refs (m_tr ?s) v \<noteq> None"
    show "engaged vh"
    proof (cases "v = u")
      case True
      with v(1) assms(5) obtain uh where uh: "m_threads s u = Some uh" "vh = tkill new uh" by auto
      show ?thesis using en [OF uh(1)] uh(2) new by (cases "refs (m_tr s) u") (auto simp: tkill_def engaged_def)
    next
      case False
      with v tr [of v] en [of v] show ?thesis by (auto split: if_splits)
    qed
  qed
qed

lemma account_free:
  assumes "acts_as sys k s" "m_threads s t = Some th" "th_call th = C_entered f u" "orphan_free s"
    "psx_locked (m_pid s) (psx_account u f) (m_tr s) = Some (f', tr)"
  shows "orphan_free (set_call t (C_sweep f') (s\<lparr>m_tr := tr\<rparr>))"
proof -
  have l: "live_ok s" using assms(1) by (simp add: acts_as_def)
  from acts_pc(5) [OF assms(1-3)] obtain k0 where r: "ready PSX_SYSCALL s" and tab: "sweep_table f (Some u) (m_threads s) (refs (m_tr s))"
    by (rule sweepingE)
  obtain x where x: "refs (m_tr s) u = Some x" using sweep_tableD(5) [OF tab] by blast
  obtain f1 tr' where "psx_locked (m_pid s) (psx_account u f) (m_tr s) = Some (f1, tr')" "refs tr' = (refs (m_tr s))(u \<mapsto> x\<lparr>r_sweep := f_sweep f\<rparr>)"
    by (rule locked_mark [OF l r x, of f]) (simp add: Let_def)
  with assms(5) have rf: "refs tr = (refs (m_tr s))(u \<mapsto> x\<lparr>r_sweep := f_sweep f\<rparr>)" by simp
  show ?thesis
    using sweeping_engaged [OF assms(1,2) disjI2 [OF assms(3)] assms(4)] x rf by (intro orphan_freeI) (auto split: if_splits)
qed




















text \<open>Only the reuse of an id that is still in the table makes a thread the caller waits for in vain.\<close>

lemma orphan_free_keep:
  assumes "orphan_free s" "\<And>u uh. m_threads s' u = Some uh \<Longrightarrow> \<exists>vh. m_threads s u = Some vh \<and> (engaged vh \<longrightarrow> engaged uh)"
    "\<And>u. refs (m_tr s') u \<noteq> None \<Longrightarrow> refs (m_tr s) u \<noteq> None" "active (t_cmd (m_tr s')) = active (t_cmd (m_tr s))"
  shows "orphan_free s'"
  using assms unfolding orphan_free_def by metis

lemma free_idle: "active (t_cmd (m_tr s)) = 0 \<Longrightarrow> orphan_free s"
  by (simp add: orphan_free_def)

lemma deliver_free:
  assumes "acts_as sys k s" "orphan_free s" "m_threads s t = Some th" "th_sig th"
    "psx_locked (m_pid s) (\<lambda>tr. Some (psx_actor_accepts (t_psx_sig tr) (Some (SI_TKILL, m_pid s)) tr, tr)) (m_tr s) = Some (b, tr)"
  shows "orphan_free (set_thread t (th\<lparr>th_sig := False, th_hand := (if b then H_call else H_none)\<rparr>) (s\<lparr>m_tr := tr\<rparr>))"
proof -
  have l: "live_ok s" using assms(1) by (simp add: acts_as_def)
  obtain c f ent where sw: "sweeping sys c k f ent s" using acts_handler [OF assms(1,3)] assms(4) by blast
  have "th_sig th \<or> th_hand th \<noteq> H_none" using assms(4) by blast
  note o = sweeping_other [OF sw assms(3) this]
  from o(4) have act: "active (t_cmd (m_tr s)) \<noteq> 0" by (auto simp: mirrored_def)
  have tr: "tr = m_tr s" "b"
    using assms(5) readyD(1) [OF o(3)] live_okD(1,2) [OF l] act psx_same_mu [of "m_tr s" 0]
    by (auto simp: locked_own psx_unlock_def psx_actor_accepts_def)
  show ?thesis unfolding tr(1)
    by (rule orphan_free_keep [OF assms(2)]) (use assms(3) tr(2) in \<open>auto simp: engaged_def split: if_splits\<close>)
qed

lemma report_free:
  assumes "acts_as sys k s" "orphan_free s" "m_threads s t = Some th" "th_hand th = H_report r"
    "psx_locked (m_pid s) (\<lambda>tr. Some ((), psx_report t r tr)) (m_tr s) = Some (x, tr)"
  shows "orphan_free (set_thread t (th\<lparr>th_hand := H_wait\<rparr>) (s\<lparr>m_tr := tr\<rparr>))"
proof -
  have l: "live_ok s" using assms(1) by (simp add: acts_as_def)
  obtain c f ent where sw: "sweeping sys c k f ent s" using acts_handler [OF assms(1,3)] assms(4) by blast
  have "th_sig th \<or> th_hand th \<noteq> H_none" using assms(4) by simp
  note o = sweeping_other [OF sw assms(3) this]
  from o(4) obtain y where y: "refs (m_tr s) t = Some y" by blast
  obtain tr' where "psx_locked (m_pid s) (\<lambda>tr. Some ((), psx_report t r tr)) (m_tr s) = Some ((), tr')"
    "t_cmd tr' = t_cmd (m_tr s)" "refs tr' = (refs (m_tr s))(t \<mapsto> y\<lparr>r_retval := r, r_pending := 0\<rparr>)"
    by (rule locked_report [OF l o(3) y, of r])
  with assms(5) have "t_cmd tr = t_cmd (m_tr s)" "\<And>u. refs tr u \<noteq> None \<Longrightarrow> refs (m_tr s) u \<noteq> None" using y by (auto split: if_splits)
  then show ?thesis
    by (intro orphan_free_keep [OF assms(2)]) (use assms(3) in \<open>auto simp: engaged_def split: if_splits\<close>)
qed

text \<open>The steps after which no command is active.\<close>

lemma idle_after:
  assumes "acts_as sys k s" "m_threads s t = Some th"
  shows "outside (th_call th) \<Longrightarrow> psx_new_state (m_pid s) PSX_IDLE PSX_SETUP (m_tr s) = Some tr \<Longrightarrow> active (t_cmd tr) = 0"
    "th_call th = C_setup nr args \<Longrightarrow> active (t_cmd (m_tr s)) = 0"
    "th_call th = C_failed ret \<Longrightarrow> psx_new_state (m_pid s) PSX_SETUP PSX_IDLE (m_tr s) = Some tr \<Longrightarrow> active (t_cmd tr) = 0"
    "th_call th = C_close f \<Longrightarrow> psx_locked (m_pid s) (psx_close f) (m_tr s) = Some (x, tr) \<Longrightarrow> active (t_cmd tr) = 0"
    "th_call th = C_finish f \<Longrightarrow> psx_new_state (m_pid s) PSX_SYSCALL PSX_IDLE (m_tr s) = Some tr \<Longrightarrow> active (t_cmd tr) = 0"
    "th_hand th = H_wait \<Longrightarrow> active (t_cmd (m_tr s)) = 0 \<Longrightarrow>
       psx_locked (m_pid s) (\<lambda>tr. Some ((), tr\<lparr>t_incomplete := t_incomplete tr - 1\<rparr>)) (m_tr s) = Some (y, tr) \<Longrightarrow> active (t_cmd tr) = 0"
proof -
  have l: "live_ok s" using assms(1) by (simp add: acts_as_def)
  show "active (t_cmd tr) = 0" if "outside (th_call th)" "psx_new_state (m_pid s) PSX_IDLE PSX_SETUP (m_tr s) = Some tr"
  proof -
    let ?s = "set_call t (C_setup 0 []) (s\<lparr>m_tr := tr\<rparr>)"
    have "m_threads ?s t = Some (th\<lparr>th_call := C_setup 0 []\<rparr>)" using assms(2) by simp
    from acts_pc(1) [OF call_acts [OF assms that] this] show ?thesis by (simp add: calling_def)
  qed
  show "active (t_cmd (m_tr s)) = 0" if "th_call th = C_setup nr args" using acts_pc(1) [OF assms that] by (simp add: calling_def)
  show "active (t_cmd tr) = 0" if "th_call th = C_failed ret" "psx_new_state (m_pid s) PSX_SETUP PSX_IDLE (m_tr s) = Some tr"
    using acts_pc(2) [OF assms that(1)] that(2) new_state_ready [OF l] by (auto simp: calling_def split: if_splits)
  show "active (t_cmd tr) = 0" if "th_call th = C_finish f" "psx_new_state (m_pid s) PSX_SYSCALL PSX_IDLE (m_tr s) = Some tr"
    using acts_pc(8) [OF assms that(1)] that(2) new_state_ready [OF l] by (auto simp: finishing_def split: if_splits)
  show "active (t_cmd tr) = 0" if "th_call th = C_close f" "psx_locked (m_pid s) (psx_close f) (m_tr s) = Some (x, tr)"
  proof -
    have "ready PSX_SYSCALL s" using acts_pc(6) [OF assms that(1)] by (auto simp: closing_def)
    from readyD(1) [OF this] show ?thesis using that(2) live_okD(1,2) [OF l] by (auto simp: locked_own psx_close_def psx_unlock_def)
  qed
  show "active (t_cmd tr) = 0" if w: "th_hand th = H_wait" "active (t_cmd (m_tr s)) = 0"
    "psx_locked (m_pid s) (\<lambda>tr. Some ((), tr\<lparr>t_incomplete := t_incomplete tr - 1\<rparr>)) (m_tr s) = Some (y, tr)"
  proof -
    obtain c where d: "draining c k s" by (rule acts_waiting [OF assms w(1,2)])
    have "ready PSX_SYSCALL s" using d by (auto simp: draining_def)
    from readyD(1) [OF this] show ?thesis using w(2,3) live_okD(1,2) [OF l] by (auto simp: locked_own psx_unlock_def)
  qed
qed

lemma orphan_by_reuse:
  assumes "psx_step walk sys s s'" "acts_as sys k s" "orphan_free s"
  shows "orphan_free s' \<or> (\<exists>n. m_threads s n = None \<and> m_threads s' n \<noteq> None \<and> refs (m_tr s) n \<noteq> None)"
  using assms(1)
proof cases
  case (clone t th n)
  have "orphan_free s'" if "refs (m_tr s) n = None"
    using assms(3) that clone(1) by (auto simp: orphan_free_def)
  with clone(1,5) show ?thesis by (cases "refs (m_tr s) n = None") auto
next
  case (go t th ret tr)
  have "ready PSX_SETUP s" using acts_pc(3) [OF assms(2) go(2,3)] by (auto simp: going_def)
  moreover have "live_ok s" using assms(2) by (simp add: acts_as_def)
  ultimately have "wf_map tr" using go(4) new_state_ready [of s PSX_SETUP] by (auto simp: ready_def split: if_splits)
  then show ?thesis using go(1) clear_map(2) by (simp add: orphan_free_def)
next
  case (call t th nr args tr)
  have "active (t_cmd tr) = 0" by (rule idle_after(1) [OF assms(2) call(2) _ call(5)]) (simp add: call(3))
  then show ?thesis using call(1) by (intro disjI1 free_idle) simp
next
  case (immediate t th nr args tr cmd ret k')
  then show ?thesis using idle_after(2) [OF assms(2) immediate(2,3)] by (intro disjI1 free_idle) (simp add: set_cmd_nr)
next
  case (failed t th ret tr)
  then show ?thesis using idle_after(3) [OF assms(2) failed(2-4)] by (intro disjI1 free_idle) simp
next
  case (close t th f x tr)
  then show ?thesis using idle_after(4) [OF assms(2) close(2-4)] by (intro disjI1 free_idle) simp
next
  case (finish t th f tr)
  then show ?thesis using idle_after(5) [OF assms(2) finish(2,3,5)] by (intro disjI1 free_idle) simp
next
  case (leave t th x tr)
  then show ?thesis using idle_after(6) [OF assms(2) leave(2-5)] by (intro disjI1 free_idle) simp
next
  case (process_exit t th tr)
  have "quiet k s'" unfolding process_exit(1) by (rule process_exit_quiet(1) [OF assms(2) process_exit(4)])
  then show ?thesis by (intro disjI1 free_idle) (simp add: quiet_def)
next
  case (listed t th f u new tr)
  show ?thesis unfolding listed(1) by (rule disjI1, rule listed_free [OF assms(2) listed(2-5) assms(3) listed(7)])
next
  case (account t th f u f' tr)
  show ?thesis unfolding account(1) by (rule disjI1, rule account_free [OF assms(2) account(2,3) assms(3) account(4)])
next
  case (deliver t th b tr)
  show ?thesis unfolding deliver(1) by (rule disjI1, rule deliver_free [OF assms(2,3) deliver(2,3,6)])
next
  case (report t th r x tr)
  show ?thesis unfolding report(1) by (rule disjI1, rule report_free [OF assms(2,3) report(2-4)])
qed (use assms(3) in \<open>force simp: orphan_free_def engaged_def\<close>)+



text \<open>
  C28: The handler of every thread repeats the caller's system call: the argument count of the
  variadic interface is the number of arguments given, and the command published for the handlers
  has the number and, padded with zeros, the very arguments.
\<close>

theorem psx_command_equivalent:
  assumes "length args \<le> 6"
  shows "psx_syscall_args args = Some args \<and> syscall_nr (psx_set_cmd nr args c) = nr
     \<and> psx_cmd_args (psx_set_cmd nr args c) = args @ replicate ((if length args \<le> 3 then 3 else 6) - length args) 0"
proof -
  consider "args = []" | a where "args = [a]" | a b where "args = [a, b]" | a b x where "args = [a, b, x]"
    | a b x y where "args = [a, b, x, y]" | a b x y z where "args = [a, b, x, y, z]" | a b x y z v where "args = [a, b, x, y, z, v]"
  proof -
    have "length args = 0 \<or> length args = 1 \<or> length args = 2 \<or> length args = 3 \<or> length args = 4 \<or> length args = 5 \<or> length args = 6"
      using assms by arith
    then show ?thesis using that by (auto simp: length_Suc_conv numeral_eq_Suc)
  qed
  then show ?thesis
    by cases (simp_all add: psx_syscall_args_def psx_set_cmd_def psx_cmd_args_def nth_arg_def Let_def numeral_eq_Suc)
qed

theorem psx_command_equivalent_witness:
  "psx_syscall_args [5, 6] = Some [5, 6] \<and> psx_cmd_args (psx_set_cmd 157 [5, 6] (t_cmd psx_tracker_zero)) = [5, 6, 0]"
  using psx_command_equivalent [of "[5, 6]" 157 "t_cmd psx_tracker_zero"] by simp

end
