(* ===== verification/Spec2Isabelle.thy ===== *)
theory Spec2Isabelle
  imports Cap_Extint Cap_Iab_Text Cap_File Cap_Launch Pam_Cap Prog_Setcap Prog_Capsh_Inh Psx_Spec
begin

text \<open>
  A verification of libcap, the POSIX.1e capability library of Linux, and of libpsx, which makes
  the threads of a process change their privilege together.

  \<^bold>\<open>The program.\<close>  \<^verbatim>\<open>libcap/\<close> keeps capability sets (\<^verbatim>\<open>cap_t\<close>), IAB tuples
  (\<^verbatim>\<open>cap_iab_t\<close>) and launchers (\<^verbatim>\<open>cap_launch_t\<close>) on a heap of its own, each with a magic
  number and a mutex (\<^verbatim>\<open>cap_alloc.c\<close>); it changes and compares them bit by bit
  (\<^verbatim>\<open>cap_flag.c\<close>), turns them into bytes (\<^verbatim>\<open>cap_extint.c\<close>) and text
  (\<^verbatim>\<open>cap_text.c\<close>, with the table that \<^verbatim>\<open>_makenames.c\<close> generates), stores them on files
  (\<^verbatim>\<open>cap_file.c\<close>) and installs them in the process (\<^verbatim>\<open>cap_proc.c\<close>).  The system calls go
  through a pair of function pointers that libpsx replaces when it is linked
  (\<^verbatim>\<open>cap_syscalls.c\<close>, \<^verbatim>\<open>psx/\<close>).  The PAM module (\<^verbatim>\<open>pam_cap/\<close>) uses the library to give a user the
  tuple of a configuration file; the programs \<^verbatim>\<open>setcap\<close> and \<^verbatim>\<open>capsh\<close> (\<^verbatim>\<open>progs/\<close>) use it to mark
  files and to start a shell with a chosen privilege.

  \<^bold>\<open>How it is modelled.\<close>
  \<^item> A library call is a function of its arguments and of the \<open>world\<close> (\<open>Libcap_World\<close>):
    the heap of objects, \<^verbatim>\<open>errno\<close>, the static variables and the kernel state.  The result is
    \<open>None\<close> when the call does not return or is undefined in C: it blocks on a held mutex, or
    would read or write outside a buffer.  Every property that says what a call does therefore
    also says that it returns.  Writes to the arrays of fixed size are checked where the code
    indexes them with a number it has read: \<open>raise_cap_mask\<close> and \<open>iab_raise_at\<close> in the
    parsers, the loops up to \<^verbatim>\<open>cap_max_bits\<close>, and the printers' stack buffers.
  \<^item> The kernel, the C library's \<^verbatim>\<open>fork\<close> and \<^verbatim>\<open>pipe\<close>, the file system and the generated name
    table are parameters; what is assumed of them are the locales \<open>capget_abi\<close>,
    \<open>cred_abi\<close>, \<open>procs_abi\<close>, \<open>vfs_abi\<close>, \<open>path_abi\<close> and \<open>names_abi\<close>, and
    \<open>task_walk\<close> for the reading of \<^verbatim>\<open>/proc/<pid>/task\<close>, each
    interpreted on a reference instance (\<open>Linux_Kernel\<close>, \<open>linux_names\<close>, \<open>lk_procs\<close>).
  \<^item> Capability words are 32-bit words, hashed thread ids 64-bit words; counters that cannot wrap
    are integers.

  \<^bold>\<open>The theories, and what their lemmas show.\<close>
  \<^item> \<open>Libcap_Prelude\<close>, \<open>Libcap_Types\<close>, \<open>Libcap_World\<close>: words, C strings, error numbers, the
    records of \<^verbatim>\<open>libcap.h\<close> and the machine.  \<open>bit_store\<close> is the contract of a family of
    bit vectors; the sets, the tuples and the parsers' arrays are its instances.
  \<^item> \<open>Cap_Alloc\<close> (\<^verbatim>\<open>cap_alloc.c\<close>): allocation, duplication, release, without leaks and under any
    pattern of failing allocations.
  \<^item> \<open>Cap_Flag\<close> (\<^verbatim>\<open>cap_flag.c\<close>): every flag operation bit by bit, refusal of bad objects, and the
    invariant of IAB tuples that ambient bits are inheritable.
  \<^item> \<open>Cap_Extint\<close> (\<^verbatim>\<open>cap_extint.c\<close>): the external form, its round trip and its bounds.
  \<^item> \<open>Cap_Names\<close>, \<open>Cap_Text\<close>, \<open>Cap_Text_Spec\<close>, \<open>Cap_Iab_Text\<close> (\<^verbatim>\<open>_makenames.c\<close>,
    \<^verbatim>\<open>cap_text.c\<close>): the name table, both parsers and printers, their round trips, that the printers
    stay in their buffers and that the parsers accept or refuse any text without a leak.  The
    parsers that run (\<open>scan_clauses\<close>, \<open>iab_scan\<close>) refine reference parsers that say what a
    text means (\<open>parse_clauses\<close>, \<open>iab_parse\<close>); the refinement is that no write leaves an array.
  \<^item> \<open>Cap_File\<close> (\<^verbatim>\<open>cap_file.c\<close>): the extended attribute in its three revisions, round trip, and what
    is refused.
  \<^item> \<open>Linux_Kernel\<close>, \<open>Cap_Cred\<close>: the credentials of a process and the contract \<open>cred_abi\<close> of
    capset(2), prctl(2), setuid(2), setgroups(2) and chroot(2), discharged for the instance.
  \<^item> \<open>Cap_Proc\<close>, \<open>Cap_Proc_Spec\<close>, \<open>Cap_Mode\<close>, \<open>Cap_Iab_Proc\<close> (\<^verbatim>\<open>cap_proc.c\<close>,
    \<^verbatim>\<open>cap_syscalls.c\<close>): reading and changing the process; the brackets that raise a capability
    always lower it again, modes refine an abstract mode of the credentials, and an IAB tuple is
    installed completely or reported as failed.
  \<^item> \<open>Cap_Launch\<close> (\<^verbatim>\<open>cap_proc.c\<close> from \<^verbatim>\<open>cap_launcher_callback\<close>): the launcher, the forked child and
    the parent; a successful launch has executed the program with the primed ids, groups, mode,
    tuple and root in force, from the credentials a callback has left if there is one.
  \<^item> \<open>Pam_Cap\<close> (\<^verbatim>\<open>pam_cap/pam_cap.c\<close>): the PAM module; its reader is the first-match rule of
    capability.conf(5), an entry is applied completely or reported, and a deferred tuple is
    applied once PAM ends.
  \<^item> \<open>Prog_Setcap\<close> (\<^verbatim>\<open>progs/setcap.c\<close>): the program with its options; what it sets it verifies,
    and its verification is a comparison of three flags and the owner, for which a file without a
    readable attribute has the empty set.
  \<^item> \<open>Prog_Capsh\<close>, \<open>Capsh_Doc\<close> (\<^verbatim>\<open>progs/capsh.c\<close>, \<^verbatim>\<open>progs/capshdoc.c\<close>): every option of the
    program as a function of the world that goes on or ends the program, and the loop over the
    command line.
  \<^item> \<open>Prog_Capsh_Spec\<close>, \<open>Prog_Capsh_Inh\<close>: what the options do to the credentials: raised
    capabilities are lowered again, the sets and identities are those asked for, the tests
    answer their question.
  \<^item> \<open>Psx_Map\<close> (\<^verbatim>\<open>psx.c\<close>): the tracker, its lock, and the hash table of threads; the mixed ids of
    any two threads part, so that growing the table ends within \<open>2 ^ 22\<close> entries, and the table
    is an instance of the locale \<open>thread_table\<close>.
  \<^item> \<open>Psx_Machine\<close>, \<open>Psx_Inv\<close>, \<open>Psx_Spec\<close> (\<^verbatim>\<open>psx.c\<close>, \<^verbatim>\<open>psx_calls.c\<close>): \<^verbatim>\<open>__psx_syscall\<close> and its
    signal handler as a step relation of all threads: callers that wait for their turn, clones
    that may get any free id, and exits at any time.  A signal is taken between the regions under
    the tracker's lock, not inside.  The phases of a call are invariant, the process refines a
    single thread, and a call, waiting or begun, can be completed unless the process exits or
    a new thread has got the id of one that exited before it answered.

  \<^bold>\<open>Loops and fuel.\<close>  Loops are recursions over lists or with a measure.  The ones that may not end
  (\<^verbatim>\<open>cap_free\<close> of cyclic objects, the \<^verbatim>\<open>EAGAIN\<close> loops of the launcher, the search for a table size,
  the loops of the programs that ask the kernel where its capabilities end) are partial functions into \<open>option\<close>, and the properties prove that they return; there is no
  fuel.

  \<^bold>\<open>Not modelled.\<close>
  \<^item> Concurrency of libcap's own mutexes: a run of libcap is sequential, a held mutex blocks.  The
    threads of libpsx are modelled with all their interleavings.
  \<^item> \<^verbatim>\<open>execable.c\<close>, \<^verbatim>\<open>psx_exec.c\<close>, \<^verbatim>\<open>empty.c\<close> and the assembly trampolines: start-up glue that prints a
    banner; the debug allocator of libpsx; the legacy \<^verbatim>\<open>pthread_create\<close> wrapper.
  \<^item> \<^verbatim>\<open>getcap\<close> and \<^verbatim>\<open>getpcaps\<close>, which print what the library returns; the programs of \<^verbatim>\<open>contrib/\<close>, a
    \<^verbatim>\<open>su\<close> made of PAM conversations and terminal handling and an example of a shared object.  Of
    the modelled programs, the texts of error and usage messages.
  \<^item> The Go packages, which re-implement the library in another language, the tests, \<^verbatim>\<open>kdebug/\<close> and
    the documentation.
\<close>

end
